(* ===== verification/Prelude.thy ===== *)
theory Prelude
  imports Main "HOL-Library.Word" "HOL-Library.Monad_Syntax"
begin

text \<open>
  Shared vocabulary of the development: the machine types of the C code, the facts that move
  a computation on 64-bit words to natural numbers, and the list lemmas on counting that the
  node invariants use.  A C computation that may touch memory is a value of an option type:
  \<^term>\<open>None\<close> stands for an access to memory that is not an allocated object of the
  expected type (undefined behaviour), and for a loop that does not end.
\<close>

unbundle bit_operations_syntax

type_synonym u64 = "64 word"
type_synonym u32 = "32 word"

text \<open>Facts that turn word operations into arithmetic on natural numbers.\<close>
named_theorems to_nat

text \<open>Facts on the constants of the C headers.\<close>
named_theorems c_consts

section \<open>Words as natural numbers\<close>

lemma unat_lt_2p64: "unat (x :: u64) < 2 ^ 64"
  using unsigned_less [of x, where 'a = nat] by simp

lemma unat_and_63 [to_nat]: "unat (x AND (63 :: u64)) = unat x mod 64"
proof -
  have "x AND (63 :: u64) = take_bit 6 x"
    by (simp add: take_bit_eq_mask mask_eq_exp_minus_1)
  then show ?thesis
    by (simp only: unsigned_take_bit_eq) (simp add: take_bit_eq_mod)
qed

lemma unat_drop_bit [to_nat]: "unat (drop_bit n (x :: u64)) = unat x div 2 ^ n"
proof -
  have "take_bit 64 (unat x) = unat x"
    by (rule take_bit_nat_eq_self) (rule unat_lt_2p64)
  then show ?thesis
    by (simp only: unsigned_drop_bit_eq) (simp add: drop_bit_eq_div)
qed

lemma unat_ucast_32 [to_nat]:
  "unat (x :: u64) < 2 ^ 32 \<Longrightarrow> unat (ucast x :: u32) = unat x"
  by (simp add: unsigned_ucast_eq take_bit_nat_eq_self_iff)

section \<open>Counting in lists\<close>

definition count_if :: "('a \<Rightarrow> bool) \<Rightarrow> 'a list \<Rightarrow> nat" where
  "count_if P xs = length (filter P xs)"

lemma count_if_replicate: "\<not> P x \<Longrightarrow> count_if P (replicate n x) = 0"
  by (simp add: count_if_def)

lemma count_if_le: "count_if P xs \<le> length xs"
  by (simp add: count_if_def)

lemma count_if_update:
  "i < length xs \<Longrightarrow>
   count_if P (xs[i := v]) + of_bool (P (xs ! i)) = count_if P xs + of_bool (P v)"
proof (induction xs arbitrary: i)
  case (Cons x xs)
  then show ?case
    by (cases i) (auto simp: count_if_def)
qed simp

lemma count_if_eq_0: "count_if P xs = 0 \<longleftrightarrow> (\<forall>i < length xs. \<not> P (xs ! i))"
  by (auto simp: count_if_def filter_empty_conv set_conv_nth)

lemma count_if_pos: "i < length xs \<Longrightarrow> P (xs ! i) \<Longrightarrow> 0 < count_if P xs"
  using count_if_eq_0 [of P xs] by fastforce

lemma count_if_1_unique:
  assumes "count_if P xs = 1" "i < length xs" "P (xs ! i)" "j < length xs" "P (xs ! j)"
  shows "i = j"
proof (rule ccontr)
  assume neq: "i \<noteq> j"
  have "card {k. k < length xs \<and> P (xs ! k)} = 1"
    using assms(1) by (simp add: count_if_def length_filter_conv_card)
  moreover have "{i, j} \<subseteq> {k. k < length xs \<and> P (xs ! k)}"
    using assms(2-5) by auto
  moreover have "finite {k. k < length xs \<and> P (xs ! k)}" by simp
  ultimately have "card {i, j} \<le> 1" by (metis card_mono)
  with neq show False by simp
qed

lemma sint_small_u32: "unat (x :: u32) < 2 ^ 31 \<Longrightarrow> sint x = int (unat x)"
proof -
  assume "unat x < 2 ^ 31"
  then have "int (unat x) < 2 ^ 31" by (metis of_nat_less_iff of_nat_numeral of_nat_power)
  then have "uint x < 2 ^ 31" by simp
  moreover have "- (2 ^ 31) \<le> uint x" by (rule order_trans [of _ 0]) simp_all
  ultimately have "signed_take_bit 31 (uint x) = uint x" by (intro signed_take_bit_int_eq_self) simp_all
  then show ?thesis by (simp add: sint_uint)
qed

end
