(* ===== verification/Radix_Tree.thy ===== *)
theory Radix_Tree
  imports Prelude
begin

text \<open>
  The radix tree of \<open>src/radix_tree/radix-tree.c\<close> and \<open>radix-tree.h\<close>, translated
  function by function.  The memory of one tree is a record: the root structure, the node
  objects by address, the queue of nodes handed to \<^verbatim>\<open>call_rcu\<close> whose callbacks
  have not run, and the addresses that the coming calls of \<^verbatim>\<open>calloc\<close> will return
  (0 is a failed allocation, and so is an exhausted list).  A pointer to a slot
  (\<^verbatim>\<open>void **slot\<close>) is the address of a field: the root's \<^verbatim>\<open>rnode\<close> or one
  entry of a node's \<^verbatim>\<open>slots\<close> array.  The calls of \<^verbatim>\<open>printv\<close>, which only
  print, are left out.
\<close>

section \<open>Constants and tagged pointers\<close>

definition ENOMEM :: int where [c_consts]: "ENOMEM = 12"
definition EEXIST :: int where [c_consts]: "EEXIST = 17"

definition RADIX_TREE_ENTRY_MASK :: u64 where [c_consts]: "RADIX_TREE_ENTRY_MASK = 3"
definition RADIX_TREE_INTERNAL_NODE :: u64 where [c_consts]: "RADIX_TREE_INTERNAL_NODE = 2"

definition radix_tree_is_internal_node :: "u64 \<Rightarrow> bool" where
  "radix_tree_is_internal_node ptr \<longleftrightarrow>
     (ptr AND RADIX_TREE_ENTRY_MASK) = RADIX_TREE_INTERNAL_NODE"

definition xa_to_value :: "u64 \<Rightarrow> u64" where
  "xa_to_value entry = drop_bit 1 entry"

definition xa_is_value :: "u64 \<Rightarrow> bool" where
  "xa_is_value entry \<longleftrightarrow> (entry AND 1) \<noteq> 0"

definition RADIX_TREE_MAP_SHIFT :: nat where [c_consts]: "RADIX_TREE_MAP_SHIFT = 6"
definition RADIX_TREE_MAP_SIZE :: u64 where
  [c_consts]: "RADIX_TREE_MAP_SIZE = push_bit RADIX_TREE_MAP_SHIFT 1"
definition RADIX_TREE_MAP_MASK :: u64 where
  [c_consts]: "RADIX_TREE_MAP_MASK = RADIX_TREE_MAP_SIZE - 1"
definition RADIX_TREE_MAX_TAGS :: nat where [c_consts]: "RADIX_TREE_MAX_TAGS = 3"

abbreviation map_shift :: u32 where "map_shift \<equiv> of_nat RADIX_TREE_MAP_SHIFT"

definition entry_to_node :: "u64 \<Rightarrow> u64" where
  "entry_to_node ptr = ptr AND NOT RADIX_TREE_INTERNAL_NODE"

definition node_to_entry :: "u64 \<Rightarrow> u64" where
  "node_to_entry ptr = ptr OR RADIX_TREE_INTERNAL_NODE"

section \<open>Data structures and memory\<close>

record radix_tree_node =
  node_count :: u32
  node_shift :: u32
  node_offset :: u32
  node_nr_values :: u32
  node_parent :: u64
  node_slots :: "u64 list"
  node_tags :: "u64 list"

record radix_tree_root =
  root_height :: u32
  root_rnode :: u64

record rt =
  rt_root :: radix_tree_root
  rt_nodes :: "u64 \<rightharpoonup> radix_tree_node"
  rt_rcu :: "u64 list"
  rt_avail :: "u64 list"

datatype slot_ptr = RootSlot | NodeSlot u64 nat

abbreviation rnode :: "rt \<Rightarrow> u64" where
  "rnode s \<equiv> root_rnode (rt_root s)"

definition set_rnode :: "rt \<Rightarrow> u64 \<Rightarrow> rt" where
  "set_rnode s e = s\<lparr>rt_root := (rt_root s)\<lparr>root_rnode := e\<rparr>\<rparr>"

definition upd_node :: "rt \<Rightarrow> u64 \<Rightarrow> (radix_tree_node \<Rightarrow> radix_tree_node) \<Rightarrow> rt option" where
  "upd_node s p f = do {
     n \<leftarrow> rt_nodes s p;
     Some (s\<lparr>rt_nodes := (rt_nodes s)(p \<mapsto> f n)\<rparr>)
   }"

fun load_slot :: "rt \<Rightarrow> slot_ptr \<Rightarrow> u64 option" where
  "load_slot s RootSlot = Some (rnode s)"
| "load_slot s (NodeSlot p i) = do {
     n \<leftarrow> rt_nodes s p;
     if i < length (node_slots n) then Some (node_slots n ! i) else None
   }"

fun store_slot :: "rt \<Rightarrow> slot_ptr \<Rightarrow> u64 \<Rightarrow> rt option" where
  "store_slot s RootSlot e = Some (set_rnode s e)"
| "store_slot s (NodeSlot p i) e = do {
     n \<leftarrow> rt_nodes s p;
     if i < length (node_slots n)
     then Some (s\<lparr>rt_nodes := (rt_nodes s)(p \<mapsto> n\<lparr>node_slots := (node_slots n)[i := e]\<rparr>)\<rparr>)
     else None
   }"

definition calloc :: "rt \<Rightarrow> u64 \<times> rt" where
  "calloc s = (case rt_avail s of [] \<Rightarrow> (0, s) | a # as \<Rightarrow> (a, s\<lparr>rt_avail := as\<rparr>))"

section \<open>Address arithmetic\<close>

definition get_slot_offset :: "u64 \<Rightarrow> slot_ptr \<Rightarrow> nat option" where
  "get_slot_offset parent slot =
     (if parent = 0 then Some 0
      else case slot of RootSlot \<Rightarrow> None
           | NodeSlot p i \<Rightarrow> if p = parent then Some i else None)"

definition slot_offset :: "u32 \<Rightarrow> u64 \<Rightarrow> u32" where
  "slot_offset sh index = ucast (drop_bit (unat sh) index AND RADIX_TREE_MAP_MASK)"

definition radix_tree_descend :: "rt \<Rightarrow> u64 \<Rightarrow> u64 \<Rightarrow> (u32 \<times> u64) option" where
  "radix_tree_descend s parent index = do {
     n \<leftarrow> rt_nodes s parent;
     let offset = slot_offset (node_shift n) index;
     entry \<leftarrow> load_slot s (NodeSlot parent (unat offset));
     Some (offset, entry)
   }"

definition shift_maxindex :: "u32 \<Rightarrow> u64" where
  "shift_maxindex sh = push_bit (unat sh) RADIX_TREE_MAP_SIZE - 1"

definition node_maxindex :: "radix_tree_node \<Rightarrow> u64" where
  "node_maxindex n = shift_maxindex (node_shift n)"

definition next_index :: "u64 \<Rightarrow> radix_tree_node \<Rightarrow> u64 \<Rightarrow> u64" where
  "next_index index n offset =
     (index AND NOT (node_maxindex n)) + push_bit (unat (node_shift n)) offset"

section \<open>Allocation and release of nodes\<close>

definition radix_tree_node_alloc ::
  "rt \<Rightarrow> u64 \<Rightarrow> u32 \<Rightarrow> u32 \<Rightarrow> u32 \<Rightarrow> u32 \<Rightarrow> u64 \<times> rt" where
  "radix_tree_node_alloc s parent sh offset cnt nr =
     (case calloc s of (ret, s1) \<Rightarrow>
        if ret \<noteq> 0
        then (ret, s1\<lparr>rt_nodes := (rt_nodes s1)(ret \<mapsto>
                \<lparr>node_count = cnt, node_shift = sh, node_offset = offset, node_nr_values = nr,
                 node_parent = parent,
                 node_slots = replicate (unat RADIX_TREE_MAP_SIZE) 0,
                 node_tags = replicate RADIX_TREE_MAX_TAGS 0\<rparr>)\<rparr>)
        else (ret, s1))"

text \<open>
  The allocation of a tree: \<^term>\<open>None\<close> is the NULL pointer that the function returns when the
  allocation of the root fails, in which case nothing but the node it allocates for nothing exists.
  The function itself has no undefined behaviour, and its callers use the result without a test, so
  that this \<^term>\<open>None\<close> is the fault of the first of them.
\<close>

definition radix_tree_root_alloc :: "u64 list \<Rightarrow> rt option" where
  "radix_tree_root_alloc avail =
     (let s0 = \<lparr>rt_root = \<lparr>root_height = 0, root_rnode = 0\<rparr>, rt_nodes = Map.empty,
                rt_rcu = [], rt_avail = avail\<rparr>
      in case calloc s0 of (ret, s1) \<Rightarrow>
         case radix_tree_node_alloc s1 0 0 0 0 0 of (node, s2) \<Rightarrow>
           if ret \<noteq> 0
           then Some (s2\<lparr>rt_root := \<lparr>root_height = 1, root_rnode = node_to_entry node\<rparr>\<rparr>)
           else None)"

definition radix_tree_node_rcu_free :: "rt \<Rightarrow> u64 \<Rightarrow> rt option" where
  "radix_tree_node_rcu_free s node = do {
     s1 \<leftarrow> upd_node s node (\<lambda>n. n\<lparr>node_slots := replicate (length (node_slots n)) 0,
                                   node_tags := replicate (length (node_tags n)) 0\<rparr>);
     Some (s1\<lparr>rt_nodes := (rt_nodes s1)(node := None)\<rparr>)
   }"

definition radix_tree_node_free :: "rt \<Rightarrow> u64 \<Rightarrow> rt" where
  "radix_tree_node_free s node = s\<lparr>rt_rcu := rt_rcu s @ [node]\<rparr>"

definition radix_tree_load_root :: "rt \<Rightarrow> (u32 \<times> u64 \<times> u64) option" where
  "radix_tree_load_root s =
     (let node = rnode s in
      if radix_tree_is_internal_node node
      then do {
        n \<leftarrow> rt_nodes s (entry_to_node node);
        Some (node_shift n + map_shift, node, node_maxindex n)
      }
      else Some (0, node, 0))"

section \<open>Growing and shrinking the tree\<close>

function extend_maxshift :: "u64 \<Rightarrow> u32 \<Rightarrow> u32" where
  "extend_maxshift index maxshift =
     (if index > shift_maxindex maxshift
      then extend_maxshift index (maxshift + map_shift)
      else maxshift)"
  by pat_completeness auto
termination
proof (relation "measure (\<lambda>(index, maxshift). 64 - unat maxshift)")
  fix index :: u64 and m :: u32
  assume a: "shift_maxindex m < index"
  have lt: "unat m < 58"
  proof (rule ccontr)
    assume "\<not> unat m < 58"
    then have "64 \<le> unat m + 6" by simp
    then have "push_bit (unat m) (64 :: u64) = 0"
      using push_bit_push_bit [of "unat m" 6 "1 :: u64"]
      by (simp add: push_bit_eq_mult flip: power_add)
    with a show False
      by (simp add: shift_maxindex_def c_consts)
  qed
  then have "unat (m + 6) = unat m + 6"
    by (simp add: unat_word_ariths)
  with lt show "((index, m + map_shift), index, m)
     \<in> measure (\<lambda>(index, maxshift). 64 - unat maxshift)"
    by (simp add: c_consts)
qed simp

declare extend_maxshift.simps [simp del]

partial_function (option) extend_loop ::
  "rt \<Rightarrow> u64 \<Rightarrow> u32 \<Rightarrow> u32 \<Rightarrow> (int \<times> rt) option" where
  "extend_loop s entry sh maxshift =
     (case radix_tree_node_alloc s 0 sh 0 1 0 of (node, s1) \<Rightarrow>
        if node = 0 then Some (- ENOMEM, s1)
        else do {
          s2 \<leftarrow> upd_node s1 (entry_to_node entry) (\<lambda>n. n\<lparr>node_parent := node\<rparr>);
          s3 \<leftarrow> store_slot s2 (NodeSlot node 0) entry;
          let entry' = node_to_entry node;
          let s4 = set_rnode s3 entry';
          let sh' = sh + map_shift;
          if sh' \<le> maxshift then extend_loop s4 entry' sh' maxshift
          else Some (sint (maxshift + map_shift), s4)
        })"

definition radix_tree_extend :: "rt \<Rightarrow> u64 \<Rightarrow> u32 \<Rightarrow> (int \<times> rt) option" where
  "radix_tree_extend s index sh =
     (let maxshift = extend_maxshift index sh;
          entry = rnode s
      in if entry = 0 then Some (sint (maxshift + map_shift), s)
         else extend_loop s entry sh maxshift)"

partial_function (option) radix_tree_shrink :: "rt \<Rightarrow> bool \<Rightarrow> (bool \<times> rt) option" where
  "radix_tree_shrink s shrunk =
     (if \<not> radix_tree_is_internal_node (rnode s) then Some (shrunk, s)
      else do {
        let node = entry_to_node (rnode s);
        n \<leftarrow> rt_nodes s node;
        if node_count n \<noteq> 1 then Some (shrunk, s)
        else do {
          child \<leftarrow> load_slot s (NodeSlot node 0);
          if child = 0 then Some (shrunk, s)
          else if node_shift n = 0 then Some (shrunk, s)
          else do {
            s1 \<leftarrow> (if radix_tree_is_internal_node child
                   then upd_node s (entry_to_node child) (\<lambda>m. m\<lparr>node_parent := 0\<rparr>)
                   else Some s);
            let s2 = set_rnode s1 child;
            s3 \<leftarrow> upd_node s2 node (\<lambda>m. m\<lparr>node_count := 0\<rparr>);
            radix_tree_shrink (radix_tree_node_free s3 node) True
          }
        }
      })"

partial_function (option) delete_node :: "rt \<Rightarrow> u64 \<Rightarrow> bool \<Rightarrow> (bool \<times> rt) option" where
  "delete_node s node deleted = do {
     n \<leftarrow> rt_nodes s node;
     if node_count n \<noteq> 0
     then (if node_to_entry node = rnode s
           then do {
             (shrunk, s') \<leftarrow> radix_tree_shrink s False;
             Some (deleted \<or> shrunk, s')
           }
           else Some (deleted, s))
     else do {
       let parent = node_parent n;
       s1 \<leftarrow> (if parent \<noteq> 0
              then do {
                s0 \<leftarrow> store_slot s (NodeSlot parent (unat (node_offset n))) 0;
                upd_node s0 parent (\<lambda>m. m\<lparr>node_count := node_count m - 1\<rparr>)
              }
              else Some (set_rnode s 0));
       let s2 = radix_tree_node_free s1 node;
       if parent \<noteq> 0 then delete_node s2 parent True else Some (True, s2)
     }
   }"

section \<open>Insertion\<close>

partial_function (option) create_loop ::
  "rt \<Rightarrow> u64 \<Rightarrow> u32 \<Rightarrow> u64 \<Rightarrow> u64 \<Rightarrow> slot_ptr \<Rightarrow> u32 \<Rightarrow> (int \<times> u64 \<times> slot_ptr \<times> rt) option" where
  "create_loop s index sh node child slot offset =
     (if sh > 0 then
        (let sh' = sh - map_shift in do {
           (child1, s1) \<leftarrow>
             (if child = 0
              then (case radix_tree_node_alloc s node sh' offset 0 0 of (c, s0) \<Rightarrow>
                      if c = 0 then Some (0, s0)
                      else do {
                        s2 \<leftarrow> store_slot s0 slot (node_to_entry c);
                        s3 \<leftarrow> (if node \<noteq> 0
                               then upd_node s2 node (\<lambda>m. m\<lparr>node_count := node_count m + 1\<rparr>)
                               else Some s2);
                        Some (c, s3)
                      })
              else Some (child, s));
           if child1 = 0 then Some (- ENOMEM, node, slot, s1)
           else do {
             let node1 = entry_to_node child1;
             (offset1, child2) \<leftarrow> radix_tree_descend s1 node1 index;
             create_loop s1 index sh' node1 child2 (NodeSlot node1 (unat offset1)) offset1
           }
         })
      else Some (0, node, slot, s))"

definition raw_radix_tree_create :: "rt \<Rightarrow> u64 \<Rightarrow> (int \<times> u64 \<times> slot_ptr \<times> rt) option" where
  "raw_radix_tree_create s index = do {
     (sh, child, maxindex) \<leftarrow> radix_tree_load_root s;
     if index > maxindex
     then do {
       (error, s1) \<leftarrow> radix_tree_extend s index sh;
       if error < 0 then Some (error, 0, RootSlot, s1)
       else create_loop s1 index (word_of_int error) 0 (rnode s1) RootSlot 0
     }
     else create_loop s index sh 0 child RootSlot 0
   }"

definition insert_entries :: "rt \<Rightarrow> u64 \<Rightarrow> slot_ptr \<Rightarrow> u64 \<Rightarrow> (int \<times> rt) option" where
  "insert_entries s node slot item = do {
     old \<leftarrow> load_slot s slot;
     if old \<noteq> 0 then Some (- EEXIST, s)
     else do {
       s1 \<leftarrow> store_slot s slot item;
       s2 \<leftarrow> (if node \<noteq> 0
              then upd_node s1 node (\<lambda>n. n\<lparr>node_count := node_count n + 1,
                     node_nr_values := (if xa_is_value item then node_nr_values n + 1
                                        else node_nr_values n)\<rparr>)
              else Some s1);
       Some (1, s2)
     }
   }"

definition radix_tree_insert :: "rt \<Rightarrow> u64 \<Rightarrow> u64 \<Rightarrow> (int \<times> rt) option" where
  "radix_tree_insert s index item = do {
     (error, node, slot, s1) \<leftarrow> raw_radix_tree_create s index;
     if error \<noteq> 0 then Some (error, s1)
     else do {
       (error2, s2) \<leftarrow> insert_entries s1 node slot item;
       if error2 < 0 then Some (error2, s2)
       else Some (0, s2)
     }
   }"

section \<open>Lookup\<close>

partial_function (option) lookup_loop ::
  "rt \<Rightarrow> u64 \<Rightarrow> u64 \<Rightarrow> u64 \<Rightarrow> slot_ptr \<Rightarrow> (u64 \<times> u64 \<times> slot_ptr) option" where
  "lookup_loop s index node parent slot =
     (if radix_tree_is_internal_node node then do {
        let parent' = entry_to_node node;
        (offset, node') \<leftarrow> radix_tree_descend s parent' index;
        let slot' = NodeSlot parent' (unat offset);
        n \<leftarrow> rt_nodes s parent';
        if node_shift n = 0 then Some (node', parent', slot')
        else lookup_loop s index node' parent' slot'
      }
      else Some (node, parent, slot))"

text \<open>
  The result is the entry, and the node and the slot the C code stores through its out
  parameters: \<^term>\<open>None\<close> where it returns before storing them.
\<close>

definition raw_radix_tree_lookup :: "rt \<Rightarrow> u64 \<Rightarrow> (u64 \<times> (u64 \<times> slot_ptr) option) option" where
  "raw_radix_tree_lookup s index = do {
     (sh, node, maxindex) \<leftarrow> radix_tree_load_root s;
     if index > maxindex then Some (0, None)
     else do {
       (entry, parent, slot) \<leftarrow> lookup_loop s index node 0 RootSlot;
       Some (entry, Some (parent, slot))
     }
   }"

definition radix_tree_lookup_slot :: "rt \<Rightarrow> u64 \<Rightarrow> slot_ptr option option" where
  "radix_tree_lookup_slot s index = do {
     (entry, out) \<leftarrow> raw_radix_tree_lookup s index;
     if entry = 0 then Some None else Some (map_option snd out)
   }"

definition radix_tree_lookup :: "rt \<Rightarrow> u64 \<Rightarrow> u64 option" where
  "radix_tree_lookup s index = do {
     (entry, out) \<leftarrow> raw_radix_tree_lookup s index;
     Some entry
   }"

definition radix_tree_empty :: "rt \<Rightarrow> bool" where
  "radix_tree_empty s \<longleftrightarrow> rnode s = 0"

section \<open>Replacement and deletion\<close>

definition replace_slot :: "rt \<Rightarrow> slot_ptr \<Rightarrow> u64 \<Rightarrow> u64 \<Rightarrow> int \<Rightarrow> int \<Rightarrow> rt option" where
  "replace_slot s slot item node cnt values = do {
     s1 \<leftarrow> (if node \<noteq> 0 \<and> (cnt \<noteq> 0 \<or> values \<noteq> 0)
            then upd_node s node (\<lambda>n. n\<lparr>node_count := node_count n + word_of_int cnt,
                   node_nr_values := node_nr_values n + word_of_int values\<rparr>)
            else Some s);
     store_slot s1 slot item
   }"

definition calculate_count :: "u64 \<Rightarrow> u64 \<Rightarrow> int" where
  "calculate_count item old = of_bool (item \<noteq> 0) - of_bool (old \<noteq> 0)"

definition raw_radix_tree_replace :: "rt \<Rightarrow> u64 \<Rightarrow> slot_ptr \<Rightarrow> u64 \<Rightarrow> rt option" where
  "raw_radix_tree_replace s node slot item = do {
     old \<leftarrow> load_slot s slot;
     let values = of_bool (xa_is_value item) - of_bool (xa_is_value old);
     s1 \<leftarrow> replace_slot s slot item node (calculate_count item old) values;
     if node = 0 then Some s1
     else do {
       (deleted, s2) \<leftarrow> delete_node s1 node False;
       Some s2
     }
   }"

definition radix_tree_replace_slot :: "rt \<Rightarrow> slot_ptr \<Rightarrow> u64 \<Rightarrow> rt option" where
  "radix_tree_replace_slot s slot item = raw_radix_tree_replace s 0 slot item"

definition raw_radix_tree_delete :: "rt \<Rightarrow> u64 \<Rightarrow> slot_ptr \<Rightarrow> (bool \<times> rt) option" where
  "raw_radix_tree_delete s node slot = do {
     old \<leftarrow> load_slot s slot;
     s1 \<leftarrow> replace_slot s slot 0 node (- 1) (if xa_is_value old then - 1 else 0);
     if node \<noteq> 0 then delete_node s1 node False else Some (False, s1)
   }"

definition radix_tree_delete_item :: "rt \<Rightarrow> u64 \<Rightarrow> u64 \<Rightarrow> (u64 \<times> rt) option" where
  "radix_tree_delete_item s index item = do {
     (entry, out) \<leftarrow> raw_radix_tree_lookup s index;
     case out of
       None \<Rightarrow> Some (0, s)
     | Some (node, slot) \<Rightarrow>
         if item \<noteq> 0 \<and> entry \<noteq> item then Some (0, s)
         else do {
           (deleted, s1) \<leftarrow> raw_radix_tree_delete s node slot;
           Some (entry, s1)
         }
   }"

definition radix_tree_delete :: "rt \<Rightarrow> u64 \<Rightarrow> (u64 \<times> rt) option" where
  "radix_tree_delete s index = radix_tree_delete_item s index 0"

declare extend_loop.simps [code] radix_tree_shrink.simps [code] delete_node.simps [code]
  create_loop.simps [code] lookup_loop.simps [code]

end
