(* ===== verification/Radix_Inv.thy ===== *)
theory Radix_Inv
  imports Radix_Tree
begin

text \<open>
  The invariant of the radix tree's memory, and the abstraction the correctness proofs use.
  A node is \<^emph>\<open>in the tree\<close> when it is allocated and not queued for release.  The invariant is
  local: it relates a node to its children and to its parent.  The relation \<open>pfx\<close> climbs the
  parent pointers and collects the digits of the indices below a node; since every node
  records its parent and its offset there, no two nodes of one level have the same prefix,
  and the contents of the tree are the non-null slots of its leaves.
\<close>

section \<open>Tagged pointers\<close>

definition addr_ok :: "u64 \<Rightarrow> bool" where
  "addr_ok p \<longleftrightarrow> p \<noteq> 0 \<and> p AND 3 = 0"

lemma bit_3: "bit (3 :: u64) n \<longleftrightarrow> n < 2"
proof -
  have "(3 :: u64) = mask 2" by (simp add: mask_eq_exp_minus_1)
  then show ?thesis by (simp only: bit_mask_iff) auto
qed

lemma addr_ok_bits: "addr_ok p \<Longrightarrow> n < 2 \<Longrightarrow> \<not> bit p n"
  unfolding addr_ok_def by (metis bit_3 bit_and_iff bit_0_eq bot_apply bot_bool_def)

lemma entry_to_node_to_entry [simp]: "addr_ok p \<Longrightarrow> entry_to_node (node_to_entry p) = p"
  by (rule bit_word_eqI)
    (auto simp: entry_to_node_def node_to_entry_def c_consts bit_simps bit_2_iff
      dest: addr_ok_bits [of _ "Suc 0"])

lemma entry_to_node_addr [simp]: "addr_ok p \<Longrightarrow> entry_to_node p = p"
  by (rule bit_word_eqI)
    (auto simp: entry_to_node_def c_consts bit_simps bit_2_iff dest: addr_ok_bits [of _ "Suc 0"])

lemma is_internal_entry [simp]: "addr_ok p \<Longrightarrow> radix_tree_is_internal_node (node_to_entry p)"
  unfolding radix_tree_is_internal_node_def node_to_entry_def c_consts
  by (rule bit_word_eqI)
    (auto simp only: bit_and_iff bit_or_iff bit_3 bit_2_iff less_2_cases_iff
      dest: addr_ok_bits [of _ 0] addr_ok_bits [of _ "Suc 0"]; simp add: addr_ok_bits)

lemma node_to_entry_nonzero [simp]: "node_to_entry p \<noteq> 0"
proof
  assume "node_to_entry p = 0"
  then have "bit (p OR 2) 1 = bit (0 :: u64) 1"
    by (simp add: node_to_entry_def c_consts)
  then show False by (simp add: bit_or_iff bit_2_iff)
qed

lemma entry_not_value [simp]: "addr_ok p \<Longrightarrow> \<not> xa_is_value (node_to_entry p)"
proof -
  assume "addr_ok p"
  then have "node_to_entry p AND 1 = 0"
    by (intro bit_word_eqI) (auto simp: node_to_entry_def c_consts bit_simps bit_2_iff
      dest: addr_ok_bits [of _ 0])
  then show ?thesis by (simp add: xa_is_value_def)
qed

lemma zero_not_internal [simp]: "\<not> radix_tree_is_internal_node 0"
  by (simp add: radix_tree_is_internal_node_def c_consts)

lemma zero_not_value [simp]: "\<not> xa_is_value 0"
  by (simp add: xa_is_value_def)

lemma node_to_entry_inj: "addr_ok p \<Longrightarrow> addr_ok q \<Longrightarrow> node_to_entry p = node_to_entry q \<Longrightarrow> p = q"
  by (metis entry_to_node_to_entry)

section \<open>Index arithmetic\<close>

lemma map_consts [simp]:
  "RADIX_TREE_MAP_SIZE = 64" "RADIX_TREE_MAP_MASK = 63" "map_shift = 6"
  "RADIX_TREE_MAP_SHIFT = 6" "RADIX_TREE_MAX_TAGS = 3"
  by (simp_all add: c_consts push_bit_eq_mult)

lemma pow64: "(64 :: nat) ^ k = 2 ^ (6 * k)"
  by (simp add: power_mult)

lemma div_pow64: "(b :: nat) div 64 ^ d div 64 = b div 64 ^ Suc d"
  by (metis div_mult2_eq power_Suc2)

lemma slot_offset_nat [to_nat]:
  assumes "unat sh = 6 * k"
  shows "unat (slot_offset sh i) = unat i div 64 ^ k mod 64"
proof -
  have "unat (drop_bit (6 * k) i AND 63) = unat i div 64 ^ k mod 64"
    by (simp only: unat_and_63 unat_drop_bit pow64)
  moreover have "unat i div 64 ^ k mod 64 < 2 ^ 32"
    by (rule less_trans [OF mod_less_divisor]) simp_all
  ultimately show ?thesis
    using assms by (simp add: slot_offset_def unat_ucast_32)
qed

lemma slot_offset_lt: "unat sh = 6 * k \<Longrightarrow> unat (slot_offset sh i) < 64"
  by (simp add: slot_offset_nat)

lemma shift_maxindex_nat:
  assumes "unat sh = 6 * k" "k \<le> 10"
  shows "shift_maxindex sh < i \<longleftrightarrow> 64 ^ Suc k \<le> unat i"
proof (cases "k = 10")
  case True
  with assms have "shift_maxindex sh = - 1"
    by (simp add: shift_maxindex_def push_bit_eq_mult)
  moreover have "unat i < 64 ^ Suc k"
    using True less_trans [OF unat_lt_2p64 [of i]] by simp
  ultimately show ?thesis by (simp add: word_order.extremum_strict)
next
  case False
  with assms have k: "k \<le> 9" by simp
  have "(2 :: nat) ^ (6 * k + 6) \<le> 2 ^ 60"
    using k by (intro power_increasing) simp_all
  then have "(64 :: nat) ^ Suc k < 2 ^ 64"
    by (simp add: power_mult power_add)
  then have *: "unat (of_nat (64 ^ Suc k) :: u64) = 64 ^ Suc k"
    by (simp only: unat_of_nat) simp
  have eq: "shift_maxindex sh = of_nat (64 ^ Suc k) - 1"
    using assms by (simp add: shift_maxindex_def push_bit_eq_mult pow64 mult.commute)
  have "unat (of_nat (64 ^ Suc k) - 1 :: u64) = 64 ^ Suc k - 1"
    using * by (subst unat_minus_one) auto
  moreover have "(0 :: nat) < 64 ^ Suc k" by simp
  ultimately show ?thesis
    unfolding eq word_less_nat_alt by linarith
qed

section \<open>The invariant\<close>

definition node_at :: "rt \<Rightarrow> u64 \<Rightarrow> radix_tree_node \<Rightarrow> bool" where
  "node_at s p n \<longleftrightarrow> rt_nodes s p = Some n \<and> p \<notin> set (rt_rcu s)"

definition shape_ok :: "u64 \<Rightarrow> radix_tree_node \<Rightarrow> bool" where
  "shape_ok p n \<longleftrightarrow> addr_ok p \<and> length (node_slots n) = 64
     \<and> unat (node_count n) = count_if (\<lambda>e. e \<noteq> 0) (node_slots n)
     \<and> unat (node_nr_values n) = count_if xa_is_value (node_slots n)
     \<and> (\<exists>k \<le> 10. unat (node_shift n) = 6 * k)
     \<and> (unat (node_shift n) = 60 \<longrightarrow> (\<forall>i < 64. 16 \<le> i \<longrightarrow> node_slots n ! i = 0))"

definition child_ok :: "rt \<Rightarrow> u64 \<Rightarrow> radix_tree_node \<Rightarrow> bool" where
  "child_ok s p n \<longleftrightarrow> (node_shift n \<noteq> 0 \<longrightarrow> (\<forall>i < 64. node_slots n ! i \<noteq> 0 \<longrightarrow>
     (\<exists>c m. node_slots n ! i = node_to_entry c \<and> node_at s c m \<and> node_parent m = p
        \<and> unat (node_offset m) = i \<and> unat (node_shift n) = unat (node_shift m) + 6)))"

definition parent_ok :: "rt \<Rightarrow> u64 \<Rightarrow> radix_tree_node \<Rightarrow> bool" where
  "parent_ok s p n \<longleftrightarrow>
     (if node_parent n = 0 then rnode s = node_to_entry p \<and> node_offset n = 0
      else \<exists>q. node_at s (node_parent n) q \<and> node_shift q \<noteq> 0 \<and> unat (node_offset n) < 64
             \<and> node_slots q ! unat (node_offset n) = node_to_entry p)"

definition root_ok :: "rt \<Rightarrow> bool" where
  "root_ok s \<longleftrightarrow> rnode s = 0 \<or>
     (\<exists>r n. rnode s = node_to_entry r \<and> node_at s r n \<and> node_parent n = 0)"

definition alloc_ok :: "rt \<Rightarrow> bool" where
  "alloc_ok s \<longleftrightarrow> (\<forall>a \<in> set (rt_avail s). a \<noteq> 0 \<longrightarrow> addr_ok a \<and> rt_nodes s a = None)
     \<and> distinct (filter (\<lambda>a. a \<noteq> 0) (rt_avail s))
     \<and> set (rt_rcu s) \<subseteq> dom (rt_nodes s) \<and> distinct (rt_rcu s)"

definition rt_inv :: "rt \<Rightarrow> bool" where
  "rt_inv s \<longleftrightarrow> (\<forall>p n. node_at s p n \<longrightarrow> shape_ok p n \<and> child_ok s p n \<and> parent_ok s p n)
     \<and> root_ok s \<and> alloc_ok s"

lemma rt_invD:
  assumes "rt_inv s" "node_at s p n"
  shows "shape_ok p n" "child_ok s p n" "parent_ok s p n"
  using assms by (auto simp: rt_inv_def)

lemma rt_inv_addr: "rt_inv s \<Longrightarrow> node_at s p n \<Longrightarrow> addr_ok p"
  using rt_invD(1) by (auto simp: shape_ok_def)

lemma rt_inv_length: "rt_inv s \<Longrightarrow> node_at s p n \<Longrightarrow> length (node_slots n) = 64"
  using rt_invD(1) by (auto simp: shape_ok_def)

lemma node_at_unique: "node_at s p n \<Longrightarrow> node_at s p m \<Longrightarrow> m = n"
  by (simp add: node_at_def)

lemma rt_inv_level:
  assumes "rt_inv s" "node_at s p n"
  obtains k where "k \<le> 10" "unat (node_shift n) = 6 * k"
  using rt_invD(1) [OF assms] by (auto simp: shape_ok_def)

lemma rt_inv_child:
  assumes "rt_inv s" "node_at s p n" "unat (node_shift n) = 6 * Suc k" "i < 64"
    and "node_slots n ! i \<noteq> 0"
  obtains c m where "node_slots n ! i = node_to_entry c" "node_at s c m" "node_parent m = p"
    "unat (node_offset m) = i" "unat (node_shift m) = 6 * k"
proof -
  have "node_shift n \<noteq> 0" using assms(3) by (metis mult_eq_0_iff unat_eq_zero nat.simps(3) zero_neq_numeral)
  with rt_invD(2) [OF assms(1,2)] assms(4,5)
  obtain c m where "node_slots n ! i = node_to_entry c" "node_at s c m" "node_parent m = p"
    "unat (node_offset m) = i" "unat (node_shift n) = unat (node_shift m) + 6"
    unfolding child_ok_def by blast
  with that assms(3) show thesis by simp
qed

lemma rt_inv_parent:
  assumes "rt_inv s" "node_at s p n" "node_parent n \<noteq> 0" "unat (node_shift n) = 6 * k"
  obtains q where "node_at s (node_parent n) q" "unat (node_shift q) = 6 * Suc k"
    "unat (node_offset n) < 64" "node_slots q ! unat (node_offset n) = node_to_entry p"
proof -
  from rt_invD(3) [OF assms(1,2)] assms(3)
  obtain q where q: "node_at s (node_parent n) q" "node_shift q \<noteq> 0"
    "unat (node_offset n) < 64" "node_slots q ! unat (node_offset n) = node_to_entry p"
    unfolding parent_ok_def by auto
  from rt_invD(2) [OF assms(1) q(1)] q(2-4)
  obtain c m where "node_to_entry p = node_to_entry c" "node_at s c m"
    "unat (node_shift q) = unat (node_shift m) + 6"
    unfolding child_ok_def by (metis node_to_entry_nonzero)
  then have "unat (node_shift q) = unat (node_shift n) + 6"
    using assms(1,2) by (metis node_to_entry_inj rt_inv_addr node_at_unique)
  with q that assms(4) show thesis by simp
qed

lemma rt_inv_root:
  assumes "rt_inv s" "rnode s \<noteq> 0"
  obtains r n where "rnode s = node_to_entry r" "node_at s r n" "node_parent n = 0"
  using assms by (auto simp: rt_inv_def root_ok_def)

lemma rt_inv_orphan: "rt_inv s \<Longrightarrow> node_at s p n \<Longrightarrow> node_parent n = 0 \<Longrightarrow> rnode s = node_to_entry p"
  using rt_invD(3) by (auto simp: parent_ok_def)

lemma rt_inv_orphan_offset: "rt_inv s \<Longrightarrow> node_at s p n \<Longrightarrow> node_parent n = 0 \<Longrightarrow> node_offset n = 0"
  using rt_invD(3) by (auto simp: parent_ok_def)

section \<open>Prefixes\<close>

inductive pfx :: "rt \<Rightarrow> u64 \<Rightarrow> nat \<Rightarrow> nat \<Rightarrow> bool" for s where
  pfx_root: "node_at s p n \<Longrightarrow> node_parent n = 0 \<Longrightarrow> unat (node_shift n) = 6 * k \<Longrightarrow> pfx s p k 0"
| pfx_step: "node_at s p n \<Longrightarrow> node_parent n \<noteq> 0 \<Longrightarrow> unat (node_shift n) = 6 * k \<Longrightarrow>
     pfx s (node_parent n) (Suc k) b \<Longrightarrow> pfx s p k (64 * b + unat (node_offset n))"

lemma pfx_node_at: "pfx s p k b \<Longrightarrow> \<exists>n. node_at s p n \<and> unat (node_shift n) = 6 * k"
  by (erule pfx.cases) auto

text \<open>Prefixes depend on the parent, offset and shift fields only.\<close>

lemma pfx_mono:
  assumes "pfx s p k b"
    and "\<And>p n. node_at s p n \<Longrightarrow> \<exists>n'. node_at s' p n' \<and> node_parent n' = node_parent n
           \<and> node_offset n' = node_offset n \<and> node_shift n' = node_shift n"
  shows "pfx s' p k b"
  using assms(1)
proof induction
  case (pfx_root p n k)
  then show ?case using assms(2) [OF pfx_root(1)] by (auto intro: pfx.pfx_root)
next
  case (pfx_step p n k b)
  then show ?case using assms(2) [OF pfx_step(1)] pfx.pfx_step by metis
qed

text \<open>Every prefix is bounded by the root's level, and only the root is on that level.\<close>

lemma pfx_bound:
  assumes "rt_inv s" "pfx s p k b"
  shows "\<exists>r n K. rnode s = node_to_entry r \<and> node_at s r n \<and> unat (node_shift n) = 6 * K
           \<and> k \<le> K \<and> b < 64 ^ (K - k) \<and> (k = K \<longrightarrow> p = r)"
  using assms(2)
proof induction
  case (pfx_root p n k)
  then show ?case using assms(1) by (force intro: rt_inv_orphan)
next
  case (pfx_step p n k b)
  then obtain r m K where *: "rnode s = node_to_entry r" "node_at s r m"
    "unat (node_shift m) = 6 * K" "Suc k \<le> K" "b < 64 ^ (K - Suc k)" by blast
  obtain q where "unat (node_offset n) < 64"
    using rt_inv_parent [OF assms(1) pfx_step(1,2,3)] by blast
  then have "64 * b + unat (node_offset n) < 64 * 64 ^ (K - Suc k)"
    using *(5) by linarith
  also have "\<dots> = 64 ^ (K - k)"
    using *(4) by (metis Suc_diff_le Suc_le_eq diff_Suc_Suc power_Suc less_imp_le_nat Suc_diff_Suc)
  finally show ?case using * by fastforce
qed

lemma pfx_rootI:
  assumes "rt_inv s" "rnode s = node_to_entry r" "node_at s r n" "unat (node_shift n) = 6 * K"
  shows "pfx s r K 0"
proof -
  obtain r' n' where "rnode s = node_to_entry r'" "node_at s r' n'" "node_parent n' = 0"
    using rt_inv_root [OF assms(1)] assms(2) by (metis node_to_entry_nonzero)
  then have "node_parent n = 0"
    using assms by (metis node_to_entry_inj rt_inv_addr node_at_unique)
  with assms show ?thesis by (auto intro: pfx_root)
qed

lemma pfx_up:
  assumes "rt_inv s" "pfx s p k b" "rnode s = node_to_entry r" "node_at s r n"
    and "unat (node_shift n) = 6 * K" "k < K"
  obtains q m where "pfx s q (Suc k) (b div 64)" "node_at s q m"
    "node_slots m ! (b mod 64) = node_to_entry p"
  using assms(2)
proof cases
  case (pfx_root m)
  then have "p = r"
    using assms by (metis node_to_entry_inj rt_inv_addr rt_inv_orphan)
  with pfx_root assms show ?thesis by (metis node_at_unique nat_mult_eq_cancel1 less_irrefl zero_less_numeral)
next
  case (pfx_step m b')
  obtain q where q: "node_at s (node_parent m) q" "unat (node_offset m) < 64"
    "node_slots q ! unat (node_offset m) = node_to_entry p"
    using rt_inv_parent [OF assms(1) pfx_step(2,3,4)] by blast
  with pfx_step have "b div 64 = b'" "b mod 64 = unat (node_offset m)" by simp_all
  with pfx_step q that show ?thesis by metis
qed

lemma pfx_down:
  assumes "rt_inv s" "pfx s p (Suc k) b" "node_at s p n" "i < 64" "node_slots n ! i \<noteq> 0"
  obtains c m where "node_slots n ! i = node_to_entry c" "node_at s c m" "node_parent m = p"
    "pfx s c k (64 * b + i)" "unat (node_shift m) = 6 * k" "unat (node_offset m) = i"
proof -
  have "unat (node_shift n) = 6 * Suc k"
    using pfx_node_at [OF assms(2)] assms(3) node_at_unique by blast
  from rt_inv_child [OF assms(1,3) this assms(4,5)]
  obtain c m where c: "node_slots n ! i = node_to_entry c" "node_at s c m" "node_parent m = p"
    "unat (node_offset m) = i" "unat (node_shift m) = 6 * k" by blast
  have "p \<noteq> 0" using rt_inv_addr [OF assms(1,3)] by (simp add: addr_ok_def)
  with c assms(2) have "pfx s c k (64 * b + unat (node_offset m))"
    by (intro pfx_step) auto
  with c that show thesis by simp
qed

text \<open>A level and a prefix determine the node.\<close>

lemma pfx_inj:
  assumes "rt_inv s" "pfx s p k b" "pfx s q k b"
  shows "p = q"
  using assms(2,3)
proof (induction arbitrary: q)
  case (pfx_root p n k)
  have "pfx s p k 0" using pfx_root.hyps by (rule pfx.pfx_root)
  then obtain r m where r: "rnode s = node_to_entry r" "node_at s r m"
    "p = r" "unat (node_shift m) = 6 * k"
    using pfx_root rt_inv_orphan [OF assms(1)] node_at_unique by metis
  from pfx_bound [OF assms(1) pfx_root.prems] r show ?case
    by (metis assms(1) node_to_entry_inj rt_inv_addr node_at_unique nat_mult_eq_cancel1 zero_less_numeral)
next
  case (pfx_step p n k b)
  let ?b = "64 * b + unat (node_offset n)"
  have p: "pfx s p k ?b" using pfx_step.hyps by (rule pfx.pfx_step)
  obtain r m K where r: "rnode s = node_to_entry r" "node_at s r m" "unat (node_shift m) = 6 * K"
    "Suc k \<le> K" using pfx_bound [OF assms(1) pfx_step.hyps(4)] by blast
  then have lt: "k < K" by simp
  obtain q1 m1 where q1: "pfx s q1 (Suc k) (?b div 64)" "node_at s q1 m1"
    "node_slots m1 ! (?b mod 64) = node_to_entry p"
    using pfx_up [OF assms(1) p r(1-3) lt] by blast
  obtain q2 m2 where q2: "pfx s q2 (Suc k) (?b div 64)" "node_at s q2 m2"
    "node_slots m2 ! (?b mod 64) = node_to_entry q"
    using pfx_up [OF assms(1) pfx_step.prems r(1-3) lt] by blast
  obtain x where "unat (node_offset n) < 64"
    using rt_inv_parent [OF assms(1) pfx_step(1,2,3)] by blast
  then have b: "?b div 64 = b" by simp
  have "node_parent n = q1" "node_parent n = q2"
    using pfx_step.IH q1(1) q2(1) b by metis+
  then have "node_to_entry p = node_to_entry q"
    using q1 q2 node_at_unique by metis
  moreover have "addr_ok p" "addr_ok q"
    using pfx_node_at [OF p] pfx_node_at [OF pfx_step.prems] rt_inv_addr [OF assms(1)] by blast+
  ultimately show ?case by (rule node_to_entry_inj [rotated 2])
qed

lemma pfx_exists:
  assumes "rt_inv s" "node_at s p n" "unat (node_shift n) = 6 * k"
  shows "\<exists>b. pfx s p k b"
  using assms(2,3)
proof (induction "10 - k" arbitrary: p n k rule: less_induct)
  case less
  show ?case
  proof (cases "node_parent n = 0")
    case True
    with less.prems show ?thesis by (blast intro: pfx_root)
  next
    case False
    then obtain q where q: "node_at s (node_parent n) q" "unat (node_shift q) = 6 * Suc k"
      using rt_inv_parent [OF assms(1) less.prems(1) False less.prems(2)] by blast
    moreover have "Suc k \<le> 10"
      using rt_inv_level [OF assms(1) q(1)] q(2) by (metis nat_mult_eq_cancel1 zero_less_numeral)
    ultimately obtain b where "pfx s (node_parent n) (Suc k) b"
      using less.hyps [of "Suc k"] by fastforce
    with less.prems False show ?thesis by (blast intro: pfx_step)
  qed
qed

lemma pfx_det: "pfx s p k b \<Longrightarrow> pfx s p k b' \<Longrightarrow> b = b'"
proof (induction arbitrary: b' rule: pfx.induct)
  case (pfx_root p n k)
  from pfx_root.prems pfx_root.hyps show ?case
    by cases (auto dest: node_at_unique)
next
  case (pfx_step p n k b)
  from pfx_step.prems show ?case
  proof cases
    case (pfx_root n')
    then show ?thesis using pfx_step.hyps node_at_unique by metis
  next
    case (pfx_step n' c)
    then show ?thesis using \<open>node_at s p n\<close> node_at_unique pfx_step.IH by metis
  qed
qed

section \<open>Contents\<close>

definition content :: "rt \<Rightarrow> nat \<Rightarrow> u64 \<Rightarrow> bool" where
  "content s i e \<longleftrightarrow> e \<noteq> 0 \<and> (\<exists>p n. node_at s p n \<and> pfx s p 0 (i div 64) \<and> node_slots n ! (i mod 64) = e)"

lemma content_unique: "rt_inv s \<Longrightarrow> content s i e \<Longrightarrow> content s i e' \<Longrightarrow> e = e'"
  unfolding content_def by (metis pfx_inj node_at_unique)

lemma content_leaf:
  assumes "rt_inv s" "pfx s p 0 (i div 64)" "node_at s p n"
  shows "content s i e \<longleftrightarrow> e \<noteq> 0 \<and> node_slots n ! (i mod 64) = e"
  using assms unfolding content_def by (metis pfx_inj node_at_unique)

text \<open>An empty slot on the way down means that nothing is stored below it.\<close>

lemma ancestors:
  assumes "rt_inv s" "pfx s p j b" "rnode s = node_to_entry r" "node_at s r n"
    and "unat (node_shift n) = 6 * K" "j + d \<le> K"
  shows "\<exists>a. pfx s a (j + d) (b div 64 ^ d)"
  using assms(6)
proof (induction d)
  case 0
  then show ?case using assms(2) by auto
next
  case (Suc d)
  then obtain a where a: "pfx s a (j + d) (b div 64 ^ d)" by auto
  have "j + d < K" using Suc.prems by simp
  from pfx_up [OF assms(1) a assms(3,4,5) this] obtain q where
    "pfx s q (Suc (j + d)) (b div 64 ^ d div 64)" by blast
  then show ?case by (metis add_Suc_right div_pow64)
qed

lemma content_path:
  assumes "rt_inv s" "content s i e" "pfx s p (Suc k) (i div 64 ^ Suc (Suc k))" "node_at s p n"
  shows "node_slots n ! (i div 64 ^ Suc k mod 64) \<noteq> 0"
proof -
  from assms(2) obtain q where q: "pfx s q 0 (i div 64)" by (auto simp: content_def)
  obtain r m K where r: "rnode s = node_to_entry r" "node_at s r m" "unat (node_shift m) = 6 * K"
    "Suc k \<le> K" using pfx_bound [OF assms(1,3)] by blast
  obtain a where "pfx s a k (i div 64 div 64 ^ k)"
    using ancestors [OF assms(1) q r(1-3), of k] r(4) by auto
  then have a: "pfx s a k (i div 64 ^ Suc k)" by (simp add: div_mult2_eq)
  have "k < K" using r(4) by simp
  from pfx_up [OF assms(1) a r(1-3) this]
  obtain q' m' where q': "pfx s q' (Suc k) (i div 64 ^ Suc k div 64)" "node_at s q' m'"
    "node_slots m' ! (i div 64 ^ Suc k mod 64) = node_to_entry a" by blast
  moreover have "i div 64 ^ Suc k div 64 = i div 64 ^ Suc (Suc k)"
    by (rule div_pow64)
  ultimately have "q' = p" using pfx_inj [OF assms(1)] assms(3) by metis
  with q' assms(4) show ?thesis by (metis node_at_unique node_to_entry_nonzero)
qed

lemma content_bound:
  assumes "rt_inv s" "content s i e" "rnode s = node_to_entry r" "node_at s r n"
    and "unat (node_shift n) = 6 * K"
  shows "i < 64 ^ Suc K"
proof -
  from assms(2) obtain q where q: "pfx s q 0 (i div 64)" by (auto simp: content_def)
  from pfx_bound [OF assms(1) this] assms have "i div 64 < 64 ^ K"
    by (metis diff_zero node_to_entry_inj rt_inv_addr node_at_unique nat_mult_eq_cancel1 zero_less_numeral)
  then show ?thesis by (simp add: less_mult_imp_div_less div_less_iff_less_mult mult.commute)
qed

lemma content_empty: "rt_inv s \<Longrightarrow> rnode s = 0 \<Longrightarrow> \<not> content s i e"
  unfolding content_def using pfx_bound node_to_entry_nonzero by metis

text \<open>
  Two states with the same leaves have the same contents when the prefixes of the smaller one
  (fewer nodes) are prefixes of the bigger one; the bigger one may have empty leaves more.
\<close>

lemma content_same:
  assumes inv: "rt_inv a" "rt_inv b"
    and pfx: "\<And>p k x. pfx a p k x \<Longrightarrow> pfx b p k x"
    and sub: "\<And>p n. node_at a p n \<Longrightarrow> node_shift n = 0 \<Longrightarrow>
                 \<exists>m. node_at b p m \<and> node_slots m = node_slots n"
    and sup: "\<And>p m. node_at b p m \<Longrightarrow> node_shift m = 0 \<Longrightarrow>
                 (\<exists>n. node_at a p n \<and> node_slots n = node_slots m \<and> node_shift n = 0)
                 \<or> (\<forall>i < 64. node_slots m ! i = 0)"
  shows "content a i e \<longleftrightarrow> content b i e"
proof
  assume "content a i e"
  then obtain p n where n: "e \<noteq> 0" "node_at a p n" "pfx a p 0 (i div 64)" "node_slots n ! (i mod 64) = e"
    by (auto simp: content_def)
  moreover have "node_shift n = 0"
    using pfx_node_at [OF n(3)] n(2) by (metis mult_0_right node_at_unique unat_eq_zero)
  ultimately show "content b i e"
    unfolding content_def using sub [of p n] pfx by metis
next
  assume "content b i e"
  then obtain p m where m: "e \<noteq> 0" "node_at b p m" "pfx b p 0 (i div 64)" "node_slots m ! (i mod 64) = e"
    by (auto simp: content_def)
  have "node_shift m = 0"
    using pfx_node_at [OF m(3)] m(2) by (metis mult_0_right node_at_unique unat_eq_zero)
  then obtain n where n: "node_at a p n" "node_slots n = node_slots m" "node_shift n = 0"
    using sup [OF m(2)] m(1,4) by force
  then obtain x where "pfx a p 0 x"
    using pfx_exists [OF inv(1) n(1), of 0] by auto
  then have "pfx a p 0 (i div 64)"
    using pfx [of p 0 x] pfx_det [OF m(3)] by metis
  with m n show "content a i e" unfolding content_def by metis
qed

end
