(* ===== verification/Radix_Lookup.thy ===== *)
theory Radix_Lookup
  imports Radix_Inv
begin

text \<open>
  Lookup returns the contents of the tree: on every state of the invariant it reads only
  allocated nodes, ends, and returns the entry stored at the index or 0.
\<close>

lemma load_root_empty: "rnode s = 0 \<Longrightarrow> radix_tree_load_root s = Some (0, 0, 0)"
  by (simp add: radix_tree_load_root_def)

lemma load_root_tree:
  assumes "rt_inv s" "rnode s = node_to_entry r" "node_at s r n"
  shows "radix_tree_load_root s = Some (node_shift n + 6, node_to_entry r, node_maxindex n)"
  using assms rt_inv_addr [OF assms(1,3)]
  by (simp add: radix_tree_load_root_def node_at_def)

lemma descend_ok:
  assumes "rt_inv s" "node_at s p n" "unat (node_shift n) = 6 * k"
  shows "radix_tree_descend s p i =
     Some (slot_offset (node_shift n) i, node_slots n ! (unat i div 64 ^ k mod 64))"
  using assms rt_inv_length [OF assms(1,2)]
  by (simp add: radix_tree_descend_def node_at_def slot_offset_nat [OF assms(3)])

lemma lookup_loop_ok:
  assumes "rt_inv s" "pfx s p k (unat i div 64 ^ Suc k)"
  shows "\<exists>e q n j. lookup_loop s i (node_to_entry p) q0 sl0 = Some (e, q, NodeSlot q j)
     \<and> node_at s q n \<and> j < 64 \<and> node_slots n ! j = e
     \<and> (\<forall>e'. content s (unat i) e' \<longleftrightarrow> e' \<noteq> 0 \<and> e' = e)
     \<and> (e \<noteq> 0 \<longrightarrow> pfx s q 0 (unat i div 64) \<and> j = unat i mod 64)"
  using assms(2)
proof (induction k arbitrary: p q0 sl0)
  case 0
  then obtain n where n: "node_at s p n" "unat (node_shift n) = 6 * 0"
    using pfx_node_at by blast
  then have "node_shift n = 0" by (metis mult_0_right unat_eq_zero)
  moreover have "addr_ok p" using assms(1) n(1) by (rule rt_inv_addr)
  ultimately have "lookup_loop s i (node_to_entry p) q0 sl0 =
      Some (node_slots n ! (unat i mod 64), p, NodeSlot p (unat i mod 64))"
    using n descend_ok [OF assms(1) n, of i] slot_offset_nat [OF n(2), of i]
    by (subst lookup_loop.simps) (simp add: node_at_def)
  with 0 n(1) content_leaf [OF assms(1) _ n(1)] show ?case by force
next
  case (Suc k)
  then obtain n where n: "node_at s p n" "unat (node_shift n) = 6 * Suc k"
    using pfx_node_at by blast
  let ?d = "unat i div 64 ^ Suc k mod 64"
  have nz: "node_shift n \<noteq> 0"
    using n(2) by (metis mult_eq_0_iff unat_eq_zero nat.simps(3) zero_neq_numeral)
  have a: "addr_ok p" using assms(1) n(1) by (rule rt_inv_addr)
  have step: "lookup_loop s i (node_to_entry p) q0 sl0 =
      lookup_loop s i (node_slots n ! ?d) p (NodeSlot p ?d)"
    using a nz n descend_ok [OF assms(1) n, of i] slot_offset_nat [OF n(2), of i]
    by (subst lookup_loop.simps) (simp add: node_at_def)
  show ?case
  proof (cases "node_slots n ! ?d = 0")
    case True
    then have "lookup_loop s i (node_to_entry p) q0 sl0 = Some (0, p, NodeSlot p ?d)"
      unfolding step by (subst lookup_loop.simps) simp
    moreover have "\<not> content s (unat i) e" for e
      using content_path [OF assms(1) _ Suc.prems n(1)] True by blast
    ultimately show ?thesis using n(1) True by force
  next
    case False
    then obtain c where c: "node_slots n ! ?d = node_to_entry c"
      "pfx s c k (64 * (unat i div 64 ^ Suc (Suc k)) + ?d)"
      using pfx_down [OF assms(1) Suc.prems n(1), of ?d] by auto
    have "64 * (unat i div 64 ^ Suc (Suc k)) + ?d = unat i div 64 ^ Suc k"
      using div_mult_mod_eq [of "unat i div 64 ^ Suc k" 64] by (simp only: div_pow64 mult.commute)
    with c have "pfx s c k (unat i div 64 ^ Suc k)" by simp
    from Suc.IH [OF this, of p "NodeSlot p ?d"] show ?thesis
      unfolding step c(1) .
  qed
qed

lemma raw_lookup_ok:
  assumes "rt_inv s"
  shows "\<exists>e out. raw_radix_tree_lookup s i = Some (e, out)
     \<and> (\<forall>e'. content s (unat i) e' \<longleftrightarrow> e' \<noteq> 0 \<and> e' = e)
     \<and> (e \<noteq> 0 \<longrightarrow> (\<exists>q n. out = Some (q, NodeSlot q (unat i mod 64)) \<and> node_at s q n
           \<and> pfx s q 0 (unat i div 64) \<and> node_slots n ! (unat i mod 64) = e))"
proof (cases "rnode s = 0")
  case True
  then have "raw_radix_tree_lookup s i = Some (0, if i > 0 then None else Some (0, RootSlot))"
    by (simp add: raw_radix_tree_lookup_def load_root_empty lookup_loop.simps)
  with content_empty [OF assms True] show ?thesis by auto
next
  case False
  then obtain r n where r: "rnode s = node_to_entry r" "node_at s r n"
    using rt_inv_root [OF assms] by metis
  then obtain K where K: "K \<le> 10" "unat (node_shift n) = 6 * K"
    using rt_inv_level [OF assms] by metis
  note lr = load_root_tree [OF assms r]
  have cmp: "node_maxindex n < i \<longleftrightarrow> 64 ^ Suc K \<le> unat i"
    using shift_maxindex_nat [OF K(2,1)] by (simp add: node_maxindex_def)
  show ?thesis
  proof (cases "node_maxindex n < i")
    case True
    then have "raw_radix_tree_lookup s i = Some (0, None)"
      by (simp add: raw_radix_tree_lookup_def lr)
    moreover have "\<not> content s (unat i) e" for e
      using content_bound [OF assms _ r K(2), of "unat i" e] True cmp by auto
    ultimately show ?thesis by auto
  next
    case False
    then have "unat i div 64 ^ Suc K = 0" using cmp by simp
    then have "pfx s r K (unat i div 64 ^ Suc K)"
      using pfx_rootI [OF assms r K(2)] by simp
    from lookup_loop_ok [OF assms this, of 0 RootSlot] obtain e q m j where
      "lookup_loop s i (node_to_entry r) 0 RootSlot = Some (e, q, NodeSlot q j)"
      "node_at s q m" "node_slots m ! j = e"
      "\<forall>e'. content s (unat i) e' \<longleftrightarrow> e' \<noteq> 0 \<and> e' = e"
      "e \<noteq> 0 \<longrightarrow> pfx s q 0 (unat i div 64) \<and> j = unat i mod 64"
      by blast
    with False show ?thesis by (auto simp: raw_radix_tree_lookup_def lr)
  qed
qed

lemma lookup_ok:
  assumes "rt_inv s"
  shows "\<exists>e. radix_tree_lookup s i = Some e \<and> (\<forall>e'. content s (unat i) e' \<longleftrightarrow> e' \<noteq> 0 \<and> e' = e)"
  using raw_lookup_ok [OF assms, of i] by (auto simp: radix_tree_lookup_def)

lemma lookup_eq_content:
  assumes "rt_inv s" "e \<noteq> 0"
  shows "radix_tree_lookup s i = Some e \<longleftrightarrow> content s (unat i) e"
proof -
  obtain x where "radix_tree_lookup s i = Some x"
    and x: "\<And>y. content s (unat i) y \<longleftrightarrow> y \<noteq> 0 \<and> y = x"
    using lookup_ok [OF assms(1), of i] by blast
  then show ?thesis using x [of e] assms(2) by (simp only: option.inject) blast
qed

lemma lookup_cong:
  assumes "rt_inv s" "rt_inv s'" "\<And>e. content s' (unat i) e \<longleftrightarrow> content s (unat i) e"
  shows "radix_tree_lookup s' i = radix_tree_lookup s i"
proof -
  obtain e where e: "radix_tree_lookup s i = Some e"
    "\<And>x. content s (unat i) x \<longleftrightarrow> x \<noteq> 0 \<and> x = e"
    using lookup_ok [OF assms(1), of i] by blast
  obtain e' where e': "radix_tree_lookup s' i = Some e'"
    "\<And>x. content s' (unat i) x \<longleftrightarrow> x \<noteq> 0 \<and> x = e'"
    using lookup_ok [OF assms(2), of i] by blast
  have "e = e'"
    using e(2) [of e] e(2) [of e'] e'(2) [of e] e'(2) [of e'] assms(3) by auto
  with e e' show ?thesis by simp
qed

end
