(* ===== verification/Radix_Steps.thy ===== *)
theory Radix_Steps
  imports Radix_Lookup
begin

text \<open>
  The elementary updates of the tree, each as one change of the memory: storing into a leaf,
  hanging an empty node under a null slot, putting a new root on top, unlinking an empty node,
  unlinking an empty root, and replacing the root by its only leftmost child.  Each keeps the
  invariant, and all but the first keep the contents.  The loops of the code are sequences of
  these steps.
\<close>

abbreviation put :: "rt \<Rightarrow> u64 \<Rightarrow> radix_tree_node \<Rightarrow> rt" where
  "put s p n \<equiv> s\<lparr>rt_nodes := (rt_nodes s)(p \<mapsto> n)\<rparr>"

definition fresh_node :: "u64 \<Rightarrow> u32 \<Rightarrow> u32 \<Rightarrow> u32 \<Rightarrow> radix_tree_node" where
  "fresh_node par sh off cnt = \<lparr>node_count = cnt, node_shift = sh, node_offset = off,
     node_nr_values = 0, node_parent = par, node_slots = replicate 64 0, node_tags = replicate 3 0\<rparr>"

lemma fresh_node_simps [simp]:
  "node_count (fresh_node par sh off cnt) = cnt" "node_shift (fresh_node par sh off cnt) = sh"
  "node_offset (fresh_node par sh off cnt) = off" "node_nr_values (fresh_node par sh off cnt) = 0"
  "node_parent (fresh_node par sh off cnt) = par"
  "node_slots (fresh_node par sh off cnt) = replicate 64 0"
  by (simp_all add: fresh_node_def)

lemma rt_invI:
  assumes "\<And>p n. node_at s p n \<Longrightarrow> shape_ok p n" "\<And>p n. node_at s p n \<Longrightarrow> child_ok s p n"
    and "\<And>p n. node_at s p n \<Longrightarrow> parent_ok s p n" "root_ok s" "alloc_ok s"
  shows "rt_inv s"
  using assms by (simp add: rt_inv_def)

lemma rt_inv_alloc: "rt_inv s \<Longrightarrow> alloc_ok s"
  by (simp add: rt_inv_def)

lemma alloc_ok_mono:
  assumes "alloc_ok s" "dom (rt_nodes s') = dom (rt_nodes s)" "rt_avail s' = rt_avail s" "rt_rcu s' = rt_rcu s"
  shows "alloc_ok s'"
proof -
  have "rt_nodes s' a = None \<longleftrightarrow> rt_nodes s a = None" for a
    by (metis assms(2) domIff)
  then show ?thesis using assms unfolding alloc_ok_def by simp
qed

text \<open>The parent of a node is another node.\<close>

lemma parent_neq:
  assumes "rt_inv s" "node_at s p n"
  shows "node_parent n \<noteq> p"
proof (cases "node_parent n = 0")
  case True
  then show ?thesis using rt_inv_addr [OF assms] by (simp add: addr_ok_def)
next
  case False
  obtain k where k: "unat (node_shift n) = 6 * k" using rt_inv_level [OF assms] by blast
  from rt_inv_parent [OF assms False k] obtain q where
    "node_at s (node_parent n) q" "unat (node_shift q) = 6 * Suc k" by blast
  with assms(2) k show ?thesis by (metis node_at_unique nat_mult_eq_cancel1 n_not_Suc_n zero_less_numeral)
qed

section \<open>Changing one node in place\<close>

text \<open>
  A node is replaced by one with the same parent, offset and shift, whose slots agree with
  the old ones where these are not null (or which is a leaf).
\<close>

lemma child_ok_transfer:
  assumes "child_ok s q x" "node_shift x' = node_shift x"
    and "\<And>i. i < 64 \<Longrightarrow> node_slots x' ! i \<noteq> 0 \<Longrightarrow> node_slots x ! i = node_slots x' ! i"
    and "\<And>c m. node_at s c m \<Longrightarrow> node_parent m = q \<Longrightarrow> node_slots x' ! unat (node_offset m) = node_to_entry c \<Longrightarrow>
      unat (node_shift x) = unat (node_shift m) + 6 \<Longrightarrow>
      \<exists>m'. node_at s' c m' \<and> node_parent m' = q \<and> node_offset m' = node_offset m \<and> node_shift m' = node_shift m"
  shows "child_ok s' q x'"
  unfolding child_ok_def
proof (intro impI allI)
  fix i :: nat assume i: "node_shift x' \<noteq> 0" "i < 64" "node_slots x' ! i \<noteq> 0"
  then obtain c m where c: "node_slots x' ! i = node_to_entry c" "node_at s c m" "node_parent m = q"
    "unat (node_offset m) = i" "unat (node_shift x) = unat (node_shift m) + 6"
    using assms(1-3) unfolding child_ok_def by metis
  with assms(4) [OF c(2,3)] show "\<exists>c m. node_slots x' ! i = node_to_entry c \<and> node_at s' c m \<and> node_parent m = q
      \<and> unat (node_offset m) = i \<and> unat (node_shift x') = unat (node_shift m) + 6"
    using assms(2) by auto metis
qed

lemma parent_ok_transfer:
  assumes "parent_ok s q x" "node_parent x' = node_parent x" "node_offset x' = node_offset x"
    and "node_parent x = 0 \<Longrightarrow> rnode s' = rnode s"
    and "\<And>y. node_parent x \<noteq> 0 \<Longrightarrow> node_at s (node_parent x) y \<Longrightarrow> node_shift y \<noteq> 0 \<Longrightarrow> unat (node_offset x) < 64 \<Longrightarrow>
      node_slots y ! unat (node_offset x) = node_to_entry q \<Longrightarrow>
      \<exists>y'. node_at s' (node_parent x) y' \<and> node_shift y' \<noteq> 0 \<and> node_slots y' ! unat (node_offset x) = node_to_entry q"
  shows "parent_ok s' q x'"
  using assms unfolding parent_ok_def by (auto split: if_splits)

lemma links_kept:
  assumes inv: "rt_inv s" and p: "node_at s p n"
    and keep: "\<And>x y. x \<noteq> p \<Longrightarrow> node_at s x y \<Longrightarrow> node_at s' x y"
    and p': "node_at s' p n'" "node_parent n' = node_parent n" "node_offset n' = node_offset n"
      "node_shift n' = node_shift n"
    and slots: "node_shift n = 0 \<or> (\<forall>i < 64. node_slots n ! i \<noteq> 0 \<longrightarrow> node_slots n' ! i = node_slots n ! i)"
    and root: "rnode s' = rnode s"
    and q: "node_at s q m"
  shows child_ok_kept: "q \<noteq> p \<Longrightarrow> child_ok s' q m"
    and parent_ok_kept: "q \<noteq> p \<Longrightarrow> parent_ok s' q m"
    and parent_ok_self: "parent_ok s' p n'"
proof -
  have same: "\<exists>y'. node_at s' x y' \<and> node_parent y' = node_parent y \<and> node_offset y' = node_offset y
      \<and> node_shift y' = node_shift y" if "node_at s x y" for x y
    using that keep p p' by (cases "x = p") (auto dest: node_at_unique)
  show "child_ok s' q m" if "q \<noteq> p"
    by (rule child_ok_transfer [OF rt_invD(2) [OF inv q]]) (use same in auto)
  have up: "\<exists>y'. node_at s' x y' \<and> node_shift y' \<noteq> 0 \<and> node_slots y' ! i = node_to_entry c"
    if "node_at s x y" "node_shift y \<noteq> 0" "i < 64" "node_slots y ! i = node_to_entry c" for x y i c
  proof (cases "x = p")
    case True
    with that p have "y = n" by (metis node_at_unique)
    with that True p' slots have "node_slots n' ! i = node_to_entry c" by auto
    with True p' that \<open>y = n\<close> show ?thesis by metis
  qed (use that keep in blast)
  show "parent_ok s' q m" if "q \<noteq> p"
    by (rule parent_ok_transfer [OF rt_invD(3) [OF inv q]]) (use root up in auto)
  show "parent_ok s' p n'"
    by (rule parent_ok_transfer [OF rt_invD(3) [OF inv p]]) (use root up p' in auto)
qed

lemma root_ok_kept:
  assumes inv: "rt_inv s" and p: "node_at s p n"
    and keep: "\<And>x y. x \<noteq> p \<Longrightarrow> node_at s x y \<Longrightarrow> node_at s' x y"
    and p': "node_at s' p n'" "node_parent n' = node_parent n"
    and root: "rnode s' = rnode s"
  shows "root_ok s'"
proof (cases "rnode s = 0")
  case True
  with root show ?thesis by (simp add: root_ok_def)
next
  case False
  then obtain r x where r: "rnode s = node_to_entry r" "node_at s r x" "node_parent x = 0"
    using rt_inv_root [OF inv] by blast
  show ?thesis
  proof (cases "r = p")
    case True
    with r p have "x = n" by (metis node_at_unique)
    with r True p' root show ?thesis unfolding root_ok_def by metis
  next
    case False
    with r keep root show ?thesis unfolding root_ok_def by metis
  qed
qed

lemma pfx_kept:
  assumes "pfx s q k b" and p: "node_at s p n"
    and keep: "\<And>x y. x \<noteq> p \<Longrightarrow> node_at s x y \<Longrightarrow> node_at s' x y"
    and p': "node_at s' p n'" "node_parent n' = node_parent n" "node_offset n' = node_offset n"
      "node_shift n' = node_shift n"
  shows "pfx s' q k b"
  using assms(1)
proof (rule pfx_mono)
  fix x m assume x: "node_at s x m"
  show "\<exists>m'. node_at s' x m' \<and> node_parent m' = node_parent m
      \<and> node_offset m' = node_offset m \<and> node_shift m' = node_shift m"
  proof (cases "x = p")
    case True
    with x p p' show ?thesis by (metis node_at_unique)
  next
    case False
    with x keep show ?thesis by blast
  qed
qed

lemma node_at_put: "p \<notin> set (rt_rcu s) \<Longrightarrow> node_at (put s p n) q m \<longleftrightarrow> (if q = p then m = n else node_at s q m)"
  by (auto simp: node_at_def)

section \<open>Storing into a leaf\<close>

lemma leaf_put_inv:
  assumes inv: "rt_inv s" and p: "node_at s p n" and leaf: "node_shift n = 0"
    and n': "node_parent n' = node_parent n" "node_offset n' = node_offset n" "node_shift n' = 0"
    and shape: "shape_ok p n'"
  shows "rt_inv (put s p n')"
proof -
  let ?s = "put s p n'"
  have np: "p \<notin> set (rt_rcu s)" using p by (simp add: node_at_def)
  note at = node_at_put [OF np]
  have keep: "\<And>x y. x \<noteq> p \<Longrightarrow> node_at s x y \<Longrightarrow> node_at ?s x y" and self: "node_at ?s p n'"
    by (simp_all add: at)
  note kept = links_kept [OF inv p keep self, of p] and at
  have sh: "node_shift n' = node_shift n" using n' leaf by simp
  show ?thesis
  proof (rule rt_invI)
    fix q m assume q: "node_at ?s q m"
    show "shape_ok q m" using q shape rt_invD(1) [OF inv] by (auto simp: at split: if_splits)
    show "child_ok ?s q m"
    proof (cases "q = p")
      case True
      with q n' show ?thesis by (simp add: at child_ok_def)
    next
      case False
      with q have "node_at s q m" by (simp add: at)
      from child_ok_kept [OF inv p keep self n'(1,2) sh _ _ this False] leaf show ?thesis by simp
    qed
    show "parent_ok ?s q m"
    proof (cases "q = p")
      case True
      with q have "m = n'" by (simp add: at)
      with parent_ok_self [OF inv p keep self n'(1,2) sh _ _ p] leaf True show ?thesis by simp
    next
      case False
      with q have "node_at s q m" by (simp add: at)
      from parent_ok_kept [OF inv p keep self n'(1,2) sh _ _ this False] leaf show ?thesis by simp
    qed
  next
    show "root_ok ?s" using root_ok_kept [OF inv p keep self n'(1)] by simp
    show "alloc_ok ?s"
      by (rule alloc_ok_mono [OF rt_inv_alloc [OF inv]]) (use p in \<open>auto simp: node_at_def\<close>)
  qed
qed

lemma leaf_put_pfx:
  assumes p: "node_at s p n"
    and n': "node_parent n' = node_parent n" "node_offset n' = node_offset n" "node_shift n' = node_shift n"
  shows "pfx (put s p n') q k b \<longleftrightarrow> pfx s q k b"
proof -
  have np: "p \<notin> set (rt_rcu s)" using p by (simp add: node_at_def)
  note at = node_at_put [OF np]
  show ?thesis
  proof
    assume "pfx (put s p n') q k b"
    then show "pfx s q k b"
      by (rule pfx_mono) (use p n' in \<open>auto simp: at split: if_splits\<close>)
  next
    assume "pfx s q k b"
    then show "pfx (put s p n') q k b"
      by (rule pfx_mono) (use p n' in \<open>auto simp: at dest: node_at_unique\<close>)
  qed
qed

lemma leaf_put_content:
  assumes inv: "rt_inv s" "rt_inv (put s p n')" and p: "node_at s p n" and leaf: "node_shift n = 0"
    and n': "node_parent n' = node_parent n" "node_offset n' = node_offset n" "node_shift n' = 0"
    and b: "pfx s p 0 b" and slots: "node_slots n' = (node_slots n)[d := e]" "d < 64"
  shows "content (put s p n') i x \<longleftrightarrow> (if i = 64 * b + d then x = e \<and> x \<noteq> 0 else content s i x)"
proof -
  let ?s = "put s p n'"
  have np: "p \<notin> set (rt_rcu s)" using p by (simp add: node_at_def)
  note at = node_at_put [OF np]
  have px: "pfx ?s q k y \<longleftrightarrow> pfx s q k y" for q k y
    using leaf_put_pfx [OF p] n' leaf by simp
  have len: "length (node_slots n) = 64" using inv(1) p by (rule rt_inv_length)
  show ?thesis
  proof (cases "i div 64 = b")
    case True
    have "content ?s i x \<longleftrightarrow> x \<noteq> 0 \<and> node_slots n' ! (i mod 64) = x"
      using content_leaf [OF inv(2), of p i n'] px b True by (simp add: at)
    moreover have "content s i x \<longleftrightarrow> x \<noteq> 0 \<and> node_slots n ! (i mod 64) = x"
      using content_leaf [OF inv(1), of p i n] b True p by simp
    moreover have "i = 64 * b + d \<longleftrightarrow> i mod 64 = d"
      using div_mult_mod_eq [of i 64] True by linarith
    ultimately show ?thesis using slots len by (auto simp: nth_list_update)
  next
    case False
    then have neq: "\<not> pfx s p 0 (i div 64)" using b pfx_det by blast
    have "i \<noteq> 64 * b + d" using False slots(2) by auto
    moreover have "content ?s i x \<longleftrightarrow> content s i x"
      unfolding content_def px at using neq by metis
    ultimately show ?thesis by simp
  qed
qed

lemma unat_inc: "unat (c :: u32) \<le> 64 \<Longrightarrow> unat (c + 1) = unat c + 1"
  by (simp add: unat_word_ariths)

lemma unat_dec: "unat (c :: u32) \<noteq> 0 \<Longrightarrow> unat (c - 1) = unat c - 1"
  by (subst unat_minus_one) auto

lemma shape_count_le: "shape_ok p n \<Longrightarrow> unat (node_count n) \<le> 64 \<and> unat (node_nr_values n) \<le> 64"
  unfolding shape_ok_def using count_if_le by metis

lemma shape_store:
  assumes "shape_ok p n" "d < 64" "node_shift n' = node_shift n"
    and "node_slots n' = (node_slots n)[d := e]"
    and "unat (node_count n') + of_bool (node_slots n ! d \<noteq> 0) = unat (node_count n) + of_bool (e \<noteq> 0)"
    and "unat (node_nr_values n') + of_bool (xa_is_value (node_slots n ! d)) =
         unat (node_nr_values n) + of_bool (xa_is_value e)"
    and "e = 0 \<or> unat (node_shift n) \<noteq> 60 \<or> d < 16"
  shows "shape_ok p n'"
  using assms count_if_update [of d "node_slots n" "\<lambda>e. e \<noteq> 0" e]
    count_if_update [of d "node_slots n" xa_is_value e]
  unfolding shape_ok_def by (simp add: nth_list_update) auto

section \<open>Hanging an empty node under a null slot\<close>

lemma avail_fresh:
  assumes "rt_inv s" "rt_avail s = c # as" "c \<noteq> 0"
  shows "addr_ok c" "rt_nodes s c = None" "c \<notin> set (rt_rcu s)" "c \<notin> set as"
    "\<not> node_at s c m"
  using rt_inv_alloc [OF assms(1)] assms(2,3) by (auto simp: alloc_ok_def node_at_def)

lemma alloc_ok_take:
  assumes "rt_inv s" "rt_avail s = c # as" "c \<noteq> 0"
    and "dom (rt_nodes s') = insert c (dom (rt_nodes s))" "rt_avail s' = as" "rt_rcu s' = rt_rcu s"
  shows "alloc_ok s'"
proof -
  have "rt_nodes s' a = None \<longleftrightarrow> a \<noteq> c \<and> rt_nodes s a = None" for a
    using assms(4) by (metis domIff insert_iff)
  then show ?thesis using rt_inv_alloc [OF assms(1)] assms unfolding alloc_ok_def by auto
qed

text \<open>
  \<open>hangs s p n k d c sh off s'\<close>: the state \<open>s'\<close> is \<open>s\<close> with the fresh node \<open>c\<close> of level \<open>k\<close>
  hung under the null slot \<open>d\<close> of the node \<open>n\<close> at \<open>p\<close>.
\<close>

abbreviation hung :: "radix_tree_node \<Rightarrow> nat \<Rightarrow> u64 \<Rightarrow> radix_tree_node" where
  "hung n d c \<equiv> n\<lparr>node_slots := (node_slots n)[d := node_to_entry c], node_count := node_count n + 1\<rparr>"

definition hangs :: "rt \<Rightarrow> u64 \<Rightarrow> radix_tree_node \<Rightarrow> nat \<Rightarrow> nat \<Rightarrow> u64 \<Rightarrow> u32 \<Rightarrow> u32 \<Rightarrow> rt \<Rightarrow> bool" where
  "hangs s p n k d c sh off s' \<longleftrightarrow> rt_inv s \<and> node_at s p n \<and> unat (node_shift n) = 6 * Suc k
     \<and> d < 64 \<and> node_slots n ! d = 0 \<and> unat off = d \<and> (Suc k = 10 \<longrightarrow> d < 16) \<and> unat sh = 6 * k \<and> c \<noteq> 0
     \<and> (\<exists>as. rt_avail s = c # as
          \<and> s' = s\<lparr>rt_avail := as, rt_nodes := (rt_nodes s)(c \<mapsto> fresh_node p sh off 0, p \<mapsto> hung n d c)\<rparr>)"

lemma hangsD:
  assumes "hangs s p n k d c sh off s'"
  shows "rt_inv s" "node_at s p n" "unat (node_shift n) = 6 * Suc k" "d < 64" "node_slots n ! d = 0"
    "unat off = d" "Suc k = 10 \<longrightarrow> d < 16" "unat sh = 6 * k" "rnode s' = rnode s" "node_shift n \<noteq> 0"
    "length (node_slots n) = 64" "addr_ok c" "c \<noteq> p" "alloc_ok s'" "k < 10" "p \<noteq> 0"
proof -
  from assms obtain as where h: "rt_inv s" "node_at s p n" "unat (node_shift n) = 6 * Suc k" "d < 64"
      "node_slots n ! d = 0" "unat off = d" "Suc k = 10 \<longrightarrow> d < 16" "unat sh = 6 * k"
    and av: "rt_avail s = c # as" "c \<noteq> 0"
    and s': "s' = s\<lparr>rt_avail := as, rt_nodes := (rt_nodes s)(c \<mapsto> fresh_node p sh off 0, p \<mapsto> hung n d c)\<rparr>"
    unfolding hangs_def by blast
  show "rt_inv s" "node_at s p n" "unat (node_shift n) = 6 * Suc k" "d < 64" "node_slots n ! d = 0"
    "unat off = d" "Suc k = 10 \<longrightarrow> d < 16" "unat sh = 6 * k" by (rule h)+
  show "rnode s' = rnode s" by (simp add: s')
  show "node_shift n \<noteq> 0" using h(3) by auto
  show "length (node_slots n) = 64" by (rule rt_inv_length [OF h(1,2)])
  show "addr_ok c" "c \<noteq> p" using avail_fresh [OF h(1) av] h(2) by auto
  show "alloc_ok s'"
    by (rule alloc_ok_take [OF h(1) av]) (use h(2) in \<open>auto simp: s' node_at_def\<close>)
  obtain K where "K \<le> 10" "unat (node_shift n) = 6 * K" using rt_inv_level [OF h(1,2)] by blast
  with h(3) show "k < 10" by simp
  show "p \<noteq> 0" using rt_inv_addr [OF h(1,2)] by (simp add: addr_ok_def)
qed

lemma hang_at:
  assumes "hangs s p n k d c sh off s'"
  shows "node_at s' q m \<longleftrightarrow>
    (if q = p then m = hung n d c else if q = c then m = fresh_node p sh off 0 else node_at s q m)"
proof -
  note D = hangsD [OF assms]
  obtain as where av: "rt_avail s = c # as" "c \<noteq> 0"
    and s': "s' = s\<lparr>rt_avail := as, rt_nodes := (rt_nodes s)(c \<mapsto> fresh_node p sh off 0, p \<mapsto> hung n d c)\<rparr>"
    using assms by (auto simp: hangs_def)
  then show ?thesis using avail_fresh [OF D(1) av] D(2,13) by (auto simp: node_at_def)
qed

lemma hang_keep:
  assumes "hangs s p n k d c sh off s'" "node_at s x y" "x \<noteq> p"
  shows "node_at s' x y"
proof -
  obtain as where av: "rt_avail s = c # as" "c \<noteq> 0" using assms(1) by (auto simp: hangs_def)
  have "x \<noteq> c" using avail_fresh [OF hangsD(1) [OF assms(1)] av] assms(2) by blast
  with assms(2,3) show ?thesis by (simp add: hang_at [OF assms(1)])
qed

lemma hang_self: "hangs s p n k d c sh off s' \<Longrightarrow> node_at s' p (hung n d c)"
  by (simp add: hang_at)

lemma hang_child_ok:
  assumes h: "hangs s p n k d c sh off s'"
  shows "child_ok s' p (hung n d c)"
  unfolding child_ok_def
proof (intro impI allI)
  note D = hangsD [OF h]
  fix i :: nat assume i: "i < 64" "node_slots (hung n d c) ! i \<noteq> 0"
  show "\<exists>z m. node_slots (hung n d c) ! i = node_to_entry z \<and> node_at s' z m \<and> node_parent m = p
      \<and> unat (node_offset m) = i \<and> unat (node_shift (hung n d c)) = unat (node_shift m) + 6"
  proof (cases "i = d")
    case True
    then have "node_slots (hung n d c) ! i = node_to_entry c" "node_at s' c (fresh_node p sh off 0)"
      using D by (simp_all add: hang_at [OF h])
    then show ?thesis using D True by fastforce
  next
    case False
    with i have "node_slots n ! i \<noteq> 0" by simp
    from rt_inv_child [OF D(1-3) i(1) this] obtain x m where
      "node_slots n ! i = node_to_entry x" "node_at s x m" "node_parent m = p"
      "unat (node_offset m) = i" "unat (node_shift m) = 6 * k" by blast
    moreover from this have "x \<noteq> p" using D by (metis parent_neq)
    ultimately show ?thesis using False hang_keep [OF h] D(3) by fastforce
  qed
qed

lemma hang_shape_ok:
  assumes h: "hangs s p n k d c sh off s'"
  shows "shape_ok p (hung n d c)" and "shape_ok c (fresh_node p sh off 0)"
proof -
  note D = hangsD [OF h]
  note sp = rt_invD(1) [OF D(1,2)]
  show "shape_ok p (hung n d c)"
    by (rule shape_store [OF sp D(4), of _ "node_to_entry c"])
      (use D unat_inc shape_count_le [OF sp] in auto)
  show "shape_ok c (fresh_node p sh off 0)"
    using D by (simp add: shape_ok_def count_if_replicate)
qed

lemma hang_inv:
  assumes h: "hangs s p n k d c sh off s'"
  shows "rt_inv s'"
proof (rule rt_invI)
  note D = hangsD [OF h]
  note keep = hang_keep [OF h] and self = hang_self [OF h]
  have slots: "\<forall>i < 64. node_slots n ! i \<noteq> 0 \<longrightarrow> node_slots (hung n d c) ! i = node_slots n ! i"
    using D by (auto simp: nth_list_update)
  fix q m assume "node_at s' q m"
  then consider "q = p" "m = hung n d c" | "q = c" "m = fresh_node p sh off 0" "q \<noteq> p"
    | "q \<noteq> p" "q \<noteq> c" "node_at s q m"
    by (auto simp: hang_at [OF h] split: if_splits)
  note cs = this
  show "shape_ok q m" using cs by cases (use hang_shape_ok [OF h] rt_invD(1) [OF D(1)] in auto)
  show "child_ok s' q m"
    using cs
  proof cases
    case 3
    then show ?thesis using child_ok_kept [OF D(1,2) keep self _ _ _ disjI2 [OF slots] D(9)] by simp
  qed (use hang_child_ok [OF h] in \<open>simp_all add: child_ok_def\<close>)
  show "parent_ok s' q m"
    using cs
  proof cases
    case 1
    then show ?thesis using parent_ok_self [OF D(1,2) keep self _ _ _ disjI2 [OF slots] D(9) D(2)] by simp
  next
    case 2
    then show ?thesis using self D by (auto simp: parent_ok_def)
  next
    case 3
    then show ?thesis using parent_ok_kept [OF D(1,2) keep self _ _ _ disjI2 [OF slots] D(9)] by simp
  qed
next
  note D = hangsD [OF h]
  show "root_ok s'" by (rule root_ok_kept [OF D(1,2) hang_keep [OF h] hang_self [OF h] _ D(9)]) simp_all
  show "alloc_ok s'" by (rule D)
qed

lemma hang_pfx:
  assumes h: "hangs s p n k d c sh off s'" and "pfx s q j b"
  shows "pfx s' q j b"
  by (rule pfx_kept [OF assms(2) hangsD(2) [OF h] hang_keep [OF h] hang_self [OF h]]) simp_all

lemma hang_new:
  assumes h: "hangs s p n k d c sh off s'"
  shows "node_at s' c (fresh_node p sh off 0)" and "pfx s p (Suc k) b \<Longrightarrow> pfx s' c k (64 * b + d)"
proof -
  note D = hangsD [OF h]
  show c: "node_at s' c (fresh_node p sh off 0)" using D(13) by (simp add: hang_at [OF h])
  assume "pfx s p (Suc k) b"
  then have "pfx s' c k (64 * b + unat (node_offset (fresh_node p sh off 0)))"
    by (intro pfx_step [OF c]) (use D hang_pfx [OF h] in simp_all)
  then show "pfx s' c k (64 * b + d)" using D(6) by simp
qed

lemma hang_content:
  assumes h: "hangs s p n k d c sh off s'"
  shows "content s' i e \<longleftrightarrow> content s i e"
proof (rule content_same [OF hangsD(1) [OF h] hang_inv [OF h], symmetric])
  note D = hangsD [OF h]
  show "pfx s q j b \<Longrightarrow> pfx s' q j b" for q j b by (rule hang_pfx [OF h])
  fix q m
  show "\<exists>m'. node_at s' q m' \<and> node_slots m' = node_slots m" if "node_at s q m" "node_shift m = 0"
    using that hang_keep [OF h] D by (metis node_at_unique)
  show "(\<exists>n. node_at s q n \<and> node_slots n = node_slots m \<and> node_shift n = 0) \<or> (\<forall>i<64. node_slots m ! i = 0)"
    if "node_at s' q m" "node_shift m = 0"
    using that D by (auto simp: hang_at [OF h] split: if_splits)
qed

end
