(* ===== verification/Radix_Root_Steps.thy ===== *)
theory Radix_Root_Steps
  imports Radix_Steps
begin

text \<open>
  The elementary updates that change which node is the root or take a node out of the tree.
\<close>

lemma no_nodes:
  assumes "rt_inv s" "rnode s = 0"
  shows "\<not> node_at s p n"
proof
  assume p: "node_at s p n"
  then obtain k where "unat (node_shift n) = 6 * k" using rt_inv_level [OF assms(1)] by blast
  with pfx_exists [OF assms(1) p] obtain b where "pfx s p k b" by blast
  from pfx_bound [OF assms(1) this] assms(2) show False by (metis node_to_entry_nonzero)
qed

section \<open>The first node\<close>

lemma first_root:
  assumes inv: "rt_inv s" and r0: "rnode s = 0" and sh: "unat sh = 6 * k" "k \<le> 10"
    and av: "rt_avail s = c # as" "c \<noteq> 0"
    and s': "s' = set_rnode (s\<lparr>rt_nodes := (rt_nodes s)(c \<mapsto> fresh_node 0 sh 0 0), rt_avail := as\<rparr>)
         (node_to_entry c)"
  shows "rt_inv s'" and "\<not> content s' i e" and "node_at s' c (fresh_node 0 sh 0 0)"
    and "rnode s' = node_to_entry c"
proof -
  note fr = avail_fresh [OF inv av]
  have at: "node_at s' q m \<longleftrightarrow> q = c \<and> m = fresh_node 0 sh 0 0" for q m
    using no_nodes [OF inv r0, of q m] fr by (auto simp: s' set_rnode_def node_at_def)
  show rn: "rnode s' = node_to_entry c" by (simp add: s' set_rnode_def)
  show c: "node_at s' c (fresh_node 0 sh 0 0)" by (simp add: at)
  have "alloc_ok s'" by (rule alloc_ok_take [OF inv av]) (auto simp: s' set_rnode_def)
  moreover have "root_ok s'" using rn c by (force simp: root_ok_def)
  moreover have "shape_ok c (fresh_node 0 sh 0 0)"
    using fr(1) sh by (simp add: shape_ok_def count_if_replicate)
  ultimately show "rt_inv s'"
    using rn by (auto simp: rt_inv_def at child_ok_def parent_ok_def)
  show "\<not> content s' i e" by (auto simp: content_def at)
qed

section \<open>A new root above the old one\<close>

text \<open>
  \<open>grows s r n K sh c s'\<close>: in \<open>s'\<close> the fresh node \<open>c\<close>, one level above, has become the root
  and holds the former root \<open>n\<close> at \<open>r\<close> in its first slot.
\<close>

abbreviation top_of :: "u64 \<Rightarrow> u32 \<Rightarrow> radix_tree_node" where
  "top_of r sh \<equiv> (fresh_node 0 sh 0 1)\<lparr>node_slots := (replicate 64 0)[0 := node_to_entry r]\<rparr>"

definition grows :: "rt \<Rightarrow> u64 \<Rightarrow> radix_tree_node \<Rightarrow> nat \<Rightarrow> u32 \<Rightarrow> u64 \<Rightarrow> rt \<Rightarrow> bool" where
  "grows s r n K sh c s' \<longleftrightarrow> rt_inv s \<and> rnode s = node_to_entry r \<and> node_at s r n
     \<and> unat (node_shift n) = 6 * K \<and> K < 10 \<and> unat sh = 6 * Suc K \<and> c \<noteq> 0
     \<and> (\<exists>as. rt_avail s = c # as
          \<and> s' = set_rnode (s\<lparr>rt_avail := as, rt_nodes := (rt_nodes s)(c \<mapsto> top_of r sh,
               r \<mapsto> n\<lparr>node_parent := c\<rparr>)\<rparr>) (node_to_entry c))"

lemma growsD:
  assumes "grows s r n K sh c s'"
  shows "rt_inv s" "rnode s = node_to_entry r" "node_at s r n" "unat (node_shift n) = 6 * K" "K < 10"
    "unat sh = 6 * Suc K" "c \<noteq> 0" "rnode s' = node_to_entry c" "addr_ok r" "addr_ok c" "c \<noteq> r"
    "node_parent n = 0" "node_offset n = 0" "alloc_ok s'" "\<not> node_at s c m"
proof -
  from assms obtain as where h: "rt_inv s" "rnode s = node_to_entry r" "node_at s r n"
      "unat (node_shift n) = 6 * K" "K < 10" "unat sh = 6 * Suc K" "c \<noteq> 0"
    and av: "rt_avail s = c # as" "c \<noteq> 0"
    and s': "s' = set_rnode (s\<lparr>rt_avail := as, rt_nodes := (rt_nodes s)(c \<mapsto> top_of r sh,
         r \<mapsto> n\<lparr>node_parent := c\<rparr>)\<rparr>) (node_to_entry c)"
    unfolding grows_def by blast
  show "rt_inv s" "rnode s = node_to_entry r" "node_at s r n"
    "unat (node_shift n) = 6 * K" "K < 10" "unat sh = 6 * Suc K" "c \<noteq> 0" by (rule h)+
  show "rnode s' = node_to_entry c" by (simp add: s' set_rnode_def)
  show ar: "addr_ok r" by (rule rt_inv_addr [OF h(1,3)])
  show "addr_ok c" "\<not> node_at s c m" "c \<noteq> r" using avail_fresh [OF h(1) av] h(3) by auto
  show par: "node_parent n = 0"
    using rt_inv_root [OF h(1)] h ar by (metis node_to_entry_inj rt_inv_addr node_at_unique node_to_entry_nonzero)
  show "node_offset n = 0" by (rule rt_inv_orphan_offset [OF h(1,3) par])
  show "alloc_ok s'"
    by (rule alloc_ok_take [OF h(1) av]) (use h(3) in \<open>auto simp: s' set_rnode_def node_at_def\<close>)
qed

lemma grow_at:
  assumes "grows s r n K sh c s'"
  shows "node_at s' q m \<longleftrightarrow>
    (if q = r then m = n\<lparr>node_parent := c\<rparr> else if q = c then m = top_of r sh else node_at s q m)"
proof -
  note D = growsD [OF assms]
  obtain as where av: "rt_avail s = c # as" "c \<noteq> 0"
    and s': "s' = set_rnode (s\<lparr>rt_avail := as, rt_nodes := (rt_nodes s)(c \<mapsto> top_of r sh,
         r \<mapsto> n\<lparr>node_parent := c\<rparr>)\<rparr>) (node_to_entry c)"
    using assms unfolding grows_def by blast
  then show ?thesis using avail_fresh [OF D(1) av] D(3,11) by (auto simp: node_at_def set_rnode_def)
qed

lemma grow_keep:
  assumes "grows s r n K sh c s'" "node_at s x y" "x \<noteq> r"
  shows "node_at s' x y"
  using assms(2,3) growsD(15) [OF assms(1), of y] by (auto simp: grow_at [OF assms(1)])

lemma grow_orphan:
  assumes "grows s r n K sh c s'" "node_at s q m" "q \<noteq> r"
  shows "node_parent m \<noteq> 0"
  using growsD [OF assms(1)] assms(2,3) rt_inv_orphan rt_inv_addr by (metis node_to_entry_inj)

lemma grow_shape_ok:
  assumes g: "grows s r n K sh c s'"
  shows "shape_ok c (top_of r sh)"
  by (rule shape_store [of c "fresh_node 0 sh 0 0" 0 _ "node_to_entry r"])
    (use growsD [OF g] in \<open>auto simp: shape_ok_def count_if_replicate intro!: exI [of _ "Suc K"]\<close>)

lemma grow_child_ok:
  assumes g: "grows s r n K sh c s'" and q: "node_at s' q m"
  shows "child_ok s' q m"
proof (cases "q = c")
  case True
  note D = growsD [OF g]
  have "m = top_of r sh" using True q D(11) by (simp add: grow_at [OF g])
  moreover have "node_at s' r (n\<lparr>node_parent := c\<rparr>)" by (simp add: grow_at [OF g])
  moreover have "unat sh = unat (node_shift (n\<lparr>node_parent := c\<rparr>)) + 6" using D by simp
  ultimately show ?thesis using D(13) True unfolding child_ok_def
    by (auto simp: nth_list_update intro!: exI [of _ r] exI [of _ "n\<lparr>node_parent := c\<rparr>"])
next
  case False
  note D = growsD [OF g]
  obtain m0 where m0: "node_at s q m0" "node_slots m0 = node_slots m" "node_shift m = node_shift m0"
    using False q D(3) by (auto simp: grow_at [OF g] split: if_splits)
  have q0: "q \<noteq> 0" using rt_inv_addr [OF D(1) m0(1)] by (simp add: addr_ok_def)
  show ?thesis
  proof (rule child_ok_transfer [OF rt_invD(2) [OF D(1) m0(1)] m0(3)])
    fix x y assume "node_at s x y" "node_parent y = q"
    moreover from this have "x \<noteq> r" using q0 D(3,12) by (metis node_at_unique)
    ultimately show "\<exists>y'. node_at s' x y' \<and> node_parent y' = q \<and> node_offset y' = node_offset y
        \<and> node_shift y' = node_shift y" using grow_keep [OF g] by blast
  qed (simp add: m0)
qed

lemma grow_parent_ok:
  assumes g: "grows s r n K sh c s'" and q: "node_at s' q m"
  shows "parent_ok s' q m"
proof -
  note D = growsD [OF g]
  consider "q = r" "m = n\<lparr>node_parent := c\<rparr>" | "q = c" "m = top_of r sh" | "q \<noteq> r" "node_at s q m"
    using q by (auto simp: grow_at [OF g] split: if_splits)
  then show ?thesis
  proof cases
    case 1
    have "node_at s' c (top_of r sh)" using D(11) by (simp add: grow_at [OF g])
    with 1 show ?thesis using D unfolding parent_ok_def by (auto simp: unat_eq_0 [symmetric])
  next
    case 2
    then show ?thesis using D(8) by (simp add: parent_ok_def)
  next
    case 3
    have up: "\<exists>y'. node_at s' x y' \<and> node_shift y' = node_shift y \<and> node_slots y' = node_slots y"
      if "node_at s x y" for x y
      using that grow_keep [OF g] D(3) by (cases "x = r") (auto simp: grow_at [OF g] dest: node_at_unique)
    show ?thesis
      by (rule parent_ok_transfer [OF rt_invD(3) [OF D(1) 3(2)]])
        (use grow_orphan [OF g 3(2,1)] up in \<open>auto, metis\<close>)
  qed
qed

lemma grow_inv:
  assumes g: "grows s r n K sh c s'"
  shows "rt_inv s'"
proof (rule rt_invI)
  note D = growsD [OF g]
  show "root_ok s'" using D(8,11) grow_at [OF g, of c] unfolding root_ok_def by fastforce
  show "alloc_ok s'" by (rule D)
  fix q m assume q: "node_at s' q m"
  show "child_ok s' q m" "parent_ok s' q m" by (rule grow_child_ok [OF g q] grow_parent_ok [OF g q])+
  show "shape_ok q m"
    using q grow_shape_ok [OF g] rt_invD(1) [OF D(1)] rt_invD(1) [OF D(1,3)]
    by (auto simp: grow_at [OF g] shape_ok_def split: if_splits)
qed

lemma grow_pfx:
  assumes g: "grows s r n K sh c s'" and "pfx s p k b"
  shows "pfx s' p k b"
  using assms(2)
proof induction
  note D = growsD [OF g]
  have c: "node_at s' c (top_of r sh)" using D(11) by (simp add: grow_at [OF g])
  have n': "node_at s' r (n\<lparr>node_parent := c\<rparr>)" by (simp add: grow_at [OF g])
  case (pfx_root p m k)
  then have p: "p = r" "m = n" using grow_orphan [OF g] D(3) by (metis node_at_unique)+
  have "pfx s' c (Suc k) 0" by (rule pfx.pfx_root [OF c]) (use p pfx_root D in simp_all)
  then have "pfx s' r k (64 * 0 + unat (node_offset (n\<lparr>node_parent := c\<rparr>)))"
    by (intro pfx.pfx_step [OF n']) (use p pfx_root D in simp_all)
  then show ?case using p D(13) by simp
next
  case (pfx_step p m k b)
  then have "p \<noteq> r" using growsD(3,12) [OF g] by (metis node_at_unique)
  with pfx_step grow_keep [OF g] show ?case by (blast intro: pfx.pfx_step)
qed

lemma grow_content:
  assumes g: "grows s r n K sh c s'"
  shows "content s' i e \<longleftrightarrow> content s i e"
proof (rule content_same [OF growsD(1) [OF g] grow_inv [OF g], symmetric])
  note D = growsD [OF g]
  show "pfx s q k b \<Longrightarrow> pfx s' q k b" for q k b by (rule grow_pfx [OF g])
  fix q m
  show "\<exists>m'. node_at s' q m' \<and> node_slots m' = node_slots m" if "node_at s q m" "node_shift m = 0"
    using that grow_keep [OF g] D(3) by (cases "q = r") (auto simp: grow_at [OF g] dest: node_at_unique)
  show "(\<exists>n. node_at s q n \<and> node_slots n = node_slots m \<and> node_shift n = 0) \<or> (\<forall>i<64. node_slots m ! i = 0)"
    if "node_at s' q m" "node_shift m = 0"
    using that D(3,6) by (auto simp: grow_at [OF g] split: if_splits)
qed

lemma grow_root:
  assumes "rt_inv s" "rnode s = node_to_entry r" "node_at s r n"
    and "unat (node_shift n) = 6 * K" "K < 10" "unat sh = 6 * Suc K" "rt_avail s = c # as" "c \<noteq> 0"
    and "s' = set_rnode (s\<lparr>rt_avail := as, rt_nodes := (rt_nodes s)(c \<mapsto> top_of r sh,
         r \<mapsto> n\<lparr>node_parent := c\<rparr>)\<rparr>) (node_to_entry c)"
  shows "rt_inv s'" and "content s' i e \<longleftrightarrow> content s i e" and "rnode s' = node_to_entry c"
    and "node_at s' c (top_of r sh)"
proof -
  have g: "grows s r n K sh c s'" using assms unfolding grows_def by blast
  from grow_inv [OF g] grow_content [OF g] growsD(8,11) [OF g]
  show "rt_inv s'" "content s' i e \<longleftrightarrow> content s i e" "rnode s' = node_to_entry c" "node_at s' c (top_of r sh)"
    by (simp_all add: grow_at [OF g])
qed

section \<open>Unlinking an empty node\<close>

lemma count_0_slots:
  assumes "rt_inv s" "node_at s c m" "node_count m = 0" "i < 64"
  shows "node_slots m ! i = 0"
  using rt_invD(1) [OF assms(1,2)] assms(3,4) count_if_eq_0 [of "\<lambda>e. e \<noteq> 0" "node_slots m"]
  by (simp add: shape_ok_def)

lemma alloc_ok_free:
  assumes "rt_inv s" "node_at s c m" "dom (rt_nodes s') = dom (rt_nodes s)"
    and "rt_avail s' = rt_avail s" "rt_rcu s' = rt_rcu s @ [c]"
  shows "alloc_ok s'"
proof -
  have "rt_nodes s' a = None \<longleftrightarrow> rt_nodes s a = None" for a by (metis assms(3) domIff)
  then show ?thesis
    using rt_inv_alloc [OF assms(1)] assms unfolding alloc_ok_def node_at_def by auto
qed

lemma childless:
  assumes "rt_inv s" "node_at s c m" "node_count m = 0" "node_at s q x"
  shows "node_parent x \<noteq> c"
proof
  assume c: "node_parent x = c"
  have "c \<noteq> 0" using rt_inv_addr [OF assms(1,2)] by (simp add: addr_ok_def)
  with c obtain y where "node_at s c y" "unat (node_offset x) < 64"
    "node_slots y ! unat (node_offset x) = node_to_entry q"
    using rt_invD(3) [OF assms(1,4)] unfolding parent_ok_def by auto
  moreover from this have "y = m" using assms(2) by (metis node_at_unique)
  ultimately show False using count_0_slots [OF assms(1-3)] by (metis node_to_entry_nonzero)
qed

text \<open>
  \<open>unlinks s c m p n s'\<close>: the empty node \<open>m\<close> at \<open>c\<close> is taken out of the slot of its parent \<open>n\<close> at \<open>p\<close>
  and handed to the deferred free.
\<close>

abbreviation without :: "radix_tree_node \<Rightarrow> u32 \<Rightarrow> radix_tree_node" where
  "without n off \<equiv> n\<lparr>node_slots := (node_slots n)[unat off := 0], node_count := node_count n - 1\<rparr>"

definition unlinks :: "rt \<Rightarrow> u64 \<Rightarrow> radix_tree_node \<Rightarrow> u64 \<Rightarrow> radix_tree_node \<Rightarrow> rt \<Rightarrow> bool" where
  "unlinks s c m p n s' \<longleftrightarrow> rt_inv s \<and> node_at s c m \<and> node_count m = 0 \<and> node_parent m = p \<and> p \<noteq> 0
     \<and> node_at s p n
     \<and> s' = s\<lparr>rt_nodes := (rt_nodes s)(p \<mapsto> without n (node_offset m)), rt_rcu := rt_rcu s @ [c]\<rparr>"

lemma unlinksD:
  assumes "unlinks s c m p n s'"
  shows "rt_inv s" "node_at s c m" "node_count m = 0" "node_parent m = p" "p \<noteq> 0" "node_at s p n"
    "rnode s' = rnode s" "unat (node_offset m) < 64" "node_slots n ! unat (node_offset m) = node_to_entry c"
    "length (node_slots n) = 64" "c \<noteq> p" "node_shift n \<noteq> 0" "addr_ok c" "alloc_ok s'"
proof -
  note h = assms [unfolded unlinks_def]
  then have inv: "rt_inv s" and c: "node_at s c m" and p: "node_at s p n" by blast+
  show "rt_inv s" "node_at s c m" "node_count m = 0" "node_parent m = p" "p \<noteq> 0" "node_at s p n"
    using h by blast+
  show "rnode s' = rnode s" using h by simp
  show "unat (node_offset m) < 64" "node_slots n ! unat (node_offset m) = node_to_entry c" "node_shift n \<noteq> 0"
    using rt_invD(3) [OF inv c] h unfolding parent_ok_def by (metis node_at_unique)+
  show "length (node_slots n) = 64" "addr_ok c"
    by (rule rt_inv_length [OF inv p] rt_inv_addr [OF inv c])+
  show "c \<noteq> p" using parent_neq [OF inv c] h by metis
  show "alloc_ok s'"
    by (rule alloc_ok_free [OF inv c]) (use h in \<open>auto simp: node_at_def\<close>)
qed

lemma unlink_at:
  assumes "unlinks s c m p n s'"
  shows "node_at s' q x \<longleftrightarrow> q \<noteq> c \<and> (if q = p then x = without n (node_offset m) else node_at s q x)"
  using assms unlinksD(11) [OF assms] unfolding unlinks_def by (auto simp: node_at_def)

lemma unlink_keep:
  assumes u: "unlinks s c m p n s'" and "node_at s x y" "x \<noteq> c"
  shows "\<exists>y'. node_at s' x y' \<and> node_parent y' = node_parent y \<and> node_offset y' = node_offset y
    \<and> node_shift y' = node_shift y \<and> (\<forall>i. x = p \<longrightarrow> i \<noteq> unat (node_offset m) \<longrightarrow> node_slots y' ! i = node_slots y ! i)
    \<and> (x \<noteq> p \<longrightarrow> y' = y)"
  using assms(2,3) unlinksD(6) [OF u] by (cases "x = p") (auto simp: unlink_at [OF u] dest: node_at_unique)

lemma unlink_old:
  assumes u: "unlinks s c m p n s'" and "node_at s' q x"
  obtains x0 where "node_at s q x0" "q \<noteq> c" "node_parent x = node_parent x0" "node_offset x = node_offset x0"
    "node_shift x = node_shift x0"
    "\<forall>i < 64. node_slots x ! i \<noteq> 0 \<longrightarrow>
      node_slots x0 ! i = node_slots x ! i \<and> (q = p \<longrightarrow> i \<noteq> unat (node_offset m))"
proof (cases "q = p")
  case True
  then show ?thesis using that [of n] assms(2) unlinksD [OF u]
    by (auto simp: unlink_at [OF u] nth_list_update split: if_splits)
next
  case False
  then show ?thesis using that [of x] assms(2) by (auto simp: unlink_at [OF u])
qed

lemma unlink_shape_ok:
  assumes u: "unlinks s c m p n s'"
  shows "shape_ok p (without n (node_offset m))"
proof -
  note D = unlinksD [OF u]
  have "unat (node_count n) \<noteq> 0"
    using rt_invD(1) [OF D(1,6)] count_if_pos [of "unat (node_offset m)" "node_slots n" "\<lambda>e. e \<noteq> 0"] D(8-10)
    by (simp add: shape_ok_def)
  then show ?thesis
    by (intro shape_store [OF rt_invD(1) [OF D(1,6)] D(8), of _ 0]) (use D unat_dec in auto)
qed

lemma unlink_links_ok:
  assumes u: "unlinks s c m p n s'" and q: "node_at s' q x"
  shows "child_ok s' q x" and "parent_ok s' q x"
proof -
  note D = unlinksD [OF u]
  obtain x0 where x0: "node_at s q x0" "q \<noteq> c" "node_parent x = node_parent x0" "node_offset x = node_offset x0"
    "node_shift x = node_shift x0"
    "\<forall>i < 64. node_slots x ! i \<noteq> 0 \<longrightarrow>
      node_slots x0 ! i = node_slots x ! i \<and> (q = p \<longrightarrow> i \<noteq> unat (node_offset m))"
    using unlink_old [OF u q] by blast
  show "child_ok s' q x"
  proof (rule child_ok_transfer [OF rt_invD(2) [OF D(1) x0(1)] x0(5)])
    fix z y assume z: "node_at s z y" "node_parent y = q" "node_slots x ! unat (node_offset y) = node_to_entry z"
    have "unat (node_offset y) < 64"
      using rt_invD(3) [OF D(1) z(1)] z(2) rt_inv_addr [OF D(1) x0(1)] by (auto simp: parent_ok_def addr_ok_def)
    with x0(6) z(2,3) have "z \<noteq> c" using D z(1) by (metis node_at_unique node_to_entry_nonzero)
    with unlink_keep [OF u z(1)] z(2) show "\<exists>y'. node_at s' z y' \<and> node_parent y' = q
        \<and> node_offset y' = node_offset y \<and> node_shift y' = node_shift y" by auto
  qed (use x0(6) in blast)
  show "parent_ok s' q x"
  proof (rule parent_ok_transfer [OF rt_invD(3) [OF D(1) x0(1)] x0(3,4) D(7)])
    fix y assume y: "node_at s (node_parent x0) y" "node_shift y \<noteq> 0"
      "node_slots y ! unat (node_offset x0) = node_to_entry q"
    have "node_parent x0 \<noteq> c" by (rule childless [OF D(1-3) x0(1)])
    moreover have "unat (node_offset x0) \<noteq> unat (node_offset m)" if "node_parent x0 = p"
      using y that D(6,9,13) x0(1,2) rt_inv_addr [OF D(1)] by (metis node_at_unique node_to_entry_inj)
    ultimately show "\<exists>y'. node_at s' (node_parent x0) y' \<and> node_shift y' \<noteq> 0
        \<and> node_slots y' ! unat (node_offset x0) = node_to_entry q"
      using unlink_keep [OF u y(1)] y by metis
  qed
qed

lemma unlink_root_ok:
  assumes u: "unlinks s c m p n s'"
  shows "root_ok s'"
proof (cases "rnode s = 0")
  case False
  note D = unlinksD [OF u]
  obtain r y where r: "rnode s = node_to_entry r" "node_at s r y" "node_parent y = 0"
    using False rt_inv_root [OF D(1)] by blast
  then have "r \<noteq> c" using D by (metis node_at_unique)
  with unlink_keep [OF u r(2)] r D(7) show ?thesis unfolding root_ok_def by metis
qed (use unlinksD(7) [OF u] in \<open>simp add: root_ok_def\<close>)

lemma unlink_inv:
  assumes u: "unlinks s c m p n s'"
  shows "rt_inv s'"
proof (rule rt_invI)
  fix q x assume q: "node_at s' q x"
  show "child_ok s' q x" "parent_ok s' q x" by (rule unlink_links_ok [OF u q])+
  show "shape_ok q x"
    using q unlink_shape_ok [OF u] rt_invD(1) [OF unlinksD(1) [OF u]]
    by (auto simp: unlink_at [OF u] split: if_splits)
qed (use unlink_root_ok [OF u] unlinksD(14) [OF u] in blast)+

lemma unlink_content:
  assumes u: "unlinks s c m p n s'"
  shows "content s' i e \<longleftrightarrow> content s i e"
proof (rule content_same [OF unlink_inv [OF u] unlinksD(1) [OF u]])
  note D = unlinksD [OF u]
  show "pfx s q j b" if "pfx s' q j b" for q j b
    using that by (rule pfx_mono) (use D(6) in \<open>auto simp: unlink_at [OF u] split: if_splits\<close>)
  fix q x
  show "\<exists>y. node_at s q y \<and> node_slots y = node_slots x" if "node_at s' q x" "node_shift x = 0"
    using that D(12) by (auto simp: unlink_at [OF u] split: if_splits)
  assume q: "node_at s q x" "node_shift x = 0"
  show "(\<exists>n. node_at s' q n \<and> node_slots n = node_slots x \<and> node_shift n = 0) \<or> (\<forall>i<64. node_slots x ! i = 0)"
  proof (cases "q = c")
    case True
    with q D(2) have "x = m" by (metis node_at_unique)
    then show ?thesis using count_0_slots [OF D(1-3)] by simp
  next
    case False
    moreover have "q \<noteq> p" using q D(6,12) by (metis node_at_unique)
    ultimately show ?thesis using unlink_keep [OF u q(1)] q by blast
  qed
qed

lemma unlink_node:
  assumes "rt_inv s" "node_at s c m" "node_count m = 0" "node_parent m = p" "p \<noteq> 0" "node_at s p n"
    and "s' = s\<lparr>rt_nodes := (rt_nodes s)(p \<mapsto> without n (node_offset m)), rt_rcu := rt_rcu s @ [c]\<rparr>"
  shows "rt_inv s'" and "content s' i e \<longleftrightarrow> content s i e"
    and "node_at s' p (without n (node_offset m))"
proof -
  have u: "unlinks s c m p n s'" using assms unfolding unlinks_def by blast
  from unlink_inv [OF u] unlink_content [OF u] unlinksD(11) [OF u]
  show "rt_inv s'" "content s' i e \<longleftrightarrow> content s i e" "node_at s' p (without n (node_offset m))"
    by (simp_all add: unlink_at [OF u])
qed

lemma unlink_root:
  assumes inv: "rt_inv s" and r: "node_at s r n" "node_count n = 0" "node_parent n = 0"
    and s': "s' = (set_rnode s 0)\<lparr>rt_rcu := rt_rcu s @ [r]\<rparr>"
  shows "rt_inv s'" and "content s' i e \<longleftrightarrow> content s i e"
proof -
  have ar: "addr_ok r" using inv r(1) by (rule rt_inv_addr)
  have rn: "rnode s = node_to_entry r" by (rule rt_inv_orphan [OF inv r(1,3)])
  have only: "q = r" if q: "node_at s q x" for q x
  proof (rule ccontr)
    assume neq: "q \<noteq> r"
    obtain k where "unat (node_shift x) = 6 * k" using rt_inv_level [OF inv q] by blast
    from pfx_exists [OF inv q this] obtain b where b: "pfx s q k b" by blast
    from pfx_bound [OF inv b] obtain K r' n' where K: "rnode s = node_to_entry r'" "node_at s r' n'"
      "unat (node_shift n') = 6 * K" "k \<le> K" "k = K \<longrightarrow> q = r'" by blast
    have "r' = r" using K(1,2) rn ar rt_inv_addr [OF inv K(2)] by (metis node_to_entry_inj)
    then have "k < K" using K(4,5) neq by auto
    then obtain j where j: "K = Suc j" "k \<le> j" by (cases K) auto
    from ancestors [OF inv b K(1-3), of "j - k"] j obtain a where "pfx s a j (b div 64 ^ (j - k))" by auto
    from pfx_up [OF inv this K(1-3)] j obtain q' m' where
      "pfx s q' (Suc j) (b div 64 ^ (j - k) div 64)" "node_at s q' m'"
      "node_slots m' ! (b div 64 ^ (j - k) mod 64) = node_to_entry a" by auto
    moreover from this have "q' = r'" using pfx_bound [OF inv, of q' "Suc j"] K j
      by (metis node_to_entry_inj rt_inv_addr inv node_at_unique nat_mult_eq_cancel1 zero_less_numeral)
    ultimately have "node_slots n ! (b div 64 ^ (j - k) mod 64) = node_to_entry a"
      using \<open>r' = r\<close> r(1) by (metis node_at_unique)
    then show False using count_0_slots [OF inv r(1,2), of "b div 64 ^ (j - k) mod 64"]
      by (metis mod_less_divisor node_to_entry_nonzero zero_less_numeral)
  qed
  have none: "\<not> node_at s' q x" for q x
    using only [of q x] by (auto simp: s' set_rnode_def node_at_def)
  have "alloc_ok s'" by (rule alloc_ok_free [OF inv r(1)]) (auto simp: s' set_rnode_def)
  then show inv': "rt_inv s'" using none by (simp add: rt_inv_def root_ok_def s' set_rnode_def)
  have "\<not> content s i e"
    unfolding content_def using only count_0_slots [OF inv r(1,2)] r(1)
    by (metis mod_less_divisor node_at_unique zero_less_numeral)
  then show "content s' i e \<longleftrightarrow> content s i e" using none by (simp add: content_def)
qed

section \<open>Replacing the root by its only child\<close>

text \<open>
  \<open>shrinks s r n c m s'\<close>: the root \<open>n\<close> at \<open>r\<close>, whose only entry is its first slot, is replaced by the
  child \<open>m\<close> at \<open>c\<close> in that slot and handed to the deferred free.
\<close>

definition shrinks :: "rt \<Rightarrow> u64 \<Rightarrow> radix_tree_node \<Rightarrow> u64 \<Rightarrow> radix_tree_node \<Rightarrow> rt \<Rightarrow> bool" where
  "shrinks s r n c m s' \<longleftrightarrow> rt_inv s \<and> rnode s = node_to_entry r \<and> node_at s r n \<and> node_parent n = 0
     \<and> node_count n = 1 \<and> node_shift n \<noteq> 0 \<and> node_slots n ! 0 = node_to_entry c \<and> node_at s c m
     \<and> node_parent m = r \<and> node_offset m = 0 \<and> unat (node_shift n) = unat (node_shift m) + 6
     \<and> s' = (set_rnode (s\<lparr>rt_nodes := (rt_nodes s)(c \<mapsto> m\<lparr>node_parent := 0\<rparr>, r \<mapsto> n\<lparr>node_count := 0\<rparr>)\<rparr>)
          (node_to_entry c))\<lparr>rt_rcu := rt_rcu s @ [r]\<rparr>"

lemma shrinksD:
  assumes "shrinks s r n c m s'"
  shows "rt_inv s" "rnode s = node_to_entry r" "node_at s r n" "node_parent n = 0" "node_shift n \<noteq> 0"
    "node_slots n ! 0 = node_to_entry c" "node_at s c m" "node_parent m = r" "node_offset m = 0"
    "unat (node_shift n) = unat (node_shift m) + 6" "rnode s' = node_to_entry c"
    "addr_ok r" "addr_ok c" "c \<noteq> r" "alloc_ok s'"
proof -
  note h = assms [unfolded shrinks_def]
  then show inv: "rt_inv s" and rn: "rnode s = node_to_entry r" and r: "node_at s r n"
    and "node_parent n = 0" "node_shift n \<noteq> 0" "node_slots n ! 0 = node_to_entry c"
    and c: "node_at s c m" and "node_parent m = r" "node_offset m = 0"
      "unat (node_shift n) = unat (node_shift m) + 6"
    by blast+
  show "rnode s' = node_to_entry c" using h by (simp add: set_rnode_def)
  show "addr_ok r" "addr_ok c" using rt_inv_addr [OF inv] r c by blast+
  show "c \<noteq> r" using parent_neq [OF inv c] h by metis
  show "alloc_ok s'"
    by (rule alloc_ok_free [OF inv r]) (use h in \<open>auto simp: set_rnode_def node_at_def\<close>)
qed

lemma shrink_at:
  assumes "shrinks s r n c m s'"
  shows "node_at s' q x \<longleftrightarrow> q \<noteq> r \<and> (if q = c then x = m\<lparr>node_parent := 0\<rparr> else node_at s q x)"
  using assms shrinksD(14) [OF assms] unfolding shrinks_def by (auto simp: node_at_def set_rnode_def)

lemma shrink_keep:
  assumes h: "shrinks s r n c m s'" and "node_at s x y" "x \<noteq> r"
  shows "\<exists>y'. node_at s' x y' \<and> node_slots y' = node_slots y \<and> node_shift y' = node_shift y"
  using assms(2,3) shrinksD(7) [OF h] by (cases "x = c") (auto simp: shrink_at [OF h] dest: node_at_unique)

lemma shrink_only_child:
  assumes h: "shrinks s r n c m s'" and q: "node_at s q x" "node_parent x = r"
  shows "q = c"
proof -
  note D = shrinksD [OF h]
  have "r \<noteq> 0" using D(12) by (simp add: addr_ok_def)
  with q obtain y where y: "node_at s r y" "unat (node_offset x) < 64"
    "node_slots y ! unat (node_offset x) = node_to_entry q"
    using rt_invD(3) [OF D(1) q(1)] unfolding parent_ok_def by auto
  then have "y = n" using D(3) by (metis node_at_unique)
  moreover have "count_if (\<lambda>e. e \<noteq> 0) (node_slots n) = 1"
    using rt_invD(1) [OF D(1,3)] h by (simp add: shape_ok_def shrinks_def)
  ultimately have "unat (node_offset x) = 0"
    using count_if_1_unique [of "\<lambda>e. e \<noteq> 0" "node_slots n" "unat (node_offset x)" 0] y
      D(6) rt_inv_length [OF D(1,3)] by simp
  with y D(6,13) \<open>y = n\<close> show ?thesis using rt_inv_addr [OF D(1) q(1)] by (metis node_to_entry_inj)
qed

lemma shrink_child_ok:
  assumes h: "shrinks s r n c m s'" and q: "node_at s q x0" "q \<noteq> r"
    and x: "node_slots x = node_slots x0" "node_shift x = node_shift x0"
  shows "child_ok s' q x"
proof (rule child_ok_transfer [OF rt_invD(2) [OF shrinksD(1) [OF h] q(1)] x(2)])
  note D = shrinksD [OF h]
  fix z y assume z: "node_at s z y" "node_parent y = q"
  have "z \<noteq> c" using z D(7,8) q(2) by (metis node_at_unique)
  moreover have "z \<noteq> r" using z D(3,4) rt_inv_addr [OF D(1) q(1)] by (metis addr_ok_def node_at_unique)
  ultimately show "\<exists>y'. node_at s' z y' \<and> node_parent y' = q \<and> node_offset y' = node_offset y
      \<and> node_shift y' = node_shift y" using z by (simp add: shrink_at [OF h]) blast
qed (simp add: x)

lemma shrink_parent_ok:
  assumes h: "shrinks s r n c m s'" and q: "node_at s' q x"
  shows "parent_ok s' q x"
proof (cases "q = c")
  case True
  with q have "x = m\<lparr>node_parent := 0\<rparr>" by (simp add: shrink_at [OF h])
  then show ?thesis using True shrinksD(9,11) [OF h] by (simp add: parent_ok_def)
next
  case False
  note D = shrinksD [OF h]
  have x: "node_at s q x" "q \<noteq> r" using q False by (auto simp: shrink_at [OF h])
  have "node_parent x \<noteq> 0"
    using rt_inv_orphan [OF D(1) x(1)] D(2,12) x(2) rt_inv_addr [OF D(1) x(1)] by (metis node_to_entry_inj)
  moreover have "node_parent x \<noteq> r" using shrink_only_child [OF h x(1)] False by blast
  ultimately show ?thesis
    by (intro parent_ok_transfer [OF rt_invD(3) [OF D(1) x(1)]]) (use shrink_keep [OF h] in \<open>simp, simp, simp, metis\<close>)
qed

lemma shrink_inv:
  assumes h: "shrinks s r n c m s'"
  shows "rt_inv s'"
proof (rule rt_invI)
  note D = shrinksD [OF h]
  show "root_ok s'" using D(11,14) shrink_at [OF h, of c] by (fastforce simp: root_ok_def)
  show "alloc_ok s'" by (rule D)
  fix q x assume q: "node_at s' q x"
  obtain x0 where x0: "node_at s q x0" "q \<noteq> r" "node_slots x = node_slots x0" "node_shift x = node_shift x0"
    "node_count x = node_count x0" "node_nr_values x = node_nr_values x0"
    using q D(7) by (auto simp: shrink_at [OF h] split: if_splits)
  show "shape_ok q x" using rt_invD(1) [OF D(1) x0(1)] x0 by (simp add: shape_ok_def)
  show "child_ok s' q x" by (rule shrink_child_ok [OF h x0(1-4)])
  show "parent_ok s' q x" by (rule shrink_parent_ok [OF h q])
qed

lemma shrink_pfx:
  assumes h: "shrinks s r n c m s'" and "pfx s' q k b"
  shows "pfx s q k b"
  using assms(2)
proof induction
  note D = shrinksD [OF h]
  case (pfx_root q x k)
  then have "q = c"
    using rt_inv_orphan [OF shrink_inv [OF h], of q x] rt_inv_addr [OF shrink_inv [OF h]] D(11,13)
    by (metis node_to_entry_inj)
  moreover from this have "unat (node_shift m) = 6 * k" using pfx_root by (simp add: shrink_at [OF h])
  moreover from this have "pfx s r (Suc k) 0" using D by (intro pfx.pfx_root) auto
  moreover have "r \<noteq> 0" using D(12) by (simp add: addr_ok_def)
  ultimately show ?case using pfx.pfx_step [OF D(7), of k 0] D(8,9) by simp
next
  case (pfx_step q x k b)
  then have "q \<noteq> c" by (auto simp: shrink_at [OF h])
  with pfx_step show ?case by (auto simp: shrink_at [OF h] intro: pfx.pfx_step)
qed

lemma shrink_content:
  assumes h: "shrinks s r n c m s'"
  shows "content s' i e \<longleftrightarrow> content s i e"
proof (rule content_same [OF shrink_inv [OF h] shrinksD(1) [OF h]])
  note D = shrinksD [OF h]
  show "pfx s' q k b \<Longrightarrow> pfx s q k b" for q k b by (rule shrink_pfx [OF h])
  fix q x
  show "\<exists>y. node_at s q y \<and> node_slots y = node_slots x" if "node_at s' q x" "node_shift x = 0"
    using that D(7) by (auto simp: shrink_at [OF h] split: if_splits)
  assume q: "node_at s q x" "node_shift x = 0"
  then have "q \<noteq> r" using D(3,5) by (metis node_at_unique)
  then show "(\<exists>n. node_at s' q n \<and> node_slots n = node_slots x \<and> node_shift n = 0) \<or> (\<forall>i<64. node_slots x ! i = 0)"
    using shrink_keep [OF h q(1)] q(2) by metis
qed

lemma shrink_root:
  assumes "rt_inv s" "rnode s = node_to_entry r" "node_at s r n" "node_parent n = 0"
    and "node_count n = 1" "node_shift n \<noteq> 0"
    and "node_slots n ! 0 = node_to_entry c" "node_at s c m" "node_parent m = r"
      "node_offset m = 0" "unat (node_shift n) = unat (node_shift m) + 6"
    and "s' = (set_rnode (s\<lparr>rt_nodes := (rt_nodes s)(c \<mapsto> m\<lparr>node_parent := 0\<rparr>,
         r \<mapsto> n\<lparr>node_count := 0\<rparr>)\<rparr>) (node_to_entry c))\<lparr>rt_rcu := rt_rcu s @ [r]\<rparr>"
  shows "rt_inv s'" and "content s' i e \<longleftrightarrow> content s i e"
    and "node_at s' c (m\<lparr>node_parent := 0\<rparr>)" and "rnode s' = node_to_entry c"
proof -
  have h: "shrinks s r n c m s'" using assms unfolding shrinks_def by blast
  from shrink_inv [OF h] shrink_content [OF h] shrinksD(11,14) [OF h]
  show "rt_inv s'" "content s' i e \<longleftrightarrow> content s i e" "node_at s' c (m\<lparr>node_parent := 0\<rparr>)"
    "rnode s' = node_to_entry c"
    by (simp_all add: shrink_at [OF h])
qed

end
