(* ===== verification/Radix_Insert.thy ===== *)
theory Radix_Insert
  imports Radix_Root_Steps
begin

text \<open>
  Insertion: growing the tree, creating the path to a leaf, and storing the item.  The
  predicate \<open>enough\<close> says that the next allocations succeed; without it each loop may also
  stop with \<^term>\<open>- ENOMEM\<close>, leaving a well-formed tree with the same contents.
\<close>

definition enough :: "rt \<Rightarrow> nat \<Rightarrow> bool" where
  "enough s k \<longleftrightarrow> k \<le> length (rt_avail s) \<and> (\<forall>a \<in> set (take k (rt_avail s)). a \<noteq> 0)"

definition same_content :: "rt \<Rightarrow> rt \<Rightarrow> bool" where
  "same_content s s' \<longleftrightarrow> (\<forall>i e. content s' i e \<longleftrightarrow> content s i e)"

lemma same_content_refl [simp]: "same_content s s"
  by (simp add: same_content_def)

lemma same_content_trans: "same_content s t \<Longrightarrow> same_content t u \<Longrightarrow> same_content s u"
  by (simp add: same_content_def)

lemma enough_Suc:
  assumes "enough s (Suc k)"
  obtains c as where "rt_avail s = c # as" "c \<noteq> 0"
    "\<And>s'. rt_avail s' = as \<Longrightarrow> enough s' k"
  using assms by (cases "rt_avail s") (auto simp: enough_def)

lemma enough_le: "enough s k \<Longrightarrow> j \<le> k \<Longrightarrow> enough s j"
  unfolding enough_def using set_take_subset_set_take by fastforce

section \<open>Word arithmetic on shifts\<close>

lemma unat_shift_add:
  "unat (sh :: u32) = 6 * k \<Longrightarrow> k \<le> 11 \<Longrightarrow> unat (sh + 6) = 6 * Suc k"
  by (simp add: unat_word_ariths)

lemma unat_shift_sub: "unat (sh :: u32) = 6 * Suc k \<Longrightarrow> unat (sh - 6) = 6 * k"
  by (subst unat_sub) (auto simp: word_le_nat_alt)

lemma shift_zero: "unat (sh :: u32) = 6 * k \<Longrightarrow> sh = 0 \<longleftrightarrow> k = 0"
  by (metis mult_eq_0_iff unat_eq_zero zero_neq_numeral)

lemma sint_small: "unat (x :: u32) \<le> 66 \<Longrightarrow> sint x = int (unat x)"
  by (rule sint_small_u32) simp

lemma of_nat_unat_u32: "of_nat (unat (x :: u32)) = x"
  by simp

section \<open>Allocation\<close>

lemma node_alloc_eq:
  "radix_tree_node_alloc s par sh off cnt 0 =
     (case rt_avail s of [] \<Rightarrow> (0, s)
      | c # as \<Rightarrow> if c = 0 then (0, s\<lparr>rt_avail := as\<rparr>)
                  else (c, s\<lparr>rt_nodes := (rt_nodes s)(c \<mapsto> fresh_node par sh off cnt), rt_avail := as\<rparr>))"
  by (auto simp: radix_tree_node_alloc_def calloc_def fresh_node_def split: list.split)

lemma node_at_avail [simp]: "node_at (s\<lparr>rt_avail := as\<rparr>) = node_at s"
  by (auto simp: node_at_def fun_eq_iff)

lemma pfx_avail [simp]: "pfx (s\<lparr>rt_avail := as\<rparr>) p k b \<longleftrightarrow> pfx s p k b"
proof
  show "pfx (s\<lparr>rt_avail := as\<rparr>) p k b \<Longrightarrow> pfx s p k b" by (erule pfx_mono) auto
  show "pfx s p k b \<Longrightarrow> pfx (s\<lparr>rt_avail := as\<rparr>) p k b" by (erule pfx_mono) auto
qed

lemma content_avail [simp]: "content (s\<lparr>rt_avail := as\<rparr>) i e \<longleftrightarrow> content s i e"
  by (simp add: content_def)

lemma inv_avail_tl: "rt_inv s \<Longrightarrow> rt_avail s = a # as \<Longrightarrow> rt_inv (s\<lparr>rt_avail := as\<rparr>)"
  unfolding rt_inv_def root_ok_def alloc_ok_def
  by (auto simp: child_ok_def parent_ok_def split: if_splits)

text \<open>A failed allocation changes nothing but the list of coming results.\<close>

lemma alloc_fail:
  assumes "rt_inv s" "radix_tree_node_alloc s par sh off cnt 0 = (0, s1)"
  shows "rt_inv s1" "same_content s s1" "\<not> enough s (Suc k)"
  using assms by (auto simp: node_alloc_eq same_content_def enough_def inv_avail_tl
      split: list.splits if_splits)

lemma alloc_succ:
  assumes "radix_tree_node_alloc s par sh off cnt 0 = (c, s1)" "c \<noteq> 0"
  obtains as where "rt_avail s = c # as"
    "s1 = s\<lparr>rt_nodes := (rt_nodes s)(c \<mapsto> fresh_node par sh off cnt), rt_avail := as\<rparr>"
    "\<And>k s'. enough s (Suc k) \<Longrightarrow> rt_avail s' = as \<Longrightarrow> enough s' k"
  using assms by (cases "rt_avail s") (auto simp: node_alloc_eq enough_def split: if_splits)

section \<open>Extending the tree\<close>

lemma extend_maxshift_ok:
  assumes "unat sh = 6 * k" "k \<le> 10"
  shows "\<exists>M. unat (extend_maxshift i sh) = 6 * M \<and> k \<le> M \<and> M \<le> 10 \<and> unat i < 64 ^ Suc M"
  using assms
proof (induction "10 - k" arbitrary: k sh)
  case 0
  then have "k = 10" by simp
  moreover have "unat i < 64 ^ Suc k"
    using \<open>k = 10\<close> less_trans [OF unat_lt_2p64 [of i]] by simp
  ultimately show ?case
    using 0 shift_maxindex_nat [of sh k i] by (subst extend_maxshift.simps) auto
next
  case (Suc d)
  show ?case
  proof (cases "unat i < 64 ^ Suc k")
    case True
    then show ?thesis
      using Suc.prems shift_maxindex_nat [of sh k i] by (subst extend_maxshift.simps) auto
  next
    case False
    then have "extend_maxshift i sh = extend_maxshift i (sh + 6)"
      using Suc.prems shift_maxindex_nat [of sh k i] by (subst extend_maxshift.simps) simp
    moreover have "unat (sh + 6) = 6 * Suc k" using Suc.prems by (intro unat_shift_add) simp_all
    moreover have "d = 10 - Suc k" "Suc k \<le> 10" using Suc.hyps(2) by simp_all
    ultimately show ?thesis using Suc.hyps(1) [of "Suc k" "sh + 6"] by fastforce
  qed
qed

text \<open>One turn of the loop: the allocation fails, or a new root is on top.\<close>

lemma extend_loop_turn:
  assumes inv: "rt_inv s" and r: "rnode s = node_to_entry r" "node_at s r n"
    and lev: "unat (node_shift n) = 6 * K" "K < 10" "unat sh = 6 * Suc K"
  obtains (fail) s1 where "extend_loop s (rnode s) sh ms = Some (- ENOMEM, s1)" "rt_inv s1" "same_content s s1"
      "\<And>x. \<not> enough s (Suc x)"
  | (grow) c t where "extend_loop s (rnode s) sh ms =
        (if sh + 6 \<le> ms then extend_loop t (rnode t) (sh + 6) ms else Some (sint (ms + 6), t))"
      "rt_inv t" "same_content s t" "rnode t = node_to_entry c" "node_at t c (top_of r sh)"
      "\<And>x. enough s (Suc x) \<Longrightarrow> enough t x"
proof -
  obtain c s1 where al: "radix_tree_node_alloc s 0 sh 0 1 0 = (c, s1)" by fastforce
  show ?thesis
  proof (cases "c = 0")
    case True
    show ?thesis
    proof (rule fail)
      show "extend_loop s (rnode s) sh ms = Some (- ENOMEM, s1)" using al True by (subst extend_loop.simps) simp
    qed (rule alloc_fail [OF inv al [unfolded True]])+
  next
    case False
    obtain as where as: "rt_avail s = c # as"
      "s1 = s\<lparr>rt_nodes := (rt_nodes s)(c \<mapsto> fresh_node 0 sh 0 1), rt_avail := as\<rparr>"
      "\<And>k s'. enough s (Suc k) \<Longrightarrow> rt_avail s' = as \<Longrightarrow> enough s' k"
      using alloc_succ [OF al False] by blast
    define t where "t = set_rnode (s\<lparr>rt_avail := as, rt_nodes := (rt_nodes s)(c \<mapsto> top_of r sh,
         r \<mapsto> n\<lparr>node_parent := c\<rparr>)\<rparr>) (node_to_entry c)"
    note g = grow_root [OF inv r lev as(1) False t_def]
    have cr: "c \<noteq> r" using avail_fresh(5) [OF inv as(1) False] r(2) by auto
    have nr: "rt_nodes s r = Some n" using r(2) by (simp add: node_at_def)
    show ?thesis
    proof (rule grow)
      show "extend_loop s (rnode s) sh ms =
          (if sh + 6 \<le> ms then extend_loop t (rnode t) (sh + 6) ms else Some (sint (ms + 6), t))"
        using False cr nr rt_inv_addr [OF inv r(2)] unfolding r(1)
        by (subst extend_loop.simps)
          (simp add: al as(2) upd_node_def t_def set_rnode_def fun_upd_twist Let_def)
      show "same_content s t" using g(2) by (simp add: same_content_def)
      show "enough t x" if "enough s (Suc x)" for x
        using as(3) [OF that] by (simp add: t_def set_rnode_def)
    qed (rule g)+
  qed
qed

definition extend_post :: "rt \<Rightarrow> nat \<Rightarrow> nat \<Rightarrow> (int \<times> rt) option \<Rightarrow> bool" where
  "extend_post s k M res \<longleftrightarrow> (\<exists>ret s'. res = Some (ret, s') \<and> rt_inv s' \<and> same_content s s'
     \<and> (ret = - ENOMEM \<or> ret = 6 * (int M + 1) \<and>
          (\<exists>r n. rnode s' = node_to_entry r \<and> node_at s' r n \<and> unat (node_shift n) = 6 * M))
     \<and> (\<forall>x. enough s (k + x) \<longrightarrow> ret \<noteq> - ENOMEM \<and> enough s' x))"

lemma extend_post_fail:
  "rt_inv t \<Longrightarrow> same_content s t \<Longrightarrow> (\<And>x. \<not> enough s (Suc x)) \<Longrightarrow> extend_post s (Suc k) M (Some (- ENOMEM, t))"
  by (simp add: extend_post_def)

lemma extend_post_done:
  assumes "rt_inv t" "same_content s t" "rnode t = node_to_entry r" "node_at t r n" "unat (node_shift n) = 6 * M"
    and "\<And>x. enough s (Suc x) \<Longrightarrow> enough t x"
  shows "extend_post s (Suc 0) M (Some (6 * (int M + 1), t))"
  using assms by (auto simp: extend_post_def ENOMEM_def)

lemma extend_post_step:
  assumes "extend_post t k M res" "same_content s t" "\<And>x. enough s (Suc x) \<Longrightarrow> enough t x"
  shows "extend_post s (Suc k) M res"
  using assms unfolding extend_post_def by (fastforce intro: same_content_trans)

lemma extend_loop_post:
  assumes "rt_inv s" "rnode s = node_to_entry r" "node_at s r n" "unat (node_shift n) = 6 * K"
    and "unat sh = 6 * Suc K" "unat ms = 6 * M" "M = Suc K + d" "M \<le> 10"
  shows "extend_post s (Suc d) M (extend_loop s (rnode s) sh ms)"
  using assms
proof (induction d arbitrary: s r n K sh)
  case 0
  have K: "K < 10" using 0(7,8) by simp
  have sh6: "unat (sh + 6) = 6 * Suc (Suc K)" by (rule unat_shift_add [OF 0(5)]) (use K in simp)
  have "\<not> sh + 6 \<le> ms" using sh6 0 by (simp add: word_le_nat_alt)
  moreover have "sint (ms + 6) = 6 * (int M + 1)"
    using unat_shift_add [OF 0(6)] 0(8) by (subst sint_small) simp_all
  moreover have "unat (node_shift (top_of r sh)) = 6 * M" using 0(5,7) by simp
  ultimately have fin: "(if sh + 6 \<le> ms then extend_loop t (rnode t) (sh + 6) ms else Some (sint (ms + 6), t)) =
      Some (6 * (int M + 1), t)" and top: "unat (node_shift (top_of r sh)) = 6 * M" for t by simp_all
  from 0(1-4) K 0(5) show ?case
  proof (cases rule: extend_loop_turn [where ms = ms])
    case (fail s1)
    then show ?thesis using extend_post_fail by simp
  next
    case (grow c t)
    show ?thesis unfolding grow(1) fin by (rule extend_post_done [OF grow(2-5) top grow(6)])
  qed
next
  case (Suc d)
  have K: "K < 10" using Suc.prems(7,8) by simp
  have sh6: "unat (sh + 6) = 6 * Suc (Suc K)" by (rule unat_shift_add [OF Suc.prems(5)]) (use K in simp)
  from Suc.prems(1-4) K Suc.prems(5) show ?case
  proof (cases rule: extend_loop_turn [where ms = ms])
    case (fail s1)
    then show ?thesis using extend_post_fail by simp
  next
    case (grow c t)
    have "sh + 6 \<le> ms" using sh6 Suc.prems by (simp add: word_le_nat_alt)
    moreover have "extend_post t (Suc d) M (extend_loop t (rnode t) (sh + 6) ms)"
      by (rule Suc.IH [OF grow(2,4,5) _ sh6 Suc.prems(6)]) (use Suc.prems in simp_all)
    ultimately show ?thesis using grow(1) extend_post_step [OF _ grow(3,6)] by simp
  qed
qed

lemma extend_loop_ok:
  assumes "rt_inv s" "rnode s = node_to_entry r" "node_at s r n" "unat (node_shift n) = 6 * K"
    and "unat sh = 6 * Suc K" "unat ms = 6 * M" "K < M" "M \<le> 10"
  shows "extend_post s (M - K) M (extend_loop s (rnode s) sh ms)"
proof -
  obtain d where "M = Suc K + d" using assms(7) less_imp_Suc_add by force
  with extend_loop_post [OF assms(1-6) this assms(8)] show ?thesis by simp
qed

section \<open>Creating the path to a leaf\<close>

text \<open>What \<open>create_loop\<close> promises, started with at most \<open>k\<close> allocations to do.\<close>

definition create_post :: "rt \<Rightarrow> u64 \<Rightarrow> nat \<Rightarrow> (int \<times> u64 \<times> slot_ptr \<times> rt) option \<Rightarrow> bool" where
  "create_post s i k res \<longleftrightarrow> (\<exists>ret q sl s'. res = Some (ret, q, sl, s') \<and> rt_inv s' \<and> same_content s s'
     \<and> (ret = - ENOMEM \<or> ret = 0 \<and> sl = NodeSlot q (unat i mod 64) \<and> pfx s' q 0 (unat i div 64)
          \<and> (\<exists>n. node_at s' q n \<and> node_shift n = 0))
     \<and> (\<forall>x. enough s (k + x) \<longrightarrow> ret = 0 \<and> enough s' x))"

lemma create_post_fail:
  assumes "rt_inv s1" "same_content s s1" "\<And>x. \<not> enough s (k + x)"
  shows "create_post s i k (Some (- ENOMEM, q, sl, s1))"
  using assms by (auto simp: create_post_def)

lemma create_post_step:
  assumes "create_post s1 i k res" "same_content s s1" "\<And>x. enough s (k' + x) \<Longrightarrow> enough s1 (k + x)"
  shows "create_post s i k' res"
proof -
  obtain ret q sl s' where r: "res = Some (ret, q, sl, s')" "rt_inv s'" "same_content s1 s'"
    "ret = - ENOMEM \<or> ret = 0 \<and> sl = NodeSlot q (unat i mod 64) \<and> pfx s' q 0 (unat i div 64)
          \<and> (\<exists>n. node_at s' q n \<and> node_shift n = 0)"
    "\<forall>x. enough s1 (k + x) \<longrightarrow> ret = 0 \<and> enough s' x"
    using assms(1) unfolding create_post_def by blast
  have "same_content s s'" using assms(2) r(3) by (rule same_content_trans)
  with r assms(3) show ?thesis unfolding create_post_def by blast
qed

lemma digit_step: "64 * (i div 64 ^ Suc (Suc k)) + i div 64 ^ Suc k mod 64 = i div (64 :: nat) ^ Suc k"
  using div_mult_mod_eq [of "i div 64 ^ Suc k" 64] by (simp only: div_pow64 mult.commute)

text \<open>
  One turn of the loop at a node whose slot has been chosen: into the child that is there, or,
  when the slot is null, into a fresh one, or out with \<^term>\<open>- ENOMEM\<close>.
\<close>

lemma create_loop_child:
  assumes inv: "rt_inv s" and c: "node_at s c m" "unat (node_shift m) = 6 * k" and sh: "sh > 0"
  shows "create_loop s i sh p (node_to_entry c) sl off =
    create_loop s i (sh - 6) c (node_slots m ! (unat i div 64 ^ k mod 64)) (NodeSlot c (unat i div 64 ^ k mod 64))
      (slot_offset (node_shift m) i)"
  using sh descend_ok [OF inv c, of i] slot_offset_nat [OF c(2), of i] rt_inv_addr [OF inv c(1)]
  by (subst create_loop.simps) (simp add: Let_def)

lemma create_loop_fail:
  assumes "rt_inv s" "radix_tree_node_alloc s p (sh - 6) off 0 0 = (0, s1)" "sh > 0"
  shows "create_post s i (Suc k) (create_loop s i sh p 0 sl off)"
proof -
  note f = alloc_fail [OF assms(1,2)]
  have "create_loop s i sh p 0 sl off = Some (- ENOMEM, p, sl, s1)"
    using assms(2,3) by (subst create_loop.simps) simp
  moreover have "\<not> enough s (Suc k + x)" for x using f(3) by simp
  ultimately show ?thesis using create_post_fail [OF f(1,2)] by simp
qed

lemma create_loop_fresh:
  assumes inv: "rt_inv s" and p: "node_at s p n" "unat (node_shift n) = 6 * Suc k"
    and al: "radix_tree_node_alloc s p (sh - 6) off 0 0 = (c, s1)" "c \<noteq> 0"
    and d: "d < 64" "node_slots n ! d = 0" "unat off = d" "Suc k = 10 \<longrightarrow> d < 16"
    and sh: "sh > 0" "unat (sh - 6) = 6 * k"
  obtains t where "hangs s p n k d c (sh - 6) off t" "\<And>x. enough s (Suc x) \<Longrightarrow> enough t x"
    "create_loop s i sh p 0 (NodeSlot p d) off =
       create_loop t i (sh - 6) c 0 (NodeSlot c (unat i div 64 ^ k mod 64)) (slot_offset (sh - 6) i)"
proof -
  obtain as where as: "rt_avail s = c # as"
    "s1 = s\<lparr>rt_nodes := (rt_nodes s)(c \<mapsto> fresh_node p (sh - 6) off 0), rt_avail := as\<rparr>"
    "\<And>k s'. enough s (Suc k) \<Longrightarrow> rt_avail s' = as \<Longrightarrow> enough s' k"
    using alloc_succ [OF al] by blast
  let ?c = "fresh_node p (sh - 6) off 0"
  define t where "t = s\<lparr>rt_avail := as, rt_nodes := (rt_nodes s)(c \<mapsto> ?c, p \<mapsto> hung n d c)\<rparr>"
  have h: "hangs s p n k d c (sh - 6) off t"
    unfolding hangs_def using inv p d sh as(1) al(2) t_def by blast
  have c: "node_at t c ?c" "unat (node_shift ?c) = 6 * k" using hangsD(13) [OF h] sh by (simp_all add: hang_at [OF h])
  have np: "rt_nodes s p = Some n" using p(1) by (simp add: node_at_def)
  have "create_loop s i sh p 0 (NodeSlot p d) off =
     create_loop t i (sh - 6) c 0 (NodeSlot c (unat i div 64 ^ k mod 64)) (slot_offset (sh - 6) i)"
    using sh al(2) d np hangsD(11,12,13,16) [OF h] descend_ok [OF hang_inv [OF h] c, of i] slot_offset_nat [OF sh(2), of i]
    by (subst create_loop.simps) (simp add: Let_def al(1) as(2) upd_node_def t_def)
  then show ?thesis by (intro that [OF h]) (use as(3) in \<open>simp_all add: t_def\<close>)
qed

lemma create_loop_node:
  assumes "rt_inv s" "pfx s p k (unat i div 64 ^ Suc k)" "node_at s p n" "unat sh = 6 * k"
    and "d = unat i div 64 ^ k mod 64" "unat off = d"
  shows "create_post s i k (create_loop s i sh p (node_slots n ! d) (NodeSlot p d) off)"
  using assms
proof (induction k arbitrary: s p n sh d off)
  case 0
  then have sh: "sh = 0" using shift_zero [of sh 0] by simp
  have "unat (node_shift n) = 6 * 0" using pfx_node_at [OF 0(2)] 0(3) node_at_unique by blast
  then have "node_shift n = 0" using shift_zero [of _ 0] by simp
  with 0 have "create_post s i 0 (Some (0, p, NodeSlot p d, s))"
    by (auto simp: create_post_def)
  moreover have "create_loop s i sh p (node_slots n ! d) (NodeSlot p d) off = Some (0, p, NodeSlot p d, s)"
    using sh by (subst create_loop.simps) simp
  ultimately show ?case by simp
next
  case (Suc k)
  have d: "d < 64" using Suc.prems(5) by simp
  have lev: "unat (node_shift n) = 6 * Suc k"
    using pfx_node_at [OF Suc.prems(2)] Suc.prems(3) node_at_unique by blast
  have sh: "sh > 0" using Suc.prems(4) by (simp add: word_less_nat_alt)
  have sh': "unat (sh - 6) = 6 * k" using Suc.prems(4) by (rule unat_shift_sub)
  show ?case
  proof (cases "node_slots n ! d = 0")
    case False
    then obtain c m where c: "node_slots n ! d = node_to_entry c" "node_at s c m"
      "pfx s c k (64 * (unat i div 64 ^ Suc (Suc k)) + d)" "unat (node_shift m) = 6 * k"
      using pfx_down [OF Suc.prems(1,2,3) d] by blast
    have px: "pfx s c k (unat i div 64 ^ Suc k)" using c(3) digit_step Suc.prems(5) by metis
    from Suc.IH [OF Suc.prems(1) px c(2) sh' refl slot_offset_nat [OF c(4)]]
    have "create_post s i k (create_loop s i sh p (node_to_entry c) (NodeSlot p d) off)"
      by (simp add: create_loop_child [OF Suc.prems(1) c(2,4) sh])
    then show ?thesis unfolding c(1)
      by (rule create_post_step) (auto intro: enough_le)
  next
    case True
    obtain c s1 where al: "radix_tree_node_alloc s p (sh - 6) off 0 0 = (c, s1)" by fastforce
    show ?thesis
    proof (cases "c = 0")
      case c0: True
      then show ?thesis using create_loop_fail [OF Suc.prems(1) _ sh] al True by simp
    next
      case False
      have "Suc k = 10 \<longrightarrow> d < 16" using Suc.prems(5) unat_lt_2p64 [of i] by (auto simp: less_mult_imp_div_less)
      then obtain t where h: "hangs s p n k d c (sh - 6) off t" "\<And>x. enough s (Suc x) \<Longrightarrow> enough t x"
        and go: "create_loop s i sh p 0 (NodeSlot p d) off =
          create_loop t i (sh - 6) c 0 (NodeSlot c (unat i div 64 ^ k mod 64)) (slot_offset (sh - 6) i)"
        using create_loop_fresh [OF Suc.prems(1,3) lev al False d True Suc.prems(6) _ sh sh'] by blast
      have px: "pfx t c k (unat i div 64 ^ Suc k)"
        using hang_new(2) [OF h(1) Suc.prems(2)] digit_step Suc.prems(5) by metis
      from Suc.IH [OF hang_inv [OF h(1)] px hang_new(1) [OF h(1)] sh' refl slot_offset_nat [OF sh']]
      have "create_post t i k (create_loop s i sh p 0 (NodeSlot p d) off)" using go by simp
      then show ?thesis unfolding True
        by (rule create_post_step) (use hang_content [OF h(1)] h(2) in \<open>simp_all add: same_content_def\<close>)
    qed
  qed
qed

section \<open>From the root\<close>

lemma create_loop_root:
  assumes inv: "rt_inv s" and r: "rnode s = node_to_entry r" "node_at s r n"
    and K: "unat (node_shift n) = 6 * K" "unat sh = 6 * Suc K" "unat i < 64 ^ Suc K"
  shows "create_post s i K (create_loop s i sh 0 (rnode s) RootSlot 0)"
proof -
  let ?e = "unat i div 64 ^ K mod 64"
  have sh: "sh > 0" using K(2) by (simp add: word_less_nat_alt)
  have px: "pfx s r K (unat i div 64 ^ Suc K)" using pfx_rootI [OF inv r K(1)] K(3) by simp
  have ar: "addr_ok r" using inv r(2) by (rule rt_inv_addr)
  have "create_loop s i sh 0 (rnode s) RootSlot 0 =
      create_loop s i (sh - 6) r (node_slots n ! ?e) (NodeSlot r ?e) (slot_offset (node_shift n) i)"
    using sh descend_ok [OF inv r(2) K(1), of i] slot_offset_nat [OF K(1), of i] r(1) ar
    by (subst create_loop.simps) (simp add: Let_def)
  with create_loop_node [OF inv px r(2) unat_shift_sub [OF K(2)] refl slot_offset_nat [OF K(1)]]
  show ?thesis by simp
qed

lemma create_loop_empty:
  assumes inv: "rt_inv s" and r0: "rnode s = 0"
    and K: "K \<le> 10" "unat sh = 6 * Suc K" "unat i < 64 ^ Suc K"
  shows "create_post s i (Suc K) (create_loop s i sh 0 0 RootSlot 0)"
proof -
  let ?e = "unat i div 64 ^ K mod 64"
  have sh: "sh > 0" using K(2) by (simp add: word_less_nat_alt)
  have sh': "unat (sh - 6) = 6 * K" using K(2) by (rule unat_shift_sub)
  obtain c s1 where al: "radix_tree_node_alloc s 0 (sh - 6) 0 0 0 = (c, s1)" by fastforce
  show ?thesis
  proof (cases "c = 0")
    case True
    then show ?thesis using create_loop_fail [OF inv _ sh] al by simp
  next
    case False
    obtain as where as: "rt_avail s = c # as"
      "s1 = s\<lparr>rt_nodes := (rt_nodes s)(c \<mapsto> fresh_node 0 (sh - 6) 0 0), rt_avail := as\<rparr>"
      "\<And>k s'. enough s (Suc k) \<Longrightarrow> rt_avail s' = as \<Longrightarrow> enough s' k"
      using alloc_succ [OF al False] by blast
    let ?n = "fresh_node 0 (sh - 6) 0 0"
    define t where "t = set_rnode (s\<lparr>rt_nodes := (rt_nodes s)(c \<mapsto> ?n), rt_avail := as\<rparr>) (node_to_entry c)"
    note f = first_root [OF inv r0 sh' K(1) as(1) False t_def]
    have adc: "addr_ok c" using avail_fresh(1) [OF inv as(1) False] .
    have lev: "unat (node_shift ?n) = 6 * K" using sh' by simp
    have px: "pfx t c K (unat i div 64 ^ Suc K)"
      using pfx_rootI [OF f(1,4,3) lev] K(3) by simp
    have "create_loop s i sh 0 0 RootSlot 0 =
        create_loop t i (sh - 6) c (node_slots ?n ! ?e) (NodeSlot c ?e) (slot_offset (node_shift ?n) i)"
      using sh descend_ok [OF f(1,3) lev, of i] slot_offset_nat [OF lev, of i] False adc
      by (subst create_loop.simps) (simp add: Let_def al as(2) flip: t_def)
    with create_loop_node [OF f(1) px f(3) sh' refl slot_offset_nat [OF lev]]
    have "create_post t i K (create_loop s i sh 0 0 RootSlot 0)" by simp
    then show ?thesis
      by (rule create_post_step)
        (use f(2) content_empty [OF inv r0] as(3) in \<open>simp_all add: same_content_def t_def set_rnode_def\<close>)
  qed
qed

lemma create_post_20:
  assumes "create_post s i k res" "k \<le> 20"
  shows "create_post s i 20 res"
  using create_post_step [OF assms(1), of s 20] assms(2) by (simp add: enough_le)

lemma raw_create_empty:
  assumes inv: "rt_inv s" and r0: "rnode s = 0" and i: "i \<noteq> 0"
  shows "create_post s i 20 (raw_radix_tree_create s i)"
proof -
  have "i > 0" using i by (simp add: word_neq_0_conv)
  obtain M where M: "unat (extend_maxshift i 0) = 6 * M" "M \<le> 10" "unat i < 64 ^ Suc M"
    using extend_maxshift_ok [of 0 0 i] by auto
  let ?ms = "extend_maxshift i 0 + 6"
  have ms: "unat ?ms = 6 * Suc M" using unat_shift_add [OF M(1)] M(2) by simp
  then have "sint ?ms = int (6 * Suc M)" using M(2) by (subst sint_small) simp_all
  moreover have "word_of_int (int (6 * Suc M)) = ?ms"
    using ms by (metis of_nat_unat_u32 of_int_of_nat_eq)
  ultimately have "raw_radix_tree_create s i = create_loop s i ?ms 0 0 RootSlot 0"
    using \<open>i > 0\<close> r0
    by (simp add: raw_radix_tree_create_def load_root_empty radix_tree_extend_def add.commute)
  with create_loop_empty [OF inv r0 M(2) ms M(3)] show ?thesis
    using create_post_20 [of s i "Suc M"] M(2) by simp
qed

lemma raw_create_grow:
  assumes inv: "rt_inv s" and r: "rnode s = node_to_entry r" "node_at s r n"
    and K: "K \<le> 10" "unat (node_shift n) = 6 * K" and big: "64 ^ Suc K \<le> unat i"
  shows "create_post s i 20 (raw_radix_tree_create s i)"
proof -
  have r0: "rnode s \<noteq> 0" using r(1) by simp
  have sh: "unat (node_shift n + 6) = 6 * Suc K" using K by (intro unat_shift_add) simp_all
  have cmp: "node_maxindex n < i"
    using shift_maxindex_nat [OF K(2,1)] big by (simp add: node_maxindex_def)
  note lr = load_root_tree [OF inv r]
  have "K \<noteq> 10" using big unat_lt_2p64 [of i] by auto
  then have "Suc K \<le> 10" using K(1) by simp
  then obtain M where M: "unat (extend_maxshift i (node_shift n + 6)) = 6 * M" "Suc K \<le> M" "M \<le> 10"
    "unat i < 64 ^ Suc M" using extend_maxshift_ok [OF sh, of i] by auto
  let ?ms = "extend_maxshift i (node_shift n + 6)"
  have "K < M" using M(2) by simp
  from extend_loop_ok [OF inv r K(2) sh M(1) this M(3)] obtain ret s' where
    e: "extend_loop s (rnode s) (node_shift n + 6) ?ms = Some (ret, s')" "rt_inv s'" "same_content s s'"
    "ret = - ENOMEM \<or> ret = 6 * (int M + 1) \<and> (\<exists>r' n'. rnode s' = node_to_entry r' \<and> node_at s' r' n'
        \<and> unat (node_shift n') = 6 * M)"
    "\<forall>x. enough s (M - K + x) \<longrightarrow> ret \<noteq> - ENOMEM \<and> enough s' x" unfolding extend_post_def by blast
  have ext: "radix_tree_extend s i (node_shift n + 6) = Some (ret, s')"
    using e(1) r0 by (simp add: radix_tree_extend_def)
  show ?thesis
  proof (cases "ret = - ENOMEM")
    case True
    then have "raw_radix_tree_create s i = Some (- ENOMEM, 0, RootSlot, s')"
      using cmp ext by (simp add: raw_radix_tree_create_def lr ENOMEM_def)
    moreover have "\<not> enough s (20 + x)" for x
      using e(5) [rule_format, of 0] True enough_le [of s "20 + x" "M - K"] M(3) by auto
    ultimately show ?thesis using create_post_fail [OF e(2,3)] by simp
  next
    case False
    with e(4) obtain r' n' where r': "ret = 6 * (int M + 1)" "rnode s' = node_to_entry r'"
      "node_at s' r' n'" "unat (node_shift n') = 6 * M" by blast
    have ms: "unat (?ms + 6) = 6 * Suc M" using unat_shift_add [OF M(1)] M(3) by simp
    have "word_of_int ret = ?ms + 6"
      using ms r'(1) by (metis of_nat_unat_u32 of_int_of_nat_eq of_nat_Suc of_nat_mult of_nat_numeral add.commute)
    then have "raw_radix_tree_create s i = create_loop s' i (?ms + 6) 0 (rnode s') RootSlot 0"
      using cmp ext r'(1) by (simp add: raw_radix_tree_create_def lr)
    with create_loop_root [OF e(2) r'(2-4) ms M(4)]
    have "create_post s' i M (raw_radix_tree_create s i)" by simp
    moreover have "enough s' (M + x)" if "enough s (20 + x)" for x
      using e(5) enough_le [OF that, of "M - K + (M + x)"] M(3) by simp
    ultimately show ?thesis using e(3) by (blast intro: create_post_step)
  qed
qed

lemma raw_create_ok:
  assumes inv: "rt_inv s" and start: "rnode s \<noteq> 0 \<or> i \<noteq> 0"
  shows "create_post s i 20 (raw_radix_tree_create s i)"
proof (cases "rnode s = 0")
  case True
  with raw_create_empty [OF inv] start show ?thesis by simp
next
  case False
  then obtain r n where r: "rnode s = node_to_entry r" "node_at s r n"
    using rt_inv_root [OF inv] by metis
  obtain K where K: "K \<le> 10" "unat (node_shift n) = 6 * K" using rt_inv_level [OF inv r(2)] by blast
  show ?thesis
  proof (cases "unat i < 64 ^ Suc K")
    case True
    have sh: "unat (node_shift n + 6) = 6 * Suc K" using K by (intro unat_shift_add) simp_all
    have "\<not> node_maxindex n < i" using True shift_maxindex_nat [OF K(2,1)] by (simp add: node_maxindex_def)
    then have "raw_radix_tree_create s i = create_loop s i (node_shift n + 6) 0 (rnode s) RootSlot 0"
      using r(1) by (simp add: raw_radix_tree_create_def load_root_tree [OF inv r])
    with create_loop_root [OF inv r K(2) sh True] show ?thesis
      using create_post_20 [of s i K] K(1) by simp
  qed (use raw_create_grow [OF inv r K] in simp)
qed

section \<open>Storing the item\<close>

text \<open>
  The state after a store of \<open>e\<close> at index \<open>i\<close>: the contents are those of \<open>s\<close> but for
  \<open>i\<close>; a store of 0 removes the index.
\<close>

definition stored :: "rt \<Rightarrow> u64 \<Rightarrow> u64 \<Rightarrow> rt \<Rightarrow> bool" where
  "stored s i e s' \<longleftrightarrow> (\<forall>j x. content s' j x \<longleftrightarrow> (if j = unat i then x = e \<and> x \<noteq> 0 else content s j x))"

lemma stored_same1: "same_content s t \<Longrightarrow> stored t i e u \<Longrightarrow> stored s i e u"
  by (simp add: stored_def same_content_def)

lemma stored_same2: "stored s i e t \<Longrightarrow> same_content t u \<Longrightarrow> stored s i e u"
  by (simp add: stored_def same_content_def)

lemma lookup_stored:
  assumes "rt_inv s" "rt_inv s'" "stored s i e s'"
  shows "radix_tree_lookup s' j = (if j = i then Some e else radix_tree_lookup s j)"
proof (cases "j = i")
  case True
  obtain x where x: "radix_tree_lookup s' i = Some x" "\<And>y. content s' (unat i) y \<longleftrightarrow> y \<noteq> 0 \<and> y = x"
    using lookup_ok [OF assms(2), of i] by blast
  have "content s' (unat i) y \<longleftrightarrow> y = e \<and> y \<noteq> 0" for y using assms(3) by (simp add: stored_def)
  then have "x = e" using x(2) by metis
  with x(1) True show ?thesis by simp
next
  case False
  then have "unat j \<noteq> unat i" by (simp add: word_unat_eq_iff)
  with assms(3) lookup_cong [OF assms(1,2)] False show ?thesis by (simp add: stored_def)
qed

lemma leaf_stored:
  assumes "rt_inv s" "node_at s q n" "node_shift n = 0" "pfx s q 0 (unat i div 64)" "d = unat i mod 64"
    and "node_parent n' = node_parent n" "node_offset n' = node_offset n" "node_shift n' = 0"
    and "node_slots n' = (node_slots n)[d := e]" "shape_ok q n'"
  shows "rt_inv (put s q n')" "stored s i e (put s q n')"
proof -
  show inv: "rt_inv (put s q n')" using assms by (intro leaf_put_inv) simp_all
  show "stored s i e (put s q n')"
    unfolding stored_def
    using leaf_put_content [OF assms(1) inv assms(2,3,6-8,4,9)] assms(5) by simp
qed

lemma insert_entries_ok:
  assumes inv: "rt_inv s" and q: "node_at s q n" "node_shift n = 0" "pfx s q 0 (unat i div 64)"
    and item: "item \<noteq> 0"
  shows "\<exists>ret s'. insert_entries s q (NodeSlot q (unat i mod 64)) item = Some (ret, s') \<and> rt_inv s'
     \<and> rt_avail s' = rt_avail s
     \<and> (if node_slots n ! (unat i mod 64) = 0 then ret = 1 \<and> stored s i item s' else ret = - EEXIST \<and> s' = s)"
proof -
  let ?d = "unat i mod 64"
  have len: "length (node_slots n) = 64" using inv q(1) by (rule rt_inv_length)
  have q0: "q \<noteq> 0" using rt_inv_addr [OF inv q(1)] by (simp add: addr_ok_def)
  have nq: "rt_nodes s q = Some n" using q(1) by (simp add: node_at_def)
  show ?thesis
  proof (cases "node_slots n ! ?d = 0")
    case False
    then show ?thesis using inv nq len by (simp add: insert_entries_def)
  next
    case True
    let ?n = "n\<lparr>node_slots := (node_slots n)[?d := item], node_count := node_count n + 1,
        node_nr_values := (if xa_is_value item then node_nr_values n + 1 else node_nr_values n)\<rparr>"
    have "insert_entries s q (NodeSlot q ?d) item = Some (1, put s q ?n)"
      using True nq len q0 by (simp add: insert_entries_def upd_node_def)
    moreover have "shape_ok q ?n"
      using rt_invD(1) [OF inv q(1)] shape_count_le [OF rt_invD(1) [OF inv q(1)]] True item q(2)
      by (intro shape_store [of q n ?d ?n item]) (auto simp: unat_inc)
    ultimately show ?thesis
      using leaf_stored [OF inv q refl, of ?n item] q(2) True by simp
  qed
qed

text \<open>The three outcomes of an insertion.\<close>

lemma insert_ok:
  assumes inv: "rt_inv s" and start: "rnode s \<noteq> 0 \<or> i \<noteq> 0" and item: "item \<noteq> 0"
  shows "\<exists>ret s'. radix_tree_insert s i item = Some (ret, s') \<and> rt_inv s'
     \<and> (ret = 0 \<and> (\<forall>e. \<not> content s (unat i) e) \<and> stored s i item s'
        \<or> ret = - EEXIST \<and> (\<exists>e. content s (unat i) e) \<and> same_content s s'
        \<or> ret = - ENOMEM \<and> same_content s s')
     \<and> (\<forall>x. enough s (20 + x) \<longrightarrow> ret \<noteq> - ENOMEM \<and> enough s' x)"
proof -
  obtain er q sl s1 where c: "raw_radix_tree_create s i = Some (er, q, sl, s1)" "rt_inv s1" "same_content s s1"
    "er = - ENOMEM \<or> er = 0 \<and> sl = NodeSlot q (unat i mod 64) \<and> pfx s1 q 0 (unat i div 64)
          \<and> (\<exists>n. node_at s1 q n \<and> node_shift n = 0)"
    "\<forall>x. enough s (20 + x) \<longrightarrow> er = 0 \<and> enough s1 x"
    using raw_create_ok [OF inv start] unfolding create_post_def by blast
  show ?thesis
  proof (cases "er = 0")
    case False
    with c(4) have er: "er = - ENOMEM" by blast
    with False c(1) have "radix_tree_insert s i item = Some (- ENOMEM, s1)"
      by (simp add: radix_tree_insert_def)
    with c False show ?thesis by blast
  next
    case True
    then obtain n where n: "sl = NodeSlot q (unat i mod 64)" "pfx s1 q 0 (unat i div 64)"
      "node_at s1 q n" "node_shift n = 0" using c(4) by (auto simp: ENOMEM_def)
    from insert_entries_ok [OF c(2) n(3,4,2) item] obtain ret s' where
      ie: "insert_entries s1 q sl item = Some (ret, s')" "rt_inv s'" "rt_avail s' = rt_avail s1"
      "if node_slots n ! (unat i mod 64) = 0 then ret = 1 \<and> stored s1 i item s' else ret = - EEXIST \<and> s' = s1"
      unfolding n(1) by blast
    have "radix_tree_insert s i item = Some (if ret < 0 then ret else 0, s')"
      using True c(1) ie(1) by (simp add: radix_tree_insert_def)
    moreover have "content s (unat i) e \<longleftrightarrow> e \<noteq> 0 \<and> node_slots n ! (unat i mod 64) = e" for e
      using content_leaf [OF c(2) n(2,3)] c(3) by (simp add: same_content_def)
    moreover have "enough s' x" if "enough s (20 + x)" for x
      using c(5) that ie(3) by (auto simp: enough_def)
    ultimately show ?thesis using ie(2,4) c(3) stored_same1 [OF c(3)]
      by (cases "node_slots n ! (unat i mod 64) = 0") (auto simp: EEXIST_def ENOMEM_def)
  qed
qed

end
