(* ===== verification/Radix_Delete.thy ===== *)
theory Radix_Delete
  imports Radix_Insert
begin

text \<open>
  Deletion and replacement.  Emptied nodes are unlinked bottom up and queued for release
  (\<open>delete_node\<close>), and a root with a single child at slot 0 is replaced by that child
  (\<open>radix_tree_shrink\<close>).  Both keep the invariant and the contents.
\<close>

section \<open>Shrinking\<close>

lemma shrink_ok:
  assumes "rt_inv s" "rnode s = node_to_entry r" "node_at s r n" "unat (node_shift n) = 6 * K"
  shows "\<exists>b s'. radix_tree_shrink s sk = Some (b, s') \<and> rt_inv s' \<and> same_content s s' \<and> rt_avail s' = rt_avail s"
  using assms
proof (induction K arbitrary: s r n sk)
  case 0
  then have "node_shift n = 0" using shift_zero [of _ 0] by simp
  then have "radix_tree_shrink s sk = Some (sk, s)"
    using 0 rt_inv_addr [OF 0(1,3)] rt_inv_length [OF 0(1,3)]
    by (subst radix_tree_shrink.simps) (auto simp: node_at_def)
  with 0 show ?case by simp
next
  case (Suc K)
  have ar: "addr_ok r" using Suc.prems(1,3) by (rule rt_inv_addr)
  have len: "length (node_slots n) = 64" using Suc.prems(1,3) by (rule rt_inv_length)
  have nr: "rt_nodes s r = Some n" using Suc.prems(3) by (simp add: node_at_def)
  have nz: "node_shift n \<noteq> 0" using Suc.prems(4) shift_zero by blast
  show ?case
  proof (cases "node_count n = 1 \<and> node_slots n ! 0 \<noteq> 0")
    case False
    then have "radix_tree_shrink s sk = Some (sk, s)"
      using Suc.prems(2) ar nr len by (subst radix_tree_shrink.simps) auto
    with Suc.prems(1) show ?thesis by simp
  next
    case True
    from rt_inv_child [OF Suc.prems(1,3,4), of 0] True
    obtain c m where c: "node_slots n ! 0 = node_to_entry c" "node_at s c m" "node_parent m = r"
      "unat (node_offset m) = 0" "unat (node_shift m) = 6 * K" by auto
    have par: "node_parent n = 0" using Suc.prems(1-3)
      by (metis node_to_entry_inj node_to_entry_nonzero rt_inv_addr rt_inv_root node_at_unique)
    define t where "t = (set_rnode (s\<lparr>rt_nodes := (rt_nodes s)(c \<mapsto> m\<lparr>node_parent := 0\<rparr>,
         r \<mapsto> n\<lparr>node_count := 0\<rparr>)\<rparr>) (node_to_entry c))\<lparr>rt_rcu := rt_rcu s @ [r]\<rparr>"
    have off: "node_offset m = 0" using c(4) by (simp add: unat_eq_0)
    have step: "unat (node_shift n) = unat (node_shift m) + 6" using c(5) Suc.prems(4) by simp
    have cnt: "node_count n = 1" using True by simp
    note t = shrink_root [OF Suc.prems(1-3) par cnt nz c(1-3) off step t_def]
    have cr: "c \<noteq> r" using parent_neq [OF Suc.prems(1) c(2)] c(3) by metis
    have ac: "addr_ok c" using Suc.prems(1) c(2) by (rule rt_inv_addr)
    have nc: "rt_nodes s c = Some m" using c(2) by (simp add: node_at_def)
    have "t = (set_rnode s (node_to_entry c))\<lparr>rt_nodes := (rt_nodes s)(c \<mapsto> m\<lparr>node_parent := 0\<rparr>,
         r \<mapsto> n\<lparr>node_count := 0\<rparr>), rt_rcu := rt_rcu s @ [r]\<rparr>"
      by (cases s) (simp add: t_def set_rnode_def)
    moreover have "node_slots n \<noteq> []" using len by auto
    ultimately have "radix_tree_shrink s sk = radix_tree_shrink t True"
      using Suc.prems(2) ar nr True c(1) nz ac cr nc
      by (subst radix_tree_shrink.simps)
        (simp add: upd_node_def set_rnode_def radix_tree_node_free_def)
    moreover have "same_content s t" using t(2) by (simp add: same_content_def)
    moreover have "rt_avail t = rt_avail s" by (simp add: t_def set_rnode_def)
    ultimately show ?thesis
      using Suc.IH [OF t(1,4,3), of True] c(5) same_content_trans by fastforce
  qed
qed

section \<open>Unlinking emptied nodes\<close>

lemma delete_node_ok:
  assumes "rt_inv s" "node_at s p n" "unat (node_shift n) = 6 * k"
  shows "\<exists>b s'. delete_node s p dl = Some (b, s') \<and> rt_inv s' \<and> same_content s s' \<and> rt_avail s' = rt_avail s"
  using assms
proof (induction "10 - k" arbitrary: s p n k dl rule: less_induct)
  case less
  have np: "rt_nodes s p = Some n" using less.prems(2) by (simp add: node_at_def)
  have len: "length (node_slots n) = 64" using less.prems(1,2) by (rule rt_inv_length)
  consider "node_count n \<noteq> 0" | "node_count n = 0" "node_parent n = 0" | "node_count n = 0" "node_parent n \<noteq> 0"
    by blast
  then show ?case
  proof cases
    case 1
    show ?thesis
    proof (cases "rnode s = node_to_entry p")
      case True
      with shrink_ok [OF less.prems(1) True less.prems(2,3), of False] 1 np show ?thesis
        by (subst delete_node.simps) auto
    next
      case False
      with 1 np less.prems(1) show ?thesis by (subst delete_node.simps) auto
    qed
  next
    case 2
    define t where "t = (set_rnode s 0)\<lparr>rt_rcu := rt_rcu s @ [p]\<rparr>"
    note t = unlink_root [OF less.prems(1,2) 2 t_def]
    have "delete_node s p dl = Some (True, t)"
      using 2 np by (subst delete_node.simps) (simp add: radix_tree_node_free_def set_rnode_def t_def)
    moreover have "same_content s t" "rt_avail t = rt_avail s" using t(2) by (simp_all add: same_content_def t_def set_rnode_def)
    ultimately show ?thesis using t(1) by blast
  next
    case 3
    from rt_inv_parent [OF less.prems(1,2) 3(2) less.prems(3)] obtain q where
      q: "node_at s (node_parent n) q" "unat (node_shift q) = 6 * Suc k" "unat (node_offset n) < 64" by blast
    let ?q = "q\<lparr>node_slots := (node_slots q)[unat (node_offset n) := 0], node_count := node_count q - 1\<rparr>"
    define t where "t = s\<lparr>rt_nodes := (rt_nodes s)(node_parent n \<mapsto> ?q), rt_rcu := rt_rcu s @ [p]\<rparr>"
    note t = unlink_node [OF less.prems(1,2) 3(1) refl 3(2) q(1) t_def]
    have lq: "length (node_slots q) = 64" using less.prems(1) q(1) by (rule rt_inv_length)
    have "delete_node s p dl = delete_node t (node_parent n) True"
      using 3 np q(1,3) lq
      by (subst delete_node.simps) (simp add: node_at_def upd_node_def radix_tree_node_free_def t_def Let_def)
    moreover have "same_content s t" "rt_avail t = rt_avail s" using t(2) by (simp_all add: same_content_def t_def)
    moreover have "Suc k \<le> 10"
      using rt_inv_level [OF less.prems(1) q(1)] q(2) by (metis nat_mult_eq_cancel1 zero_less_numeral)
    then have "10 - Suc k < 10 - k" by simp
    from less.hyps [OF this t(1,3), of True] q(2) obtain b s' where
      "delete_node t (node_parent n) True = Some (b, s')" "rt_inv s'" "same_content t s'"
      "rt_avail s' = rt_avail t" by auto
    ultimately show ?thesis using same_content_trans [of s t s'] by auto
  qed
qed

section \<open>Replacing and deleting an entry\<close>

lemma unat_adjust:
  assumes "b \<le> unat (c :: u32)" "unat c \<le> 64" "a \<le> 1"
  shows "unat (c + word_of_int (int a - int b)) + b = unat c + a"
proof -
  have "c + word_of_int (int a - int b) + of_nat b = of_nat (unat c + a)" by simp
  then have "c + word_of_int (int a - int b) = of_nat (unat c + a - b)"
    using assms(1) by (simp add: of_nat_diff eq_diff_eq)
  moreover have "unat (of_nat (unat c + a - b) :: u32) = unat c + a - b"
    using assms by (simp only: unat_of_nat) simp
  ultimately show ?thesis using assms(1) by (simp add: add_diff_eq)
qed

lemma slot_count_pos:
  assumes "shape_ok p n" "d < 64"
  shows "of_bool (node_slots n ! d \<noteq> 0) \<le> unat (node_count n)"
    and "of_bool (xa_is_value (node_slots n ! d)) \<le> unat (node_nr_values n)"
  using assms count_if_pos [of d "node_slots n"] by (auto simp: shape_ok_def Suc_le_eq)

text \<open>A store into the leaf of index \<open>i\<close>, with the counters adjusted by the differences.\<close>

lemma replace_slot_ok:
  assumes inv: "rt_inv s" and q: "node_at s q n" "node_shift n = 0" "pfx s q 0 (unat i div 64)"
    and d: "d = unat i mod 64" and old: "node_slots n ! d = old"
    and cnt: "cnt = of_bool (item \<noteq> 0) - of_bool (old \<noteq> 0)"
    and vals: "vals = of_bool (xa_is_value item) - of_bool (xa_is_value old)"
  shows "\<exists>n'. replace_slot s (NodeSlot q d) item q cnt vals = Some (put s q n')
     \<and> rt_inv (put s q n') \<and> stored s i item (put s q n') \<and> node_shift n' = 0"
proof -
  let ?n = "n\<lparr>node_count := node_count n + word_of_int cnt,
      node_nr_values := node_nr_values n + word_of_int vals, node_slots := (node_slots n)[d := item]\<rparr>"
  have len: "length (node_slots n) = 64" using inv q(1) by (rule rt_inv_length)
  have dl: "d < 64" using d by simp
  have q0: "q \<noteq> 0" using rt_inv_addr [OF inv q(1)] by (simp add: addr_ok_def)
  have nq: "rt_nodes s q = Some n" using q(1) by (simp add: node_at_def)
  have shp: "shape_ok q n" by (rule rt_invD(1) [OF inv q(1)])
  have "shape_ok q ?n"
  proof (rule shape_store [OF shp dl])
    show "unat (node_count ?n) + of_bool (node_slots n ! d \<noteq> 0) = unat (node_count n) + of_bool (item \<noteq> 0)"
      using unat_adjust [OF slot_count_pos(1) [OF shp dl], of "of_bool (item \<noteq> 0)"] shape_count_le [OF shp]
      by (simp add: cnt old)
    show "unat (node_nr_values ?n) + of_bool (xa_is_value (node_slots n ! d)) =
        unat (node_nr_values n) + of_bool (xa_is_value item)"
      using unat_adjust [OF slot_count_pos(2) [OF shp dl], of "of_bool (xa_is_value item)"] shape_count_le [OF shp]
      by (simp add: vals old)
  qed (simp_all add: q(2))
  from leaf_stored [OF inv q d _ _ _ _ this, of item]
  have "rt_inv (put s q ?n)" "stored s i item (put s q ?n)" using q(2) by simp_all
  moreover have "replace_slot s (NodeSlot q d) item q cnt vals = Some (put s q ?n)"
    using q0 nq len dl by (auto simp: replace_slot_def upd_node_def)
  moreover have "node_shift ?n = 0" using q(2) by simp
  ultimately show ?thesis by blast
qed

text \<open>Both kinds of replacement through the node that holds the slot: a new item, or none.\<close>

lemma raw_replace_ok:
  assumes inv: "rt_inv s" and q: "node_at s q n" "pfx s q 0 (unat i div 64)" and d: "d = unat i mod 64"
  shows "\<exists>s'. raw_radix_tree_replace s q (NodeSlot q d) item = Some s' \<and> rt_inv s' \<and> stored s i item s'
     \<and> rt_avail s' = rt_avail s"
    and "node_slots n ! d \<noteq> 0 \<Longrightarrow> \<exists>b s'. raw_radix_tree_delete s q (NodeSlot q d) = Some (b, s') \<and> rt_inv s'
     \<and> stored s i 0 s' \<and> rt_avail s' = rt_avail s"
proof -
  have lev: "node_shift n = 0" using pfx_node_at [OF q(2)] q(1) by (metis mult_0_right node_at_unique unat_eq_zero)
  have len: "length (node_slots n) = 64" using inv q(1) by (rule rt_inv_length)
  have q0: "q \<noteq> 0" using rt_inv_addr [OF inv q(1)] by (simp add: addr_ok_def)
  have nq: "rt_nodes s q = Some n" "q \<notin> set (rt_rcu s)" using q(1) by (simp_all add: node_at_def)
  have del: "\<exists>b s'. delete_node (put s q n') q False = Some (b, s') \<and> rt_inv s' \<and> stored s i e s' \<and> rt_avail s' = rt_avail s"
    if a: "rt_inv (put s q n')" "stored s i e (put s q n')" "node_shift n' = 0" for n' e
    using delete_node_ok [OF a(1), of q n' 0 False] a(3) nq stored_same2 [OF a(2)]
    by (auto simp: node_at_def)
  show "\<exists>s'. raw_radix_tree_replace s q (NodeSlot q d) item = Some s' \<and> rt_inv s' \<and> stored s i item s'
     \<and> rt_avail s' = rt_avail s"
  proof -
    obtain n' where n': "replace_slot s (NodeSlot q d) item q (calculate_count item (node_slots n ! d))
        (of_bool (xa_is_value item) - of_bool (xa_is_value (node_slots n ! d))) = Some (put s q n')"
      "rt_inv (put s q n')" "stored s i item (put s q n')" "node_shift n' = 0"
      using replace_slot_ok [OF inv q(1) lev q(2) d refl refl refl, of item] unfolding calculate_count_def by blast
    from del [OF n'(2-4)] obtain b s' where "delete_node (put s q n') q False = Some (b, s')" "rt_inv s'"
      "stored s i item s'" "rt_avail s' = rt_avail s" by blast
    with n'(1) nq len d q0 show ?thesis by (simp add: raw_radix_tree_replace_def)
  qed
  show "\<exists>b s'. raw_radix_tree_delete s q (NodeSlot q d) = Some (b, s') \<and> rt_inv s' \<and> stored s i 0 s'
     \<and> rt_avail s' = rt_avail s" if present: "node_slots n ! d \<noteq> 0"
  proof -
    obtain n' where n': "replace_slot s (NodeSlot q d) 0 q (- 1) (if xa_is_value (node_slots n ! d) then - 1 else 0)
        = Some (put s q n')" "rt_inv (put s q n')" "stored s i 0 (put s q n')" "node_shift n' = 0"
    proof -
      have "- 1 = of_bool ((0 :: u64) \<noteq> 0) - (of_bool (node_slots n ! d \<noteq> 0) :: int)" using present by simp
      from replace_slot_ok [OF inv q(1) lev q(2) d refl this refl] that show thesis
        by (cases "xa_is_value (node_slots n ! d)") auto
    qed
    from del [OF n'(2-4)] obtain b s' where "delete_node (put s q n') q False = Some (b, s')" "rt_inv s'"
      "stored s i 0 s'" "rt_avail s' = rt_avail s" by blast
    with n'(1) nq len d q0 show ?thesis by (simp add: raw_radix_tree_delete_def)
  qed
qed

text \<open>The leaf of an index that is present, as lookup finds it.\<close>

lemma present_leaf:
  assumes "rt_inv s" "content s (unat i) e"
  obtains q n where "raw_radix_tree_lookup s i = Some (e, Some (q, NodeSlot q (unat i mod 64)))"
    "node_at s q n" "pfx s q 0 (unat i div 64)" "node_slots n ! (unat i mod 64) = e" "e \<noteq> 0"
proof -
  obtain x out where x: "raw_radix_tree_lookup s i = Some (x, out)"
    "\<And>e'. content s (unat i) e' \<longleftrightarrow> e' \<noteq> 0 \<and> e' = x"
    "x \<noteq> 0 \<longrightarrow> (\<exists>q n. out = Some (q, NodeSlot q (unat i mod 64)) \<and> node_at s q n
           \<and> pfx s q 0 (unat i div 64) \<and> node_slots n ! (unat i mod 64) = x)"
    using raw_lookup_ok [OF assms(1), of i] by blast
  with assms(2) that show thesis by (metis (no_types, lifting))
qed

lemma delete_item_ok:
  assumes inv: "rt_inv s" and e: "content s (unat i) e"
  shows "\<exists>s'. radix_tree_delete_item s i item = Some (if item \<noteq> 0 \<and> e \<noteq> item then 0 else e, s') \<and> rt_inv s'
     \<and> (if item \<noteq> 0 \<and> e \<noteq> item then s' = s else stored s i 0 s') \<and> rt_avail s' = rt_avail s"
proof -
  obtain q n where q: "raw_radix_tree_lookup s i = Some (e, Some (q, NodeSlot q (unat i mod 64)))"
    "node_at s q n" "pfx s q 0 (unat i div 64)" "node_slots n ! (unat i mod 64) = e" "e \<noteq> 0"
    using present_leaf [OF inv e] by blast
  from raw_replace_ok(2) [OF inv q(2,3) refl] q(4,5) obtain b s' where
    "raw_radix_tree_delete s q (NodeSlot q (unat i mod 64)) = Some (b, s')" "rt_inv s'" "stored s i 0 s'"
    "rt_avail s' = rt_avail s" by auto
  with q(1) inv show ?thesis by (simp add: radix_tree_delete_item_def)
qed

lemma delete_ok:
  assumes inv: "rt_inv s" and e: "radix_tree_lookup s i = Some e" "e \<noteq> 0"
  shows "\<exists>s'. radix_tree_delete s i = Some (e, s') \<and> rt_inv s' \<and> stored s i 0 s' \<and> rt_avail s' = rt_avail s"
  using delete_item_ok [OF inv, of i e 0] e lookup_eq_content [OF inv e(2)] by (simp add: radix_tree_delete_def)

text \<open>Replacing through the slot that lookup returns; the item must not be 0.\<close>

lemma replace_slot_item_ok:
  assumes inv: "rt_inv s" and e: "content s (unat i) e" "item \<noteq> 0" "xa_is_value item = xa_is_value e"
  shows "\<exists>sl s'. radix_tree_lookup_slot s i = Some (Some sl) \<and> radix_tree_replace_slot s sl item = Some s'
     \<and> rt_inv s' \<and> stored s i item s' \<and> rt_avail s' = rt_avail s"
proof -
  obtain q n where q: "raw_radix_tree_lookup s i = Some (e, Some (q, NodeSlot q (unat i mod 64)))"
    "node_at s q n" "pfx s q 0 (unat i div 64)" "node_slots n ! (unat i mod 64) = e" "e \<noteq> 0"
    using present_leaf [OF inv e(1)] by blast
  let ?d = "unat i mod 64"
  let ?n = "n\<lparr>node_slots := (node_slots n)[?d := item]\<rparr>"
  have lev: "node_shift n = 0" using pfx_node_at [OF q(3)] q(2) by (metis mult_0_right node_at_unique unat_eq_zero)
  have len: "length (node_slots n) = 64" using inv q(2) by (rule rt_inv_length)
  have "shape_ok q ?n"
    by (rule shape_store [OF rt_invD(1) [OF inv q(2)], of ?d _ item]) (use q(4,5) e lev in auto)
  from leaf_stored [OF inv q(2) lev q(3) refl _ _ _ _ this, of item] lev
  have "rt_inv (put s q ?n)" "stored s i item (put s q ?n)" by simp_all
  moreover have "radix_tree_replace_slot s (NodeSlot q ?d) item = Some (put s q ?n)"
    using q(2) len
    by (simp add: radix_tree_replace_slot_def raw_radix_tree_replace_def node_at_def replace_slot_def)
  ultimately show ?thesis using q(1,5) by (simp add: radix_tree_lookup_slot_def)
qed

section \<open>The initial tree\<close>

lemma root_alloc_ok:
  assumes "avail = a # c # as" "a \<noteq> 0" "c \<noteq> 0"
    and ok: "\<forall>x \<in> set (c # as). x \<noteq> 0 \<longrightarrow> addr_ok x" "distinct (filter (\<lambda>x. x \<noteq> 0) (c # as))"
  shows "\<exists>s. radix_tree_root_alloc avail = Some s \<and> rt_inv s \<and> rnode s \<noteq> 0 \<and> rt_avail s = as
     \<and> (\<forall>i e. \<not> content s i e)"
proof -
  let ?init = "\<lparr>rt_root = \<lparr>root_height = 1, root_rnode = 0\<rparr>, rt_nodes = Map.empty, rt_rcu = [], rt_avail = c # as\<rparr>"
  let ?s = "set_rnode (?init\<lparr>rt_nodes := (rt_nodes ?init)(c \<mapsto> fresh_node 0 0 0 0), rt_avail := as\<rparr>) (node_to_entry c)"
  have "\<not> node_at ?init p n" for p n by (simp add: node_at_def)
  then have "rt_inv ?init" using ok by (intro rt_invI) (auto simp: root_ok_def alloc_ok_def)
  from first_root [OF this _ _ _ _ assms(3) refl, of 0 0 as]
  have f: "rt_inv ?s" "\<not> content ?s i e" "rnode ?s = node_to_entry c" for i e by simp_all
  have "radix_tree_root_alloc avail = Some ?s"
    using assms(1-3) by (simp add: radix_tree_root_alloc_def calloc_def node_alloc_eq set_rnode_def)
  with f show ?thesis by (simp add: set_rnode_def)
qed

section \<open>The callback that releases a node\<close>

lemma rcu_free_ok:
  assumes inv: "rt_inv s" and p: "rt_rcu s = xs @ p # ys"
    and s': "s' = s\<lparr>rt_nodes := (rt_nodes s)(p := None), rt_rcu := xs @ ys\<rparr>"
  shows "\<exists>s1. radix_tree_node_rcu_free s p = Some s1 \<and> s' = s1\<lparr>rt_rcu := xs @ ys\<rparr>"
    and "rt_inv s'" and "same_content s s'"
proof -
  have al: "set (rt_rcu s) \<subseteq> dom (rt_nodes s)" "distinct (rt_rcu s)"
    using rt_inv_alloc [OF inv] by (simp_all add: alloc_ok_def)
  then obtain n where n: "rt_nodes s p = Some n" using p by auto
  then show "\<exists>s1. radix_tree_node_rcu_free s p = Some s1 \<and> s' = s1\<lparr>rt_rcu := xs @ ys\<rparr>"
    by (simp add: radix_tree_node_rcu_free_def upd_node_def s')
  have at: "node_at s' = node_at s"
    using al(2) p by (auto simp: node_at_def s' fun_eq_iff)
  have "alloc_ok s'"
    using rt_inv_alloc [OF inv] p al unfolding alloc_ok_def s' by auto
  with inv show "rt_inv s'"
    unfolding rt_inv_def root_ok_def child_ok_def parent_ok_def at by (simp add: s')
  have "pfx s' q k b \<longleftrightarrow> pfx s q k b" for q k b
    using pfx_mono [of s q k b s'] pfx_mono [of s' q k b s] at by auto
  then show "same_content s s'" by (simp add: same_content_def content_def at)
qed

end
