(* ===== verification/Keyed_Store.thy ===== *)
theory Keyed_Store
  imports Prelude
begin

text \<open>
  The contract of a store of non-null values under keys, as the clients of the index
  structures use it: operations that may fault (\<^term>\<open>None\<close>), an insertion with an error code,
  a lookup that returns the null value for an absent key.  The client lemmas, proved once from
  the laws, say that the store behaves as a finite map, step by step and over whole sequences
  of operations.
\<close>

datatype ('k, 'v) op = Insert 'k 'v | Delete 'k | Lookup 'k

datatype 'v out = Code int | Value 'v

section \<open>The abstract specification\<close>

text \<open>
  Sequences are specified on maps.  A sequence is \<open>legal\<close> when it inserts no null value, deletes
  only keys that are present, and inserts the key \<open>z\<close> only where the map is not empty
  (take a key that is never used where the store has no such exception).
\<close>

fun spec_step :: "int \<Rightarrow> 'v \<Rightarrow> ('k \<rightharpoonup> 'v) \<Rightarrow> ('k, 'v) op \<Rightarrow> 'v out \<times> ('k \<rightharpoonup> 'v)" where
  "spec_step dup null m (Insert k v) = (if m k = None then (Code 0, m(k \<mapsto> v)) else (Code dup, m))"
| "spec_step dup null m (Delete k) = (Value (case m k of None \<Rightarrow> null | Some v \<Rightarrow> v), m(k := None))"
| "spec_step dup null m (Lookup k) = (Value (case m k of None \<Rightarrow> null | Some v \<Rightarrow> v), m)"

fun spec_run :: "int \<Rightarrow> 'v \<Rightarrow> ('k \<rightharpoonup> 'v) \<Rightarrow> ('k, 'v) op list \<Rightarrow> 'v out list \<times> ('k \<rightharpoonup> 'v)" where
  "spec_run dup null m [] = ([], m)"
| "spec_run dup null m (x # xs) =
     (case spec_step dup null m x of (out, m1) \<Rightarrow>
      case spec_run dup null m1 xs of (outs, m2) \<Rightarrow> (out # outs, m2))"

fun legal_op :: "'k \<Rightarrow> 'v \<Rightarrow> ('k \<rightharpoonup> 'v) \<Rightarrow> ('k, 'v) op \<Rightarrow> bool" where
  "legal_op z null m (Insert k v) \<longleftrightarrow> v \<noteq> null \<and> (k \<noteq> z \<or> m \<noteq> Map.empty)"
| "legal_op z null m (Delete k) \<longleftrightarrow> m k \<noteq> None"
| "legal_op z null m (Lookup k) \<longleftrightarrow> True"

fun legal :: "'k \<Rightarrow> int \<Rightarrow> 'v \<Rightarrow> ('k \<rightharpoonup> 'v) \<Rightarrow> ('k, 'v) op list \<Rightarrow> bool" where
  "legal z dup null m [] \<longleftrightarrow> True"
| "legal z dup null m (x # xs) \<longleftrightarrow> legal_op z null m x \<and> legal z dup null (snd (spec_step dup null m x)) xs"

section \<open>Running a sequence on an implementation\<close>

fun impl_step :: "('s \<Rightarrow> 'k \<Rightarrow> 'v \<Rightarrow> (int \<times> 's) option) \<Rightarrow> ('s \<Rightarrow> 'k \<Rightarrow> ('v \<times> 's) option) \<Rightarrow>
    ('s \<Rightarrow> 'k \<Rightarrow> 'v option) \<Rightarrow> 's \<Rightarrow> ('k, 'v) op \<Rightarrow> ('v out \<times> 's) option" where
  "impl_step ins del look s (Insert k v) = do { (r, s1) \<leftarrow> ins s k v; Some (Code r, s1) }"
| "impl_step ins del look s (Delete k) = do { (v, s1) \<leftarrow> del s k; Some (Value v, s1) }"
| "impl_step ins del look s (Lookup k) = do { v \<leftarrow> look s k; Some (Value v, s) }"

fun impl_run :: "('s \<Rightarrow> 'k \<Rightarrow> 'v \<Rightarrow> (int \<times> 's) option) \<Rightarrow> ('s \<Rightarrow> 'k \<Rightarrow> ('v \<times> 's) option) \<Rightarrow>
    ('s \<Rightarrow> 'k \<Rightarrow> 'v option) \<Rightarrow> 's \<Rightarrow> ('k, 'v) op list \<Rightarrow> ('v out list \<times> 's) option" where
  "impl_run ins del look s [] = Some ([], s)"
| "impl_run ins del look s (x # xs) = do {
     (out, s1) \<leftarrow> impl_step ins del look s x;
     (outs, s2) \<leftarrow> impl_run ins del look s1 xs;
     Some (out # outs, s2)
   }"

section \<open>The contract\<close>

locale keyed_store =
  fixes inv :: "'s \<Rightarrow> bool" and null :: 'v and z :: 'k and dup :: int
    and ins :: "'s \<Rightarrow> 'k \<Rightarrow> 'v \<Rightarrow> (int \<times> 's) option"
    and del :: "'s \<Rightarrow> 'k \<Rightarrow> ('v \<times> 's) option"
    and look :: "'s \<Rightarrow> 'k \<Rightarrow> 'v option"
    and room :: "'s \<Rightarrow> nat \<Rightarrow> bool"
  assumes dup_nonzero: "dup \<noteq> 0"
    and look_total: "inv s \<Longrightarrow> \<exists>v. look s k = Some v"
    and ins_law: "inv s \<Longrightarrow> v \<noteq> null \<Longrightarrow> k \<noteq> z \<or> (\<exists>j. look s j \<noteq> Some null) \<Longrightarrow>
      \<exists>r s'. ins s k v = Some (r, s') \<and> inv s'
        \<and> (if r = 0 then look s k = Some null \<and> (\<forall>j. look s' j = (if j = k then Some v else look s j))
           else look s' = look s)
        \<and> (r = dup \<longrightarrow> look s k \<noteq> Some null)
        \<and> (\<forall>x. room s (Suc x) \<longrightarrow> (r = 0 \<or> r = dup) \<and> room s' x)"
    and del_law: "inv s \<Longrightarrow> look s k = Some v \<Longrightarrow> v \<noteq> null \<Longrightarrow>
      \<exists>s'. del s k = Some (v, s') \<and> inv s' \<and> (\<forall>j. look s' j = (if j = k then Some null else look s j))
        \<and> (\<forall>x. room s x \<longrightarrow> room s' x)"
    and room_le: "room s (Suc x) \<Longrightarrow> room s x"
begin

definition abs_map :: "'s \<Rightarrow> 'k \<Rightarrow> 'v option" where
  "abs_map s k = (if look s k = Some null then None else look s k)"

lemma look_abs: "inv s \<Longrightarrow> look s k = Some (case abs_map s k of None \<Rightarrow> null | Some v \<Rightarrow> v)"
  using look_total [of s k] by (auto simp: abs_map_def)

lemma nonempty_abs: "inv s \<Longrightarrow> abs_map s \<noteq> Map.empty \<Longrightarrow> \<exists>j. look s j \<noteq> Some null"
  by (auto simp: abs_map_def fun_eq_iff split: if_splits)

lemma insert_abs:
  assumes "inv s" "v \<noteq> null" "k \<noteq> z \<or> abs_map s \<noteq> Map.empty" "room s (Suc x)"
  shows "\<exists>r s'. ins s k v = Some (r, s') \<and> inv s' \<and> room s' x
     \<and> spec_step dup null (abs_map s) (Insert k v) = (Code r, abs_map s')"
proof -
  have "k \<noteq> z \<or> (\<exists>j. look s j \<noteq> Some null)" using assms(1,3) nonempty_abs by blast
  from ins_law [OF assms(1,2) this] obtain r s' where r: "ins s k v = Some (r, s')" "inv s'"
    "if r = 0 then look s k = Some null \<and> (\<forall>j. look s' j = (if j = k then Some v else look s j)) else look s' = look s"
    "r = dup \<longrightarrow> look s k \<noteq> Some null" "r = 0 \<or> r = dup" "room s' x" using assms(4) by blast
  then have "spec_step dup null (abs_map s) (Insert k v) = (Code r, abs_map s')"
    using assms(1,2) dup_nonzero look_total [of s k] by (auto simp: abs_map_def fun_eq_iff)
  with r show ?thesis by blast
qed

lemma delete_abs:
  assumes "inv s" "abs_map s k \<noteq> None"
  shows "\<exists>v s'. del s k = Some (v, s') \<and> inv s' \<and> (\<forall>x. room s x \<longrightarrow> room s' x)
     \<and> spec_step dup null (abs_map s) (Delete k) = (Value v, abs_map s')"
proof -
  from look_total [OF assms(1)] obtain v where v: "look s k = Some v" by blast
  with assms(2) have "v \<noteq> null" by (auto simp: abs_map_def)
  from del_law [OF assms(1) v this] obtain s' where "del s k = Some (v, s')" "inv s'"
    "\<forall>j. look s' j = (if j = k then Some null else look s j)" "\<forall>x. room s x \<longrightarrow> room s' x" by blast
  then show ?thesis using v \<open>v \<noteq> null\<close> by (auto simp: abs_map_def fun_eq_iff)
qed

lemma step_refines:
  assumes "inv s" "legal_op z null (abs_map s) x" "room s (Suc n)"
  shows "\<exists>out s'. impl_step ins del look s x = Some (out, s') \<and> inv s' \<and> room s' n
     \<and> spec_step dup null (abs_map s) x = (out, abs_map s')"
proof (cases x)
  case (Insert k v)
  with insert_abs [OF assms(1) _ _ assms(3), of v k] assms(2) show ?thesis by auto
next
  case (Delete k)
  with delete_abs [OF assms(1), of k] assms(2) room_le [OF assms(3)] show ?thesis by auto
next
  case (Lookup k)
  with look_abs [OF assms(1), of k] assms(1) room_le [OF assms(3)] show ?thesis by simp
qed

text \<open>A legal sequence runs to its end and gives the outputs and the map of the specification.\<close>

lemma run_refines:
  assumes "inv s" "legal z dup null (abs_map s) xs" "room s (length xs)"
  shows "\<exists>s'. impl_run ins del look s xs = Some (fst (spec_run dup null (abs_map s) xs), s')
     \<and> inv s' \<and> abs_map s' = snd (spec_run dup null (abs_map s) xs)"
  using assms
proof (induction xs arbitrary: s)
  case (Cons x xs)
  then obtain out s1 where s1: "impl_step ins del look s x = Some (out, s1)" "inv s1" "room s1 (length xs)"
    "spec_step dup null (abs_map s) x = (out, abs_map s1)"
    using step_refines [of s x "length xs"] by auto
  with Cons.prems(2) have "legal z dup null (abs_map s1) xs" by simp
  from Cons.IH [OF s1(2) this s1(3)] s1 show ?case by (auto split: prod.split)
qed simp

text \<open>Deleting a key just inserted restores every lookup.\<close>

lemma insert_delete:
  assumes "inv s" "v \<noteq> null" "k \<noteq> z \<or> (\<exists>j. look s j \<noteq> Some null)" "ins s k v = Some (0, s1)"
  shows "\<exists>s2. del s1 k = Some (v, s2) \<and> inv s2 \<and> look s2 = look s"
proof -
  from ins_law [OF assms(1-3)] assms(4) have s1: "inv s1" "look s k = Some null"
    "\<forall>j. look s1 j = (if j = k then Some v else look s j)" by auto
  then have "look s1 k = Some v" by simp
  from del_law [OF s1(1) this assms(2)] obtain s2 where "del s1 k = Some (v, s2)" "inv s2"
    "\<forall>j. look s2 j = (if j = k then Some null else look s1 j)" by blast
  with s1(2,3) show ?thesis by (auto simp: fun_eq_iff)
qed

end

end
