(* ===== verification/Radix_Map.thy ===== *)
theory Radix_Map
  imports Radix_Delete Keyed_Store
begin

text \<open>
  The radix tree as a finite map: the interpretation of the store contract on the tree's own
  operations, the state machine of a tree shared by callers and by the callbacks that release
  nodes, and the properties of the component.
\<close>

section \<open>The tree is a keyed store\<close>

definition rt_map :: "rt \<Rightarrow> u64 \<rightharpoonup> u64" where
  "rt_map s i = (if radix_tree_lookup s i = Some 0 then None else radix_tree_lookup s i)"

lemma absent_iff: "rt_inv s \<Longrightarrow> radix_tree_lookup s i = Some 0 \<longleftrightarrow> (\<forall>e. \<not> content s (unat i) e)"
  using lookup_ok [of s i] by (metis option.inject)

lemma present_root: "rt_inv s \<Longrightarrow> radix_tree_lookup s j \<noteq> Some 0 \<Longrightarrow> rnode s \<noteq> 0"
  using absent_iff content_empty by blast

lemma lookup_same: "rt_inv s \<Longrightarrow> rt_inv s' \<Longrightarrow> same_content s s' \<Longrightarrow> radix_tree_lookup s' = radix_tree_lookup s"
  by (rule ext, rule lookup_cong) (simp_all add: same_content_def)

text \<open>The insertion, on lookups.\<close>

lemma insert_lookup:
  assumes inv: "rt_inv s" and start: "rnode s \<noteq> 0 \<or> i \<noteq> 0" and item: "item \<noteq> 0"
  shows "\<exists>ret s'. radix_tree_insert s i item = Some (ret, s') \<and> rt_inv s'
     \<and> (ret = 0 \<and> radix_tree_lookup s i = Some 0
          \<and> (\<forall>j. radix_tree_lookup s' j = (if j = i then Some item else radix_tree_lookup s j))
        \<or> ret = - EEXIST \<and> radix_tree_lookup s i \<noteq> Some 0 \<and> radix_tree_lookup s' = radix_tree_lookup s
        \<or> ret = - ENOMEM \<and> radix_tree_lookup s' = radix_tree_lookup s)
     \<and> (\<forall>x. enough s (20 + x) \<longrightarrow> ret \<noteq> - ENOMEM \<and> enough s' x)"
proof -
  obtain ret s' where r: "radix_tree_insert s i item = Some (ret, s')" "rt_inv s'"
    "ret = 0 \<and> (\<forall>e. \<not> content s (unat i) e) \<and> stored s i item s'
        \<or> ret = - EEXIST \<and> (\<exists>e. content s (unat i) e) \<and> same_content s s'
        \<or> ret = - ENOMEM \<and> same_content s s'"
    "\<forall>x. enough s (20 + x) \<longrightarrow> ret \<noteq> - ENOMEM \<and> enough s' x"
    using insert_ok [OF assms] by blast
  have "ret = 0 \<and> radix_tree_lookup s i = Some 0
          \<and> (\<forall>j. radix_tree_lookup s' j = (if j = i then Some item else radix_tree_lookup s j))
        \<or> ret = - EEXIST \<and> radix_tree_lookup s i \<noteq> Some 0 \<and> radix_tree_lookup s' = radix_tree_lookup s
        \<or> ret = - ENOMEM \<and> radix_tree_lookup s' = radix_tree_lookup s"
    using r(3) absent_iff [OF inv, of i] lookup_same [OF inv r(2)] lookup_stored [OF inv r(2), of i item] by metis
  with r show ?thesis by blast
qed

lemma delete_lookup:
  assumes "rt_inv s" "radix_tree_lookup s i = Some e" "e \<noteq> 0"
  shows "\<exists>s'. radix_tree_delete s i = Some (e, s') \<and> rt_inv s'
     \<and> (\<forall>j. radix_tree_lookup s' j = (if j = i then Some 0 else radix_tree_lookup s j)) \<and> rt_avail s' = rt_avail s"
  using delete_ok [OF assms] lookup_stored [OF assms(1)] by metis

interpretation rs: keyed_store rt_inv "0 :: u64" "0 :: u64" "- EEXIST" radix_tree_insert radix_tree_delete
  radix_tree_lookup "\<lambda>s x. enough s (20 * x)"
proof unfold_locales
  show "- EEXIST \<noteq> 0" by (simp add: EEXIST_def)
  show "\<exists>v. radix_tree_lookup s k = Some v" if "rt_inv s" for s k using lookup_ok [OF that, of k] by blast
  show "\<exists>r s'. radix_tree_insert s k v = Some (r, s') \<and> rt_inv s'
        \<and> (if r = 0 then radix_tree_lookup s k = Some 0
              \<and> (\<forall>j. radix_tree_lookup s' j = (if j = k then Some v else radix_tree_lookup s j))
           else radix_tree_lookup s' = radix_tree_lookup s)
        \<and> (r = - EEXIST \<longrightarrow> radix_tree_lookup s k \<noteq> Some 0)
        \<and> (\<forall>x. enough s (20 * Suc x) \<longrightarrow> (r = 0 \<or> r = - EEXIST) \<and> enough s' (20 * x))"
    if a: "rt_inv s" "v \<noteq> 0" "k \<noteq> 0 \<or> (\<exists>j. radix_tree_lookup s j \<noteq> Some 0)" for s k v
  proof -
    have "rnode s \<noteq> 0 \<or> k \<noteq> 0" using a present_root by blast
    from insert_lookup [OF a(1) this a(2)] obtain r s' where r: "radix_tree_insert s k v = Some (r, s')"
      "rt_inv s'" and
      "r = 0 \<and> radix_tree_lookup s k = Some 0
          \<and> (\<forall>j. radix_tree_lookup s' j = (if j = k then Some v else radix_tree_lookup s j))
        \<or> r = - EEXIST \<and> radix_tree_lookup s k \<noteq> Some 0 \<and> radix_tree_lookup s' = radix_tree_lookup s
        \<or> r = - ENOMEM \<and> radix_tree_lookup s' = radix_tree_lookup s"
      "\<forall>x. enough s (20 + x) \<longrightarrow> r \<noteq> - ENOMEM \<and> enough s' x" by blast
    then show ?thesis by (elim disjE) (simp_all add: EEXIST_def ENOMEM_def)
  qed
  show "\<exists>s'. radix_tree_delete s k = Some (v, s') \<and> rt_inv s'
        \<and> (\<forall>j. radix_tree_lookup s' j = (if j = k then Some 0 else radix_tree_lookup s j))
        \<and> (\<forall>x. enough s (20 * x) \<longrightarrow> enough s' (20 * x))"
    if "rt_inv s" "radix_tree_lookup s k = Some v" "v \<noteq> 0" for s k v
    using delete_lookup [OF that] by (auto simp: enough_def)
  show "enough s (20 * x)" if "enough s (20 * Suc x)" for s x using that by (rule enough_le) simp
qed

lemma rt_map_abs: "rs.abs_map = rt_map"
  by (intro ext) (simp add: rs.abs_map_def rt_map_def)

section \<open>A tree shared with the release callbacks\<close>

text \<open>
  The callers of the tree are serialised by its lock; the callback that releases a node may
  run between any two of their calls, on any node in the queue.  The callers are those that use the
  tree as it has to be used: they insert no NULL, they do not insert at index 0 once the tree is
  emptied (the item would become the root pointer, \<open>insert_direct_root\<close> in Radix_Shape) and they
  delete no absent index (which can unlink a leaf in use, \<open>delete_absent\<close> there).
\<close>

inductive rt_step :: "rt \<Rightarrow> rt \<Rightarrow> bool" where
  ins: "rnode s \<noteq> 0 \<or> i \<noteq> 0 \<Longrightarrow> item \<noteq> 0 \<Longrightarrow> radix_tree_insert s i item = Some (r, s') \<Longrightarrow> rt_step s s'"
| del: "radix_tree_lookup s i = Some e \<Longrightarrow> e \<noteq> 0 \<Longrightarrow> radix_tree_delete_item s i item = Some (r, s') \<Longrightarrow>
     rt_step s s'"
| rcu: "rt_rcu s = xs @ p # ys \<Longrightarrow> radix_tree_node_rcu_free s p = Some s1 \<Longrightarrow>
     rt_step s (s1\<lparr>rt_rcu := xs @ ys\<rparr>)"

inductive rt_reach :: "u64 list \<Rightarrow> rt \<Rightarrow> bool" for avail where
  init: "radix_tree_root_alloc avail = Some s \<Longrightarrow> rt_reach avail s"
| step: "rt_reach avail s \<Longrightarrow> rt_step s s' \<Longrightarrow> rt_reach avail s'"

inductive_cases rt_stepE: "rt_step s s'"

text \<open>The addresses an allocator may hand out: aligned and distinct, and two to start with.\<close>

definition heap_ok :: "u64 list \<Rightarrow> bool" where
  "heap_ok avail \<longleftrightarrow> list_all (\<lambda>a. a = 0 \<or> a AND 3 = 0) avail \<and> distinct (filter (\<lambda>a. a \<noteq> 0) avail)
     \<and> 2 \<le> length avail \<and> avail ! 0 \<noteq> 0 \<and> avail ! 1 \<noteq> 0"

lemma root_alloc_heap:
  assumes "heap_ok avail"
  shows "\<exists>s. radix_tree_root_alloc avail = Some s \<and> rt_inv s \<and> rnode s \<noteq> 0 \<and> rt_avail s = drop 2 avail
     \<and> (\<forall>i. radix_tree_lookup s i = Some 0)"
proof -
  from assms obtain a c as where av: "avail = a # c # as"
    by (cases avail; cases "tl avail") (auto simp: heap_ok_def)
  with assms have "\<forall>x \<in> set (c # as). x \<noteq> 0 \<longrightarrow> addr_ok x" "distinct (filter (\<lambda>x. x \<noteq> 0) (c # as))"
    "a \<noteq> 0" "c \<noteq> 0"
    by (auto simp: heap_ok_def addr_ok_def list_all_iff split: if_splits)
  from root_alloc_ok [OF av this(3,4,1,2)] obtain s where "radix_tree_root_alloc avail = Some s" "rt_inv s"
    "rnode s \<noteq> 0" "rt_avail s = as" "\<forall>i e. \<not> content s i e" by blast
  with av absent_iff show ?thesis by auto
qed

lemma step_inv:
  assumes "rt_inv s" "rt_step s s'"
  shows "rt_inv s'"
  using assms(2)
proof cases
  case (ins i item r)
  with insert_ok [OF assms(1), of i item] show ?thesis by auto
next
  case (del i e item r)
  then have "content s (unat i) e" using lookup_eq_content [OF assms(1)] by simp
  from delete_item_ok [OF assms(1) this, of item] del show ?thesis by auto
next
  case (rcu xs p ys s1)
  with rcu_free_ok(1,2) [OF assms(1) rcu(2) refl] show ?thesis by auto
qed

lemma reach_inv: "rt_reach avail s \<Longrightarrow> heap_ok avail \<Longrightarrow> rt_inv s"
proof (induction rule: rt_reach.induct)
  case (init s)
  with root_alloc_heap [of avail] show ?case by auto
next
  case (step s s')
  then show ?case by (blast intro: step_inv)
qed

end
