(* ===== verification/Radix_Iter.thy ===== *)
theory Radix_Iter
  imports Radix_Map
begin

text \<open>
  The iterator of the radix tree: \<open>radix_tree_next_chunk\<close>, \<open>radix_tree_next_slot\<close> and the loop
  \<open>radix_tree_for_each_slot\<close> that \<open>src/radix_tree/radix-tree.h\<close> builds from them.  A null slot
  pointer is \<^term>\<open>None :: slot_ptr option\<close>; the outer option of every operation is \<^term>\<open>None\<close> when it
  accesses memory outside the tree or does not end.
\<close>

section \<open>Iterator state\<close>

record radix_tree_iter =
  iter_index :: u64
  iter_next_index :: u64
  iter_tags :: u64
  iter_node :: u64

definition RADIX_TREE_ITER_TAG_MASK :: u32 where [c_consts]: "RADIX_TREE_ITER_TAG_MASK = 0x0f"
definition RADIX_TREE_ITER_TAGGED :: u32 where [c_consts]: "RADIX_TREE_ITER_TAGGED = 0x10"
definition RADIX_TREE_ITER_CONTIG :: u32 where [c_consts]: "RADIX_TREE_ITER_CONTIG = 0x20"

definition radix_tree_iter_init :: "radix_tree_iter \<Rightarrow> u64 \<Rightarrow> slot_ptr option \<times> radix_tree_iter" where
  "radix_tree_iter_init iter start = (None, iter\<lparr>iter_index := 0, iter_next_index := start\<rparr>)"

definition radix_tree_iter_retry :: "radix_tree_iter \<Rightarrow> slot_ptr option \<times> radix_tree_iter" where
  "radix_tree_iter_retry iter = (None, iter\<lparr>iter_next_index := iter_index iter, iter_tags := 0\<rparr>)"

definition raw_radix_tree_iter_add :: "radix_tree_iter \<Rightarrow> u64 \<Rightarrow> u64" where
  "raw_radix_tree_iter_add iter slots = iter_index iter + slots"

definition radix_tree_iter_resume :: "slot_ptr option \<Rightarrow> radix_tree_iter \<Rightarrow> slot_ptr option \<times> radix_tree_iter" where
  "radix_tree_iter_resume slot iter =
     (let i = raw_radix_tree_iter_add iter 1
      in (None, iter\<lparr>iter_index := i, iter_next_index := i, iter_tags := 0\<rparr>))"

definition radix_tree_chunk_size :: "radix_tree_iter \<Rightarrow> int" where
  "radix_tree_chunk_size iter = sint (iter_next_index iter - iter_index iter)"

section \<open>The next chunk\<close>

text \<open>The scan for a slot in use: \<^verbatim>\<open>while (++offset < RADIX_TREE_MAP_SIZE)\<close>, from the next offset on.\<close>

function scan_slots :: "u64 list \<Rightarrow> nat \<Rightarrow> nat" where
  "scan_slots slots offset =
     (if offset < unat RADIX_TREE_MAP_SIZE
      then (if slots ! offset \<noteq> 0 then offset else scan_slots slots (Suc offset))
      else offset)"
  by pat_completeness auto
termination by (relation "measure (\<lambda>(_, offset). unat RADIX_TREE_MAP_SIZE - offset)") auto

declare scan_slots.simps [simp del]

text \<open>
  The body after the label \<open>restart\<close> (no child yet) and the loop that descends from a child.
  Where the loop ends, the iterator is updated to the chunk found.
\<close>

partial_function (option) chunk_loop ::
  "rt \<Rightarrow> radix_tree_iter \<Rightarrow> u32 \<Rightarrow> u64 \<Rightarrow> u64 option \<Rightarrow> (slot_ptr option \<times> radix_tree_iter) option" where
  "chunk_loop s iter flags index below = (case below of
     None \<Rightarrow> do {
       (sh, child, maxindex) \<leftarrow> radix_tree_load_root s;
       if index > maxindex then Some (None, iter)
       else if child = 0 then Some (None, iter)
       else if \<not> radix_tree_is_internal_node child
       then Some (Some RootSlot, iter\<lparr>iter_index := index, iter_next_index := maxindex + 1,
                                     iter_tags := 1, iter_node := 0\<rparr>)
       else chunk_loop s iter flags index (Some child)
     }
   | Some entry \<Rightarrow> do {
       let node = entry_to_node entry;
       n \<leftarrow> rt_nodes s node;
       (offset, child) \<leftarrow> radix_tree_descend s node index;
       if child = 0 \<and> flags AND RADIX_TREE_ITER_CONTIG \<noteq> 0 then Some (None, iter)
       else do {
         let off = (if child = 0 then scan_slots (node_slots n) (Suc (unat offset)) else unat offset);
         let index' = (if child = 0 then next_index index n (of_nat off) else index);
         if child = 0 \<and> index' = 0 then Some (None, iter)
         else if child = 0 \<and> off = unat RADIX_TREE_MAP_SIZE then chunk_loop s iter flags index' None
         else do {
           child' \<leftarrow> load_slot s (NodeSlot node off);
           if child' = 0 then chunk_loop s iter flags index' None
           else if node_shift n \<noteq> 0 \<and> radix_tree_is_internal_node child'
           then chunk_loop s iter flags index' (Some child')
           else Some (Some (NodeSlot node off),
             iter\<lparr>iter_index := (index' AND NOT (node_maxindex n)) OR of_nat off,
                  iter_next_index := (index' OR node_maxindex n) + 1, iter_node := node\<rparr>)
         }
       }
     })"

definition radix_tree_next_chunk ::
  "rt \<Rightarrow> radix_tree_iter \<Rightarrow> u32 \<Rightarrow> (slot_ptr option \<times> radix_tree_iter) option" where
  "radix_tree_next_chunk s iter flags =
     (if flags AND RADIX_TREE_ITER_TAGGED \<noteq> 0 then Some (None, iter)
      else let index = iter_next_index iter in
        if index = 0 \<and> iter_index iter \<noteq> 0 then Some (None, iter)
        else chunk_loop s iter flags index None)"

definition radix_tree_iter_lookup :: "rt \<Rightarrow> radix_tree_iter \<Rightarrow> u64 \<Rightarrow> (slot_ptr option \<times> radix_tree_iter) option" where
  "radix_tree_iter_lookup s iter index =
     radix_tree_next_chunk s (snd (radix_tree_iter_init iter index)) RADIX_TREE_ITER_CONTIG"

definition radix_tree_iter_find :: "rt \<Rightarrow> radix_tree_iter \<Rightarrow> u64 \<Rightarrow> (slot_ptr option \<times> radix_tree_iter) option" where
  "radix_tree_iter_find s iter index = radix_tree_next_chunk s (snd (radix_tree_iter_init iter index)) 0"

section \<open>The next slot of a chunk, and the loop\<close>

fun slot_inc :: "slot_ptr option \<Rightarrow> slot_ptr option" where
  "slot_inc (Some (NodeSlot p i)) = Some (NodeSlot p (Suc i))"
| "slot_inc slot = None"

fun next_slot_loop ::
  "rt \<Rightarrow> u32 \<Rightarrow> nat \<Rightarrow> slot_ptr option \<Rightarrow> radix_tree_iter \<Rightarrow> (slot_ptr option \<times> radix_tree_iter) option" where
  "next_slot_loop s flags 0 slot iter = Some (None, iter)"
| "next_slot_loop s flags (Suc cnt) slot iter = do {
     let iter1 = iter\<lparr>iter_index := raw_radix_tree_iter_add iter 1\<rparr>;
     sl \<leftarrow> slot_inc slot;
     entry \<leftarrow> load_slot s sl;
     if entry \<noteq> 0 then Some (Some sl, iter1)
     else if flags AND RADIX_TREE_ITER_CONTIG \<noteq> 0 then Some (None, iter1\<lparr>iter_next_index := 0\<rparr>)
     else next_slot_loop s flags cnt (Some sl) iter1
   }"

definition radix_tree_next_slot ::
  "rt \<Rightarrow> slot_ptr option \<Rightarrow> radix_tree_iter \<Rightarrow> u32 \<Rightarrow> (slot_ptr option \<times> radix_tree_iter) option" where
  "radix_tree_next_slot s slot iter flags =
     (if flags AND RADIX_TREE_ITER_TAGGED \<noteq> 0 then Some (slot, iter)
      else next_slot_loop s flags (nat (radix_tree_chunk_size iter - 1)) slot iter)"

text \<open>
  The loop over the slots in use, with the state \<open>x\<close> of its body and the memory of the tree, which
  the body may change.
\<close>

partial_function (option) for_each_loop ::
  "('a \<Rightarrow> rt \<Rightarrow> radix_tree_iter \<Rightarrow> slot_ptr \<Rightarrow> ('a \<times> rt) option) \<Rightarrow>
   'a \<Rightarrow> rt \<Rightarrow> slot_ptr option \<Rightarrow> radix_tree_iter \<Rightarrow> ('a \<times> rt) option" where
  "for_each_loop body x s slot iter = do {
     (slot1, iter1) \<leftarrow> (if slot \<noteq> None then Some (slot, iter) else radix_tree_next_chunk s iter 0);
     case slot1 of
       None \<Rightarrow> Some (x, s)
     | Some sl \<Rightarrow> do {
         (x1, s1) \<leftarrow> body x s iter1 sl;
         (slot2, iter2) \<leftarrow> radix_tree_next_slot s1 slot1 iter1 0;
         for_each_loop body x1 s1 slot2 iter2
       }
   }"

definition radix_tree_for_each_slot ::
  "('a \<Rightarrow> rt \<Rightarrow> radix_tree_iter \<Rightarrow> slot_ptr \<Rightarrow> ('a \<times> rt) option) \<Rightarrow>
   'a \<Rightarrow> rt \<Rightarrow> radix_tree_iter \<Rightarrow> u64 \<Rightarrow> ('a \<times> rt) option" where
  "radix_tree_for_each_slot body x s iter start =
     (case radix_tree_iter_init iter start of (slot, iter1) \<Rightarrow> for_each_loop body x s slot iter1)"

definition radix_tree_iter_delete :: "rt \<Rightarrow> radix_tree_iter \<Rightarrow> slot_ptr \<Rightarrow> (radix_tree_iter \<times> rt) option" where
  "radix_tree_iter_delete s iter slot = do {
     (deleted, s1) \<leftarrow> raw_radix_tree_delete s (iter_node iter) slot;
     Some (if deleted then iter\<lparr>iter_index := iter_next_index iter\<rparr> else iter, s1)
   }"

declare chunk_loop.simps [code] for_each_loop.simps [code]

end
