(* ===== verification/Radix_Iter_Steps.thy ===== *)
theory Radix_Iter_Steps
  imports Radix_Iter
begin

text \<open>
  The iterator visits exactly the entries of the tree, in ascending order of their indices.  First
  the index arithmetic, then one chunk, then one slot, then the loop.
\<close>

section \<open>Index arithmetic of the iterator\<close>

lemma shift_maxindex_mask: "unat sh = 6 * k \<Longrightarrow> shift_maxindex sh = mask (6 * k + 6)"
  by (simp add: shift_maxindex_def mask_eq_exp_minus_1 push_bit_eq_mult power_add mult.commute)

lemma unat_and_not_mask: "unat ((i :: u64) AND NOT (mask m)) = unat i div 2 ^ m * 2 ^ m"
proof -
  have "i AND NOT (mask m) = push_bit m (drop_bit m i)"
    by (rule bit_word_eqI) (auto simp: bit_simps)
  moreover have "unat (push_bit m (drop_bit m i)) = (unat i div 2 ^ m * 2 ^ m) mod 2 ^ 64"
    by (simp only: unsigned_push_bit_eq unat_drop_bit) (simp add: push_bit_eq_mult take_bit_eq_mod)
  moreover have "unat i div 2 ^ m * 2 ^ m < 2 ^ 64"
    using div_times_less_eq_dividend [of "unat i" "2 ^ m"] unat_lt_2p64 [of i] by (rule le_less_trans)
  ultimately show ?thesis by simp
qed

lemma next_index_nat:
  assumes "unat (node_shift n) = 6 * k"
  shows "unat (next_index i n (of_nat off)) = (unat i div 64 ^ Suc k * 64 ^ Suc k + off * 64 ^ k) mod 2 ^ 64"
proof -
  have m: "(2 :: nat) ^ (6 * k + 6) = 64 ^ Suc k" by (simp only: pow64) (simp add: add.commute)
  have "push_bit (6 * k) (of_nat off :: u64) = of_nat (off * 64 ^ k)"
    by (simp add: push_bit_eq_mult pow64 mult.commute)
  then have "unat (next_index i n (of_nat off)) =
      (unat (i AND NOT (mask (6 * k + 6))) + unat (of_nat (off * 64 ^ k) :: u64)) mod 2 ^ 64"
    using assms by (simp add: next_index_def node_maxindex_def shift_maxindex_mask [OF assms] unat_word_ariths)
  also have "\<dots> = (unat i div 64 ^ Suc k * 64 ^ Suc k + off * 64 ^ k) mod 2 ^ 64"
    by (simp only: unat_and_not_mask m unat_of_nat) (simp add: mod_simps)
  finally show ?thesis .
qed

lemma leaf_index:
  assumes "node_shift n = 0" "off < 64"
  shows "(i AND NOT (node_maxindex n)) OR of_nat off = next_index i n (of_nat off)"
proof -
  have "of_nat off = take_bit 6 (of_nat off :: u64)"
    using assms(2) by (simp add: take_bit_of_nat take_bit_nat_eq_self)
  then have "bit (of_nat off :: u64) b \<Longrightarrow> b < 6" for b by (metis bit_take_bit_iff)
  then have "(i AND NOT (mask 6)) + of_nat off = (i AND NOT (mask 6)) OR (of_nat off :: u64)"
    by (intro disjunctive_add) (auto simp: bit_simps)
  then show ?thesis
    using assms(1) shift_maxindex_mask [of 0 0] by (simp add: next_index_def node_maxindex_def)
qed

lemma leaf_next:
  assumes "node_shift n = 0"
  shows "(i OR node_maxindex n) + 1 = next_index i n (of_nat 64)"
proof -
  have "(i AND NOT (mask 6)) + mask 6 = (i AND NOT (mask 6)) OR (mask 6 :: u64)"
    by (intro disjunctive_add) (auto simp: bit_simps)
  also have "\<dots> = i OR mask 6" by (rule bit_word_eqI) (auto simp: bit_simps)
  finally have "i OR mask 6 = (i AND NOT (mask 6)) + mask 6" by simp
  moreover have "(mask 6 :: u64) + 1 = 64" by (simp add: mask_eq_exp_minus_1)
  ultimately show ?thesis
    using assms shift_maxindex_mask [of 0 0] by (simp add: next_index_def node_maxindex_def add.assoc)
qed

section \<open>Indices fit in 64 bits\<close>

lemma pfx_lt:
  assumes inv: "rt_inv s" and "pfx s p k b"
  shows "b * 64 ^ Suc k < 2 ^ 64"
  using assms(2)
proof induction
  case (pfx_root p n k)
  then show ?case by simp
next
  case (pfx_step p n k b)
  obtain q where q: "node_at s (node_parent n) q" "unat (node_shift q) = 6 * Suc k"
    "unat (node_offset n) < 64" "node_slots q ! unat (node_offset n) = node_to_entry p"
    using rt_inv_parent [OF inv pfx_step(1-3)] by blast
  obtain K where "K \<le> 10" "unat (node_shift q) = 6 * K" using rt_inv_level [OF inv q(1)] by blast
  then have k: "Suc k \<le> 10" using q(2) by simp
  show ?case
  proof (cases "Suc k = 10")
    case True
    have "node_slots q ! unat (node_offset n) \<noteq> 0" using q(4) by simp
    then have off: "unat (node_offset n) < 16"
      using rt_invD(1) [OF inv q(1)] q(2,3) True unfolding shape_ok_def by (auto simp: not_less [symmetric])
    have "b = 0"
      using pfx_step(5) True by (cases b) simp_all
    with off True show ?thesis by simp
  next
    case False
    then have "k \<le> 8" using k by simp
    then have "(64 :: nat) ^ Suc (Suc k) dvd 2 ^ 64" unfolding pow64 by (intro le_imp_power_dvd) simp
    then obtain c where c: "(2 :: nat) ^ 64 = 64 ^ Suc (Suc k) * c" by (rule dvdE)
    have "b * 64 ^ Suc (Suc k) < c * 64 ^ Suc (Suc k)" using pfx_step(5) unfolding c by (simp only: mult.commute)
    then have "b < c" by (simp only: mult_less_cancel2)
    then have "64 * b + unat (node_offset n) < 64 * c" using q(3) by linarith
    then have "(64 * b + unat (node_offset n)) * 64 ^ Suc k < 64 * c * 64 ^ Suc k" by simp
    also have "\<dots> = 2 ^ 64" unfolding c by simp
    finally show ?thesis .
  qed
qed

lemma pfx_slot_lt:
  assumes "rt_inv s" "pfx s p k b" "node_at s p n" "off < 64" "node_slots n ! off \<noteq> 0"
  shows "b * 64 ^ Suc k + off * 64 ^ k < 2 ^ 64"
proof (cases k)
  case 0
  have "b * 64 < 2 ^ 64" using pfx_lt [OF assms(1,2)] 0 by simp
  then have "b * 64 + 63 < 2 ^ 64" by simp
  with 0 assms(4) show ?thesis by simp
next
  case (Suc j)
  with assms obtain c where "pfx s c j (64 * b + off)" by (metis pfx_down)
  from pfx_lt [OF assms(1) this] show ?thesis using Suc by (simp add: algebra_simps)
qed

lemma content_slot:
  assumes "rt_inv s" "content s j e" "pfx s p k (j div 64 ^ Suc k)" "node_at s p n"
  shows "node_slots n ! (j div 64 ^ k mod 64) \<noteq> 0"
proof (cases k)
  case 0
  then show ?thesis using assms content_leaf [of s p j n e] by simp
next
  case (Suc m)
  then show ?thesis using content_path [OF assms(1,2) _ assms(4), of m] assms(3) by simp
qed

lemma content_lt:
  assumes "rt_inv s" "content s j e"
  shows "j < 2 ^ 64"
proof -
  from assms(2) obtain p n where p: "node_at s p n" "pfx s p 0 (j div 64)" "node_slots n ! (j mod 64) \<noteq> 0"
    by (auto simp: content_def)
  from pfx_slot_lt [OF assms(1) p(2,1) _ p(3)] show ?thesis by (simp add: mult.commute)
qed

section \<open>The scan of a node\<close>

lemma scan_slots_ok:
  assumes "off \<le> 64"
  shows "off \<le> scan_slots xs off \<and> scan_slots xs off \<le> 64 \<and> (\<forall>o'. off \<le> o' \<longrightarrow> o' < scan_slots xs off \<longrightarrow> xs ! o' = 0)
     \<and> (scan_slots xs off < 64 \<longrightarrow> xs ! scan_slots xs off \<noteq> 0)"
  using assms
proof (induction xs off rule: scan_slots.induct)
  case (1 xs off)
  show ?case
  proof (cases "off < 64 \<and> xs ! off = 0")
    case True
    then have eq: "scan_slots xs off = scan_slots xs (Suc off)" by (simp add: scan_slots.simps [of xs off])
    have "off = o' \<or> Suc off \<le> o'" if "off \<le> o'" for o' using that by auto
    with 1 True show ?thesis unfolding eq by (auto simp: Suc_le_eq)
  next
    case False
    then have "scan_slots xs off = off" by (auto simp: scan_slots.simps [of xs off])
    with False 1 show ?thesis by auto
  qed
qed

lemma scan_from:
  assumes "d < 64" "xs ! d = 0" "off = scan_slots xs (Suc d)"
  shows "d < off" "off \<le> 64" "\<forall>x. d \<le> x \<longrightarrow> x < off \<longrightarrow> xs ! x = 0" "off < 64 \<longrightarrow> xs ! off \<noteq> 0"
proof -
  have "Suc d \<le> 64" using assms(1) by simp
  note ok = scan_slots_ok [OF this, of xs, folded assms(3)]
  then show "d < off" "off \<le> 64" "off < 64 \<longrightarrow> xs ! off \<noteq> 0" by simp_all
  show "\<forall>x. d \<le> x \<longrightarrow> x < off \<longrightarrow> xs ! x = 0"
    using ok assms(2) by (metis Suc_leI le_neq_implies_less)
qed

section \<open>One chunk\<close>

definition gap :: "rt \<Rightarrow> nat \<Rightarrow> nat \<Rightarrow> bool" where
  "gap s a b \<longleftrightarrow> (\<forall>j e. a \<le> j \<longrightarrow> j < b \<longrightarrow> \<not> content s j e)"

lemma gap_trans: "gap s a b \<Longrightarrow> gap s b c \<Longrightarrow> gap s a c"
  unfolding gap_def by (meson not_le)

text \<open>The iterator stands on slot \<open>d\<close> of the leaf \<open>p\<close>, the entry of index \<open>j\<close>.\<close>

definition at_entry :: "rt \<Rightarrow> radix_tree_iter \<Rightarrow> u64 \<Rightarrow> nat \<Rightarrow> nat \<Rightarrow> bool" where
  "at_entry s iter p d j \<longleftrightarrow> (\<exists>n. node_at s p n \<and> node_slots n ! d \<noteq> 0) \<and> d < 64 \<and> j mod 64 = d \<and> pfx s p 0 (j div 64)
     \<and> unat (iter_index iter) = j \<and> unat (iter_next_index iter) = (64 * (j div 64) + 64) mod 2 ^ 64
     \<and> iter_node iter = p"

definition chunk_post :: "rt \<Rightarrow> radix_tree_iter \<Rightarrow> nat \<Rightarrow> (slot_ptr option \<times> radix_tree_iter) option \<Rightarrow> bool" where
  "chunk_post s iter m res \<longleftrightarrow> res = Some (None, iter) \<and> gap s m (2 ^ 64)
     \<or> (\<exists>p d j iter'. res = Some (Some (NodeSlot p d), iter') \<and> m \<le> j \<and> gap s m j \<and> at_entry s iter' p d j)"

lemma chunk_post_step: "chunk_post s iter m' res \<Longrightarrow> m \<le> m' \<Longrightarrow> gap s m m' \<Longrightarrow> chunk_post s iter m res"
  unfolding chunk_post_def by (elim disjE exE) (auto intro: gap_trans le_trans)

text \<open>The slots from the digit of \<open>i\<close> up to \<open>off\<close> are empty, so nothing is stored below them.\<close>

lemma scan_gap:
  assumes inv: "rt_inv s" and p: "pfx s p k (i div 64 ^ Suc k)" "node_at s p n"
    and z: "\<forall>x. i div 64 ^ k mod 64 \<le> x \<longrightarrow> x < off \<longrightarrow> node_slots n ! x = 0" and off: "off \<le> 64"
  shows "gap s i (i div 64 ^ Suc k * 64 ^ Suc k + off * 64 ^ k)"
  unfolding gap_def
proof (intro allI impI notI)
  fix j e assume j: "i \<le> j" "j < i div 64 ^ Suc k * 64 ^ Suc k + off * 64 ^ k" "content s j e"
  let ?B = "i div 64 ^ Suc k"
  have "j div 64 ^ k < ?B * 64 + off"
    using j(2) by (intro less_mult_imp_div_less) (simp add: algebra_simps)
  moreover have "i div 64 ^ k \<le> j div 64 ^ k" using j(1) by (rule div_le_mono)
  moreover have i: "i div 64 ^ k = ?B * 64 + i div 64 ^ k mod 64"
    using div_mult_mod_eq [of "i div 64 ^ k" 64] by (simp only: div_pow64)
  ultimately have J: "?B * 64 + i div 64 ^ k mod 64 \<le> j div 64 ^ k" "j div 64 ^ k < ?B * 64 + off" by simp_all
  define x where "x = j div 64 ^ k - ?B * 64"
  have "j div 64 ^ k = 64 * ?B + x" using J(1) by (simp add: x_def)
  moreover have x: "i div 64 ^ k mod 64 \<le> x" "x < off" "x < 64" using J off by (simp_all add: x_def)
  ultimately have "j div 64 ^ k div 64 = ?B" "j div 64 ^ k mod 64 = x" by simp_all
  then have "j div 64 ^ Suc k = ?B" by (simp only: div_pow64)
  then have "node_slots n ! x \<noteq> 0"
    using content_slot [OF inv j(3) _ p(2), of k] p(1) \<open>j div 64 ^ k mod 64 = x\<close> by simp
  with z x show False by blast
qed

lemma end_wraps:
  assumes "i < 2 ^ 64" "k \<le> 10" "2 ^ 64 \<le> i div 64 ^ Suc k * 64 ^ Suc k + 64 * 64 ^ k"
  shows "(i div 64 ^ Suc k * 64 ^ Suc k + 64 * 64 ^ k) mod (2 :: nat) ^ 64 = 0"
proof (cases "k = 10")
  case True
  with assms(1) show ?thesis by simp
next
  case False
  with assms(2) have "(64 :: nat) ^ Suc k dvd 2 ^ 64" unfolding pow64 by (intro le_imp_power_dvd) simp
  then obtain c where c: "(2 :: nat) ^ 64 = 64 ^ Suc k * c" by (rule dvdE)
  with assms(1) have "i div 64 ^ Suc k < c" by (metis less_mult_imp_div_less mult.commute)
  moreover have "(i div 64 ^ Suc k + 1) * 64 ^ Suc k \<ge> c * 64 ^ Suc k"
    using assms(3) unfolding c by (simp add: algebra_simps)
  then have "c \<le> i div 64 ^ Suc k + 1" by (simp only: mult_le_cancel2) simp
  ultimately have "i div 64 ^ Suc k + 1 = c" by simp
  then have "i div 64 ^ Suc k * 64 ^ Suc k + 64 * 64 ^ k = 2 ^ 64"
    unfolding c by (metis add_mult_distrib mult.commute mult_1 power_Suc)
  then show ?thesis by simp
qed

lemma at_leaf:
  assumes "rt_inv s" "pfx s p 0 (unat i div 64)" "node_at s p n" "d < 64" "node_slots n ! d \<noteq> 0"
  shows "at_entry s (iter\<lparr>iter_index := (i AND NOT (node_maxindex n)) OR of_nat d,
           iter_next_index := (i OR node_maxindex n) + 1, iter_node := p\<rparr>) p d (64 * (unat i div 64) + d)"
proof -
  have lev: "unat (node_shift n) = 6 * 0" using pfx_node_at [OF assms(2)] assms(3) node_at_unique by blast
  then have sh: "node_shift n = 0" using shift_zero [of _ 0] by simp
  have "unat i div 64 * 64 + d * 1 < 2 ^ 64" using pfx_slot_lt [OF assms(1-5)] by simp
  then show ?thesis
    using assms next_index_nat [OF lev, of i d] next_index_nat [OF lev, of i 64]
    unfolding at_entry_def leaf_index [OF sh assms(4)] leaf_next [OF sh] by (auto simp: mult.commute)
qed

text \<open>
  One turn of the descending loop, at a node of level \<open>k\<close> on the way to index \<open>i\<close>: it returns,
  or restarts with a greater index, or goes on at a slot in use (\<open>go\<close>).
\<close>

definition turn_end :: "rt \<Rightarrow> radix_tree_iter \<Rightarrow> u32 \<Rightarrow> u64 \<Rightarrow> radix_tree_node \<Rightarrow> u64 \<Rightarrow> nat \<Rightarrow>
    (slot_ptr option \<times> radix_tree_iter) option" where
  "turn_end s iter flags p n i off =
     (if node_shift n \<noteq> 0 \<and> radix_tree_is_internal_node (node_slots n ! off)
      then chunk_loop s iter flags i (Some (node_slots n ! off))
      else Some (Some (NodeSlot p off),
        iter\<lparr>iter_index := (i AND NOT (node_maxindex n)) OR of_nat off,
             iter_next_index := (i OR node_maxindex n) + 1, iter_node := p\<rparr>))"

lemma chunk_loop_turn:
  assumes inv: "rt_inv s" and p: "node_at s p n" "unat (node_shift n) = 6 * k" and d: "d = unat i div 64 ^ k mod 64"
  shows "node_slots n ! d \<noteq> 0 \<Longrightarrow>
      chunk_loop s iter flags i (Some (node_to_entry p)) = turn_end s iter flags p n i d"
    and "node_slots n ! d = 0 \<Longrightarrow> flags AND RADIX_TREE_ITER_CONTIG \<noteq> 0 \<Longrightarrow>
      chunk_loop s iter flags i (Some (node_to_entry p)) = Some (None, iter)"
    and "node_slots n ! d = 0 \<Longrightarrow> flags AND RADIX_TREE_ITER_CONTIG = 0 \<Longrightarrow> off = scan_slots (node_slots n) (Suc d) \<Longrightarrow>
      i' = next_index i n (of_nat off) \<Longrightarrow>
      chunk_loop s iter flags i (Some (node_to_entry p)) =
        (if i' = 0 then Some (None, iter) else if off = 64 then chunk_loop s iter flags i' None
         else turn_end s iter flags p n i' off)"
proof -
  have np: "rt_nodes s p = Some n" using p(1) by (simp add: node_at_def)
  have ap: "entry_to_node (node_to_entry p) = p" using rt_inv_addr [OF inv p(1)] by simp
  have len: "length (node_slots n) = 64" using inv p(1) by (rule rt_inv_length)
  have dl: "d < 64" using d by simp
  have so: "unat (slot_offset (node_shift n) i) = d" using slot_offset_nat [OF p(2)] d by simp
  note desc = descend_ok [OF inv p, of i, folded d]
  show "chunk_loop s iter flags i (Some (node_to_entry p)) = turn_end s iter flags p n i d" if "node_slots n ! d \<noteq> 0"
    using that np ap len dl so desc by (subst chunk_loop.simps) (simp add: Let_def turn_end_def)
  show "chunk_loop s iter flags i (Some (node_to_entry p)) = Some (None, iter)"
    if "node_slots n ! d = 0" "flags AND RADIX_TREE_ITER_CONTIG \<noteq> 0"
    using that np ap desc by (subst chunk_loop.simps) (simp add: Let_def)
  show "chunk_loop s iter flags i (Some (node_to_entry p)) =
        (if i' = 0 then Some (None, iter) else if off = 64 then chunk_loop s iter flags i' None
         else turn_end s iter flags p n i' off)"
    if z: "node_slots n ! d = 0" "flags AND RADIX_TREE_ITER_CONTIG = 0" "off = scan_slots (node_slots n) (Suc d)"
      "i' = next_index i n (of_nat off)"
  proof -
    note scan_from(2,4) [OF dl z(1,3)]
    then show ?thesis using z np ap len so desc by (subst chunk_loop.simps) (auto simp: Let_def turn_end_def)
  qed
qed

lemma chunk_turn:
  assumes inv: "rt_inv s" and contig: "flags AND RADIX_TREE_ITER_CONTIG = 0"
    and restart: "\<And>i'. unat i < unat i' \<Longrightarrow> chunk_post s iter (unat i') (chunk_loop s iter flags i' None)"
    and p: "pfx s p k (unat i div 64 ^ Suc k)" "node_at s p n" "unat (node_shift n) = 6 * k"
    and go: "\<And>i' off. off < 64 \<Longrightarrow> node_slots n ! off \<noteq> 0 \<Longrightarrow> unat i \<le> unat i' \<Longrightarrow>
       unat i' div 64 ^ k = unat i div 64 ^ Suc k * 64 + off \<Longrightarrow>
       chunk_post s iter (unat i') (turn_end s iter flags p n i' off)"
  shows "chunk_post s iter (unat i) (chunk_loop s iter flags i (Some (node_to_entry p)))"
proof -
  define d where "d = unat i div 64 ^ k mod 64"
  let ?B = "unat i div 64 ^ Suc k"
  have i: "unat i div 64 ^ k = ?B * 64 + d"
    using div_mult_mod_eq [of "unat i div 64 ^ k" 64] unfolding d_def by (simp only: div_pow64)
  have dl: "d < 64" by (simp add: d_def)
  note turn = chunk_loop_turn [OF inv p(2,3) d_def]
  show ?thesis
  proof (cases "node_slots n ! d = 0")
    case False
    with go [OF dl False _ i] turn(1) show ?thesis by simp
  next
    case True
    define off where "off = scan_slots (node_slots n) (Suc d)"
    note off = scan_from [OF dl True off_def]
    define v where "v = ?B * 64 ^ Suc k + off * 64 ^ k"
    have gp: "gap s (unat i) v"
      unfolding v_def by (rule scan_gap [OF inv p(1,2)]) (use off d_def in auto)
    define i' where "i' = next_index i n (of_nat off)"
    have i': "unat i' = v mod 2 ^ 64" unfolding i'_def v_def by (rule next_index_nat [OF p(3)])
    have veq: "v = (?B * 64 + off) * 64 ^ k" by (simp add: v_def algebra_simps)
    have "unat i < (?B * 64 + d + 1) * 64 ^ k"
      using i by (metis Suc_eq_plus1 add.assoc dividend_less_div_times mult.commute mult_Suc zero_less_numeral zero_less_power)
    also have "\<dots> \<le> v" unfolding veq using off(1) by (intro mult_le_mono1) simp
    finally have lt: "unat i < v" .
    note eq = turn(3) [OF True contig off_def i'_def]
    show ?thesis
    proof (cases "v < 2 ^ 64")
      case False
      have k: "k \<le> 10" using rt_inv_level [OF inv p(2)] p(3) by (metis nat_mult_eq_cancel1 zero_less_numeral)
      have "off = 64" using off(2,4) pfx_slot_lt [OF inv p(1,2), of off] False unfolding v_def by fastforce
      then have "i' = 0"
        using i' end_wraps [OF unat_lt_2p64 k] False unfolding v_def by (simp add: unat_eq_0)
      moreover have "gap s (unat i) (2 ^ 64)" using gp False unfolding gap_def by auto
      ultimately show ?thesis using eq by (simp add: chunk_post_def)
    next
      case small: True
      then have iv: "unat i' = v" using i' by simp
      then have "i' \<noteq> 0" using lt by (auto simp: unat_eq_0)
      have "chunk_post s iter v (chunk_loop s iter flags i (Some (node_to_entry p)))"
      proof (cases "off = 64")
        case True
        then show ?thesis using eq \<open>i' \<noteq> 0\<close> restart [of i'] lt iv by simp
      next
        case False
        then have "off < 64" using off(2) by simp
        with go [of off i'] off(4) lt iv veq eq False \<open>i' \<noteq> 0\<close> show ?thesis by simp
      qed
      then show ?thesis by (rule chunk_post_step) (use lt gp in simp_all)
    qed
  qed
qed

lemma chunk_node:
  assumes inv: "rt_inv s" and contig: "flags AND RADIX_TREE_ITER_CONTIG = 0"
    and restart: "\<And>i'. unat i0 < unat i' \<Longrightarrow> chunk_post s iter (unat i') (chunk_loop s iter flags i' None)"
    and "pfx s p k (unat i div 64 ^ Suc k)" "unat i0 \<le> unat i"
  shows "chunk_post s iter (unat i) (chunk_loop s iter flags i (Some (node_to_entry p)))"
  using assms(4,5)
proof (induction k arbitrary: p i)
  case (0 p i)
  obtain n where n: "node_at s p n" "unat (node_shift n) = 6 * 0" using pfx_node_at [OF 0(1)] by blast
  show ?case
  proof (rule chunk_turn [OF inv contig restart 0(1) n])
    fix i' :: u64 and off assume a: "off < 64" "node_slots n ! off \<noteq> 0" "unat i' div 64 ^ 0 = unat i div 64 ^ Suc 0 * 64 + off"
    have i': "unat i' = 64 * (unat i' div 64) + off" "unat i' div 64 = unat i div 64" using a(1,3) by simp_all
    have "turn_end s iter flags p n i' off = Some (Some (NodeSlot p off),
        iter\<lparr>iter_index := (i' AND NOT (node_maxindex n)) OR of_nat off,
             iter_next_index := (i' OR node_maxindex n) + 1, iter_node := p\<rparr>)"
      using n(2) shift_zero [of _ 0] by (simp add: turn_end_def)
    moreover have "pfx s p 0 (unat i' div 64)" using 0(1) i'(2) by simp
    from at_leaf [OF inv this n(1) a(1,2), of iter, folded i'(1)]
    have "at_entry s (iter\<lparr>iter_index := (i' AND NOT (node_maxindex n)) OR of_nat off,
             iter_next_index := (i' OR node_maxindex n) + 1, iter_node := p\<rparr>) p off (unat i')" .
    ultimately show "chunk_post s iter (unat i') (turn_end s iter flags p n i' off)"
      by (auto simp: chunk_post_def gap_def)
  qed (use 0 in auto)
next
  case (Suc k p i)
  obtain n where n: "node_at s p n" "unat (node_shift n) = 6 * Suc k" using pfx_node_at [OF Suc.prems(1)] by blast
  show ?case
  proof (rule chunk_turn [OF inv contig restart Suc.prems(1) n])
    fix i' :: u64 and off assume a: "off < 64" "node_slots n ! off \<noteq> 0" "unat i \<le> unat i'"
      "unat i' div 64 ^ Suc k = unat i div 64 ^ Suc (Suc k) * 64 + off"
    obtain c m where c: "node_slots n ! off = node_to_entry c" "node_at s c m"
      "pfx s c k (64 * (unat i div 64 ^ Suc (Suc k)) + off)"
      using pfx_down [OF inv Suc.prems(1) n(1) a(1,2)] by metis
    have "turn_end s iter flags p n i' off = chunk_loop s iter flags i' (Some (node_to_entry c))"
      using c(1) rt_inv_addr [OF inv c(2)] n(2) shift_zero [OF n(2)] by (simp add: turn_end_def)
    moreover have "pfx s c k (unat i' div 64 ^ Suc k)" using c(3) a(4) by (simp add: mult.commute)
    ultimately show "chunk_post s iter (unat i') (turn_end s iter flags p n i' off)"
      using Suc.IH [of c i'] Suc.prems(2) a(3) by simp
  qed (use Suc in auto)
qed

lemma chunk_ok:
  assumes inv: "rt_inv s" and contig: "flags AND RADIX_TREE_ITER_CONTIG = 0"
  shows "chunk_post s iter (unat i) (chunk_loop s iter flags i None)"
proof (induction "2 ^ 64 - unat i" arbitrary: i rule: less_induct)
  case less
  have restart: "chunk_post s iter (unat i') (chunk_loop s iter flags i' None)" if "unat i < unat i'" for i'
    using less that unat_lt_2p64 [of i'] by simp
  show ?case
  proof (cases "rnode s = 0")
    case True
    then have "chunk_loop s iter flags i None = Some (None, iter)"
      by (subst chunk_loop.simps) (simp add: load_root_empty)
    with content_empty [OF inv True] show ?thesis by (simp add: chunk_post_def gap_def)
  next
    case False
    then obtain r n where r: "rnode s = node_to_entry r" "node_at s r n" using rt_inv_root [OF inv] by metis
    obtain K where K: "K \<le> 10" "unat (node_shift n) = 6 * K" using rt_inv_level [OF inv r(2)] by blast
    note lr = load_root_tree [OF inv r]
    have cmp: "node_maxindex n < i \<longleftrightarrow> 64 ^ Suc K \<le> unat i"
      using shift_maxindex_nat [OF K(2,1)] by (simp add: node_maxindex_def)
    show ?thesis
    proof (cases "node_maxindex n < i")
      case True
      then have "chunk_loop s iter flags i None = Some (None, iter)"
        by (subst chunk_loop.simps) (simp add: lr)
      moreover have "gap s (unat i) (2 ^ 64)"
        using content_bound [OF inv _ r K(2)] True cmp unfolding gap_def by (meson le_trans not_le)
      ultimately show ?thesis by (simp add: chunk_post_def)
    next
      case False
      then have "chunk_loop s iter flags i None = chunk_loop s iter flags i (Some (node_to_entry r))"
        using rt_inv_addr [OF inv r(2)] by (subst chunk_loop.simps) (simp add: lr)
      moreover have "pfx s r K (unat i div 64 ^ Suc K)"
        using pfx_rootI [OF inv r K(2)] False cmp by simp
      from chunk_node [OF inv contig restart this order_refl]
      have "chunk_post s iter (unat i) (chunk_loop s iter flags i (Some (node_to_entry r)))" by simp
      ultimately show ?thesis by simp
    qed
  qed
qed

lemma next_chunk_ok:
  assumes "rt_inv s" "iter_next_index iter \<noteq> 0 \<or> iter_index iter = 0"
  shows "chunk_post s iter (unat (iter_next_index iter)) (radix_tree_next_chunk s iter 0)"
  using chunk_ok [OF assms(1), of 0 iter "iter_next_index iter"] assms(2)
  by (auto simp: radix_tree_next_chunk_def Let_def)

section \<open>One slot\<close>

lemma next_slot_loop_ok:
  assumes inv: "rt_inv s" and p: "node_at s p n" "pfx s p 0 b" and "d + cnt = 63" "unat (iter_index iter) = 64 * b + d"
    "unat (iter_next_index iter) = (64 * b + 64) mod 2 ^ 64" "iter_node iter = p"
  shows "\<exists>sl iter'. next_slot_loop s 0 cnt (Some (NodeSlot p d)) iter = Some (sl, iter')
     \<and> (sl = None \<and> iter_next_index iter' = iter_next_index iter \<and> unat (iter_index iter') = 64 * b + 63
           \<and> gap s (64 * b + d + 1) (64 * b + 64)
        \<or> (\<exists>d' > d. sl = Some (NodeSlot p d') \<and> gap s (64 * b + d + 1) (64 * b + d')
             \<and> at_entry s iter' p d' (64 * b + d')))"
  using assms(4-7)
proof (induction cnt arbitrary: d iter)
  case 0
  then show ?case by (simp add: gap_def)
next
  case (Suc cnt)
  let ?i = "iter\<lparr>iter_index := raw_radix_tree_iter_add iter 1\<rparr>"
  have d: "Suc d < 64" using Suc.prems(1) by simp
  have *: "(64 * b + Suc d) div 64 = b" "(64 * b + Suc d) mod 64 = Suc d" using d by simp_all
  have len: "length (node_slots n) = 64" using inv p(1) by (rule rt_inv_length)
  have "b * 64 < 2 ^ 64" using pfx_lt [OF inv p(2)] by simp
  then have "64 * b + 63 < 2 ^ 64" by simp
  then have ix: "unat (iter_index ?i) = 64 * b + Suc d"
    using Suc.prems(2) d by (simp add: raw_radix_tree_iter_add_def unat_word_ariths)
  have sl: "load_slot s (NodeSlot p (Suc d)) = Some (node_slots n ! Suc d)"
    using p(1) len d by (simp add: node_at_def)
  have step: "gap s (64 * b + d + 1) x" if "gap s (64 * b + Suc d + 1) x" "node_slots n ! Suc d = 0" for x
    unfolding gap_def
  proof (intro allI impI)
    fix j e assume j: "64 * b + d + 1 \<le> j" "j < x"
    have "pfx s p 0 ((64 * b + Suc d) div 64)" using p(2) unfolding *(1) .
    from content_leaf [OF inv this p(1), of e] that(2) * have "\<not> content s (64 * b + Suc d) e" by auto
    moreover have "\<not> content s j e" if "64 * b + Suc d + 1 \<le> j"
      using \<open>gap s (64 * b + Suc d + 1) x\<close> that j(2) unfolding gap_def by blast
    ultimately show "\<not> content s j e" using j(1) by (cases "j = 64 * b + Suc d") auto
  qed
  show ?case
  proof (cases "node_slots n ! Suc d = 0")
    case False
    have "at_entry s ?i p (Suc d) (64 * b + Suc d)"
      unfolding at_entry_def * using p False d ix Suc.prems(3,4) by auto
    moreover have "gap s (64 * b + d + 1) (64 * b + Suc d)" by (simp add: gap_def)
    moreover have "next_slot_loop s 0 (Suc cnt) (Some (NodeSlot p d)) iter = Some (Some (NodeSlot p (Suc d)), ?i)"
      using False sl by (simp del: load_slot.simps)
    ultimately show ?thesis by blast
  next
    case True
    have eq: "next_slot_loop s 0 (Suc cnt) (Some (NodeSlot p d)) iter = next_slot_loop s 0 cnt (Some (NodeSlot p (Suc d))) ?i"
      using True sl by (simp del: load_slot.simps)
    from Suc.IH [of "Suc d" ?i] Suc.prems ix
    obtain sl iter' where r: "next_slot_loop s 0 cnt (Some (NodeSlot p (Suc d))) ?i = Some (sl, iter')"
      "sl = None \<and> iter_next_index iter' = iter_next_index iter \<and> unat (iter_index iter') = 64 * b + 63
           \<and> gap s (64 * b + Suc d + 1) (64 * b + 64)
        \<or> (\<exists>d' > Suc d. sl = Some (NodeSlot p d') \<and> gap s (64 * b + Suc d + 1) (64 * b + d')
             \<and> at_entry s iter' p d' (64 * b + d'))" by auto
    with eq step [OF _ True] show ?thesis by (metis Suc_lessD)
  qed
qed

lemma chunk_size_entry:
  assumes "at_entry s iter p d j"
  shows "radix_tree_chunk_size iter = int (64 - d)"
proof -
  have j: "j = 64 * (j div 64) + d" "d < 64" using assms by (auto simp: at_entry_def)
  have ix: "unat (iter_index iter) = j" "unat (iter_next_index iter) = (64 * (j div 64) + 64) mod 2 ^ 64"
    using assms by (simp_all add: at_entry_def)
  have "iter_index iter = of_nat j" by (simp flip: ix(1))
  moreover have "iter_next_index iter = of_nat (64 * (j div 64) + 64)"
    by (simp only: word_unat_eq_iff ix(2) unat_of_nat) simp
  ultimately have "iter_next_index iter - iter_index iter = of_nat (64 * (j div 64) + 64) - of_nat (64 * (j div 64) + d)"
    using j(1) by simp
  also have "\<dots> = of_nat (64 - d)" using j(2) by (simp add: of_nat_diff)
  finally have "radix_tree_chunk_size iter = sint (of_nat (64 - d) :: u64)"
    by (simp add: radix_tree_chunk_size_def)
  also have "\<dots> = int (64 - d)"
  proof -
    have "unat (of_nat (64 - d) :: u64) = 64 - d" by (simp only: unat_of_nat) simp
    then have "uint (of_nat (64 - d) :: u64) = int (64 - d)" by (metis uint_nat)
    moreover have "signed_take_bit 63 (int (64 - d)) = int (64 - d)" by (rule signed_take_bit_int_eq_self) simp_all
    ultimately show ?thesis by (simp only: sint_uint) simp
  qed
  finally show ?thesis .
qed

lemma next_slot_ok:
  assumes inv: "rt_inv s" and at: "at_entry s iter p d j"
  shows "\<exists>sl iter'. radix_tree_next_slot s (Some (NodeSlot p d)) iter 0 = Some (sl, iter')
     \<and> (sl = None \<and> iter_next_index iter' = iter_next_index iter \<and> iter_index iter' \<noteq> 0
           \<and> gap s (j + 1) (64 * (j div 64) + 64)
        \<or> (\<exists>d' j'. sl = Some (NodeSlot p d') \<and> j < j' \<and> gap s (j + 1) j' \<and> at_entry s iter' p d' j'))"
proof -
  let ?b = "j div 64"
  have j: "j = 64 * ?b + d" "d < 64" using at by (auto simp: at_entry_def)
  obtain n where n: "node_at s p n" "pfx s p 0 ?b" using at by (auto simp: at_entry_def)
  have eq: "radix_tree_next_slot s (Some (NodeSlot p d)) iter 0 = next_slot_loop s 0 (63 - d) (Some (NodeSlot p d)) iter"
  proof -
    have "nat (int (64 - d) - 1) = 63 - d" using j(2) by linarith
    then show ?thesis by (simp only: radix_tree_next_slot_def chunk_size_entry [OF at]) simp
  qed
  have "d + (63 - d) = 63" "unat (iter_index iter) = 64 * ?b + d"
    "unat (iter_next_index iter) = (64 * ?b + 64) mod 2 ^ 64" "iter_node iter = p"
    using at j by (simp_all add: at_entry_def)
  from next_slot_loop_ok [OF inv n this] obtain sl iter' where
    r: "radix_tree_next_slot s (Some (NodeSlot p d)) iter 0 = Some (sl, iter')"
    and cs: "sl = None \<and> iter_next_index iter' = iter_next_index iter \<and> unat (iter_index iter') = 64 * ?b + 63
           \<and> gap s (64 * ?b + d + 1) (64 * ?b + 64)
        \<or> (\<exists>d' > d. sl = Some (NodeSlot p d') \<and> gap s (64 * ?b + d + 1) (64 * ?b + d')
             \<and> at_entry s iter' p d' (64 * ?b + d'))" unfolding eq by blast
  from cs show ?thesis
  proof (elim disjE exE conjE)
    fix d' assume d': "d < d'" "sl = Some (NodeSlot p d')" "gap s (64 * ?b + d + 1) (64 * ?b + d')"
      "at_entry s iter' p d' (64 * ?b + d')"
    then have "j < 64 * ?b + d'" "gap s (j + 1) (64 * ?b + d')" using j(1) by simp_all
    with r d'(2,4) show ?thesis by blast
  next
    assume a: "sl = None" "iter_next_index iter' = iter_next_index iter" "unat (iter_index iter') = 64 * ?b + 63"
      "gap s (64 * ?b + d + 1) (64 * ?b + 64)"
    then have "iter_index iter' \<noteq> 0" "gap s (j + 1) (64 * ?b + 64)" using j(1) by auto
    with r a(1,2) show ?thesis by blast
  qed
qed

section \<open>The loop\<close>

text \<open>A body that records the index and the entry of every slot visited.\<close>

definition visit :: "(u64 \<times> u64) list \<Rightarrow> rt \<Rightarrow> radix_tree_iter \<Rightarrow> slot_ptr \<Rightarrow> ((u64 \<times> u64) list \<times> rt) option" where
  "visit xs s iter slot = do { entry \<leftarrow> load_slot s slot; Some (xs @ [(iter_index iter, entry)], s) }"

definition entries_from :: "rt \<Rightarrow> nat \<Rightarrow> (u64 \<times> u64) set" where
  "entries_from s m = {(i, e). m \<le> unat i \<and> content s (unat i) e}"

lemma entries_gap: "gap s m m' \<Longrightarrow> m \<le> m' \<Longrightarrow> entries_from s m = entries_from s m'"
  unfolding entries_from_def gap_def by (auto dest: le_trans simp: not_le [symmetric])

lemma entries_end: "gap s m (2 ^ 64) \<Longrightarrow> entries_from s m = {}"
  unfolding entries_from_def gap_def using unat_lt_2p64 by blast

lemma entries_next:
  assumes "rt_inv s" "content s (unat i) e"
  shows "entries_from s (unat i) = insert (i, e) (entries_from s (unat i + 1))"
proof -
  have "(j, x) \<in> entries_from s (unat i) \<longleftrightarrow> (j, x) = (i, e) \<or> (j, x) \<in> entries_from s (unat i + 1)" for j x
  proof (cases "j = i")
    case True
    with content_unique [OF assms, of x] assms(2) show ?thesis by (auto simp: entries_from_def)
  next
    case False
    then have "unat j \<noteq> unat i" by (simp add: word_unat_eq_iff)
    with False show ?thesis by (auto simp: entries_from_def)
  qed
  then show ?thesis by auto
qed

definition visits :: "rt \<Rightarrow> nat \<Rightarrow> (u64 \<times> u64) list \<Rightarrow> ((u64 \<times> u64) list \<times> rt) option \<Rightarrow> bool" where
  "visits s m acc res \<longleftrightarrow> (\<exists>xs. res = Some (acc @ xs, s) \<and> sorted_wrt (<) (map fst xs) \<and> set xs = entries_from s m)"

lemma visits_Nil: "entries_from s m = {} \<Longrightarrow> visits s m acc (Some (acc, s))"
  by (auto simp: visits_def)

lemma for_each_chunk:
  "radix_tree_next_chunk s iter 0 = Some (slot, iter') \<Longrightarrow>
   for_each_loop body x s None iter =
     (case slot of None \<Rightarrow> Some (x, s) | Some sl \<Rightarrow> for_each_loop body x s slot iter')"
  by (subst for_each_loop.simps, cases slot) (simp_all add: for_each_loop.simps [of body x s "Some _" iter'])

lemma visits_Cons:
  assumes inv: "rt_inv s" and c: "content s (unat i) e" and v: "visits s (unat i + 1) (acc @ [(i, e)]) res"
  shows "visits s (unat i) acc res"
proof -
  obtain xs where xs: "res = Some ((acc @ [(i, e)]) @ xs, s)" "sorted_wrt (<) (map fst xs)" "set xs = entries_from s (unat i + 1)"
    using v unfolding visits_def by blast
  have "\<forall>x \<in> set xs. i < fst x" using xs(3) by (auto simp: entries_from_def word_less_nat_alt)
  then have "sorted_wrt (<) (map fst ((i, e) # xs))" using xs(2) by simp
  moreover have "set ((i, e) # xs) = entries_from s (unat i)" using entries_next [OF inv c] xs(3) by simp
  ultimately show ?thesis using xs(1) unfolding visits_def by (intro exI [of _ "(i, e) # xs"]) simp
qed

text \<open>The end of a leaf: the next chunk, if there is one, starts with the next entry.\<close>

lemma for_each_leaf_end:
  assumes inv: "rt_inv s" and le: "m \<le> m'" "m' \<le> 2 ^ 64" and gap: "gap s m m'"
    and nx: "unat (iter_next_index iter) = m' mod 2 ^ 64" "iter_index iter \<noteq> 0" and m': "0 < m'"
    and IH: "\<And>it q d j. at_entry s it q d j \<Longrightarrow> m \<le> j \<Longrightarrow> gap s m j \<Longrightarrow> visits s m acc (for_each_loop visit acc s (Some (NodeSlot q d)) it)"
  shows "visits s m acc (for_each_loop visit acc s None iter)"
proof (cases "m' < 2 ^ 64")
  case False
  then have eq: "m' = 2 ^ 64" using le(2) by simp
  then have "radix_tree_next_chunk s iter 0 = Some (None, iter)"
    using nx by (simp add: radix_tree_next_chunk_def unat_eq_0)
  with for_each_chunk [where body = visit] entries_end [of s m] gap eq visits_Nil show ?thesis by simp
next
  case True
  then have u: "unat (iter_next_index iter) = m'" using nx(1) by simp
  then have "iter_next_index iter \<noteq> 0 \<or> iter_index iter = 0" using m' by auto
  from next_chunk_ok [OF inv this] u consider
    "radix_tree_next_chunk s iter 0 = Some (None, iter)" "gap s m' (2 ^ 64)"
    | q d j it where "radix_tree_next_chunk s iter 0 = Some (Some (NodeSlot q d), it)" "m' \<le> j" "gap s m' j"
      "at_entry s it q d j" unfolding chunk_post_def by auto
  then show ?thesis
  proof cases
    case 1
    with for_each_chunk [OF 1(1), where body = visit] entries_end [OF gap_trans [OF gap 1(2)]] visits_Nil show ?thesis by simp
  next
    case 2
    with IH [OF 2(4) _ gap_trans [OF gap 2(3)]] le(1) for_each_chunk [OF 2(1), where body = visit] show ?thesis by simp
  qed
qed

lemma for_each_entry:
  assumes inv: "rt_inv s" and at: "at_entry s iter p d j"
  shows "visits s j acc (for_each_loop visit acc s (Some (NodeSlot p d)) iter)"
  using at
proof (induction "2 ^ 64 - j" arbitrary: iter p d j acc rule: less_induct)
  case less
  note at = less.prems
  let ?i = "iter_index iter" and ?m = "64 * (j div 64) + 64"
  have ij: "unat ?i = j" using at by (simp add: at_entry_def)
  obtain n where n: "node_at s p n" "node_slots n ! d \<noteq> 0" "pfx s p 0 (j div 64)" "d = j mod 64" "d < 64"
    using at unfolding at_entry_def by blast
  let ?e = "node_slots n ! d"
  let ?acc = "acc @ [(?i, ?e)]"
  have c: "content s (unat ?i) ?e" using content_leaf [OF inv n(3,1)] n ij by simp
  have ld: "load_slot s (NodeSlot p d) = Some ?e"
    using n(1,5) rt_inv_length [OF inv n(1)] by (simp add: node_at_def)
  obtain sl iter' where r: "radix_tree_next_slot s (Some (NodeSlot p d)) iter 0 = Some (sl, iter')"
    and cs: "sl = None \<and> iter_next_index iter' = iter_next_index iter \<and> iter_index iter' \<noteq> 0 \<and> gap s (j + 1) ?m
        \<or> (\<exists>d' j'. sl = Some (NodeSlot p d') \<and> j < j' \<and> gap s (j + 1) j' \<and> at_entry s iter' p d' j')"
    using next_slot_ok [OF inv at] by blast
  have eq: "for_each_loop visit acc s (Some (NodeSlot p d)) iter = for_each_loop visit ?acc s sl iter'"
    using ld r by (subst for_each_loop.simps) (simp add: visit_def del: load_slot.simps)
  have IH: "visits s (j + 1) acc' (for_each_loop visit acc' s (Some (NodeSlot q d')) it)"
    if "at_entry s it q d' j'" "j + 1 \<le> j'" "gap s (j + 1) j'" for it q d' j' acc'
  proof -
    have "j' < 2 ^ 64" using that(1) unat_lt_2p64 [of "iter_index it"] by (simp add: at_entry_def)
    with less.hyps [OF _ that(1), of acc'] that(2) entries_gap [OF that(3,2)] show ?thesis
      by (simp add: visits_def)
  qed
  have "visits s (j + 1) ?acc (for_each_loop visit ?acc s sl iter')"
    using cs
  proof (elim disjE exE conjE)
    fix d' j' assume "sl = Some (NodeSlot p d')" "j < j'" "gap s (j + 1) j'" "at_entry s iter' p d' j'"
    then show ?thesis using IH [of iter' p d' j' ?acc] by simp
  next
    assume a: "sl = None" "iter_next_index iter' = iter_next_index iter" "iter_index iter' \<noteq> 0" "gap s (j + 1) ?m"
    have "j < 2 ^ 64" using ij unat_lt_2p64 [of ?i] by simp
    then have "j div 64 < 2 ^ 58" by (simp add: less_mult_imp_div_less)
    then have "?m \<le> 2 ^ 64" by simp
    moreover have "j + 1 \<le> ?m" using mod_less_divisor [of 64 j] div_mult_mod_eq [of j 64] by linarith
    moreover have "unat (iter_next_index iter') = ?m mod 2 ^ 64" using at a(2) by (simp add: at_entry_def)
    ultimately show ?thesis unfolding a(1) by (intro for_each_leaf_end [OF inv _ _ a(4) _ a(3)] IH) simp_all
  qed
  with visits_Cons [OF inv c, of acc] ij eq show ?case by simp
qed

lemma for_each_ok:
  assumes inv: "rt_inv s"
  shows "visits s (unat start) [] (radix_tree_for_each_slot visit [] s iter start)"
proof -
  let ?i = "iter\<lparr>iter_index := 0, iter_next_index := start\<rparr>"
  have eq: "radix_tree_for_each_slot visit [] s iter start = for_each_loop visit [] s None ?i"
    by (simp add: radix_tree_for_each_slot_def radix_tree_iter_init_def)
  from next_chunk_ok [OF inv, of ?i] consider
    "radix_tree_next_chunk s ?i 0 = Some (None, ?i)" "gap s (unat start) (2 ^ 64)"
    | q d' j' it where "radix_tree_next_chunk s ?i 0 = Some (Some (NodeSlot q d'), it)" "unat start \<le> j'"
      "gap s (unat start) j'" "at_entry s it q d' j'" unfolding chunk_post_def by auto
  then show ?thesis
  proof cases
    case 1
    with for_each_chunk [OF 1(1), where body = visit] entries_end [OF 1(2)] visits_Nil eq show ?thesis by simp
  next
    case 2
    with for_each_chunk [OF 2(1), where body = visit] for_each_entry [OF inv 2(4), of "[]"] entries_gap [OF 2(3,2)] eq show ?thesis
      by (simp add: visits_def)
  qed
qed

end
