(* ===== verification/Radix_Full.thy ===== *)
theory Radix_Full
  imports Radix_Map Radix_Iter_Steps
begin

text \<open>
  No node of the tree stays empty: an insertion that succeeds leaves every node with an entry, and
  so does a deletion, from which follows that a tree whose last entry was deleted has no root.  The
  arguments look at the counts of the nodes only, so that they are inductions on the loops.
\<close>

section \<open>Counts\<close>

definition counts :: "rt \<Rightarrow> u64 \<rightharpoonup> u32" where
  "counts s p = (if p \<in> set (rt_rcu s) then None else map_option node_count (rt_nodes s p))"

definition full_but :: "rt \<Rightarrow> u64 set \<Rightarrow> bool" where
  "full_but s X \<longleftrightarrow> (\<forall>p. counts s p = Some 0 \<longrightarrow> p \<in> X)"

lemma full_but_mono: "full_but s X \<Longrightarrow> X \<subseteq> Y \<Longrightarrow> full_but s Y"
  by (auto simp: full_but_def)

lemma full_but_cong: "counts s' = counts s \<Longrightarrow> full_but s' X \<longleftrightarrow> full_but s X"
  by (simp add: full_but_def)

lemma full_but_upd: "counts s' = (counts s)(p \<mapsto> c) \<Longrightarrow> full_but s X \<Longrightarrow> c \<noteq> 0 \<or> p \<in> Y \<Longrightarrow> X - {p} \<subseteq> Y \<Longrightarrow> full_but s' Y"
  by (auto simp: full_but_def split: if_splits)

lemma counts_node_at: "node_at s p n \<Longrightarrow> counts s p = Some (node_count n)"
  by (simp add: counts_def node_at_def)

lemma counts_SomeD: "counts s p = Some c \<Longrightarrow> \<exists>n. node_at s p n \<and> node_count n = c"
  by (auto simp: counts_def node_at_def split: if_splits)

lemma counts_root [simp]: "counts (set_rnode s e) = counts s" "counts (s\<lparr>rt_avail := as\<rparr>) = counts s"
  by (auto simp: counts_def set_rnode_def fun_eq_iff)

lemma counts_free [simp]: "counts (radix_tree_node_free s p) = (counts s)(p := None)"
  by (auto simp: counts_def radix_tree_node_free_def fun_eq_iff)

lemma store_slot_counts: "store_slot s sl e = Some s' \<Longrightarrow> counts s' = counts s"
  by (cases sl) (auto simp: counts_def set_rnode_def fun_eq_iff bind_eq_Some_conv split: if_splits)

lemma upd_node_counts:
  assumes "upd_node s p f = Some s'"
  shows "\<exists>n. rt_nodes s p = Some n \<and> counts s' = (if p \<in> set (rt_rcu s) then counts s else (counts s)(p \<mapsto> node_count (f n)))"
  using assms by (auto simp: upd_node_def counts_def fun_eq_iff bind_eq_Some_conv)

lemma upd_node_counts_same: "upd_node s p f = Some s' \<Longrightarrow> (\<And>n. node_count (f n) = node_count n) \<Longrightarrow> counts s' = counts s"
  by (auto simp: upd_node_def counts_def fun_eq_iff bind_eq_Some_conv)

lemma counts_alloc:
  assumes "alloc_ok s" "radix_tree_node_alloc s par sh off c 0 = (p, s1)" "p \<noteq> 0"
  shows "counts s1 = (counts s)(p \<mapsto> c)" "rt_nodes s1 = (rt_nodes s)(p \<mapsto> fresh_node par sh off c)" "rt_rcu s1 = rt_rcu s"
    "alloc_ok s1" "addr_ok p" "rt_nodes s p = None"
  using assms by (auto simp: node_alloc_eq counts_def alloc_ok_def fun_eq_iff split: list.splits if_splits)

lemma alloc_ok_tl: "alloc_ok s \<Longrightarrow> rt_avail s = a # as \<Longrightarrow> alloc_ok (s\<lparr>rt_avail := as\<rparr>)"
  by (auto simp: alloc_ok_def split: if_splits)

lemma alloc_failed:
  assumes "alloc_ok s" "radix_tree_node_alloc s par sh off c 0 = (0, s1)"
  shows "counts s1 = counts s" "alloc_ok s1"
  using assms alloc_ok_tl by (auto simp: node_alloc_eq split: list.splits if_splits)

text \<open>Induction on the runs of a loop that return.\<close>

lemmas shrink_induct = radix_tree_shrink.raw_induct [rotated, consumes 1, case_names step]
lemmas delete_node_induct = delete_node.raw_induct [rotated, consumes 1, case_names step]
lemmas extend_induct = extend_loop.raw_induct [rotated, consumes 1, case_names step]
lemmas create_induct = create_loop.raw_induct [rotated, consumes 1, case_names step]

section \<open>Shrinking and unlinking\<close>

lemma free_zeroed:
  assumes "upd_node s p (node_count_update (\<lambda>_. 0)) = Some s1"
  shows "counts (radix_tree_node_free s1 p) = (counts s)(p := None)"
  using upd_node_counts [OF assms] by (cases "p \<in> set (rt_rcu s)") auto

lemma shrink_full:
  assumes "radix_tree_shrink s sk = Some res" "full_but s {}"
  shows "full_but (snd res) {}"
  using assms
proof (induction rule: shrink_induct)
  case (step f s sk res)
  from step(2) consider "res = (sk, s)"
    | s1 child s3 p where "s1 = s \<or> (\<exists>q. upd_node s q (node_parent_update (\<lambda>_. 0)) = Some s1)"
        "upd_node (set_rnode s1 child) p (node_count_update (\<lambda>_. 0)) = Some s3" "f (radix_tree_node_free s3 p) True = Some res"
    by (auto simp: Let_def bind_eq_Some_conv simp del: load_slot.simps split: if_splits) blast
  then show ?case
  proof cases
    case 2
    have "counts s1 = counts s" using 2(1) upd_node_counts_same [of s _ "node_parent_update (\<lambda>_. 0)" s1] by auto
    then have "full_but (radix_tree_node_free s3 p) {}"
      using free_zeroed [OF 2(2)] step(3) by (auto simp: full_but_def)
    with step(1) [OF 2(3)] show ?thesis by blast
  qed (use step(3) in simp)
qed

lemma delete_node_full:
  assumes "delete_node s p dl = Some res" "full_but s {p}"
  shows "full_but (snd res) {}"
  using assms
proof (induction rule: delete_node_induct)
  case (step f s p dl res)
  then obtain n where n: "rt_nodes s p = Some n" by (auto simp: bind_eq_Some_conv)
  show ?case
  proof (cases "node_count n = 0")
    case False
    then have "full_but s {}" using step(3) n by (auto simp: full_but_def counts_def split: if_splits)
    with step(2) n False show ?thesis using shrink_full by (auto simp: bind_eq_Some_conv split: if_splits)
  next
    case True
    with step(2) n consider "res = (True, radix_tree_node_free (set_rnode s 0) p)"
      | q i s0 s1 where "store_slot s (NodeSlot q i) 0 = Some s0" "upd_node s0 q (\<lambda>m. m\<lparr>node_count := node_count m - 1\<rparr>) = Some s1"
        "f (radix_tree_node_free s1 p) q True = Some res"
      by (auto simp: Let_def bind_eq_Some_conv simp del: store_slot.simps split: if_splits)
    then show ?thesis
    proof cases
      case 1
      then show ?thesis using step(3) by (auto simp: full_but_def)
    next
      case 2
      have "counts s0 = counts s" by (rule store_slot_counts [OF 2(1)])
      with upd_node_counts [OF 2(2)] step(3) have "full_but (radix_tree_node_free s1 p) {q}"
        by (auto simp: full_but_def split: if_splits)
      with step(1) [OF 2(3)] show ?thesis by blast
    qed
  qed
qed

lemma delete_full:
  assumes "radix_tree_delete s i = Some (e, s')" "full_but s {}"
  shows "full_but s' {}"
proof -
  have "full_but s2 {}" if del: "raw_radix_tree_delete s node slot = Some (b, s2)" for node slot b s2
  proof -
    obtain old s1 vals where s1: "replace_slot s slot 0 node (- 1) vals = Some s1" "load_slot s slot = Some old"
      "(if node \<noteq> 0 then delete_node s1 node False else Some (False, s1)) = Some (b, s2)"
      using del by (auto simp: raw_radix_tree_delete_def bind_eq_Some_conv)
    have "full_but s1 (if node = 0 then {} else {node})"
    proof (cases "node = 0")
      case True
      with s1(1) store_slot_counts [of s slot 0 s1] assms(2) show ?thesis by (simp add: replace_slot_def full_but_def)
    next
      case False
      then obtain s0 where s0: "upd_node s node (\<lambda>n. n\<lparr>node_count := node_count n + word_of_int (- 1), node_nr_values := node_nr_values n + word_of_int vals\<rparr>) = Some s0"
        "store_slot s0 slot 0 = Some s1" using s1(1) by (auto simp: replace_slot_def bind_eq_Some_conv)
      from upd_node_counts [OF s0(1)] store_slot_counts [OF s0(2)] assms(2) False show ?thesis
        by (auto simp: full_but_def split: if_splits)
    qed
    with s1(3) delete_node_full [of s1 node False] show ?thesis by (auto split: if_splits)
  qed
  with assms show ?thesis
    by (auto simp: radix_tree_delete_def radix_tree_delete_item_def bind_eq_Some_conv split: option.splits if_splits)
qed

section \<open>Growing\<close>

lemma extend_full:
  assumes "extend_loop s e sh ms = Some res" "alloc_ok s" "full_but s X"
  shows "full_but (snd res) X \<and> alloc_ok (snd res)"
  using assms
proof (induction rule: extend_induct)
  case (step f s e sh ms res)
  obtain c s1 where al: "radix_tree_node_alloc s 0 sh 0 1 0 = (c, s1)" by fastforce
  show ?case
  proof (cases "c = 0")
    case True
    with alloc_failed [OF step(3), of 0 sh 0 1 s1] al step(2,4) show ?thesis by (auto simp: full_but_def)
  next
    case False
    note a = counts_alloc [OF step(3) al False]
    have f1: "full_but s1 X" by (rule full_but_upd [OF a(1) step(4)]) auto
    have "full_but (set_rnode s3 r) X \<and> alloc_ok (set_rnode s3 r)"
      if "upd_node s1 (entry_to_node e) (node_parent_update (\<lambda>_. c)) = Some s2" "store_slot s2 (NodeSlot c 0) e = Some s3" for s2 s3 r
    proof -
      have "counts s2 = counts s1" by (rule upd_node_counts_same [OF that(1)]) simp
      moreover have "counts s3 = counts s2" by (rule store_slot_counts [OF that(2)])
      moreover have "alloc_ok (set_rnode s3 r)"
        using that a(4) by (auto simp: alloc_ok_def upd_node_def set_rnode_def bind_eq_Some_conv split: if_splits)
      ultimately show ?thesis using f1 by (simp add: full_but_def)
    qed
    moreover from step(2) al False obtain s2 s3 where
      "upd_node s1 (entry_to_node e) (node_parent_update (\<lambda>_. c)) = Some s2" "store_slot s2 (NodeSlot c 0) e = Some s3"
      "snd res = set_rnode s3 (node_to_entry c) \<or> f (set_rnode s3 (node_to_entry c)) (node_to_entry c) (sh + 6) ms = Some res"
      by (auto simp: Let_def bind_eq_Some_conv simp del: store_slot.simps split: if_splits)
    ultimately show ?thesis using step(1) by metis
  qed
qed

section \<open>Creating a path\<close>

definition create_pre :: "rt \<Rightarrow> u32 \<Rightarrow> u64 \<Rightarrow> u64 \<Rightarrow> slot_ptr \<Rightarrow> bool" where
  "create_pre s sh node child slot \<longleftrightarrow> alloc_ok s \<and> 6 dvd unat sh \<and> unat sh \<le> 66
     \<and> (\<forall>p c. counts s p = Some c \<longrightarrow> unat c + unat sh \<le> 200)
     \<and> (slot = RootSlot \<and> node = 0 \<or> (\<exists>d. slot = NodeSlot node d) \<and> node \<in> dom (rt_nodes s))
     \<and> full_but s ({node} - {0}) \<and> (child \<noteq> 0 \<longrightarrow> full_but s {})"

lemma store_slot_frame:
  assumes "store_slot s slot e = Some s'"
  shows "dom (rt_nodes s') = dom (rt_nodes s)" "rt_avail s' = rt_avail s" "rt_rcu s' = rt_rcu s"
    "(\<And>d. slot \<noteq> NodeSlot p d) \<Longrightarrow> rt_nodes s' p = rt_nodes s p"
  using assms by (cases slot; auto simp: set_rnode_def bind_eq_Some_conv split: if_splits)+

lemma upd_node_frame:
  assumes "upd_node s q f = Some s'"
  shows "dom (rt_nodes s') = dom (rt_nodes s)" "rt_avail s' = rt_avail s" "rt_rcu s' = rt_rcu s" "p \<noteq> q \<Longrightarrow> rt_nodes s' p = rt_nodes s p"
  using assms by (auto simp: upd_node_def bind_eq_Some_conv split: if_splits)

lemma alloc_ok_cong:
  "dom (rt_nodes s') = dom (rt_nodes s) \<Longrightarrow> rt_avail s' = rt_avail s \<Longrightarrow> rt_rcu s' = rt_rcu s \<Longrightarrow> alloc_ok s' \<longleftrightarrow> alloc_ok s"
  unfolding alloc_ok_def by (metis domIff)

text \<open>One new child: it is the only node without entries, and the loop goes on at an empty slot of it.\<close>

lemma shift_down_le:
  assumes "0 < sh" "6 dvd unat (sh :: u32)" "unat sh \<le> 66"
  shows "unat (sh - 6) + 6 = unat sh" "6 dvd unat (sh - 6)" "unat (sh - 6) \<le> 66"
proof -
  have "6 \<le> unat sh" using assms by (auto simp: word_less_nat_alt dest: dvd_imp_le)
  moreover from this have "unat (sh - 6) = unat sh - 6" by (simp add: unat_sub word_le_nat_alt)
  ultimately show "unat (sh - 6) + 6 = unat sh" "6 dvd unat (sh - 6)" "unat (sh - 6) \<le> 66"
    using assms by (simp_all add: dvd_diff_nat)
qed

lemma bumped_counts:
  assumes up: "upd_node s node (\<lambda>m. m\<lparr>node_count := node_count m + 1\<rparr>) = Some s'"
    and c: "\<And>c. counts s node = Some c \<Longrightarrow> unat c \<le> 200"
    and q: "counts s' q = Some x"
  shows "\<exists>y. counts s q = Some y \<and> unat x \<le> unat y + 1 \<and> (if q = node then x \<noteq> 0 else x = y)"
proof (cases "q = node")
  case True
  obtain n where n: "rt_nodes s node = Some n"
    "counts s' = (if node \<in> set (rt_rcu s) then counts s else (counts s)(node \<mapsto> node_count n + 1))"
    using upd_node_counts [OF up] by auto
  have "counts s node = (if node \<in> set (rt_rcu s) then None else Some (node_count n))"
    using n(1) by (simp add: counts_def)
  with q True n(2) have y: "counts s node = Some (node_count n)" "x = node_count n + 1" by (auto split: if_splits)
  have "unat x = unat (node_count n) + 1" using c [OF y(1)] y(2) by (simp add: unat_word_ariths)
  then show ?thesis using y True by auto
next
  case False
  with q upd_node_counts [OF up] show ?thesis by (auto split: if_splits)
qed

lemma child_counts:
  assumes c2: "counts s2 = (counts s)(c \<mapsto> 0)" and cn: "c \<noteq> node"
    and up: "(if node \<noteq> 0 then upd_node s2 node (\<lambda>m. m\<lparr>node_count := node_count m + 1\<rparr>) else Some s2) = Some s3"
    and le: "\<forall>q x. counts s q = Some x \<longrightarrow> unat x \<le> 200" and q: "counts s3 q = Some x"
  shows "q = c \<and> x = 0 \<or> (\<exists>y. counts s q = Some y \<and> unat x \<le> unat y + 1
    \<and> (if q = node \<and> node \<noteq> 0 then x \<noteq> 0 else x = y))"
proof (cases "node = 0")
  case True
  with q up c2 show ?thesis by (auto split: if_splits)
next
  case False
  with up have up': "upd_node s2 node (\<lambda>m. m\<lparr>node_count := node_count m + 1\<rparr>) = Some s3" by simp
  have "\<And>y. counts s2 node = Some y \<Longrightarrow> unat y \<le> 200" using c2 cn le by simp
  from bumped_counts [OF up' this q] show ?thesis using c2 False cn by (auto split: if_splits)
qed

lemma create_child:
  assumes pre: "create_pre s sh node 0 slot" and sh: "0 < sh"
    and al: "radix_tree_node_alloc s node (sh - 6) off 0 0 = (c, s0)" "c \<noteq> 0" and st: "store_slot s0 slot (node_to_entry c) = Some s2"
    and up: "(if node \<noteq> 0 then upd_node s2 node (\<lambda>m. m\<lparr>node_count := node_count m + 1\<rparr>) else Some s2) = Some s3"
    and de: "radix_tree_descend s3 (entry_to_node c) i = Some (off1, child2)"
  shows "create_pre s3 (sh - 6) (entry_to_node c) child2 (NodeSlot (entry_to_node c) (unat off1))"
proof -
  have p: "alloc_ok s" "6 dvd unat sh" "unat sh \<le> 66" "\<And>p c. counts s p = Some c \<Longrightarrow> unat c + unat sh \<le> 200" "full_but s ({node} - {0})"
    and sl: "slot = RootSlot \<and> node = 0 \<or> (\<exists>d. slot = NodeSlot node d) \<and> node \<in> dom (rt_nodes s)"
    using pre by (auto simp: create_pre_def)
  note a = counts_alloc [OF p(1) al] and six = shift_down_le [OF sh p(2,3)]
  have cn: "c \<noteq> node" using a(6) sl al(2) by (auto simp: domIff)
  have c2: "counts s2 = (counts s)(c \<mapsto> 0)" using store_slot_counts [OF st] a(1) by simp
  have le: "\<forall>q x. counts s q = Some x \<longrightarrow> unat x \<le> 200" using p(4) by fastforce
  note c3 = child_counts [OF c2 cn up le]
  have ec: "entry_to_node c = c" using a(5) by simp
  have r3: "rt_nodes s3 c = Some (fresh_node node (sh - 6) off 0)"
    using store_slot_frame(4) [OF st, of c] upd_node_frame(4) [of s2 node _ s3 c] up cn sl a(2) by (auto split: if_splits)
  have al3: "alloc_ok s3"
    using a(4) alloc_ok_cong [OF store_slot_frame(1-3) [OF st]] alloc_ok_cong [OF upd_node_frame(1-3), of s2 node _ s3] up by (auto split: if_splits)
  have "child2 = 0" using de r3 ec by (auto simp: radix_tree_descend_def bind_eq_Some_conv Let_def split: if_splits)
  moreover have "full_but s3 {c}"
    unfolding full_but_def
  proof (intro allI impI)
    fix q assume "counts s3 q = Some 0"
    from c3 [OF this] p(5) show "q \<in> {c}" by (auto simp: full_but_def split: if_splits)
  qed
  moreover have "unat x + unat (sh - 6) \<le> 200" if "counts s3 q = Some x" for q x
    using c3 [OF that] p(3,4) six(1) by (auto dest!: p(4))
  ultimately show ?thesis using al3 six r3 al(2) by (auto simp: create_pre_def ec)
qed

lemma create_down:
  assumes pre: "create_pre s sh node child slot" and sh: "0 < sh" and c: "child \<noteq> 0"
    and de: "radix_tree_descend s (entry_to_node child) i = Some (off1, child2)"
  shows "create_pre s (sh - 6) (entry_to_node child) child2 (NodeSlot (entry_to_node child) (unat off1))"
proof -
  have "6 dvd unat sh" "unat sh \<le> 66" using pre by (auto simp: create_pre_def)
  note six = shift_down_le [OF sh this]
  have "unat x + unat (sh - 6) \<le> 200" if "counts s q = Some x" for q x
    using pre that six(1) by (fastforce simp: create_pre_def)
  moreover have "entry_to_node child \<in> dom (rt_nodes s)" using de by (auto simp: radix_tree_descend_def bind_eq_Some_conv)
  moreover have "full_but s {}" "alloc_ok s" using pre c by (simp_all add: create_pre_def)
  ultimately show ?thesis using six by (auto simp: create_pre_def intro: full_but_mono)
qed

lemma create_full:
  assumes "create_loop s i sh node child slot off = Some res" "create_pre s sh node child slot"
  shows "full_but (snd (snd (snd res))) {fst (snd res)}"
  using assms
proof (induction rule: create_induct)
  case (step f s i sh node child slot off res)
  have pre: "full_but s ({node} - {0})" "alloc_ok s" using step(3) by (simp_all add: create_pre_def)
  show ?case
  proof (cases "0 < sh")
    case False
    with step(2) pre(1) show ?thesis by (auto intro: full_but_mono)
  next
    case True
    show ?thesis
    proof (cases "child = 0")
      case False
      with step(2) True obtain off1 child2 where d: "radix_tree_descend s (entry_to_node child) i = Some (off1, child2)"
        "f s i (sh - 6) (entry_to_node child) child2 (NodeSlot (entry_to_node child) (unat off1)) off1 = Some res"
        by (auto simp: Let_def bind_eq_Some_conv)
      from create_down [OF step(3) True False d(1)] step(1) [OF d(2)] show ?thesis by blast
    next
      case c0: True
      obtain c s0 where al: "radix_tree_node_alloc s node (sh - 6) off 0 0 = (c, s0)" by fastforce
      show ?thesis
      proof (cases "c = 0")
        case True
        then have "res = (- ENOMEM, node, slot, s0)" using step(2) \<open>0 < sh\<close> c0 al by (auto simp: Let_def)
        moreover have "counts s0 = counts s" using alloc_failed [OF pre(2)] al True by blast
        ultimately show ?thesis using pre(1) by (auto simp: full_but_def)
      next
        case False
        with step(2) True c0 al obtain s2 s3 off1 child2 where
          n: "store_slot s0 slot (node_to_entry c) = Some s2"
          "(if node \<noteq> 0 then upd_node s2 node (\<lambda>m. m\<lparr>node_count := node_count m + 1\<rparr>) else Some s2) = Some s3"
          "radix_tree_descend s3 (entry_to_node c) i = Some (off1, child2)"
          "f s3 i (sh - 6) (entry_to_node c) child2 (NodeSlot (entry_to_node c) (unat off1)) off1 = Some res"
          by (auto simp: Let_def bind_eq_Some_conv simp del: store_slot.simps)
        from create_child [OF step(3) [unfolded c0] True al False n(1-3)] step(1) [OF n(4)] show ?thesis by blast
      qed
    qed
  qed
qed

section \<open>Insertion\<close>

lemma inv_counts: "rt_inv s \<Longrightarrow> counts s p = Some c \<Longrightarrow> unat c \<le> 64 \<and> p \<noteq> 0"
  using shape_count_le rt_invD(1) by (fastforce dest!: counts_SomeD simp: shape_ok_def addr_ok_def)

lemma root_create_pre:
  assumes "rt_inv s" "full_but s {}" "unat sh = 6 * Suc K" "K \<le> 10"
  shows "create_pre s sh 0 (rnode s) RootSlot"
proof -
  have "unat c + unat sh \<le> 200" if "counts s p = Some c" for p c using inv_counts [OF assms(1) that] assms(3,4) by simp
  then show ?thesis using assms rt_inv_alloc by (auto simp: create_pre_def)
qed

text \<open>
  An insertion that succeeds leaves no node empty.  The tree may have been an empty leaf at the
  root if the index is 0, as it is when the tree has just been allocated.
\<close>

definition ready :: "rt \<Rightarrow> u64 \<Rightarrow> bool" where
  "ready s i \<longleftrightarrow> full_but s {} \<or> i = 0 \<and> (\<exists>r n. rnode s = node_to_entry r \<and> node_at s r n \<and> node_count n = 0 \<and> full_but s {r})"

lemma root_alloc_ready:
  assumes "heap_ok avail" "radix_tree_root_alloc avail = Some s"
  shows "ready s 0"
proof -
  obtain a c as where av: "avail = a # c # as" "c \<noteq> 0"
    using assms(1) by (cases avail; cases "tl avail") (auto simp: heap_ok_def)
  then have s: "rnode s = node_to_entry c" "rt_nodes s = [c \<mapsto> fresh_node 0 0 0 0]" "rt_rcu s = []"
    using assms(2) by (auto simp: radix_tree_root_alloc_def calloc_def node_alloc_eq split: if_splits)
  then have "node_at s c (fresh_node 0 0 0 0)" "full_but s {c}"
    by (auto simp: node_at_def full_but_def counts_def split: if_splits)
  with s(1) show ?thesis unfolding ready_def using fresh_node_simps by blast
qed

lemma create_small_full:
  assumes inv: "rt_inv s" and r: "rnode s = node_to_entry r" "node_at s r n"
    and K: "K \<le> 10" "unat (node_shift n) = 6 * K" and full: "ready s i"
    and cr: "create_loop s i (node_shift n + 6) 0 (rnode s) RootSlot 0 = Some (ret, q, sl, s1)"
  shows "full_but s1 {q}"
proof (cases "full_but s {}")
  case True
  have sh: "unat (node_shift n + 6) = 6 * Suc K" using K by (intro unat_shift_add) simp_all
  from create_full [OF cr root_create_pre [OF inv True sh K(1)]] show ?thesis by simp
next
  case False
  with full [unfolded ready_def] r rt_inv_addr [OF inv]
  have e: "i = 0" "node_count n = 0" "full_but s {r}" by (metis node_at_unique node_to_entry_inj)+
  let ?e = "unat i div 64 ^ K mod 64"
  have "unat (node_shift n + 6) = 6 * Suc K" using K by (intro unat_shift_add) simp_all
  then have "0 < node_shift n + 6" by (simp add: word_less_nat_alt)
  from create_loop_child [OF inv r(2) K(2) this, of i 0 RootSlot 0] cr r(1) count_0_slots [OF inv r(2) e(2), of ?e]
  have cr': "create_loop s i (node_shift n) r 0 (NodeSlot r ?e) (slot_offset (node_shift n) i) = Some (ret, q, sl, s1)"
    by simp
  have "unat x + unat (node_shift n) \<le> 200" if "counts s p = Some x" for p x using inv_counts [OF inv that] K by simp
  then have "create_pre s (node_shift n) r 0 (NodeSlot r ?e)"
    using rt_inv_alloc [OF inv] K e(3) r(2) rt_inv_addr [OF inv r(2)] by (auto simp: create_pre_def node_at_def addr_ok_def)
  from create_full [OF cr' this] show ?thesis by simp
qed

lemma raw_create_full:
  assumes inv: "rt_inv s" and root: "rnode s \<noteq> 0" and c: "raw_radix_tree_create s i = Some (0, q, sl, s1)"
    and full: "ready s i"
  shows "full_but s1 {q}"
proof -
  obtain r n where r: "rnode s = node_to_entry r" "node_at s r n" using rt_inv_root [OF inv root] by metis
  obtain K where K: "K \<le> 10" "unat (node_shift n) = 6 * K" using rt_inv_level [OF inv r(2)] by blast
  have sh: "unat (node_shift n + 6) = 6 * Suc K" using K by (intro unat_shift_add) simp_all
  have cmp: "node_maxindex n < i \<longleftrightarrow> 64 ^ Suc K \<le> unat i" using shift_maxindex_nat [OF K(2,1)] by (simp add: node_maxindex_def)
  note lr = load_root_tree [OF inv r]
  show ?thesis
  proof (cases "unat i < 64 ^ Suc K")
    case True
    then have "create_loop s i (node_shift n + 6) 0 (rnode s) RootSlot 0 = Some (0, q, sl, s1)"
      using c cmp r(1) by (simp add: raw_radix_tree_create_def lr)
    with create_small_full [OF inv r K full] show ?thesis by blast
  next
    case big: False
    then have fs: "full_but s {}" using full by (auto simp: ready_def)
    have "K \<noteq> 10" using big unat_lt_2p64 [of i] by auto
    then have K9: "K < 10" using K(1) by simp
    then obtain M where M: "unat (extend_maxshift i (node_shift n + 6)) = 6 * M" "Suc K \<le> M" "M \<le> 10" using extend_maxshift_ok [OF sh, of i] by auto
    let ?ms = "extend_maxshift i (node_shift n + 6)"
    have "K < M" using M(2) by simp
    from extend_loop_ok [OF inv r K(2) sh M(1) this M(3)] obtain ret s' where
      e: "extend_loop s (rnode s) (node_shift n + 6) ?ms = Some (ret, s')" "rt_inv s'" "ret = - ENOMEM \<or> ret = 6 * (int M + 1)" unfolding extend_post_def by blast
    have ext: "radix_tree_extend s i (node_shift n + 6) = Some (ret, s')" using e(1) root by (simp add: radix_tree_extend_def)
    then have "ret = 6 * (int M + 1)" using c big cmp e(3) by (auto simp: raw_radix_tree_create_def lr ENOMEM_def)
    then have cr: "create_loop s' i (word_of_int (int (6 * Suc M))) 0 (rnode s') RootSlot 0 = Some (0, q, sl, s1)"
      using c big cmp ext by (simp add: raw_radix_tree_create_def lr algebra_simps)
    have "full_but s' {}" using extend_full [OF e(1) rt_inv_alloc [OF inv] fs] by simp
    moreover have "unat (word_of_int (int (6 * Suc M)) :: u32) = 6 * Suc M"
      using M(3) unat_of_nat [of "6 * Suc M", where 'a = 32] by simp
    ultimately have "create_pre s' (word_of_int (int (6 * Suc M))) 0 (rnode s') RootSlot" using root_create_pre [OF e(2)] M(3) by blast
    from create_full [OF cr this] show ?thesis by simp
  qed
qed

lemma insert_full:
  assumes inv: "rt_inv s" and root: "rnode s \<noteq> 0" and item: "item \<noteq> 0" and ins: "radix_tree_insert s i item = Some (0, s')"
    and full: "ready s i"
  shows "full_but s' {}"
proof -
  obtain q sl s1 where c: "raw_radix_tree_create s i = Some (0, q, sl, s1)" "insert_entries s1 q sl item = Some (1, s')"
    using ins by (auto simp: radix_tree_insert_def insert_entries_def bind_eq_Some_conv EEXIST_def split: if_splits)
  have f: "full_but s1 {q}" by (rule raw_create_full [OF inv root c(1) full])
  have i1: "rt_inv s1" "\<exists>n. node_at s1 q n" using raw_create_ok [OF inv, of i] root c(1) by (auto simp: create_post_def ENOMEM_def)
  then have q: "q \<noteq> 0" using rt_inv_addr by (auto simp: addr_ok_def)
  then obtain s2 where s2: "store_slot s1 sl item = Some s2"
    "upd_node s2 q (\<lambda>n. n\<lparr>node_count := node_count n + 1, node_nr_values := (if xa_is_value item then node_nr_values n + 1 else node_nr_values n)\<rparr>) = Some s'"
    using c(2) by (auto simp: insert_entries_def bind_eq_Some_conv EEXIST_def simp del: store_slot.simps load_slot.simps split: if_splits)
  obtain n where n: "node_at s1 q n" using i1(2) by blast
  have c2: "counts s2 = counts s1" by (rule store_slot_counts [OF s2(1)])
  then have at: "counts s2 q = Some (node_count n)" using counts_node_at [OF n] by simp
  have nz: "node_count n + 1 \<noteq> 0"
    using shape_count_le [OF rt_invD(1) [OF i1(1) n]] unat_inc [of "node_count n"] by auto
  obtain m where m: "rt_nodes s2 q = Some m"
    "counts s' = (if q \<in> set (rt_rcu s2) then counts s2 else (counts s2)(q \<mapsto> node_count m + 1))" using upd_node_counts [OF s2(2)] by auto
  have "q \<notin> set (rt_rcu s2)" "node_count m = node_count n" using at m(1) by (auto simp: counts_def split: if_splits)
  with m(2) c2 have "counts s' = (counts s1)(q \<mapsto> node_count n + 1)" by simp
  then show ?thesis by (rule full_but_upd [OF _ f]) (use nz in auto)
qed

section \<open>Trees without entries\<close>

lemma nonempty_slot:
  assumes "rt_inv s" "node_at s p n" "node_count n \<noteq> 0"
  shows "\<exists>d < 64. node_slots n ! d \<noteq> 0"
proof -
  have "unat (node_count n) \<noteq> 0" using assms(3) by (simp add: unat_eq_zero)
  then show ?thesis
    using rt_invD(1) [OF assms(1,2)] count_if_eq_0 [of "\<lambda>e. e \<noteq> 0" "node_slots n"] by (auto simp: shape_ok_def)
qed

lemma full_has_content:
  assumes "rt_inv s" "full_but s {}" "node_at s p n" "pfx s p k b"
  shows "\<exists>i e. content s i e"
  using assms(3,4)
proof (induction k arbitrary: p n b)
  case (0 p n b)
  have "node_count n \<noteq> 0" using assms(2) counts_node_at [OF 0(1)] by (auto simp: full_but_def)
  then obtain d where d: "d < 64" "node_slots n ! d \<noteq> 0" using nonempty_slot [OF assms(1) 0(1)] by blast
  with 0 have "content s (64 * b + d) (node_slots n ! d)" by (auto simp: content_def)
  then show ?case by blast
next
  case (Suc k p n b)
  have "node_count n \<noteq> 0" using assms(2) counts_node_at [OF Suc.prems(1)] by (auto simp: full_but_def)
  then obtain d where d: "d < 64" "node_slots n ! d \<noteq> 0" using nonempty_slot [OF assms(1) Suc.prems(1)] by blast
  from pfx_down [OF assms(1) Suc.prems(2,1) d] obtain c m where "node_at s c m" "pfx s c k (64 * b + d)" by blast
  from Suc.IH [OF this] show ?case .
qed

lemma full_empty:
  assumes "rt_inv s" "full_but s {}" "\<And>i. radix_tree_lookup s i = Some 0"
  shows "radix_tree_empty s"
proof (rule ccontr)
  assume "\<not> radix_tree_empty s"
  then obtain r n where r: "rnode s = node_to_entry r" "node_at s r n" using rt_inv_root [OF assms(1)] by (metis radix_tree_empty_def)
  obtain K where "unat (node_shift n) = 6 * K" using rt_inv_level [OF assms(1) r(2)] by blast
  from full_has_content [OF assms(1,2) r(2) pfx_rootI [OF assms(1) r this]] obtain i e where e: "content s i e" by blast
  then have "i < 2 ^ 64" by (rule content_lt [OF assms(1)])
  then have "unat (of_nat i :: u64) = i" by (simp add: unat_of_nat)
  with e absent_iff [OF assms(1), of "of_nat i"] assms(3) show False by auto
qed

end
