(* ===== verification/Radix_Shape.thy ===== *)
theory Radix_Shape
  imports Radix_Full
begin

text \<open>
  The shape a deletion leaves: no node of the tree is empty, a root with a single child at slot 0 has
  been replaced by that child, and a tree without a root owns no node.  The last section follows the
  deletion of an index that holds no entry.
\<close>

section \<open>The root is as low as it can be\<close>

definition no_empty_node :: "rt \<Rightarrow> bool" where
  "no_empty_node s \<longleftrightarrow> (\<forall>p n. node_at s p n \<longrightarrow> node_count n \<noteq> 0)"

lemma no_empty_node_iff: "no_empty_node s \<longleftrightarrow> full_but s {}"
  unfolding no_empty_node_def full_but_def using counts_node_at counts_SomeD by force

definition root_shrunk :: "rt \<Rightarrow> bool" where
  "root_shrunk s \<longleftrightarrow> (if radix_tree_is_internal_node (rnode s)
     then (case rt_nodes s (entry_to_node (rnode s)) of
        None \<Rightarrow> True
      | Some n \<Rightarrow> node_shift n = 0 \<or> node_count n \<noteq> 1 \<or> node_slots n ! 0 = 0)
     else True)"

lemma shrink_shrunk:
  assumes "radix_tree_shrink s sk = Some res"
  shows "root_shrunk (snd res)"
  using assms
proof (induction rule: shrink_induct)
  case (step f s sk res)
  show ?case
  proof (cases "radix_tree_is_internal_node (rnode s)")
    case False
    with step(2) show ?thesis by (auto simp: root_shrunk_def)
  next
    case True
    with step(2) obtain n where n: "rt_nodes s (entry_to_node (rnode s)) = Some n"
      by (cases "rt_nodes s (entry_to_node (rnode s))") simp_all
    show ?thesis
    proof (cases "node_count n \<noteq> 1 \<or> node_slots n ! 0 = 0 \<or> node_shift n = 0")
      case stop: True
      have "res = (sk, s)" using step(2) True n stop
        by (cases "node_count n = 1"; cases "node_slots n = []"; cases "node_slots n ! 0 = 0") simp_all
      then show ?thesis using n stop by (auto simp: root_shrunk_def)
    next
      case False
      let ?r = "entry_to_node (rnode s)" and ?c = "node_slots n ! 0"
      have "node_slots n \<noteq> []" using step(2) True n False by auto
      then have "(if radix_tree_is_internal_node ?c then upd_node s (entry_to_node ?c) (node_parent_update (\<lambda>_. 0)) else Some s)
          \<bind> (\<lambda>s1. upd_node (set_rnode s1 ?c) ?r (node_count_update (\<lambda>_. 0))
          \<bind> (\<lambda>s3. f (radix_tree_node_free s3 ?r) True)) = Some res"
        using step(2) True n False by (simp add: Let_def cong: if_cong)
      then obtain t where "f t True = Some res" unfolding bind_eq_Some_conv by blast
      with step(1) show ?thesis by blast
    qed
  qed
qed

lemma root_shrunk_cong:
  assumes "rnode s' = rnode s" "radix_tree_is_internal_node (rnode s) \<Longrightarrow>
      rt_nodes s' (entry_to_node (rnode s)) = rt_nodes s (entry_to_node (rnode s))"
  shows "root_shrunk s' \<longleftrightarrow> root_shrunk s"
  using assms by (simp add: root_shrunk_def)

lemma node_to_entry_of [simp]: "radix_tree_is_internal_node e \<Longrightarrow> node_to_entry (entry_to_node e) = e"
proof (rule bit_word_eqI)
  fix k assume "radix_tree_is_internal_node e"
  then have "bit (e AND 3) 1 = bit (2 :: u64) 1" by (simp add: radix_tree_is_internal_node_def c_consts)
  then have "bit e 1" by (simp add: bit_and_iff bit_2_iff)
  then show "bit (node_to_entry (entry_to_node e)) k = bit e k"
    by (cases "k = 1") (auto simp: node_to_entry_def entry_to_node_def c_consts bit_simps bit_2_iff
      dest: bit_imp_le_length)
qed

text \<open>
  The walk of \<open>delete_node\<close> shrinks the root when it ends there; where it ends below the root, the
  root is the same as before.
\<close>

lemma delete_node_shrunk:
  assumes "delete_node s p dl = Some res" "root_shrunk s \<or> radix_tree_is_internal_node (rnode s) \<and> entry_to_node (rnode s) = p"
  shows "root_shrunk (snd res)"
  using assms
proof (induction rule: delete_node_induct)
  case (step f s p dl res)
  then obtain n where n: "rt_nodes s p = Some n" by (auto simp: bind_eq_Some_conv)
  show ?case
  proof (cases "node_count n = 0")
    case False
    with step(2,3) n shrink_shrunk node_to_entry_of [of "rnode s"] show ?thesis by (auto simp: bind_eq_Some_conv split: if_splits)
  next
    case True
    with step(2) n consider "res = (True, radix_tree_node_free (set_rnode s 0) p)"
      | q i s0 s1 where "store_slot s (NodeSlot q i) 0 = Some s0" "upd_node s0 q (\<lambda>m. m\<lparr>node_count := node_count m - 1\<rparr>) = Some s1"
        "f (radix_tree_node_free s1 p) q True = Some res"
      by (auto simp: Let_def bind_eq_Some_conv simp del: store_slot.simps split: if_splits)
    then show ?thesis
    proof cases
      case 1
      then show ?thesis by (simp add: root_shrunk_def set_rnode_def radix_tree_node_free_def)
    next
      case 2
      have r: "rnode (radix_tree_node_free s1 p) = rnode s"
        using 2(1,2) by (auto simp: upd_node_def radix_tree_node_free_def bind_eq_Some_conv split: if_splits)
      have same: "rt_nodes s1 x = rt_nodes s x" if "x \<noteq> q" for x
        using upd_node_frame(4) [OF 2(2) that] store_slot_frame(4) [OF 2(1), of x] that by simp
      show ?thesis
      proof (cases "radix_tree_is_internal_node (rnode s) \<and> entry_to_node (rnode s) = q")
        case False
        then have "root_shrunk (radix_tree_node_free s1 p) = root_shrunk s"
          by (intro root_shrunk_cong [OF r]) (use same in \<open>auto simp: radix_tree_node_free_def\<close>)
        moreover have "root_shrunk s" using step(3) n True by (auto simp: root_shrunk_def)
        ultimately show ?thesis using step(1) [OF 2(3)] by blast
      qed (use step(1) [OF 2(3)] r in simp)
    qed
  qed
qed

lemma delete_shrunk:
  assumes inv: "rt_inv s" and e: "radix_tree_lookup s i = Some e" "e \<noteq> 0"
    and del: "radix_tree_delete s i = Some (x, s')" and sh: "root_shrunk s"
  shows "root_shrunk s'"
proof -
  obtain q n where q: "raw_radix_tree_lookup s i = Some (e, Some (q, NodeSlot q (unat i mod 64)))" "node_at s q n"
    using present_leaf [OF inv, of i e] e lookup_eq_content [OF inv e(2)] by metis
  have q0: "q \<noteq> 0" using rt_inv_addr [OF inv q(2)] by (simp add: addr_ok_def)
  obtain b vals s1 where s1: "replace_slot s (NodeSlot q (unat i mod 64)) 0 q (- 1) vals = Some s1" "delete_node s1 q False = Some (b, s')"
    using del q(1) q0 by (auto simp: radix_tree_delete_def radix_tree_delete_item_def raw_radix_tree_delete_def bind_eq_Some_conv
      simp del: load_slot.simps store_slot.simps)
  obtain f s0 where s0: "upd_node s q f = Some s0" "store_slot s0 (NodeSlot q (unat i mod 64)) 0 = Some s1"
    using s1(1) q0 by (auto simp: replace_slot_def bind_eq_Some_conv simp del: store_slot.simps)
  have r: "rnode s1 = rnode s" using s0 by (auto simp: upd_node_def bind_eq_Some_conv split: if_splits)
  have "rt_nodes s1 p = rt_nodes s p" if "p \<noteq> q" for p
    using upd_node_frame(4) [OF s0(1) that] store_slot_frame(4) [OF s0(2), of p] that by simp
  then have "root_shrunk s1 \<or> radix_tree_is_internal_node (rnode s1) \<and> entry_to_node (rnode s1) = q"
    using root_shrunk_cong [OF r] r sh by metis
  from delete_node_shrunk [OF s1(2) this] show ?thesis by simp
qed

section \<open>An empty tree owns no node\<close>

lemma empty_released:
  assumes "rt_inv s" "radix_tree_empty s"
  shows "dom (rt_nodes s) = set (rt_rcu s)"
proof
  show "set (rt_rcu s) \<subseteq> dom (rt_nodes s)" using rt_inv_alloc [OF assms(1)] by (simp add: alloc_ok_def)
  show "dom (rt_nodes s) \<subseteq> set (rt_rcu s)"
  proof (rule ccontr)
    assume "\<not> dom (rt_nodes s) \<subseteq> set (rt_rcu s)"
    then obtain p n where n: "node_at s p n" by (auto simp: node_at_def)
    then obtain k where "unat (node_shift n) = 6 * k" using rt_inv_level [OF assms(1)] by blast
    from pfx_exists [OF assms(1) n this] obtain b where "pfx s p k b" by blast
    from pfx_bound [OF assms(1) this] assms(2) show False by (auto simp: radix_tree_empty_def)
  qed
qed

section \<open>Deleting an index without an entry\<close>

text \<open>Lookup of an index ends in the leaf of any entry that shares all digits but the last with it.\<close>

lemma lookup_loop_same_leaf:
  assumes inv: "rt_inv s" and c: "content s j e" and same: "unat i div 64 = j div 64"
    and "pfx s p k (j div 64 ^ Suc k)"
  shows "\<exists>q n. lookup_loop s i (node_to_entry p) q0 sl0 = Some (node_slots n ! (unat i mod 64), q, NodeSlot q (unat i mod 64))
     \<and> node_at s q n \<and> pfx s q 0 (j div 64)"
  using assms(4)
proof (induction k arbitrary: p q0 sl0)
  case 0
  then obtain n where n: "node_at s p n" "unat (node_shift n) = 6 * 0" using pfx_node_at by blast
  then have "node_shift n = 0" by (metis mult_0_right unat_eq_zero)
  moreover have "addr_ok p" using inv n(1) by (rule rt_inv_addr)
  ultimately have "lookup_loop s i (node_to_entry p) q0 sl0 =
      Some (node_slots n ! (unat i mod 64), p, NodeSlot p (unat i mod 64))"
    using n descend_ok [OF inv n, of i] slot_offset_nat [OF n(2), of i]
    by (subst lookup_loop.simps) (simp add: node_at_def)
  with 0 n(1) show ?case by auto
next
  case (Suc k)
  then obtain n where n: "node_at s p n" "unat (node_shift n) = 6 * Suc k" using pfx_node_at by blast
  have digits: "unat i div 64 ^ Suc k = j div 64 ^ Suc k" using same by (metis div_mult2_eq power_Suc)
  let ?d = "j div 64 ^ Suc k mod 64"
  have nz: "node_shift n \<noteq> 0" using n(2) by (metis mult_eq_0_iff unat_eq_zero nat.simps(3) zero_neq_numeral)
  have a: "addr_ok p" using inv n(1) by (rule rt_inv_addr)
  have "node_slots n ! ?d \<noteq> 0" by (rule content_path [OF inv c Suc.prems n(1)])
  then obtain x where x: "node_slots n ! ?d = node_to_entry x"
    "pfx s x k (64 * (j div 64 ^ Suc (Suc k)) + ?d)"
    using pfx_down [OF inv Suc.prems n(1), of ?d] by auto
  have "64 * (j div 64 ^ Suc (Suc k)) + ?d = j div 64 ^ Suc k"
    using div_mult_mod_eq [of "j div 64 ^ Suc k" 64] by (simp only: div_pow64 mult.commute)
  with x have px: "pfx s x k (j div 64 ^ Suc k)" by simp
  have "lookup_loop s i (node_to_entry p) q0 sl0 = lookup_loop s i (node_to_entry x) p (NodeSlot p ?d)"
    using a nz n descend_ok [OF inv n, of i] slot_offset_nat [OF n(2), of i] x(1) digits
    by (subst lookup_loop.simps) (simp add: node_at_def)
  with Suc.IH [OF px, of p "NodeSlot p ?d"] show ?case by simp
qed

lemma raw_lookup_same_leaf:
  assumes inv: "rt_inv s" and c: "content s (unat j) e" and same: "unat i div 64 = unat j div 64"
  obtains q n where "raw_radix_tree_lookup s i = Some (node_slots n ! (unat i mod 64), Some (q, NodeSlot q (unat i mod 64)))"
    "node_at s q n" "pfx s q 0 (unat j div 64)"
proof -
  have root: "rnode s \<noteq> 0" using content_empty [OF inv] c by blast
  then obtain r n where r: "rnode s = node_to_entry r" "node_at s r n" using rt_inv_root [OF inv] by metis
  obtain K where K: "K \<le> 10" "unat (node_shift n) = 6 * K" using rt_inv_level [OF inv r(2)] by metis
  have cmp: "node_maxindex n < i \<longleftrightarrow> 64 ^ Suc K \<le> unat i"
    using shift_maxindex_nat [OF K(2,1)] by (simp add: node_maxindex_def)
  have j: "unat j < 64 ^ Suc K" by (rule content_bound [OF inv c r K(2)])
  then have "unat j div 64 ^ Suc K = 0" by simp
  moreover from this same have "unat i div 64 ^ Suc K = 0" by (metis div_mult2_eq power_Suc)
  then have "unat i < 64 ^ Suc K" by (metis div_eq_0_iff power_not_zero zero_neq_numeral)
  ultimately have p: "pfx s r K (unat j div 64 ^ Suc K)" "\<not> node_maxindex n < i" using pfx_rootI [OF inv r K(2)] cmp by simp_all
  from lookup_loop_same_leaf [OF inv c same p(1), of 0 RootSlot] p(2) that show thesis
    by (auto simp: raw_radix_tree_lookup_def load_root_tree [OF inv r] r(1))
qed

text \<open>The contents of a node that is queued for release are nobody's business.\<close>

lemma put_released:
  assumes "rt_inv s" "p \<in> set (rt_rcu s)"
  shows "rt_inv (put s p x)" "same_content s (put s p x)" "node_at (put s p x) = node_at s"
proof -
  have at: "node_at (put s p x) = node_at s" using assms(2) by (auto simp: node_at_def fun_eq_iff)
  have "alloc_ok (put s p x)" using rt_inv_alloc [OF assms(1)] assms(2) unfolding alloc_ok_def by auto
  with assms(1) show "rt_inv (put s p x)" unfolding rt_inv_def root_ok_def child_ok_def parent_ok_def at by simp
  have "pfx (put s p x) q k b \<longleftrightarrow> pfx s q k b" for q k b
    using pfx_mono [of s q k b "put s p x"] pfx_mono [of "put s p x" q k b s] at by auto
  then show "same_content s (put s p x)" by (simp add: same_content_def content_def at)
  show "node_at (put s p x) = node_at s" by (rule at)
qed

text \<open>
  \<open>delete_node\<close> at a node whose count is 0 unlinks it whatever its slots hold; \<open>m\<close> is the node as
  the invariant would have it.
\<close>

lemma delete_node_zeroed:
  assumes inv: "rt_inv s" and m: "node_at s q m" "node_count m = 0" "unat (node_shift m) = 6 * k"
    and x: "node_count x = 0" "node_parent x = node_parent m" "node_offset x = node_offset m"
  shows "\<exists>b s'. delete_node (put s q x) q dl = Some (b, s') \<and> rt_inv s' \<and> same_content s s'"
proof (cases "node_parent m = 0")
  case True
  define t where "t = (set_rnode s 0)\<lparr>rt_rcu := rt_rcu s @ [q]\<rparr>"
  note t = unlink_root [OF inv m(1,2) True t_def]
  have "q \<in> set (rt_rcu t)" by (simp add: t_def)
  note p = put_released [OF t(1) this, of x]
  have "delete_node (put s q x) q dl = Some (True, put t q x)"
    using x True by (subst delete_node.simps) (simp add: radix_tree_node_free_def set_rnode_def t_def)
  with p t(2) show ?thesis by (auto simp: same_content_def)
next
  case False
  obtain n where n: "node_at s (node_parent m) n" "unat (node_shift n) = 6 * Suc k" "unat (node_offset m) < 64"
    using rt_inv_parent [OF inv m(1) False m(3)] by blast
  define t where "t = s\<lparr>rt_nodes := (rt_nodes s)(node_parent m \<mapsto> without n (node_offset m)), rt_rcu := rt_rcu s @ [q]\<rparr>"
  note t = unlink_node [OF inv m(1,2) refl False n(1) t_def]
  have "q \<in> set (rt_rcu t)" by (simp add: t_def)
  note p = put_released [OF t(1) this, of x]
  have len: "length (node_slots n) = 64" using inv n(1) by (rule rt_inv_length)
  have nq: "node_parent m \<noteq> q" by (rule parent_neq [OF inv m(1)])
  then have "put t q x = s\<lparr>rt_nodes := (rt_nodes s)(q \<mapsto> x, node_parent m \<mapsto> without n (node_offset m)), rt_rcu := rt_rcu s @ [q]\<rparr>"
    by (simp add: t_def fun_upd_twist)
  then have "delete_node (put s q x) q dl = delete_node (put t q x) (node_parent m) True"
    using x False nq n(1,3) len
    by (subst delete_node.simps) (simp add: node_at_def upd_node_def radix_tree_node_free_def Let_def)
  moreover from delete_node_ok [OF p(1), of "node_parent m" "without n (node_offset m)" "Suc k" True] p(3) t(3) n(2)
  obtain b s' where "delete_node (put t q x) (node_parent m) True = Some (b, s')" "rt_inv s'" "same_content (put t q x) s'" by auto
  ultimately show ?thesis using p(2) t(2) by (auto simp: same_content_def)
qed

lemma delete_absent:
  assumes inv: "rt_inv s" and i: "radix_tree_lookup s i = Some 0"
    and j: "radix_tree_lookup s j = Some e" "e \<noteq> 0" and same: "unat i div 64 = unat j div 64"
    and only: "\<And>l. unat l div 64 = unat j div 64 \<Longrightarrow> l \<noteq> j \<Longrightarrow> radix_tree_lookup s l = Some 0"
  shows "\<exists>s'. radix_tree_delete s i = Some (0, s') \<and> rt_inv s' \<and> stored s j 0 s'"
proof -
  have c: "content s (unat j) e" using j lookup_eq_content [OF inv j(2)] by blast
  obtain q n where q: "raw_radix_tree_lookup s i = Some (node_slots n ! (unat i mod 64), Some (q, NodeSlot q (unat i mod 64)))"
    "node_at s q n" "pfx s q 0 (unat j div 64)"
    by (rule raw_lookup_same_leaf [OF inv c same])
  let ?d = "unat j mod 64" and ?m = "n\<lparr>node_count := 0, node_nr_values := 0, node_slots := (node_slots n)[unat j mod 64 := 0]\<rparr>"
  have len: "length (node_slots n) = 64" using inv q(2) by (rule rt_inv_length)
  have sh: "node_shift n = 0" using pfx_node_at [OF q(3)] q(2) by (metis mult_0_right node_at_unique unat_eq_zero)
  have q0: "q \<noteq> 0" using rt_inv_addr [OF inv q(2)] by (simp add: addr_ok_def)
  have at: "node_slots n ! ?d = e" using content_leaf [OF inv q(3,2), of e] c by simp
  have zero: "node_slots n ! d = 0" if d: "d < 64" "d \<noteq> ?d" for d
  proof (rule ccontr)
    assume nz: "node_slots n ! d \<noteq> 0"
    let ?l = "64 * (unat j div 64) + d"
    have "?l div 64 = unat j div 64" "?l mod 64 = d" using d(1) by simp_all
    with nz content_leaf [OF inv _ q(2), of ?l "node_slots n ! d"] q(3) have cl: "content s ?l (node_slots n ! d)" by simp
    then have "unat (of_nat ?l :: u64) = ?l" using content_lt [OF inv cl] by (simp only: unat_of_nat) simp
    with cl have cw: "content s (unat (of_nat ?l :: u64)) (node_slots n ! d)" by simp
    have "of_nat ?l \<noteq> j" using \<open>unat (of_nat ?l :: u64) = ?l\<close> \<open>?l mod 64 = d\<close> d(2) by metis
    moreover have "unat (of_nat ?l :: u64) div 64 = unat j div 64" using \<open>unat (of_nat ?l :: u64) = ?l\<close> \<open>?l div 64 = unat j div 64\<close> by simp
    ultimately have "radix_tree_lookup s (of_nat ?l) = Some 0" by (rule only [rotated])
    with absent_iff [OF inv] cw show False by blast
  qed
  have m0: "node_slots ?m ! d = 0" if "d < 64" for d using that zero len by (cases "d = ?d") auto
  have "shape_ok q ?m"
    using rt_invD(1) [OF inv q(2)] m0 sh len by (auto simp: shape_ok_def count_if_eq_0 [THEN iffD2])
  from leaf_stored [OF inv q(2) sh q(3) refl _ _ _ _ this, of 0] sh
  have m: "rt_inv (put s q ?m)" "stored s j 0 (put s q ?m)" by simp_all
  have "count_if (\<lambda>e. e \<noteq> 0) (node_slots ?m) = 0" using m0 len by (simp add: count_if_eq_0)
  with count_if_update [of ?d "node_slots n" "\<lambda>e. e \<noteq> 0" 0] at j(2) len
  have "count_if (\<lambda>e. e \<noteq> 0) (node_slots n) = 1" by simp
  with rt_invD(1) [OF inv q(2)] have "unat (node_count n) = 1" by (simp add: shape_ok_def)
  then have cnt: "node_count n = 1" by (metis unat_1 word_unat_eq_iff)
  have di: "node_slots n ! (unat i mod 64) = 0"
    using q(1) i by (simp add: radix_tree_lookup_def)
  let ?x = "n\<lparr>node_count := 0, node_slots := (node_slots n)[unat i mod 64 := 0]\<rparr>"
  have nq: "rt_nodes s q = Some n" "q \<notin> set (rt_rcu s)" using q(2) by (simp_all add: node_at_def)
  from delete_node_zeroed [OF m(1), of q ?m 0 ?x False] sh nq obtain b s' where
    s': "delete_node (put s q ?x) q False = Some (b, s')" "rt_inv s'" "same_content (put s q ?m) s'" by (auto simp: node_at_def)
  have "radix_tree_delete s i = Some (0, s')"
    using q(1) q0 nq len cnt di s'(1)
    by (simp add: radix_tree_delete_def radix_tree_delete_item_def raw_radix_tree_delete_def replace_slot_def upd_node_def)
  with s'(2) stored_same2 [OF m(2) s'(3)] show ?thesis by blast
qed

section \<open>An item in the root pointer\<close>

lemma insert_direct_root:
  assumes "rnode s = 0" "item \<noteq> 0"
  shows "radix_tree_insert s 0 item = Some (0, set_rnode s item)"
    and "\<not> radix_tree_is_internal_node item \<Longrightarrow> radix_tree_lookup (set_rnode s item) j = Some (if j = 0 then item else 0)"
    and "\<not> radix_tree_is_internal_node item \<Longrightarrow> \<not> rt_inv (set_rnode s item)"
proof -
  have "raw_radix_tree_create s 0 = Some (0, 0, RootSlot, s)"
    using assms(1) by (subst raw_radix_tree_create_def) (simp add: load_root_empty create_loop.simps)
  with assms show "radix_tree_insert s 0 item = Some (0, set_rnode s item)"
    by (simp add: radix_tree_insert_def insert_entries_def)
  assume item: "\<not> radix_tree_is_internal_node item"
  then show "radix_tree_lookup (set_rnode s item) j = Some (if j = 0 then item else 0)"
    by (auto simp: radix_tree_lookup_def raw_radix_tree_lookup_def radix_tree_load_root_def set_rnode_def lookup_loop.simps word_gt_0)
  show "\<not> rt_inv (set_rnode s item)"
  proof
    assume inv: "rt_inv (set_rnode s item)"
    have root: "rnode (set_rnode s item) = item" by (simp add: set_rnode_def)
    with rt_inv_root [OF inv] assms(2) obtain r n where "item = node_to_entry r" "node_at (set_rnode s item) r n" by metis
    with item rt_inv_addr [OF inv] show False by auto
  qed
qed

end
