(* ===== verification/Radix_Props.thy ===== *)
theory Radix_Props
  imports Radix_Shape
begin

text \<open>
  The properties of the radix tree, each with a witness on a concrete tree: one freshly
  allocated from 64 page-aligned addresses, and the same with two entries inserted.
\<close>

section \<open>Concrete trees\<close>

definition demo_heap :: "u64 list" where
  "demo_heap =
    [4096, 8192, 12288, 16384, 20480, 24576, 28672, 32768, 36864, 40960, 45056, 49152, 53248,
     57344, 61440, 65536, 69632, 73728, 77824, 81920, 86016, 90112, 94208, 98304, 102400,
     106496, 110592, 114688, 118784, 122880, 126976, 131072, 135168, 139264, 143360, 147456,
     151552, 155648, 159744, 163840, 167936, 172032, 176128, 180224, 184320, 188416, 192512,
     196608, 200704, 204800, 208896, 212992, 217088, 221184, 225280, 229376, 233472, 237568,
     241664, 245760, 249856, 253952, 258048, 262144]"

definition demo_tree :: rt where
  "demo_tree = (case radix_tree_root_alloc demo_heap of Some s \<Rightarrow> s)"

definition demo_tree2 :: rt where
  "demo_tree2 = (case radix_tree_insert demo_tree 300 8 of Some (r, s) \<Rightarrow>
                   (case radix_tree_insert s 5 16 of Some (r, s') \<Rightarrow> s'))"

lemma demo_heap_ok: "heap_ok demo_heap"
  by (simp add: heap_ok_def demo_heap_def)

lemma demo_tree_ok: "radix_tree_root_alloc demo_heap = Some demo_tree" "rt_inv demo_tree" "rnode demo_tree \<noteq> 0"
    "radix_tree_lookup demo_tree i = Some 0" "rt_avail demo_tree = drop 2 demo_heap"
proof -
  from root_alloc_heap [OF demo_heap_ok] obtain s where s: "radix_tree_root_alloc demo_heap = Some s" "rt_inv s"
    "rnode s \<noteq> 0" "rt_avail s = drop 2 demo_heap" "\<And>i. radix_tree_lookup s i = Some 0" by blast
  moreover from s(1) have "demo_tree = s" by (simp add: demo_tree_def)
  ultimately show "radix_tree_root_alloc demo_heap = Some demo_tree" "rt_inv demo_tree" "rnode demo_tree \<noteq> 0"
    "radix_tree_lookup demo_tree i = Some 0" "rt_avail demo_tree = drop 2 demo_heap" by simp_all
qed

lemma insert_run_all:
  assumes "rt_inv s" "rnode s \<noteq> 0 \<or> i \<noteq> 0" "item \<noteq> 0" "map_option fst (radix_tree_insert s i item) = Some 0"
  obtains s' where "radix_tree_insert s i item = Some (0, s')" "rt_inv s'"
    "\<And>j. radix_tree_lookup s' j = (if j = i then Some item else radix_tree_lookup s j)"
proof -
  from insert_lookup [OF assms(1-3)] obtain r s' where r: "radix_tree_insert s i item = Some (r, s')" "rt_inv s'"
    "r = 0 \<and> radix_tree_lookup s i = Some 0
          \<and> (\<forall>j. radix_tree_lookup s' j = (if j = i then Some item else radix_tree_lookup s j))
        \<or> r = - EEXIST \<and> radix_tree_lookup s i \<noteq> Some 0 \<and> radix_tree_lookup s' = radix_tree_lookup s
        \<or> r = - ENOMEM \<and> radix_tree_lookup s' = radix_tree_lookup s" by blast
  moreover have "r = 0" using r(1) assms(4) by simp
  ultimately show thesis using that by (simp add: EEXIST_def ENOMEM_def)
qed

lemma insert_run:
  assumes "rt_inv s" "rnode s \<noteq> 0 \<or> i \<noteq> 0" "item \<noteq> 0" "map_option fst (radix_tree_insert s i item) = Some 0"
  obtains s' where "radix_tree_insert s i item = Some (0, s')" "rt_inv s'" "radix_tree_lookup s' i = Some item"
  using insert_run_all [OF assms] by metis

lemma demo_steps:
  obtains s where "radix_tree_insert demo_tree 300 8 = Some (0, s)" "rt_inv s" "radix_tree_lookup s 300 = Some 8"
    "radix_tree_insert s 5 16 = Some (0, demo_tree2)"
proof -
  have "map_option fst (radix_tree_insert demo_tree 300 8) = Some 0" by code_simp
  then obtain s where s: "radix_tree_insert demo_tree 300 8 = Some (0, s)" "rt_inv s"
    "radix_tree_lookup s 300 = Some 8" using insert_run [OF demo_tree_ok(2), of 300 8] demo_tree_ok(3) by auto
  have "map_option fst (case radix_tree_insert demo_tree 300 8 of Some (r, s) \<Rightarrow> radix_tree_insert s 5 16) = Some 0"
    by code_simp
  then have "map_option fst (radix_tree_insert s 5 16) = Some 0" using s(1) by simp
  then obtain s' where "radix_tree_insert s 5 16 = Some (0, s')"
    using insert_run [OF s(2), of 5 16] by auto
  then show thesis using s that by (simp add: demo_tree2_def)
qed

lemma demo_tree2_ok: "rt_inv demo_tree2" "radix_tree_lookup demo_tree2 300 = Some 8"
    "radix_tree_lookup demo_tree2 5 = Some 16" "rnode demo_tree2 \<noteq> 0"
proof -
  obtain s where s: "radix_tree_insert demo_tree 300 8 = Some (0, s)" "rt_inv s"
    "radix_tree_insert s 5 16 = Some (0, demo_tree2)" using demo_steps by metis
  show inv: "rt_inv demo_tree2" using insert_lookup [OF s(2), of 5 16] s(3) by auto
  show look: "radix_tree_lookup demo_tree2 300 = Some 8" "radix_tree_lookup demo_tree2 5 = Some 16" by code_simp+
  show "rnode demo_tree2 \<noteq> 0" using present_root [OF inv, of 5] look(2) by simp
qed

text \<open>
  A tree in which no node is empty: index 0 goes into the first leaf, and 300 below a new root.
\<close>

definition demo_tree3 :: rt where
  "demo_tree3 = (case radix_tree_insert demo_tree 0 8 of Some (r, s) \<Rightarrow>
                   (case radix_tree_insert s 300 16 of Some (r, s') \<Rightarrow> s'))"

lemma demo_tree3_ok: "rt_inv demo_tree3" "radix_tree_lookup demo_tree3 0 = Some 8"
    "radix_tree_lookup demo_tree3 300 = Some 16" "no_empty_node demo_tree3" "root_shrunk demo_tree3"
    "radix_tree_lookup demo_tree3 l = Some (if l = 0 then 8 else if l = 300 then 16 else 0)"
proof -
  have m: "map_option fst (radix_tree_insert demo_tree 0 8) = Some 0" by code_simp
  obtain s where s: "radix_tree_insert demo_tree 0 8 = Some (0, s)" "rt_inv s"
      "\<And>j. radix_tree_lookup s j = (if j = 0 then Some 8 else radix_tree_lookup demo_tree j)"
    by (rule insert_run_all [OF demo_tree_ok(2) disjI1 [OF demo_tree_ok(3)] _ m]) (simp, blast)
  have root: "rnode s \<noteq> 0" using present_root [OF s(2), of 0] s(3) [of 0] by simp
  have "map_option fst (case radix_tree_insert demo_tree 0 8 of Some (r, s) \<Rightarrow> radix_tree_insert s 300 16) = Some 0"
    by code_simp
  then have m': "map_option fst (radix_tree_insert s 300 16) = Some 0" using s(1) by simp
  obtain s' where "radix_tree_insert s 300 16 = Some (0, s')" "rt_inv s'"
      "\<And>j. radix_tree_lookup s' j = (if j = 300 then Some 16 else radix_tree_lookup s j)"
    by (rule insert_run_all [OF s(2) disjI1 [OF root] _ m']) (simp, blast)
  then have s': "radix_tree_insert s 300 16 = Some (0, demo_tree3)" "rt_inv demo_tree3"
      "\<And>j. radix_tree_lookup demo_tree3 j = (if j = 300 then Some 16 else radix_tree_lookup s j)"
    using s(1) by (simp_all add: demo_tree3_def)
  show "rt_inv demo_tree3" by (rule s'(2))
  show "radix_tree_lookup demo_tree3 0 = Some 8" "radix_tree_lookup demo_tree3 300 = Some 16"
    "radix_tree_lookup demo_tree3 l = Some (if l = 0 then 8 else if l = 300 then 16 else 0)"
    using s'(3) s(3) demo_tree_ok(4) by auto
  show "root_shrunk demo_tree3" by code_simp
  have "full_but s {}"
    by (rule insert_full [OF demo_tree_ok(2,3) _ s(1)]) (simp_all add: root_alloc_ready [OF demo_heap_ok demo_tree_ok(1)])
  then have "ready s 300" by (simp add: ready_def)
  from insert_full [OF s(2) root _ s'(1) this] show "no_empty_node demo_tree3" by (simp add: no_empty_node_iff)
qed

section \<open>The tree as a map\<close>

text \<open>
  C1. Any sequence of insertions, deletions and lookups runs to its end without an invalid
  memory access and returns exactly what a finite map returns: 0 or \<open>- EEXIST\<close> for an
  insertion, the entry or NULL for a deletion or a lookup.  The sequence inserts no NULL, deletes
  present keys, and inserts index 0 only where the tree holds an entry; twenty allocations per
  operation are enough.
\<close>

theorem radix_run_refines_map:
  assumes "rt_inv s" "legal 0 (- EEXIST) 0 (rt_map s) ops" "enough s (20 * length ops)"
  shows "\<exists>s'. impl_run radix_tree_insert radix_tree_delete radix_tree_lookup s ops
      = Some (fst (spec_run (- EEXIST) 0 (rt_map s) ops), s')
    \<and> rt_inv s' \<and> rt_map s' = snd (spec_run (- EEXIST) 0 (rt_map s) ops)"
  using rs.run_refines [of s ops] assms by (simp only: rt_map_abs)

definition demo_ops :: "(u64, u64) op list" where
  "demo_ops = [Insert 300 8, Delete 300, Lookup 300]"

lemma demo_map: "rt_map demo_tree = Map.empty"
  by (simp add: rt_map_def demo_tree_ok(4) fun_eq_iff)

theorem radix_run_refines_map_witness:
  "\<exists>s'. impl_run radix_tree_insert radix_tree_delete radix_tree_lookup demo_tree demo_ops
      = Some ([Code 0, Value 8, Value 0], s') \<and> rt_inv s' \<and> rt_map s' = Map.empty"
proof -
  have "legal 0 (- EEXIST) 0 (rt_map demo_tree) demo_ops" by (simp add: demo_map demo_ops_def)
  moreover have "enough demo_tree (20 * length demo_ops)"
    by (simp add: enough_def demo_ops_def demo_tree_ok(5) demo_heap_def)
  ultimately show ?thesis
    using radix_run_refines_map [OF demo_tree_ok(2), of demo_ops] by (simp add: demo_map demo_ops_def)
qed

text \<open>
  C2. Insertion of a non-NULL item into a well-formed tree always returns.  Except at index 0 of an
  emptied tree it keeps the tree well formed, and has one of three outcomes: it stores the item at an
  absent index and changes no other index; it reports \<open>- EEXIST\<close> for a present index; or an
  allocation failed and it reports \<open>- ENOMEM\<close>.  In the last two cases no lookup changes.  With
  twenty allocations at hand it does not report \<open>- ENOMEM\<close>.  At index 0 of an emptied tree it reports
  success and puts the item itself in the root pointer: if the item is not tagged as a node, lookup
  finds it there and nothing else, but the tree is no longer well formed.
\<close>

theorem radix_insert_outcomes:
  assumes "rt_inv s" "item \<noteq> 0"
  shows "\<exists>ret s'. radix_tree_insert s i item = Some (ret, s')
     \<and> (if rnode s = 0 \<and> i = 0
        then ret = 0 \<and> s' = set_rnode s item
          \<and> (\<not> radix_tree_is_internal_node item \<longrightarrow>
               (\<forall>j. radix_tree_lookup s' j = Some (if j = 0 then item else 0)) \<and> \<not> rt_inv s')
        else rt_inv s'
          \<and> (ret = 0 \<and> radix_tree_lookup s i = Some 0
               \<and> (\<forall>j. radix_tree_lookup s' j = (if j = i then Some item else radix_tree_lookup s j))
             \<or> ret = - EEXIST \<and> radix_tree_lookup s i \<noteq> Some 0 \<and> radix_tree_lookup s' = radix_tree_lookup s
             \<or> ret = - ENOMEM \<and> radix_tree_lookup s' = radix_tree_lookup s \<and> \<not> enough s 20))"
proof (cases "rnode s = 0 \<and> i = 0")
  case True
  with insert_direct_root [OF _ assms(2), of s] show ?thesis by auto
next
  case False
  then have "rnode s \<noteq> 0 \<or> i \<noteq> 0" by simp
  from insert_lookup [OF assms(1) this assms(2)] False show ?thesis by (metis add_0_right)
qed

theorem radix_insert_outcomes_witness:
  "\<exists>s'. radix_tree_insert demo_tree2 300 24 = Some (- EEXIST, s') \<and> rt_inv s'
     \<and> radix_tree_lookup s' = radix_tree_lookup demo_tree2"
proof -
  have "map_option fst (radix_tree_insert demo_tree2 300 24) = Some (- EEXIST)" by code_simp
  then show ?thesis
    using radix_insert_outcomes [OF demo_tree2_ok(1), of 24 300] demo_tree2_ok(4)
    by (auto simp: EEXIST_def ENOMEM_def)
qed



section \<open>Safety of the shared tree\<close>

lemma pending_unlinked:
  assumes inv: "rt_inv s" and p: "p \<in> set (rt_rcu s)"
  shows "rnode s \<noteq> 0 \<Longrightarrow> entry_to_node (rnode s) \<noteq> p"
    and "node_at s q n \<Longrightarrow> node_shift n \<noteq> 0 \<Longrightarrow> i < 64 \<Longrightarrow> node_slots n ! i \<noteq> 0 \<Longrightarrow>
      entry_to_node (node_slots n ! i) \<noteq> p"
proof -
  have out: "entry_to_node (node_to_entry c) \<noteq> p" if "node_at s c m" for c m
    using rt_inv_addr [OF inv that] that p by (auto simp: node_at_def)
  show "entry_to_node (rnode s) \<noteq> p" if "rnode s \<noteq> 0"
    using rt_inv_root [OF inv that] out by metis
  show "entry_to_node (node_slots n ! i) \<noteq> p"
    if "node_at s q n" "node_shift n \<noteq> 0" "i < 64" "node_slots n ! i \<noteq> 0"
    using rt_invD(2) [OF inv that(1)] that out unfolding child_ok_def by metis
qed

text \<open>
  C4. In every state reachable from an allocated tree by insertions, deletions and release
  callbacks in any order, every lookup returns, and a node whose release is pending is not
  referenced by the root or by any node of the tree, so that the callback frees nothing in use.
  The insertions are of non-NULL items and not at index 0 of an emptied tree, and the deletions are
  of present indices: the two calls left out break the tree, as C2 and C8 show.
\<close>

theorem radix_reachable_safe:
  assumes "heap_ok avail" "rt_reach avail s"
  shows "rt_inv s \<and> (\<forall>i. \<exists>e. radix_tree_lookup s i = Some e)
    \<and> (\<forall>p \<in> set (rt_rcu s). (rnode s \<noteq> 0 \<longrightarrow> entry_to_node (rnode s) \<noteq> p)
        \<and> (\<forall>q n i. node_at s q n \<longrightarrow> node_shift n \<noteq> 0 \<longrightarrow> i < 64 \<longrightarrow> node_slots n ! i \<noteq> 0 \<longrightarrow>
             entry_to_node (node_slots n ! i) \<noteq> p))"
proof -
  have inv: "rt_inv s" using assms(2,1) by (rule reach_inv)
  with pending_unlinked [OF inv] rs.look_total show ?thesis by blast
qed

lemma demo_reach: "rt_reach demo_heap demo_tree2"
proof -
  obtain s where s: "radix_tree_insert demo_tree 300 8 = Some (0, s)" "radix_tree_insert s 5 16 = Some (0, demo_tree2)"
    using demo_steps by metis
  have "rt_reach demo_heap demo_tree" by (rule rt_reach.init [OF demo_tree_ok(1)])
  then have "rt_reach demo_heap s" by (rule rt_reach.step) (rule rt_step.ins [OF _ _ s(1)], simp_all)
  then show ?thesis by (rule rt_reach.step) (rule rt_step.ins [OF _ _ s(2)], simp_all)
qed

theorem radix_reachable_safe_witness:
  "\<exists>s r. radix_tree_delete_item demo_tree2 300 0 = Some (r, s) \<and> rt_reach demo_heap s \<and> rt_rcu s \<noteq> []
     \<and> (\<forall>p \<in> set (rt_rcu s). rnode s \<noteq> 0 \<longrightarrow> entry_to_node (rnode s) \<noteq> p)"
proof -
  have "map_option (\<lambda>(r, s). rt_rcu s = []) (radix_tree_delete_item demo_tree2 300 0) = Some False" by code_simp
  then obtain r s where s: "radix_tree_delete_item demo_tree2 300 0 = Some (r, s)" "rt_rcu s \<noteq> []" by auto
  have "rt_reach demo_heap s"
    by (rule rt_reach.step [OF demo_reach]) (rule rt_step.del [OF demo_tree2_ok(2) _ s(1)], simp)
  with radix_reachable_safe [OF demo_heap_ok this] s show ?thesis by blast
qed

text \<open>
  The release callback of any queued node succeeds, keeps the tree well formed and changes
  no lookup.
\<close>

theorem radix_rcu_callback:
  assumes "rt_inv s" "rt_rcu s = xs @ p # ys"
  shows "\<exists>s1. radix_tree_node_rcu_free s p = Some s1 \<and> rt_nodes s1 p = None
     \<and> rt_inv (s1\<lparr>rt_rcu := xs @ ys\<rparr>) \<and> radix_tree_lookup (s1\<lparr>rt_rcu := xs @ ys\<rparr>) = radix_tree_lookup s"
proof -
  define s' where "s' = s\<lparr>rt_nodes := (rt_nodes s)(p := None), rt_rcu := xs @ ys\<rparr>"
  note f = rcu_free_ok [OF assms s'_def]
  obtain s1 where s1: "radix_tree_node_rcu_free s p = Some s1" "s' = s1\<lparr>rt_rcu := xs @ ys\<rparr>" using f(1) by blast
  have "rt_nodes s1 p = None" using fun_cong [OF arg_cong [OF s1(2), of rt_nodes], of p] by (simp add: s'_def)
  moreover have "rt_inv (s1\<lparr>rt_rcu := xs @ ys\<rparr>)" using f(2) s1(2) by simp
  moreover have "radix_tree_lookup (s1\<lparr>rt_rcu := xs @ ys\<rparr>) = radix_tree_lookup s"
    using lookup_same [OF assms(1) f(2,3)] s1(2) by simp
  ultimately show ?thesis using s1(1) by blast
qed

lemma demo_deleted:
  obtains s r p ys where "radix_tree_delete_item demo_tree2 300 0 = Some (r, s)" "rt_inv s" "rt_rcu s = p # ys"
    "rt_reach demo_heap s"
proof -
  have "map_option (\<lambda>(r, s). rt_rcu s = []) (radix_tree_delete_item demo_tree2 300 0) = Some False" by code_simp
  then obtain r s where s: "radix_tree_delete_item demo_tree2 300 0 = Some (r, s)" "rt_rcu s \<noteq> []" by auto
  have reach: "rt_reach demo_heap s"
    by (rule rt_reach.step [OF demo_reach]) (rule rt_step.del [OF demo_tree2_ok(2) _ s(1)], simp)
  from s(2) obtain p ys where "rt_rcu s = p # ys" by (cases "rt_rcu s") auto
  from that [OF s(1) reach_inv [OF reach demo_heap_ok] this reach] show thesis .
qed

theorem radix_rcu_callback_witness:
  "\<exists>s r p ys s1. radix_tree_delete_item demo_tree2 300 0 = Some (r, s) \<and> rt_rcu s = [] @ p # ys
     \<and> radix_tree_node_rcu_free s p = Some s1 \<and> radix_tree_lookup (s1\<lparr>rt_rcu := [] @ ys\<rparr>) = radix_tree_lookup s"
proof -
  obtain s r p ys where s: "radix_tree_delete_item demo_tree2 300 0 = Some (r, s)" "rt_inv s" "rt_rcu s = [] @ p # ys"
    by (rule demo_deleted) auto
  from radix_rcu_callback [OF s(2,3)] s show ?thesis by blast
qed

section \<open>The remaining operations\<close>

text \<open>
  Allocation of a tree from a heap with two addresses to hand out gives a well-formed tree in
  which every lookup returns NULL.
\<close>

theorem radix_root_alloc_empty:
  assumes "heap_ok avail"
  shows "\<exists>s. radix_tree_root_alloc avail = Some s \<and> rt_inv s \<and> rnode s \<noteq> 0 \<and> rt_avail s = drop 2 avail
     \<and> (\<forall>i. radix_tree_lookup s i = Some 0)"
  by (rule root_alloc_heap [OF assms])

theorem radix_root_alloc_empty_witness:
  "\<exists>s. radix_tree_root_alloc demo_heap = Some s \<and> rt_inv s \<and> radix_tree_lookup s 77 = Some 0"
  using radix_root_alloc_empty [OF demo_heap_ok] by blast

text \<open>
  C5. Deletion of an expected item: if another entry is stored at the index it returns NULL
  and changes nothing, otherwise it returns the entry and removes it.
\<close>

theorem radix_delete_item_expected:
  assumes "rt_inv s" "radix_tree_lookup s i = Some e" "e \<noteq> 0"
  shows "\<exists>s'. rt_inv s' \<and> (if item \<noteq> 0 \<and> e \<noteq> item
      then radix_tree_delete_item s i item = Some (0, s') \<and> s' = s
      else radix_tree_delete_item s i item = Some (e, s')
        \<and> (\<forall>j. radix_tree_lookup s' j = (if j = i then Some 0 else radix_tree_lookup s j)))"
proof -
  have "content s (unat i) e" using assms lookup_eq_content by blast
  from delete_item_ok [OF assms(1) this, of item] obtain s' where
    s': "radix_tree_delete_item s i item = Some (if item \<noteq> 0 \<and> e \<noteq> item then 0 else e, s')" "rt_inv s'"
    "if item \<noteq> 0 \<and> e \<noteq> item then s' = s else stored s i 0 s'" by blast
  show ?thesis
  proof (cases "item \<noteq> 0 \<and> e \<noteq> item")
    case True
    with s' show ?thesis by auto
  next
    case False
    with s' have "stored s i 0 s'" by simp
    with s' False lookup_stored [OF assms(1) s'(2) this] show ?thesis by (intro exI [of _ s']) auto
  qed
qed

theorem radix_delete_item_expected_witness:
  "radix_tree_delete_item demo_tree2 300 16 = Some (0, demo_tree2)"
  using radix_delete_item_expected [OF demo_tree2_ok(1,2), of 16] by simp

text \<open>
  The slot that lookup returns for a present index holds the entry, and replacing it by an
  item of the same kind (value or pointer) changes that index only and keeps the tree well formed.
\<close>

theorem radix_replace_slot_present:
  assumes "rt_inv s" "radix_tree_lookup s i = Some e" "e \<noteq> 0" "item \<noteq> 0" "xa_is_value item = xa_is_value e"
  shows "\<exists>sl s'. radix_tree_lookup_slot s i = Some (Some sl) \<and> load_slot s sl = Some e
     \<and> radix_tree_replace_slot s sl item = Some s' \<and> rt_inv s'
     \<and> (\<forall>j. radix_tree_lookup s' j = (if j = i then Some item else radix_tree_lookup s j))"
proof -
  have c: "content s (unat i) e" using assms lookup_eq_content by blast
  from replace_slot_item_ok [OF assms(1) c assms(4,5)] obtain sl s' where
    s': "radix_tree_lookup_slot s i = Some (Some sl)" "radix_tree_replace_slot s sl item = Some s'"
    "rt_inv s'" "stored s i item s'" by blast
  obtain q n where q: "raw_radix_tree_lookup s i = Some (e, Some (q, NodeSlot q (unat i mod 64)))"
    "node_at s q n" "node_slots n ! (unat i mod 64) = e" using present_leaf [OF assms(1) c] by metis
  then have "load_slot s sl = Some e"
    using s'(1) assms(3) rt_inv_length [OF assms(1) q(2)] by (auto simp: radix_tree_lookup_slot_def node_at_def)
  with s' lookup_stored [OF assms(1) s'(3,4)] show ?thesis by blast
qed

theorem radix_replace_slot_present_witness:
  "\<exists>sl s'. radix_tree_lookup_slot demo_tree2 5 = Some (Some sl) \<and> radix_tree_replace_slot demo_tree2 sl 40 = Some s'
     \<and> radix_tree_lookup s' 5 = Some 40 \<and> radix_tree_lookup s' 300 = Some 8"
proof -
  have "xa_is_value 40 = xa_is_value 16" by code_simp
  from radix_replace_slot_present [OF demo_tree2_ok(1,3) _ _ this] demo_tree2_ok(2) show ?thesis by force
qed

text \<open>
  C6. Deleting an index right after a successful insertion returns the inserted item, and
  every lookup is what it was before, although the tree may have grown and shrunk.
\<close>

theorem radix_insert_delete_roundtrip:
  assumes "rt_inv s" "item \<noteq> 0" "i \<noteq> 0 \<or> (\<exists>j. radix_tree_lookup s j \<noteq> Some 0)"
    and "radix_tree_insert s i item = Some (0, s1)"
  shows "\<exists>s2. radix_tree_delete s1 i = Some (item, s2) \<and> rt_inv s2 \<and> radix_tree_lookup s2 = radix_tree_lookup s"
  by (rule rs.insert_delete [OF assms])

theorem radix_insert_delete_roundtrip_witness:
  "\<exists>s1 s2. radix_tree_insert demo_tree 300 8 = Some (0, s1) \<and> radix_tree_delete s1 300 = Some (8, s2)
     \<and> radix_tree_lookup s2 = radix_tree_lookup demo_tree"
proof -
  obtain s where "radix_tree_insert demo_tree 300 8 = Some (0, s)" by (rule demo_steps)
  with radix_insert_delete_roundtrip [OF demo_tree_ok(2) _ _ this] show ?thesis by auto
qed

text \<open>
  C7. The shift to which the tree is extended is a multiple of the map shift, at most 60, and
  the least from the given one on at which the index fits; no bit of the index is lost.
\<close>

theorem radix_extend_shift_least:
  assumes "unat sh = 6 * k" "k \<le> 10"
  shows "\<exists>M. unat (extend_maxshift i sh) = 6 * M \<and> k \<le> M \<and> M \<le> 10 \<and> i \<le> shift_maxindex (extend_maxshift i sh)
     \<and> (\<forall>m sh'. k \<le> m \<longrightarrow> m < M \<longrightarrow> unat sh' = 6 * m \<longrightarrow> shift_maxindex sh' < i)"
  using assms
proof (induction "10 - k" arbitrary: k sh)
  case 0
  then have "k = 10" by simp
  then have "\<not> shift_maxindex sh < i" using 0 shift_maxindex_nat [of sh 10 i] unat_lt_2p64 [of i] by simp
  then show ?case using 0 \<open>k = 10\<close> by (auto simp: extend_maxshift.simps [of i sh])
next
  case (Suc d)
  show ?case
  proof (cases "shift_maxindex sh < i")
    case False
    then show ?thesis using Suc.prems by (auto simp: extend_maxshift.simps [of i sh])
  next
    case True
    then have eq: "extend_maxshift i sh = extend_maxshift i (sh + 6)" by (simp add: extend_maxshift.simps [of i sh])
    have "unat (sh + 6) = 6 * Suc k" using Suc.prems by (intro unat_shift_add) simp_all
    moreover have "d = 10 - Suc k" "Suc k \<le> 10" using Suc.hyps(2) by simp_all
    ultimately obtain M where M: "unat (extend_maxshift i sh) = 6 * M"
      "Suc k \<le> M" "M \<le> 10" "i \<le> shift_maxindex (extend_maxshift i sh)"
      "\<forall>m sh'. Suc k \<le> m \<longrightarrow> m < M \<longrightarrow> unat sh' = 6 * m \<longrightarrow> shift_maxindex sh' < i" unfolding eq using Suc.hyps(1) [of "Suc k" "sh + 6"] by blast
    have "shift_maxindex sh' < i" if m: "k \<le> m" "m < M" "unat sh' = 6 * m" for m sh'
    proof (cases "m = k")
      case True
      with m(3) Suc.prems(1) have "sh' = sh" by (simp add: word_unat_eq_iff)
      with \<open>shift_maxindex sh < i\<close> show ?thesis by simp
    next
      case False
      with m(1) have "Suc k \<le> m" by simp
      with m M(5) show ?thesis by blast
    qed
    with M show ?thesis by (metis Suc_leD)
  qed
qed

theorem radix_extend_shift_least_witness:
  "\<exists>M. unat (extend_maxshift 300 0) = 6 * M \<and> 300 \<le> shift_maxindex (extend_maxshift 300 0)
     \<and> (\<forall>m sh'. m < M \<longrightarrow> unat sh' = 6 * m \<longrightarrow> shift_maxindex sh' < 300)"
  using radix_extend_shift_least [of 0 0 300] by auto

section \<open>Where the tree does not behave as a map\<close>

text \<open>
  C8. Deleting an absent index is not harmless: where the lookup of that index ends in a leaf with a
  single entry, the deletion returns NULL, but that entry, which has another index, is lost.  The
  tree is well formed afterwards and every other lookup is as before.
\<close>

theorem radix_delete_absent_drops_entry:
  assumes "rt_inv s" "radix_tree_lookup s i = Some 0" "radix_tree_lookup s j = Some e" "e \<noteq> 0"
    and "unat i div 64 = unat j div 64"
    and "\<forall>l. unat l div 64 = unat j div 64 \<longrightarrow> l \<noteq> j \<longrightarrow> radix_tree_lookup s l = Some 0"
  shows "\<exists>s'. radix_tree_delete s i = Some (0, s') \<and> rt_inv s'
     \<and> (\<forall>l. radix_tree_lookup s' l = (if l = j then Some 0 else radix_tree_lookup s l))"
proof -
  from delete_absent [OF assms(1-5)] assms(6) obtain s' where s': "radix_tree_delete s i = Some (0, s')" "rt_inv s'" "stored s j 0 s'"
    by blast
  with lookup_stored [OF assms(1) s'(2,3)] show ?thesis by auto
qed

theorem radix_delete_absent_drops_entry_witness:
  "\<exists>s'. radix_tree_lookup demo_tree3 300 = Some 16 \<and> radix_tree_delete demo_tree3 301 = Some (0, s')
     \<and> radix_tree_lookup s' 300 = Some 0 \<and> radix_tree_lookup s' 0 = Some 8"
proof -
  have "radix_tree_lookup demo_tree3 l = Some 0" if "unat l div 64 = unat (300 :: u64) div 64" "l \<noteq> 300" for l
    using that demo_tree3_ok(6) [of l] by auto
  with radix_delete_absent_drops_entry [OF demo_tree3_ok(1) _ demo_tree3_ok(3), of 301] demo_tree3_ok(2,3) demo_tree3_ok(6) [of 301]
  show ?thesis by auto
qed

text \<open>
  In an emptied tree an item inserted at index 0 is stored in the root pointer itself, and
  a later insertion at another index writes the parent field of a node at the address of
  that item: an access outside the nodes of the tree, for which the model has no result.
\<close>

theorem radix_direct_root_fault:
  "(case radix_tree_root_alloc [4096, 8192, 12288, 16384] of Some s \<Rightarrow>
    case radix_tree_insert s 1 8 of Some (r, s1) \<Rightarrow>
    case radix_tree_delete s1 1 of Some (e, s2) \<Rightarrow>
    case radix_tree_insert s2 0 32 of Some (r2, s3) \<Rightarrow>
      r2 = 0 \<and> rnode s3 = 32 \<and> radix_tree_lookup s3 0 = Some 32 \<and> radix_tree_insert s3 1 8 = None)"
  by code_simp

text \<open>
  When the allocation of the first node fails, the root is not empty: its pointer is tagged
  as an internal node at address 0, and the first lookup dereferences it.
\<close>

theorem radix_root_alloc_failed_node:
  "(case radix_tree_root_alloc [4096, 0] of Some s \<Rightarrow>
      \<not> radix_tree_empty s \<and> radix_tree_lookup s 0 = None)"
  by code_simp

end
