(* ===== verification/Radix_Iter_Props.thy ===== *)
theory Radix_Iter_Props
  imports Radix_Iter_Steps Radix_Props
begin

text \<open>The properties of the iterator, and lookup and deletion through it.\<close>

section \<open>Lookup through the iterator\<close>

lemma chunk_contig:
  assumes inv: "rt_inv s" and contig: "flags AND RADIX_TREE_ITER_CONTIG \<noteq> 0" and "pfx s p k (unat i div 64 ^ Suc k)"
  shows "if \<exists>e. content s (unat i) e
     then \<exists>q d iter'. chunk_loop s iter flags i (Some (node_to_entry p)) = Some (Some (NodeSlot q d), iter')
        \<and> at_entry s iter' q d (unat i)
     else chunk_loop s iter flags i (Some (node_to_entry p)) = Some (None, iter)"
  using assms(3)
proof (induction k arbitrary: p)
  case (0 p)
  obtain n where n: "node_at s p n" "unat (node_shift n) = 6 * 0" using pfx_node_at [OF 0] by blast
  let ?d = "unat i mod 64"
  have px: "pfx s p 0 (unat i div 64)" using 0 by simp
  have ex: "(\<exists>e. content s (unat i) e) \<longleftrightarrow> node_slots n ! ?d \<noteq> 0" using content_leaf [OF inv px n(1)] by auto
  have d: "?d = unat i div 64 ^ 0 mod 64" by simp
  note turn = chunk_loop_turn [OF inv n d]
  show ?case
  proof (cases "node_slots n ! ?d = 0")
    case True
    with turn(2) contig ex show ?thesis by simp
  next
    case False
    have "at_entry s (iter\<lparr>iter_index := (i AND NOT (node_maxindex n)) OR of_nat ?d,
           iter_next_index := (i OR node_maxindex n) + 1, iter_node := p\<rparr>) p ?d (64 * (unat i div 64) + ?d)"
      by (rule at_leaf [OF inv px n(1) _ False]) simp
    moreover have "64 * (unat i div 64) + ?d = unat i" by simp
    moreover have "node_shift n = 0" using n(2) shift_zero [of _ 0] by simp
    ultimately show ?thesis using turn(1) [OF False] False ex by (auto simp: turn_end_def)
  qed
next
  case (Suc k p)
  obtain n where n: "node_at s p n" "unat (node_shift n) = 6 * Suc k" using pfx_node_at [OF Suc.prems] by blast
  define d where "d = unat i div 64 ^ Suc k mod 64"
  note turn = chunk_loop_turn [OF inv n d_def]
  show ?case
  proof (cases "node_slots n ! d = 0")
    case True
    then have "\<not> content s (unat i) e" for e
      using content_path [OF inv _ Suc.prems n(1)] unfolding d_def by blast
    with turn(2) [OF True contig] show ?thesis by simp
  next
    case False
    have "d < 64" by (simp add: d_def)
    from pfx_down [OF inv Suc.prems n(1) this False] obtain c m where
      c: "node_slots n ! d = node_to_entry c" "node_at s c m" "pfx s c k (64 * (unat i div 64 ^ Suc (Suc k)) + d)" by metis
    have "pfx s c k (unat i div 64 ^ Suc k)" using c(3) digit_step [of "unat i" k] unfolding d_def by simp
    moreover have "turn_end s iter flags p n i d = chunk_loop s iter flags i (Some (node_to_entry c))"
      using c(1) rt_inv_addr [OF inv c(2)] n(2) shift_zero [OF n(2)] by (simp add: turn_end_def)
    ultimately show ?thesis using Suc.IH [of c] turn(1) [OF False] by simp
  qed
qed

lemma iter_lookup_ok:
  assumes inv: "rt_inv s"
  shows "if \<exists>e. content s (unat i) e
     then \<exists>q d iter'. radix_tree_iter_lookup s iter i = Some (Some (NodeSlot q d), iter') \<and> at_entry s iter' q d (unat i)
     else \<exists>iter'. radix_tree_iter_lookup s iter i = Some (None, iter')"
proof -
  let ?i = "iter\<lparr>iter_index := 0, iter_next_index := i\<rparr>"
  have fl: "RADIX_TREE_ITER_CONTIG AND RADIX_TREE_ITER_TAGGED = 0" "RADIX_TREE_ITER_CONTIG AND RADIX_TREE_ITER_CONTIG \<noteq> 0"
    by (simp_all add: c_consts)
  then have eq: "radix_tree_iter_lookup s iter i = chunk_loop s ?i RADIX_TREE_ITER_CONTIG i None"
    by (simp add: radix_tree_iter_lookup_def radix_tree_iter_init_def radix_tree_next_chunk_def)
  show ?thesis
  proof (cases "rnode s = 0")
    case True
    then have "chunk_loop s ?i RADIX_TREE_ITER_CONTIG i None = Some (None, ?i)"
      by (subst chunk_loop.simps) (simp add: load_root_empty)
    with content_empty [OF inv True] eq show ?thesis by simp
  next
    case False
    then obtain r n where r: "rnode s = node_to_entry r" "node_at s r n" using rt_inv_root [OF inv] by metis
    obtain K where K: "K \<le> 10" "unat (node_shift n) = 6 * K" using rt_inv_level [OF inv r(2)] by blast
    have cmp: "node_maxindex n < i \<longleftrightarrow> 64 ^ Suc K \<le> unat i"
      using shift_maxindex_nat [OF K(2,1)] by (simp add: node_maxindex_def)
    note lr = load_root_tree [OF inv r]
    show ?thesis
    proof (cases "node_maxindex n < i")
      case True
      then have "chunk_loop s ?i RADIX_TREE_ITER_CONTIG i None = Some (None, ?i)"
        by (subst chunk_loop.simps) (simp add: lr)
      moreover have "\<not> content s (unat i) e" for e
        using content_bound [OF inv _ r K(2), of "unat i" e] True cmp by auto
      ultimately show ?thesis using eq by simp
    next
      case False
      then have "chunk_loop s ?i RADIX_TREE_ITER_CONTIG i None =
          chunk_loop s ?i RADIX_TREE_ITER_CONTIG i (Some (node_to_entry r))"
        using rt_inv_addr [OF inv r(2)] by (subst chunk_loop.simps) (simp add: lr)
      moreover have "pfx s r K (unat i div 64 ^ Suc K)" using pfx_rootI [OF inv r K(2)] False cmp by simp
      ultimately show ?thesis using chunk_contig [OF inv fl(2), of r K i ?i] eq by (auto split: if_splits)
    qed
  qed
qed

lemma at_entry_load:
  assumes "rt_inv s" "at_entry s iter p d (unat i)"
  shows "\<exists>e. load_slot s (NodeSlot p d) = Some e \<and> e \<noteq> 0 \<and> radix_tree_lookup s i = Some e \<and> iter_index iter = i"
proof -
  obtain n where n: "node_at s p n" "node_slots n ! d \<noteq> 0" "pfx s p 0 (unat i div 64)" "d = unat i mod 64" "d < 64"
    and ix: "unat (iter_index iter) = unat i" using assms(2) unfolding at_entry_def by blast
  then have "content s (unat i) (node_slots n ! d)" using content_leaf [OF assms(1) n(3,1)] by simp
  then have "radix_tree_lookup s i = Some (node_slots n ! d)" using lookup_eq_content [OF assms(1) n(2)] by simp
  moreover have "iter_index iter = i" using ix by (simp add: word_unat_eq_iff)
  ultimately show ?thesis using n(1,2,5) rt_inv_length [OF assms(1) n(1)] by (simp add: node_at_def)
qed

section \<open>Properties\<close>

text \<open>
  C9. The loop \<open>radix_tree_for_each_slot\<close> ends and visits every entry of the tree from the start
  index on exactly once, in strictly ascending order of the indices, each with its index.
\<close>

theorem radix_for_each_slot_complete:
  assumes "rt_inv s"
  shows "\<exists>xs. radix_tree_for_each_slot visit [] s iter start = Some (xs, s) \<and> sorted_wrt (<) (map fst xs)
     \<and> set xs = {(i, e). start \<le> i \<and> radix_tree_lookup s i = Some e \<and> e \<noteq> 0}"
proof -
  obtain xs where "radix_tree_for_each_slot visit [] s iter start = Some (xs, s)" "sorted_wrt (<) (map fst xs)"
    "set xs = entries_from s (unat start)" using for_each_ok [OF assms, of start iter] by (auto simp: visits_def)
  moreover have "(i, e) \<in> entries_from s (unat start) \<longleftrightarrow> start \<le> i \<and> radix_tree_lookup s i = Some e \<and> e \<noteq> 0" for i e
    using lookup_eq_content [OF assms, of e i] by (auto simp: entries_from_def word_le_nat_alt content_def)
  ultimately show ?thesis by (intro exI [of _ xs]) auto
qed

definition demo_iter :: radix_tree_iter where
  "demo_iter = \<lparr>iter_index = 7, iter_next_index = 7, iter_tags = 0, iter_node = 0\<rparr>"

theorem radix_for_each_slot_complete_witness:
  "\<exists>xs. radix_tree_for_each_slot visit [] demo_tree2 demo_iter 6 = Some (xs, demo_tree2) \<and> (300, 8) \<in> set xs
     \<and> (\<forall>e. (5, e) \<notin> set xs)"
  using radix_for_each_slot_complete [OF demo_tree2_ok(1), of demo_iter 6] demo_tree2_ok(2) by auto

text \<open>
  C10. \<open>radix_tree_iter_find\<close> returns the slot of the entry with the lowest index not below the
  given one and leaves that index in the iterator; it returns NULL when there is none.
\<close>

theorem radix_iter_find_least:
  assumes "rt_inv s"
  shows "\<exists>slot iter'. radix_tree_iter_find s iter start = Some (slot, iter')
     \<and> (case slot of
          None \<Rightarrow> \<forall>i. start \<le> i \<longrightarrow> radix_tree_lookup s i = Some 0
        | Some sl \<Rightarrow> start \<le> iter_index iter' \<and> load_slot s sl = radix_tree_lookup s (iter_index iter')
             \<and> radix_tree_lookup s (iter_index iter') \<noteq> Some 0
             \<and> (\<forall>i. start \<le> i \<longrightarrow> i < iter_index iter' \<longrightarrow> radix_tree_lookup s i = Some 0))"
proof -
  let ?i = "iter\<lparr>iter_index := 0, iter_next_index := start\<rparr>"
  have eq: "radix_tree_iter_find s iter start = radix_tree_next_chunk s ?i 0"
    by (simp add: radix_tree_iter_find_def radix_tree_iter_init_def)
  from next_chunk_ok [OF assms, of ?i] consider
    "radix_tree_next_chunk s ?i 0 = Some (None, ?i)" "gap s (unat start) (2 ^ 64)"
    | q d j it where "radix_tree_next_chunk s ?i 0 = Some (Some (NodeSlot q d), it)" "unat start \<le> j"
      "gap s (unat start) j" "at_entry s it q d j" unfolding chunk_post_def by auto
  then show ?thesis
  proof cases
    case 1
    then have "radix_tree_lookup s i = Some 0" if "start \<le> i" for i
      using that unat_lt_2p64 [of i] absent_iff [OF assms, of i] unfolding gap_def word_le_nat_alt by blast
    with 1(1) eq show ?thesis by simp
  next
    case 2
    have j: "unat (iter_index it) = j" using 2(4) by (simp add: at_entry_def)
    obtain e where e: "load_slot s (NodeSlot q d) = Some e" "e \<noteq> 0" "radix_tree_lookup s (iter_index it) = Some e"
      using at_entry_load [OF assms, of it q d "iter_index it"] 2(4) j by auto
    have "radix_tree_lookup s i = Some 0" if "start \<le> i" "i < iter_index it" for i
      using that 2(3) j absent_iff [OF assms, of i] unfolding gap_def word_le_nat_alt word_less_nat_alt by blast
    with 2(1,2) eq e j show ?thesis by (simp add: word_le_nat_alt del: load_slot.simps)
  qed
qed

theorem radix_iter_find_least_witness:
  "\<exists>slot iter'. radix_tree_iter_find demo_tree2 demo_iter 6 = Some (slot, iter') \<and> slot \<noteq> None"
proof -
  obtain slot iter' where r: "radix_tree_iter_find demo_tree2 demo_iter 6 = Some (slot, iter')"
    "case slot of None \<Rightarrow> \<forall>i. 6 \<le> i \<longrightarrow> radix_tree_lookup demo_tree2 i = Some 0 | Some sl \<Rightarrow> True"
    using radix_iter_find_least [OF demo_tree2_ok(1), of demo_iter 6] by (fastforce split: option.splits)
  have "6 \<le> (300 :: u64)" by simp
  with r demo_tree2_ok(2) show ?thesis by (cases slot) auto
qed

text \<open>
  \<open>radix_tree_iter_lookup\<close> returns the slot of the index if it is present, with the iterator
  set to it, and NULL otherwise.
\<close>

theorem radix_iter_lookup_exact:
  assumes "rt_inv s"
  shows "if radix_tree_lookup s i = Some 0 then \<exists>iter'. radix_tree_iter_lookup s iter i = Some (None, iter')
     else \<exists>sl iter'. radix_tree_iter_lookup s iter i = Some (Some sl, iter')
        \<and> load_slot s sl = radix_tree_lookup s i \<and> iter_index iter' = i"
proof (cases "radix_tree_lookup s i = Some 0")
  case True
  with iter_lookup_ok [OF assms, of i iter] absent_iff [OF assms, of i] show ?thesis by auto
next
  case False
  then obtain q d iter' where r: "radix_tree_iter_lookup s iter i = Some (Some (NodeSlot q d), iter')"
    "at_entry s iter' q d (unat i)"
    using iter_lookup_ok [OF assms, of i iter] absent_iff [OF assms, of i] by (auto split: if_splits)
  with at_entry_load [OF assms r(2)] False show ?thesis by fastforce
qed

theorem radix_iter_lookup_exact_witness:
  "\<exists>sl iter'. radix_tree_iter_lookup demo_tree2 demo_iter 5 = Some (Some sl, iter') \<and> load_slot demo_tree2 sl = Some 16"
  using radix_iter_lookup_exact [OF demo_tree2_ok(1), of 5 demo_iter] demo_tree2_ok(3) by auto

end
