(* ===== verification/Linked_List.thy ===== *)
theory Linked_List
  imports Prelude
begin

text \<open>
  The circular doubly linked lists of \<open>src/chaining_hash/list.h\<close>.  The memory maps the address of
  a list head or of an embedded list entry to its two links; an operation that follows a link
  to an address without a cell has no result.  The union over \<open>next\<close> with the counter bit fields
  is not used by the list code, so \<open>next\<close> is one 64 bit word.
\<close>

section \<open>Cells and operations\<close>

record list_head =
  lh_next :: u64
  lh_prev :: u64

type_synonym lmem = "u64 \<rightharpoonup> list_head"

definition LIST_POISON1 :: u64 where "LIST_POISON1 = 0x00100100"
definition LIST_POISON2 :: u64 where "LIST_POISON2 = 0x00200200"

definition set_next :: "lmem \<Rightarrow> u64 \<Rightarrow> u64 \<Rightarrow> lmem option" where
  "set_next m a v = do { c \<leftarrow> m a; Some (m(a \<mapsto> c\<lparr>lh_next := v\<rparr>)) }"

definition set_prev :: "lmem \<Rightarrow> u64 \<Rightarrow> u64 \<Rightarrow> lmem option" where
  "set_prev m a v = do { c \<leftarrow> m a; Some (m(a \<mapsto> c\<lparr>lh_prev := v\<rparr>)) }"

definition INIT_LIST_HEAD :: "lmem \<Rightarrow> u64 \<Rightarrow> lmem option" where
  "INIT_LIST_HEAD m ptr = do { m1 \<leftarrow> set_next m ptr ptr; set_prev m1 ptr ptr }"

definition raw_list_add :: "lmem \<Rightarrow> u64 \<Rightarrow> u64 \<Rightarrow> u64 \<Rightarrow> lmem option" where
  "raw_list_add m new prev nxt = do {
     m1 \<leftarrow> set_prev m nxt new;
     m2 \<leftarrow> set_next m1 new nxt;
     m3 \<leftarrow> set_prev m2 new prev;
     set_next m3 prev new
   }"

definition list_add :: "lmem \<Rightarrow> u64 \<Rightarrow> u64 \<Rightarrow> lmem option" where
  "list_add m new head = do { c \<leftarrow> m head; raw_list_add m new head (lh_next c) }"

definition list_add_tail :: "lmem \<Rightarrow> u64 \<Rightarrow> u64 \<Rightarrow> lmem option" where
  "list_add_tail m new head = do { c \<leftarrow> m head; raw_list_add m new (lh_prev c) head }"

definition raw_list_del :: "lmem \<Rightarrow> u64 \<Rightarrow> u64 \<Rightarrow> lmem option" where
  "raw_list_del m prev nxt = do { m1 \<leftarrow> set_prev m nxt prev; set_next m1 prev nxt }"

definition list_del :: "lmem \<Rightarrow> u64 \<Rightarrow> lmem option" where
  "list_del m entry = do {
     c \<leftarrow> m entry;
     m1 \<leftarrow> raw_list_del m (lh_prev c) (lh_next c);
     m2 \<leftarrow> set_next m1 entry LIST_POISON1;
     set_prev m2 entry LIST_POISON2
   }"

definition list_del_init :: "lmem \<Rightarrow> u64 \<Rightarrow> lmem option" where
  "list_del_init m entry = do {
     c \<leftarrow> m entry;
     m1 \<leftarrow> raw_list_del m (lh_prev c) (lh_next c);
     INIT_LIST_HEAD m1 entry
   }"

definition list_move :: "lmem \<Rightarrow> u64 \<Rightarrow> u64 \<Rightarrow> lmem option" where
  "list_move m entry head = do {
     c \<leftarrow> m entry;
     m1 \<leftarrow> raw_list_del m (lh_prev c) (lh_next c);
     list_add m1 entry head
   }"

definition list_move_tail :: "lmem \<Rightarrow> u64 \<Rightarrow> u64 \<Rightarrow> lmem option" where
  "list_move_tail m entry head = do {
     c \<leftarrow> m entry;
     m1 \<leftarrow> raw_list_del m (lh_prev c) (lh_next c);
     list_add_tail m1 entry head
   }"

definition list_empty :: "lmem \<Rightarrow> u64 \<Rightarrow> bool option" where
  "list_empty m head = do { c \<leftarrow> m head; Some (lh_next c = head) }"

definition raw_list_splice :: "lmem \<Rightarrow> u64 \<Rightarrow> u64 \<Rightarrow> lmem option" where
  "raw_list_splice m list head = do {
     l \<leftarrow> m list;
     h \<leftarrow> m head;
     let first = lh_next l;
     let lst = lh_prev l;
     let at = lh_next h;
     m1 \<leftarrow> set_prev m first head;
     m2 \<leftarrow> set_next m1 head first;
     m3 \<leftarrow> set_next m2 lst at;
     set_prev m3 at lst
   }"

definition list_splice :: "lmem \<Rightarrow> u64 \<Rightarrow> u64 \<Rightarrow> lmem option" where
  "list_splice m list head = do {
     e \<leftarrow> list_empty m list;
     if \<not> e then raw_list_splice m list head else Some m
   }"

definition list_splice_init :: "lmem \<Rightarrow> u64 \<Rightarrow> u64 \<Rightarrow> lmem option" where
  "list_splice_init m list head = do {
     e \<leftarrow> list_empty m list;
     if \<not> e then do { m1 \<leftarrow> raw_list_splice m list head; INIT_LIST_HEAD m1 list } else Some m
   }"

text \<open>The loops \<open>list_for_each\<close> and \<open>list_for_each_prev\<close>: the entries they visit, in order.\<close>

partial_function (option) for_each_from :: "lmem \<Rightarrow> u64 \<Rightarrow> u64 \<Rightarrow> u64 list option" where
  "for_each_from m head pos =
     (if pos = head then Some []
      else do { c \<leftarrow> m pos; ps \<leftarrow> for_each_from m head (lh_next c); Some (pos # ps) })"

definition list_for_each :: "lmem \<Rightarrow> u64 \<Rightarrow> u64 list option" where
  "list_for_each m head = do { c \<leftarrow> m head; for_each_from m head (lh_next c) }"

partial_function (option) for_each_prev_from :: "lmem \<Rightarrow> u64 \<Rightarrow> u64 \<Rightarrow> u64 list option" where
  "for_each_prev_from m head pos =
     (if pos = head then Some []
      else do { c \<leftarrow> m pos; ps \<leftarrow> for_each_prev_from m head (lh_prev c); Some (pos # ps) })"

definition list_for_each_prev :: "lmem \<Rightarrow> u64 \<Rightarrow> u64 list option" where
  "list_for_each_prev m head = do { c \<leftarrow> m head; for_each_prev_from m head (lh_prev c) }"

text \<open>
  The loop \<open>list_for_each_safe\<close> with a body that may delete the current entry: the next entry is
  read before the body runs, and again after it from the cell of that next entry.
\<close>

partial_function (option) for_each_safe_from ::
  "(lmem \<Rightarrow> u64 \<Rightarrow> lmem option) \<Rightarrow> lmem \<Rightarrow> u64 \<Rightarrow> u64 \<Rightarrow> u64 \<Rightarrow> lmem option" where
  "for_each_safe_from body m head pos nxt =
     (if pos = head then Some m
      else do {
        m1 \<leftarrow> body m pos;
        c \<leftarrow> m1 nxt;
        for_each_safe_from body m1 head nxt (lh_next c)
      })"

definition list_for_each_safe :: "(lmem \<Rightarrow> u64 \<Rightarrow> lmem option) \<Rightarrow> lmem \<Rightarrow> u64 \<Rightarrow> lmem option" where
  "list_for_each_safe body m head = do {
     c \<leftarrow> m head;
     d \<leftarrow> m (lh_next c);
     for_each_safe_from body m head (lh_next c) (lh_next d)
   }"

declare for_each_from.simps [code] for_each_prev_from.simps [code] for_each_safe_from.simps [code]

section \<open>Segments\<close>

text \<open>The links of a memory as two functions, and the segments of linked cells between two addresses.\<close>

definition nxt :: "lmem \<Rightarrow> u64 \<rightharpoonup> u64" where "nxt m a = map_option lh_next (m a)"
definition prv :: "lmem \<Rightarrow> u64 \<rightharpoonup> u64" where "prv m a = map_option lh_prev (m a)"

fun lseg :: "(u64 \<rightharpoonup> u64) \<Rightarrow> (u64 \<rightharpoonup> u64) \<Rightarrow> u64 \<Rightarrow> u64 list \<Rightarrow> u64 \<Rightarrow> bool" where
  "lseg n p x [] y \<longleftrightarrow> n x = Some y \<and> p y = Some x"
| "lseg n p x (z # zs) y \<longleftrightarrow> n x = Some z \<and> p z = Some x \<and> lseg n p z zs y"

definition dll :: "lmem \<Rightarrow> u64 \<Rightarrow> u64 list \<Rightarrow> bool" where
  "dll m h xs \<longleftrightarrow> distinct (h # xs) \<and> lseg (nxt m) (prv m) h xs h"

lemma set_next_ok:
  assumes "a \<in> dom m"
  shows "\<exists>m'. set_next m a v = Some m' \<and> nxt m' = (nxt m)(a \<mapsto> v) \<and> prv m' = prv m \<and> dom m' = dom m"
proof -
  from assms obtain c where "m a = Some c" by auto
  then show ?thesis
    by (intro exI [of _ "m(a \<mapsto> c\<lparr>lh_next := v\<rparr>)"]) (auto simp: set_next_def nxt_def prv_def fun_eq_iff)
qed

lemma set_prev_ok:
  assumes "a \<in> dom m"
  shows "\<exists>m'. set_prev m a v = Some m' \<and> prv m' = (prv m)(a \<mapsto> v) \<and> nxt m' = nxt m \<and> dom m' = dom m"
proof -
  from assms obtain c where "m a = Some c" by auto
  then show ?thesis
    by (intro exI [of _ "m(a \<mapsto> c\<lparr>lh_prev := v\<rparr>)"]) (auto simp: set_prev_def nxt_def prv_def fun_eq_iff)
qed

lemma links_dom: "nxt m a = Some b \<Longrightarrow> a \<in> dom m" "prv m a = Some b \<Longrightarrow> a \<in> dom m"
  by (auto simp: nxt_def prv_def)

lemma lseg_append: "lseg n p x (xs @ z # zs) y \<longleftrightarrow> lseg n p x xs z \<and> lseg n p z zs y"
  by (induction xs arbitrary: x) auto

lemma lseg_frame_next: "a \<notin> set (x # xs) \<Longrightarrow> lseg (n(a := v)) p x xs y \<longleftrightarrow> lseg n p x xs y"
  by (induction xs arbitrary: x) auto

lemma lseg_frame_prev: "a \<notin> set (xs @ [y]) \<Longrightarrow> lseg n (p(a := v)) x xs y \<longleftrightarrow> lseg n p x xs y"
  by (induction xs arbitrary: x) auto

lemma lseg_ends:
  assumes "lseg n p x xs y"
  shows "n x = Some (hd (xs @ [y]))" "p y = Some (last (x # xs))"
  using assms by (induction xs arbitrary: x) auto

lemma lseg_member:
  assumes "lseg n p x (as @ e # bs) y"
  shows "n e = Some (hd (bs @ [y]))" "p e = Some (last (x # as))"
  using assms by (auto simp: lseg_append dest: lseg_ends)

lemma lseg_dom: "lseg (nxt m) (prv m) x xs y \<Longrightarrow> a \<in> set (x # xs @ [y]) \<Longrightarrow> a \<in> dom m"
  by (induction xs arbitrary: x) (auto dest: links_dom)

text \<open>Inserting between two neighbours, and removing one cell.\<close>

lemma edge_insert:
  assumes "lseg n p l bs y" "l \<notin> set bs" "distinct (bs @ [y])" "e \<notin> set (l # bs @ [y])" "f = hd (bs @ [y])"
  shows "lseg (n(e \<mapsto> f, l \<mapsto> e)) (p(f \<mapsto> e, e \<mapsto> l)) l (e # bs) y"
proof (cases bs)
  case Nil
  with assms show ?thesis by auto
next
  case (Cons b bs')
  have "lseg (n(e \<mapsto> f, l \<mapsto> e)) (p(f \<mapsto> e, e \<mapsto> l)) b bs' y"
    using assms Cons by (subst lseg_frame_next lseg_frame_prev; simp)+
  with Cons assms(4,5) show ?thesis by auto
qed

lemma edge_remove:
  assumes "lseg n p l (e # bs) y" "l \<notin> set (e # bs)" "distinct (e # bs @ [y])" "f = hd (bs @ [y])"
  shows "lseg (n(l \<mapsto> f)) (p(f \<mapsto> l)) l bs y"
proof (cases bs)
  case Nil
  with assms show ?thesis by auto
next
  case (Cons b bs')
  have "lseg (n(l \<mapsto> f)) (p(f \<mapsto> l)) b bs' y"
    using assms Cons by (subst lseg_frame_next lseg_frame_prev; simp)+
  with Cons assms(4) show ?thesis by auto
qed

lemma lseg_insert:
  assumes "lseg n p x (as @ bs) y" "distinct (x # as @ bs)" "distinct (as @ bs @ [y])"
    and "e \<notin> set (x # as @ bs @ [y])" "l = last (x # as)" "f = hd (bs @ [y])"
  shows "lseg (n(e \<mapsto> f, l \<mapsto> e)) (p(f \<mapsto> e, e \<mapsto> l)) x (as @ e # bs) y"
proof (cases as rule: rev_cases)
  case Nil
  with assms edge_insert [of n p x bs y e f] show ?thesis by simp
next
  case (snoc as' a)
  then have l: "l = a" "lseg n p x as' a" "lseg n p a bs y" using assms(1,5) by (simp_all add: lseg_append)
  have "lseg (n(e \<mapsto> f, l \<mapsto> e)) (p(f \<mapsto> e, e \<mapsto> l)) a (e # bs) y"
    using edge_insert [OF l(3) _ _ _ assms(6)] assms(2-4) snoc l(1) by simp
  moreover have "f \<in> set (bs @ [y])" unfolding assms(6) by (rule hd_in_set) simp
  then have "e \<notin> set (x # as')" "l \<notin> set (x # as')" "f \<notin> set (as' @ [a])" "e \<notin> set (as' @ [a])"
    using l(1) assms(2-4) snoc by auto
  then have "lseg (n(e \<mapsto> f, l \<mapsto> e)) (p(f \<mapsto> e, e \<mapsto> l)) x as' a"
    using l(2) by (simp only: lseg_frame_next lseg_frame_prev not_False_eq_True)
  ultimately show ?thesis using snoc by (simp add: lseg_append del: fun_upd_apply)
qed

lemma lseg_remove:
  assumes "lseg n p x (as @ e # bs) y" "distinct (x # as @ e # bs)" "distinct (as @ e # bs @ [y])"
    and "l = last (x # as)" "f = hd (bs @ [y])"
  shows "lseg (n(l \<mapsto> f)) (p(f \<mapsto> l)) x (as @ bs) y"
proof (cases as rule: rev_cases)
  case Nil
  with assms edge_remove [of n p x e bs y f] show ?thesis by simp
next
  case (snoc as' a)
  then have l: "l = a" "lseg n p x as' a" "lseg n p a (e # bs) y" using assms(1,4) by (simp_all add: lseg_append)
  have "lseg (n(l \<mapsto> f)) (p(f \<mapsto> l)) a bs y"
    using edge_remove [OF l(3) _ _ assms(5)] assms(2,3) snoc l(1) by simp
  moreover have "f \<in> set (bs @ [y])" unfolding assms(5) by (rule hd_in_set) simp
  then have "l \<notin> set (x # as')" "f \<notin> set (as' @ [a])" using l(1) assms(2,3) snoc by auto
  then have "lseg (n(l \<mapsto> f)) (p(f \<mapsto> l)) x as' a"
    using l(2) by (simp only: lseg_frame_next lseg_frame_prev not_False_eq_True)
  ultimately show ?thesis using snoc by (simp add: lseg_append del: fun_upd_apply)
qed

section \<open>The operations on circular lists\<close>

lemma dllD:
  assumes "dll m h (as @ bs)"
  shows "lseg (nxt m) (prv m) h (as @ bs) h" "distinct (h # as @ bs)" "distinct (as @ bs @ [h])"
    "last (h # as) \<in> dom m" "hd (bs @ [h]) \<in> dom m"
proof -
  show l: "lseg (nxt m) (prv m) h (as @ bs) h" and "distinct (h # as @ bs)" "distinct (as @ bs @ [h])"
    using assms by (auto simp: dll_def)
  have "last (h # as) \<in> set (h # as)" "hd (bs @ [h]) \<in> set (bs @ [h])" by (rule last_in_set, simp) (rule hd_in_set, simp)
  then show "last (h # as) \<in> dom m" "hd (bs @ [h]) \<in> dom m" using lseg_dom [OF l] by auto
qed

lemma raw_list_add_ok:
  assumes d: "dll m h (as @ bs)" and e: "e \<in> dom m" "e \<notin> set (h # as @ bs)"
    and l: "l = last (h # as)" and f: "f = hd (bs @ [h])"
  shows "\<exists>m'. raw_list_add m e l f = Some m' \<and> dll m' h (as @ e # bs) \<and> dom m' = dom m
     \<and> nxt m' = (nxt m)(e \<mapsto> f, l \<mapsto> e) \<and> prv m' = (prv m)(f \<mapsto> e, e \<mapsto> l)"
proof -
  note D = dllD [OF d]
  obtain m1 where m1: "set_prev m f e = Some m1" "prv m1 = (prv m)(f \<mapsto> e)" "nxt m1 = nxt m" "dom m1 = dom m"
    using set_prev_ok [of f m e] D(5) f by blast
  obtain m2 where m2: "set_next m1 e f = Some m2" "nxt m2 = (nxt m1)(e \<mapsto> f)" "prv m2 = prv m1" "dom m2 = dom m1"
    using set_next_ok [of e m1 f] e(1) m1(4) by blast
  obtain m3 where m3: "set_prev m2 e l = Some m3" "prv m3 = (prv m2)(e \<mapsto> l)" "nxt m3 = nxt m2" "dom m3 = dom m2"
    using set_prev_ok [of e m2 l] e(1) m1(4) m2(4) by blast
  obtain m4 where m4: "set_next m3 l e = Some m4" "nxt m4 = (nxt m3)(l \<mapsto> e)" "prv m4 = prv m3" "dom m4 = dom m3"
    using set_next_ok [of l m3 e] D(4) l m1(4) m2(4) m3(4) by blast
  have "raw_list_add m e l f = Some m4" using m1(1) m2(1) m3(1) m4(1) by (simp add: raw_list_add_def)
  moreover have n: "nxt m4 = (nxt m)(e \<mapsto> f, l \<mapsto> e)" and p: "prv m4 = (prv m)(f \<mapsto> e, e \<mapsto> l)"
    using m1 m2 m3 m4 by simp_all
  have "lseg (nxt m4) (prv m4) h (as @ e # bs) h"
    unfolding n p by (rule lseg_insert [OF D(1-3) _ l f]) (use e(2) in auto)
  then have "dll m4 h (as @ e # bs)" using D(2) e(2) by (auto simp: dll_def)
  ultimately show ?thesis using n p m1(4) m2(4) m3(4) m4(4) by simp
qed

lemma raw_list_del_ok:
  assumes d: "dll m h (as @ e # bs)" and l: "l = last (h # as)" and f: "f = hd (bs @ [h])"
  shows "\<exists>m'. raw_list_del m l f = Some m' \<and> dll m' h (as @ bs) \<and> dom m' = dom m
     \<and> nxt m' = (nxt m)(l \<mapsto> f) \<and> prv m' = (prv m)(f \<mapsto> l)"
proof -
  have d2: "dll m h ((as @ [e]) @ bs)" using d by simp
  note D = dllD [OF d] and D2 = dllD [OF d2]
  obtain m1 where m1: "set_prev m f l = Some m1" "prv m1 = (prv m)(f \<mapsto> l)" "nxt m1 = nxt m" "dom m1 = dom m"
    using set_prev_ok [of f m l] D2(5) f by blast
  obtain m2 where m2: "set_next m1 l f = Some m2" "nxt m2 = (nxt m1)(l \<mapsto> f)" "prv m2 = prv m1" "dom m2 = dom m1"
    using set_next_ok [of l m1 f] D(4) l m1(4) by blast
  have "raw_list_del m l f = Some m2" using m1(1) m2(1) by (simp add: raw_list_del_def)
  moreover have n: "nxt m2 = (nxt m)(l \<mapsto> f)" and p: "prv m2 = (prv m)(f \<mapsto> l)" using m1 m2 by simp_all
  have "lseg (nxt m2) (prv m2) h (as @ bs) h"
    unfolding n p by (rule lseg_remove [OF D(1) _ _ l f]) (use D(2,3) in auto)
  then have "dll m2 h (as @ bs)" using D(2) by (auto simp: dll_def)
  ultimately show ?thesis using n p m1(4) m2(4) by simp
qed

end
