(* ===== verification/Linked_List_Ops.thy ===== *)
theory Linked_List_Ops
  imports Linked_List
begin

text \<open>
  What each list operation does to the list of entries behind a head.  \<open>unchanged\<close> says which
  cells an operation leaves alone, so that lists sharing no cell do not disturb each other.
\<close>

definition unchanged :: "lmem \<Rightarrow> lmem \<Rightarrow> u64 set \<Rightarrow> bool" where
  "unchanged m m' A \<longleftrightarrow> dom m' = dom m \<and> (\<forall>a. a \<notin> A \<longrightarrow> m' a = m a)"

lemma cell_eqI:
  assumes "dom m' = dom m" "nxt m' a = nxt m a" "prv m' a = prv m a"
  shows "m' a = m a"
proof (cases "m a")
  case None
  then show ?thesis using assms(1) by auto
next
  case (Some c)
  then obtain c' where "m' a = Some c'" using assms(1) by blast
  moreover from this Some assms(2,3) have "lh_next c' = lh_next c" "lh_prev c' = lh_prev c"
    by (simp_all add: nxt_def prv_def)
  ultimately show ?thesis using Some by (cases c, cases c') simp
qed

lemma unchangedI:
  assumes "dom m' = dom m" "\<And>a. a \<notin> A \<Longrightarrow> nxt m' a = nxt m a \<and> prv m' a = prv m a"
  shows "unchanged m m' A"
  using assms cell_eqI unfolding unchanged_def by blast

lemma lseg_cong:
  assumes "\<And>a. a \<in> set (x # xs @ [y]) \<Longrightarrow> n' a = n a \<and> p' a = p a"
  shows "lseg n' p' x xs y \<longleftrightarrow> lseg n p x xs y"
  using assms by (induction xs arbitrary: x) auto

lemma dll_frame:
  assumes "unchanged m m' A" "dll m h xs" "set (h # xs) \<inter> A = {}"
  shows "dll m' h xs"
proof -
  have "nxt m' a = nxt m a \<and> prv m' a = prv m a" if "a \<in> set (h # xs @ [h])" for a
    using that assms(1,3) by (auto simp: unchanged_def nxt_def prv_def)
  from lseg_cong [of h xs h "nxt m'" "nxt m" "prv m'" "prv m", OF this] assms(2) show ?thesis by (simp add: dll_def)
qed

lemma dll_dom: "dll m h xs \<Longrightarrow> a \<in> set (h # xs) \<Longrightarrow> a \<in> dom m"
  using lseg_dom [of m h xs h a] by (auto simp: dll_def)

lemma dll_head:
  assumes "dll m h xs"
  obtains c where "m h = Some c" "lh_next c = hd (xs @ [h])" "lh_prev c = last (h # xs)"
  using assms lseg_ends [of "nxt m" "prv m" h xs h] by (auto simp: dll_def nxt_def prv_def)

lemma dll_entry:
  assumes "dll m h (as @ e # bs)"
  obtains c where "m e = Some c" "lh_next c = hd (bs @ [h])" "lh_prev c = last (h # as)"
  using assms lseg_member [of "nxt m" "prv m" h as e bs h] by (auto simp: dll_def nxt_def prv_def)

section \<open>Initialisation and insertion\<close>

lemma init_ok:
  assumes "h \<in> dom m"
  shows "\<exists>m'. INIT_LIST_HEAD m h = Some m' \<and> dll m' h [] \<and> unchanged m m' {h}"
proof -
  obtain m1 where m1: "set_next m h h = Some m1" "nxt m1 = (nxt m)(h \<mapsto> h)" "prv m1 = prv m" "dom m1 = dom m"
    using set_next_ok [OF assms, of h] by blast
  obtain m2 where m2: "set_prev m1 h h = Some m2" "prv m2 = (prv m1)(h \<mapsto> h)" "nxt m2 = nxt m1" "dom m2 = dom m1"
    using set_prev_ok [of h m1 h] assms m1(4) by blast
  have "unchanged m m2 {h}" by (rule unchangedI) (use m1 m2 in auto)
  with m1 m2 show ?thesis by (simp add: INIT_LIST_HEAD_def dll_def)
qed

lemma ends_in: "last (h # as) \<in> set (h # as @ bs)" "hd (bs @ [h]) \<in> set (h # as @ bs)"
proof -
  have "last (h # as) \<in> set (h # as)" by (rule last_in_set) simp
  then show "last (h # as) \<in> set (h # as @ bs)" by auto
  have "hd (bs @ [h]) \<in> set (bs @ [h])" by (rule hd_in_set) simp
  then show "hd (bs @ [h]) \<in> set (h # as @ bs)" by auto
qed

lemma add_between:
  assumes "dll m h (as @ bs)" "e \<in> dom m" "e \<notin> set (h # as @ bs)"
  shows "\<exists>m'. raw_list_add m e (last (h # as)) (hd (bs @ [h])) = Some m' \<and> dll m' h (as @ e # bs)
     \<and> unchanged m m' (set (h # e # as @ bs))"
proof -
  obtain m' where m': "raw_list_add m e (last (h # as)) (hd (bs @ [h])) = Some m'" "dll m' h (as @ e # bs)" "dom m' = dom m"
    "nxt m' = (nxt m)(e \<mapsto> hd (bs @ [h]), last (h # as) \<mapsto> e)" "prv m' = (prv m)(hd (bs @ [h]) \<mapsto> e, e \<mapsto> last (h # as))"
    using raw_list_add_ok [OF assms refl refl] by blast
  have "unchanged m m' (set (h # e # as @ bs))"
  proof (rule unchangedI)
    fix a assume "a \<notin> set (h # e # as @ bs)"
    then have "a \<noteq> e" "a \<noteq> last (h # as)" "a \<noteq> hd (bs @ [h])" using ends_in [where h = h and as = as and bs = bs] by auto
    then show "nxt m' a = nxt m a \<and> prv m' a = prv m a" by (simp only: m'(4,5)) simp
  qed (rule m'(3))
  with m' show ?thesis by blast
qed

lemma list_add_ok:
  assumes "dll m h xs" "e \<in> dom m" "e \<notin> set (h # xs)"
  shows "\<exists>m'. list_add m e h = Some m' \<and> dll m' h (e # xs) \<and> unchanged m m' (set (h # e # xs))"
proof -
  obtain c where "m h = Some c" "lh_next c = hd (xs @ [h])" using dll_head [OF assms(1)] by blast
  with add_between [of m h "[]" xs e] assms show ?thesis by (simp add: list_add_def)
qed

lemma list_add_tail_ok:
  assumes "dll m h xs" "e \<in> dom m" "e \<notin> set (h # xs)"
  shows "\<exists>m'. list_add_tail m e h = Some m' \<and> dll m' h (xs @ [e]) \<and> unchanged m m' (set (h # e # xs))"
proof -
  obtain c where "m h = Some c" "lh_prev c = last (h # xs)" using dll_head [OF assms(1)] by blast
  with add_between [of m h xs "[]" e] assms show ?thesis by (simp add: list_add_tail_def)
qed

section \<open>Removal\<close>

lemma del_between:
  assumes "dll m h (as @ e # bs)"
  shows "\<exists>m'. raw_list_del m (last (h # as)) (hd (bs @ [h])) = Some m' \<and> dll m' h (as @ bs)
     \<and> unchanged m m' (set (h # as @ bs))"
proof -
  obtain m' where m': "raw_list_del m (last (h # as)) (hd (bs @ [h])) = Some m'" "dll m' h (as @ bs)" "dom m' = dom m"
    "nxt m' = (nxt m)(last (h # as) \<mapsto> hd (bs @ [h]))" "prv m' = (prv m)(hd (bs @ [h]) \<mapsto> last (h # as))"
    using raw_list_del_ok [OF assms refl refl] by blast
  have "unchanged m m' (set (h # as @ bs))"
  proof (rule unchangedI)
    fix a assume "a \<notin> set (h # as @ bs)"
    then have "a \<noteq> last (h # as)" "a \<noteq> hd (bs @ [h])" using ends_in [where h = h and as = as and bs = bs] by auto
    then show "nxt m' a = nxt m a \<and> prv m' a = prv m a" by (simp only: m'(4,5)) simp
  qed (rule m'(3))
  with m' show ?thesis by blast
qed

lemma unchanged_trans:
  "unchanged m m1 A \<Longrightarrow> unchanged m1 m2 B \<Longrightarrow> A \<union> B \<subseteq> C \<Longrightarrow> unchanged m m2 C"
  unfolding unchanged_def by (metis UnCI subsetD)

lemma list_del_ok:
  assumes "dll m h (as @ e # bs)"
  shows "\<exists>m'. list_del m e = Some m' \<and> dll m' h (as @ bs) \<and> unchanged m m' (set (h # e # as @ bs))
     \<and> m' e = Some \<lparr>lh_next = LIST_POISON1, lh_prev = LIST_POISON2\<rparr>"
proof -
  obtain c where c: "m e = Some c" "lh_next c = hd (bs @ [h])" "lh_prev c = last (h # as)"
    using dll_entry [OF assms] by blast
  obtain m1 where m1: "raw_list_del m (last (h # as)) (hd (bs @ [h])) = Some m1" "dll m1 h (as @ bs)"
    "unchanged m m1 (set (h # as @ bs))" using del_between [OF assms] by blast
  have e: "e \<notin> set (h # as @ bs)" using assms by (auto simp: dll_def)
  then have "m1 e = Some c" using m1(3) c(1) by (simp add: unchanged_def)
  define m2 where "m2 = m1(e \<mapsto> \<lparr>lh_next = LIST_POISON1, lh_prev = LIST_POISON2\<rparr>)"
  have "list_del m e = Some m2"
    using c m1(1) \<open>m1 e = Some c\<close> by (cases c) (simp add: list_del_def set_next_def set_prev_def m2_def)
  moreover have u: "unchanged m1 m2 {e}" using \<open>m1 e = Some c\<close> by (auto simp: unchanged_def m2_def)
  moreover have "dll m2 h (as @ bs)" by (rule dll_frame [OF u m1(2)]) (use e in auto)
  ultimately show ?thesis using unchanged_trans [OF m1(3) u, of "set (h # e # as @ bs)"] by (auto simp: m2_def)
qed

lemma list_del_init_ok:
  assumes "dll m h (as @ e # bs)"
  shows "\<exists>m'. list_del_init m e = Some m' \<and> dll m' h (as @ bs) \<and> dll m' e []
     \<and> unchanged m m' (set (h # e # as @ bs))"
proof -
  obtain c where c: "m e = Some c" "lh_next c = hd (bs @ [h])" "lh_prev c = last (h # as)"
    using dll_entry [OF assms] by blast
  obtain m1 where m1: "raw_list_del m (last (h # as)) (hd (bs @ [h])) = Some m1" "dll m1 h (as @ bs)"
    "unchanged m m1 (set (h # as @ bs))" using del_between [OF assms] by blast
  have e: "e \<notin> set (h # as @ bs)" using assms by (auto simp: dll_def)
  have "e \<in> dom m1" using m1(3) c(1) by (auto simp: unchanged_def)
  from init_ok [OF this] obtain m2 where m2: "INIT_LIST_HEAD m1 e = Some m2" "dll m2 e []" "unchanged m1 m2 {e}" by blast
  have "dll m2 h (as @ bs)" by (rule dll_frame [OF m2(3) m1(2)]) (use e in auto)
  with c m1(1) m2(1,2) unchanged_trans [OF m1(3) m2(3), of "set (h # e # as @ bs)"] show ?thesis
    by (auto simp: list_del_init_def)
qed

text \<open>Moving an entry to another list, to its front or to its end.\<close>

lemma move_unlink:
  assumes "dll m h (as @ e # bs)" "dll m h' ys" "set (h # as @ e # bs) \<inter> set (h' # ys) = {}"
  shows "\<exists>c m1. m e = Some c \<and> raw_list_del m (lh_prev c) (lh_next c) = Some m1 \<and> dll m1 h (as @ bs) \<and> dll m1 h' ys
     \<and> unchanged m m1 (set (h # as @ bs)) \<and> e \<in> dom m1"
proof -
  obtain c where c: "m e = Some c" "lh_next c = hd (bs @ [h])" "lh_prev c = last (h # as)"
    using dll_entry [OF assms(1)] by blast
  obtain m1 where m1: "raw_list_del m (last (h # as)) (hd (bs @ [h])) = Some m1" "dll m1 h (as @ bs)"
    "unchanged m m1 (set (h # as @ bs))" using del_between [OF assms(1)] by blast
  have "dll m1 h' ys" by (rule dll_frame [OF m1(3) assms(2)]) (use assms(3) in auto)
  moreover have "e \<in> dom m1" using m1(3) c(1) by (auto simp: unchanged_def)
  ultimately show ?thesis using c m1 by auto
qed

lemma list_move_ok:
  assumes "dll m h (as @ e # bs)" "dll m h' ys" "set (h # as @ e # bs) \<inter> set (h' # ys) = {}"
  shows "\<exists>m'. list_move m e h' = Some m' \<and> dll m' h (as @ bs) \<and> dll m' h' (e # ys)"
    and "\<exists>m'. list_move_tail m e h' = Some m' \<and> dll m' h (as @ bs) \<and> dll m' h' (ys @ [e])"
proof -
  obtain c m1 where m1: "m e = Some c" "raw_list_del m (lh_prev c) (lh_next c) = Some m1" "dll m1 h (as @ bs)"
    "dll m1 h' ys" "e \<in> dom m1" using move_unlink [OF assms] by blast
  have e: "e \<notin> set (h' # ys)" using assms(3) by auto
  have dis: "set (h # as @ bs) \<inter> set (h' # e # ys) = {}" using assms(1,3) by (auto simp: dll_def)
  obtain m2 where m2: "list_add m1 e h' = Some m2" "dll m2 h' (e # ys)" "unchanged m1 m2 (set (h' # e # ys))"
    using list_add_ok [OF m1(4,5) e] by blast
  have "dll m2 h (as @ bs)" by (rule dll_frame [OF m2(3) m1(3) dis])
  with m1(1,2) m2(1,2) show "\<exists>m'. list_move m e h' = Some m' \<and> dll m' h (as @ bs) \<and> dll m' h' (e # ys)"
    by (simp add: list_move_def)
  obtain m3 where m3: "list_add_tail m1 e h' = Some m3" "dll m3 h' (ys @ [e])" "unchanged m1 m3 (set (h' # e # ys))"
    using list_add_tail_ok [OF m1(4,5) e] by blast
  have "dll m3 h (as @ bs)" by (rule dll_frame [OF m3(3) m1(3) dis])
  with m1(1,2) m3(1,2) show "\<exists>m'. list_move_tail m e h' = Some m' \<and> dll m' h (as @ bs) \<and> dll m' h' (ys @ [e])"
    by (simp add: list_move_tail_def)
qed

lemma list_empty_ok:
  assumes "dll m h xs"
  shows "list_empty m h = Some (xs = [])"
proof (rule dll_head [OF assms])
  fix c assume "m h = Some c" "lh_next c = hd (xs @ [h])"
  with assms show ?thesis by (cases xs) (auto simp: list_empty_def dll_def)
qed

section \<open>Traversal\<close>

lemma for_each_from_ok:
  "lseg (nxt m) (prv m) x xs h \<Longrightarrow> h \<notin> set xs \<Longrightarrow> for_each_from m h (hd (xs @ [h])) = Some xs"
proof (induction xs arbitrary: x)
  case Nil
  then show ?case by (simp add: for_each_from.simps)
next
  case (Cons z zs)
  then have "nxt m z = Some (hd (zs @ [h]))" by (auto dest: lseg_ends)
  then obtain c where "m z = Some c" "lh_next c = hd (zs @ [h])" by (auto simp: nxt_def)
  with Cons show ?case by (subst for_each_from.simps) auto
qed

lemma list_for_each_ok:
  assumes "dll m h xs"
  shows "list_for_each m h = Some xs"
  using for_each_from_ok [of m h xs h] assms by (auto simp: list_for_each_def dll_def intro: dll_head [OF assms])

lemma for_each_prev_from_ok:
  "lseg (nxt m) (prv m) h xs y \<Longrightarrow> h \<notin> set xs \<Longrightarrow> for_each_prev_from m h (last (h # xs)) = Some (rev xs)"
proof (induction xs arbitrary: y rule: rev_induct)
  case Nil
  then show ?case by (simp add: for_each_prev_from.simps)
next
  case (snoc z zs)
  then have l: "lseg (nxt m) (prv m) h zs z" by (simp add: lseg_append)
  then have "prv m z = Some (last (h # zs))" by (rule lseg_ends)
  then obtain c where "m z = Some c" "lh_prev c = last (h # zs)" by (auto simp: prv_def)
  with snoc l show ?case by (subst for_each_prev_from.simps) auto
qed

lemma list_for_each_prev_ok:
  assumes "dll m h xs"
  shows "list_for_each_prev m h = Some (rev xs)"
  using for_each_prev_from_ok [of m h xs h] assms by (auto simp: list_for_each_prev_def dll_def intro: dll_head [OF assms])

text \<open>The safe loop with a body that deletes every entry: it ends, and the list is empty.\<close>

lemma for_each_safe_del:
  "dll m h (z # zs) \<Longrightarrow>
   \<exists>m'. for_each_safe_from list_del m h z (hd (zs @ [h])) = Some m' \<and> dll m' h []"
proof (induction zs arbitrary: m z)
  case Nil
  obtain m1 where m1: "list_del m z = Some m1" "dll m1 h []" using list_del_ok [of m h "[]" z "[]"] Nil by auto
  have zh: "z \<noteq> h" using Nil by (auto simp: dll_def)
  obtain c where "m1 h = Some c" using dll_head [OF m1(2)] by blast
  with m1 zh show ?case
    by (subst for_each_safe_from.simps) (simp add: for_each_safe_from.simps [of _ _ h h])
next
  case (Cons y ys)
  obtain m1 where m1: "list_del m z = Some m1" "dll m1 h (y # ys)"
    using list_del_ok [of m h "[]" z "y # ys"] Cons.prems by auto
  have zh: "z \<noteq> h" using Cons.prems by (auto simp: dll_def)
  obtain c where "m1 y = Some c" "lh_next c = hd (ys @ [h])" using dll_entry [of m1 h "[]" y ys] m1(2) by auto
  with m1 zh Cons.IH [OF m1(2)] show ?case by (subst for_each_safe_from.simps) simp
qed

lemma list_for_each_safe_del:
  assumes "dll m h xs"
  shows "\<exists>m'. list_for_each_safe list_del m h = Some m' \<and> dll m' h []"
proof (cases xs)
  case Nil
  then obtain c where "m h = Some c" "lh_next c = h" using dll_head [OF assms] by auto
  with assms Nil show ?thesis by (simp add: list_for_each_safe_def for_each_safe_from.simps)
next
  case (Cons z zs)
  obtain c where c: "m h = Some c" "lh_next c = z" using dll_head [OF assms] Cons by auto
  obtain d where d: "m z = Some d" "lh_next d = hd (zs @ [h])" using dll_entry [of m h "[]" z zs] assms Cons by auto
  with c for_each_safe_del [of m h z zs] assms Cons show ?thesis by (simp add: list_for_each_safe_def)
qed

section \<open>Splicing\<close>

lemma lseg_front:
  assumes "lseg n p x xs y" "xs \<noteq> []" "distinct (xs @ [y])" "x' \<notin> set xs"
  shows "lseg (n(x' \<mapsto> hd xs)) (p(hd xs \<mapsto> x')) x' xs y"
proof (cases xs)
  case (Cons z zs)
  then have "x' \<notin> set (z # zs)" "z \<notin> set (zs @ [y])" "lseg n p z zs y" using assms by auto
  then have "lseg (n(x' \<mapsto> z)) (p(z \<mapsto> x')) z zs y" by (simp only: lseg_frame_next lseg_frame_prev not_False_eq_True)
  with Cons show ?thesis by simp
qed (use assms in simp)

lemma lseg_back:
  assumes "lseg n p x xs y" "xs \<noteq> []" "distinct (x # xs)" "y' \<notin> set xs"
  shows "lseg (n(last xs \<mapsto> y')) (p(y' \<mapsto> last xs)) x xs y'"
proof (cases xs rule: rev_cases)
  case (snoc zs z)
  then have "z \<notin> set (x # zs)" "y' \<notin> set (zs @ [z])" "lseg n p x zs z" using assms by (auto simp: lseg_append)
  then have "lseg (n(z \<mapsto> y')) (p(y' \<mapsto> z)) x zs z" by (simp only: lseg_frame_next lseg_frame_prev not_False_eq_True)
  with snoc show ?thesis by (simp add: lseg_append)
qed (use assms in simp)

lemma lseg_splice:
  assumes l: "lseg n p l xs l" "xs \<noteq> []" "distinct (l # xs)" and h: "lseg n p h ys h" "distinct (h # ys)"
    and dis: "set (l # xs) \<inter> set (h # ys) = {}" and at: "at = hd (ys @ [h])"
  shows "lseg (n(h \<mapsto> hd xs, last xs \<mapsto> at)) (p(hd xs \<mapsto> h, at \<mapsto> last xs)) h (xs @ ys) h"
proof -
  let ?n = "n(h \<mapsto> hd xs, last xs \<mapsto> at)" and ?p = "p(hd xs \<mapsto> h, at \<mapsto> last xs)"
  have at_in: "at \<in> set (h # ys)" unfolding at by (cases ys) auto
  have "lseg (n(h \<mapsto> hd xs)) (p(hd xs \<mapsto> h)) h xs l" by (rule lseg_front [OF l(1,2)]) (use l(3) dis in auto)
  then have first: "lseg ?n ?p h xs at" by (rule lseg_back) (use l(2,3) dis at_in in auto)
  show ?thesis
  proof (cases ys)
    case Nil
    with first at show ?thesis by simp
  next
    case (Cons b ys')
    have "hd xs \<in> set xs" "last xs \<in> set xs" using l(2) by simp_all
    then have "h \<notin> set (b # ys')" "last xs \<notin> set (b # ys')" "hd xs \<notin> set (ys' @ [h])" "at \<notin> set (ys' @ [h])"
      using Cons h(2) dis at by auto
    moreover have "lseg n p b ys' h" using h(1) Cons by simp
    ultimately have "lseg ?n ?p b ys' h" by (simp only: lseg_frame_next lseg_frame_prev not_False_eq_True)
    with first Cons at show ?thesis by (simp add: lseg_append)
  qed
qed

lemma raw_list_splice_ok:
  assumes l: "dll m l xs" "xs \<noteq> []" and h: "dll m h ys" and dis: "set (l # xs) \<inter> set (h # ys) = {}"
  shows "\<exists>m'. raw_list_splice m l h = Some m' \<and> dll m' h (xs @ ys) \<and> unchanged m m' (set (h # xs @ ys)) \<and> l \<in> dom m'"
proof -
  obtain cl where cl: "m l = Some cl" "lh_next cl = hd xs" "lh_prev cl = last xs"
    using dll_head [OF l(1)] l(2) by auto
  obtain ch where ch: "m h = Some ch" "lh_next ch = hd (ys @ [h])" using dll_head [OF h] by blast
  let ?f = "hd xs" and ?l = "last xs" and ?at = "hd (ys @ [h])"
  have at_in: "?at \<in> set (h # ys)" by (cases ys) auto
  have doms: "?f \<in> dom m" "?l \<in> dom m" "h \<in> dom m" "?at \<in> dom m"
    using dll_dom [OF l(1)] dll_dom [OF h] l(2) at_in by auto
  obtain m1 where m1: "set_prev m ?f h = Some m1" "prv m1 = (prv m)(?f \<mapsto> h)" "nxt m1 = nxt m" "dom m1 = dom m"
    using set_prev_ok [OF doms(1), of h] by blast
  obtain m2 where m2: "set_next m1 h ?f = Some m2" "nxt m2 = (nxt m1)(h \<mapsto> ?f)" "prv m2 = prv m1" "dom m2 = dom m1"
    using set_next_ok [of h m1 ?f] doms m1(4) by blast
  obtain m3 where m3: "set_next m2 ?l ?at = Some m3" "nxt m3 = (nxt m2)(?l \<mapsto> ?at)" "prv m3 = prv m2" "dom m3 = dom m2"
    using set_next_ok [of ?l m2 ?at] doms m1(4) m2(4) by blast
  obtain m4 where m4: "set_prev m3 ?at ?l = Some m4" "prv m4 = (prv m3)(?at \<mapsto> ?l)" "nxt m4 = nxt m3" "dom m4 = dom m3"
    using set_prev_ok [of ?at m3 ?l] doms m1(4) m2(4) m3(4) by blast
  have eq: "raw_list_splice m l h = Some m4"
    using cl ch m1(1) m2(1) m3(1) m4(1) by (simp add: raw_list_splice_def)
  have n: "nxt m4 = (nxt m)(h \<mapsto> ?f, ?l \<mapsto> ?at)" and p: "prv m4 = (prv m)(?f \<mapsto> h, ?at \<mapsto> ?l)" using m1 m2 m3 m4 by simp_all
  have "lseg (nxt m4) (prv m4) h (xs @ ys) h"
    unfolding n p by (rule lseg_splice [OF _ l(2)]) (use l h dis in \<open>auto simp: dll_def\<close>)
  then have d: "dll m4 h (xs @ ys)" using l(1) h dis by (auto simp: dll_def)
  have "unchanged m m4 (set (h # xs @ ys))"
  proof (rule unchangedI)
    fix a assume "a \<notin> set (h # xs @ ys)"
    moreover have "?f \<in> set xs" "?l \<in> set xs" using l(2) by simp_all
    ultimately have "a \<noteq> h" "a \<noteq> ?f" "a \<noteq> ?l" "a \<noteq> ?at" using at_in by auto
    then show "nxt m4 a = nxt m a \<and> prv m4 a = prv m a" by (simp only: n p) simp
  qed (use m1 m2 m3 m4 in simp)
  with eq d show ?thesis using dll_dom [OF l(1), of l] by (auto simp: unchanged_def)
qed

lemma list_splice_init_ok:
  assumes l: "dll m l xs" and h: "dll m h ys" and dis: "set (l # xs) \<inter> set (h # ys) = {}"
  shows "\<exists>m'. list_splice_init m l h = Some m' \<and> dll m' h (xs @ ys) \<and> dll m' l []"
    and "\<exists>m'. list_splice m l h = Some m' \<and> dll m' h (xs @ ys)"
proof -
  note e = list_empty_ok [OF l]
  show "\<exists>m'. list_splice m l h = Some m' \<and> dll m' h (xs @ ys)"
    using e h raw_list_splice_ok [OF l _ h dis] by (cases "xs = []") (auto simp: list_splice_def)
  show "\<exists>m'. list_splice_init m l h = Some m' \<and> dll m' h (xs @ ys) \<and> dll m' l []"
  proof (cases "xs = []")
    case True
    with e l h show ?thesis by (simp add: list_splice_init_def)
  next
    case False
    obtain m1 where m1: "raw_list_splice m l h = Some m1" "dll m1 h (xs @ ys)" "l \<in> dom m1"
      using raw_list_splice_ok [OF l False h dis] by blast
    obtain m2 where m2: "INIT_LIST_HEAD m1 l = Some m2" "dll m2 l []" "unchanged m1 m2 {l}" using init_ok [OF m1(3)] by blast
    have "dll m2 h (xs @ ys)" by (rule dll_frame [OF m2(3) m1(2)]) (use l dis in \<open>auto simp: dll_def\<close>)
    with e False m1(1) m2(1,2) show ?thesis by (simp add: list_splice_init_def)
  qed
qed

end
