(* ===== verification/Hlist.thy ===== *)
theory Hlist
  imports Linked_List
begin

text \<open>
  The lists with a single pointer head of \<open>src/chaining_hash/list.h\<close>.  The field \<open>pprev\<close> is the
  address of the pointer that leads to a node: the \<open>first\<close> field of a head or the \<open>next\<close> field of
  another node.
\<close>

section \<open>Nodes and operations\<close>

datatype pptr = PNull | PFirst u64 | PNext u64 | PPoison

record hlist_node =
  hn_next :: u64
  hn_pprev :: pptr

record hmem =
  hm_first :: "u64 \<rightharpoonup> u64"
  hm_node :: "u64 \<rightharpoonup> hlist_node"

definition upd_hnode :: "hmem \<Rightarrow> u64 \<Rightarrow> (hlist_node \<Rightarrow> hlist_node) \<Rightarrow> hmem option" where
  "upd_hnode m a f = do { c \<leftarrow> hm_node m a; Some (m\<lparr>hm_node := (hm_node m)(a \<mapsto> f c)\<rparr>) }"

definition set_first :: "hmem \<Rightarrow> u64 \<Rightarrow> u64 \<Rightarrow> hmem option" where
  "set_first m h v = do { c \<leftarrow> hm_first m h; Some (m\<lparr>hm_first := (hm_first m)(h \<mapsto> v)\<rparr>) }"

fun store_pptr :: "hmem \<Rightarrow> pptr \<Rightarrow> u64 \<Rightarrow> hmem option" where
  "store_pptr m (PFirst h) v = set_first m h v"
| "store_pptr m (PNext a) v = upd_hnode m a (\<lambda>c. c\<lparr>hn_next := v\<rparr>)"
| "store_pptr m PNull v = None"
| "store_pptr m PPoison v = None"

definition INIT_HLIST_HEAD :: "hmem \<Rightarrow> u64 \<Rightarrow> hmem option" where
  "INIT_HLIST_HEAD m ptr = set_first m ptr 0"

definition INIT_HLIST_NODE :: "hmem \<Rightarrow> u64 \<Rightarrow> hmem option" where
  "INIT_HLIST_NODE m ptr = upd_hnode m ptr (\<lambda>c. c\<lparr>hn_next := 0, hn_pprev := PNull\<rparr>)"

definition hlist_unhashed :: "hmem \<Rightarrow> u64 \<Rightarrow> bool option" where
  "hlist_unhashed m h = do { c \<leftarrow> hm_node m h; Some (hn_pprev c = PNull) }"

definition hlist_empty :: "hmem \<Rightarrow> u64 \<Rightarrow> bool option" where
  "hlist_empty m h = do { f \<leftarrow> hm_first m h; Some (f = 0) }"

definition raw_hlist_del :: "hmem \<Rightarrow> u64 \<Rightarrow> hmem option" where
  "raw_hlist_del m n = do {
     c \<leftarrow> hm_node m n;
     let next = hn_next c;
     let pprev = hn_pprev c;
     m1 \<leftarrow> store_pptr m pprev next;
     if next \<noteq> 0 then upd_hnode m1 next (\<lambda>c. c\<lparr>hn_pprev := pprev\<rparr>) else Some m1
   }"

definition hlist_del :: "hmem \<Rightarrow> u64 \<Rightarrow> hmem option" where
  "hlist_del m n = do {
     m1 \<leftarrow> raw_hlist_del m n;
     upd_hnode m1 n (\<lambda>c. c\<lparr>hn_next := LIST_POISON1, hn_pprev := PPoison\<rparr>)
   }"

definition hlist_del_init :: "hmem \<Rightarrow> u64 \<Rightarrow> hmem option" where
  "hlist_del_init m n = do {
     u \<leftarrow> hlist_unhashed m n;
     if \<not> u then do { m1 \<leftarrow> raw_hlist_del m n; INIT_HLIST_NODE m1 n } else Some m
   }"

definition hlist_add_head :: "hmem \<Rightarrow> u64 \<Rightarrow> u64 \<Rightarrow> hmem option" where
  "hlist_add_head m n h = do {
     first \<leftarrow> hm_first m h;
     m1 \<leftarrow> upd_hnode m n (\<lambda>c. c\<lparr>hn_next := first\<rparr>);
     m2 \<leftarrow> (if first \<noteq> 0 then upd_hnode m1 first (\<lambda>c. c\<lparr>hn_pprev := PNext n\<rparr>) else Some m1);
     m3 \<leftarrow> set_first m2 h n;
     upd_hnode m3 n (\<lambda>c. c\<lparr>hn_pprev := PFirst h\<rparr>)
   }"

definition hlist_add_before :: "hmem \<Rightarrow> u64 \<Rightarrow> u64 \<Rightarrow> hmem option" where
  "hlist_add_before m n next = do {
     c \<leftarrow> hm_node m next;
     let pprev = hn_pprev c;
     m1 \<leftarrow> upd_hnode m n (\<lambda>c. c\<lparr>hn_pprev := pprev\<rparr>);
     m2 \<leftarrow> upd_hnode m1 n (\<lambda>c. c\<lparr>hn_next := next\<rparr>);
     m3 \<leftarrow> upd_hnode m2 next (\<lambda>c. c\<lparr>hn_pprev := PNext n\<rparr>);
     store_pptr m3 pprev n
   }"

definition hlist_add_after :: "hmem \<Rightarrow> u64 \<Rightarrow> u64 \<Rightarrow> hmem option" where
  "hlist_add_after m n next = do {
     c \<leftarrow> hm_node m n;
     let nn = hn_next c;
     m1 \<leftarrow> upd_hnode m next (\<lambda>c. c\<lparr>hn_next := nn\<rparr>);
     m2 \<leftarrow> upd_hnode m1 n (\<lambda>c. c\<lparr>hn_next := next\<rparr>);
     m3 \<leftarrow> upd_hnode m2 next (\<lambda>c. c\<lparr>hn_pprev := PNext n\<rparr>);
     if nn \<noteq> 0 then upd_hnode m3 nn (\<lambda>c. c\<lparr>hn_pprev := PNext next\<rparr>) else Some m3
   }"

partial_function (option) hlist_walk :: "hmem \<Rightarrow> u64 \<Rightarrow> u64 list option" where
  "hlist_walk m pos =
     (if pos = 0 then Some []
      else do { c \<leftarrow> hm_node m pos; ps \<leftarrow> hlist_walk m (hn_next c); Some (pos # ps) })"

definition hlist_for_each :: "hmem \<Rightarrow> u64 \<Rightarrow> u64 list option" where
  "hlist_for_each m h = do { f \<leftarrow> hm_first m h; hlist_walk m f }"

declare hlist_walk.simps [code]

section \<open>Chains\<close>

text \<open>The chain of nodes \<open>xs\<close> that a pointer stored at \<open>loc\<close> with value \<open>x\<close> leads to.\<close>

definition hnxt :: "hmem \<Rightarrow> u64 \<rightharpoonup> u64" where "hnxt m a = map_option hn_next (hm_node m a)"
definition hprv :: "hmem \<Rightarrow> u64 \<rightharpoonup> pptr" where "hprv m a = map_option hn_pprev (hm_node m a)"

fun hseg :: "(u64 \<rightharpoonup> u64) \<Rightarrow> (u64 \<rightharpoonup> pptr) \<Rightarrow> pptr \<Rightarrow> u64 \<Rightarrow> u64 list \<Rightarrow> bool" where
  "hseg n p loc x [] \<longleftrightarrow> x = 0"
| "hseg n p loc x (z # zs) \<longleftrightarrow> x = z \<and> z \<noteq> 0 \<and> p z = Some loc \<and> (\<exists>y. n z = Some y \<and> hseg n p (PNext z) y zs)"

definition hlist :: "hmem \<Rightarrow> u64 \<Rightarrow> u64 list \<Rightarrow> bool" where
  "hlist m h xs \<longleftrightarrow> distinct xs \<and> (\<exists>f. hm_first m h = Some f \<and> hseg (hnxt m) (hprv m) (PFirst h) f xs)"

lemma hseg_frame_next: "a \<notin> set xs \<Longrightarrow> hseg (n(a := v)) p loc x xs \<longleftrightarrow> hseg n p loc x xs"
  by (induction xs arbitrary: loc x) auto

lemma hseg_frame_prev: "a \<notin> set xs \<Longrightarrow> hseg n (p(a := v)) loc x xs \<longleftrightarrow> hseg n p loc x xs"
  by (induction xs arbitrary: loc x) auto

lemma hseg_hd: "hseg n p loc x xs \<Longrightarrow> x = hd (xs @ [0])"
  by (cases xs) auto

text \<open>A chain entered through another pointer: only the back pointer of its first node changes.\<close>

lemma hseg_relocate:
  assumes "hseg n p loc x xs" "distinct xs"
  shows "hseg n (if x = 0 then p else p(x \<mapsto> loc')) loc' x xs"
proof (cases xs)
  case (Cons z zs)
  with assms have "z \<notin> set zs" by simp
  with Cons assms show ?thesis by (auto simp: hseg_frame_prev)
qed (use assms in simp)

text \<open>The part of a chain before a node \<open>e\<close>, and the address of the pointer to \<open>e\<close>.\<close>

fun hpath :: "(u64 \<rightharpoonup> u64) \<Rightarrow> (u64 \<rightharpoonup> pptr) \<Rightarrow> pptr \<Rightarrow> u64 \<Rightarrow> u64 list \<Rightarrow> u64 \<Rightarrow> bool" where
  "hpath n p loc x [] e \<longleftrightarrow> x = e"
| "hpath n p loc x (z # zs) e \<longleftrightarrow> x = z \<and> z \<noteq> 0 \<and> p z = Some loc \<and> (\<exists>y. n z = Some y \<and> hpath n p (PNext z) y zs e)"

definition hloc :: "pptr \<Rightarrow> u64 list \<Rightarrow> pptr" where
  "hloc loc as = (if as = [] then loc else PNext (last as))"

lemma hloc_simps [simp]: "hloc loc [] = loc" "hloc loc (a # as) = hloc (PNext a) as"
  by (simp_all add: hloc_def)

lemma hseg_append:
  "hseg n p loc x (as @ bs) \<longleftrightarrow> (\<exists>e. hpath n p loc x as e \<and> hseg n p (hloc loc as) e bs)"
  by (induction as arbitrary: loc x) auto

lemma hpath_frame_next: "a \<notin> set as \<Longrightarrow> hpath (n(a := v)) p loc x as e \<longleftrightarrow> hpath n p loc x as e"
  by (induction as arbitrary: loc x) auto

lemma hpath_frame_prev: "a \<notin> set as \<Longrightarrow> hpath n (p(a := v)) loc x as e \<longleftrightarrow> hpath n p loc x as e"
  by (induction as arbitrary: loc x) auto

lemma hpath_target: "hpath n p loc x (as @ [a]) e \<Longrightarrow> a \<notin> set as \<Longrightarrow> hpath (n(a \<mapsto> v)) p loc x (as @ [a]) v"
  by (induction as arbitrary: loc x) auto

lemma hpath_dom: "hpath (hnxt m) (hprv m) loc x as e \<Longrightarrow> a \<in> set as \<Longrightarrow> a \<in> dom (hm_node m)"
  by (induction as arbitrary: loc x) (auto simp: hnxt_def)

section \<open>Effects of the stores\<close>

lemma upd_next_ok:
  assumes "a \<in> dom (hm_node m)"
  shows "\<exists>m'. upd_hnode m a (\<lambda>c. c\<lparr>hn_next := v\<rparr>) = Some m' \<and> hnxt m' = (hnxt m)(a \<mapsto> v) \<and> hprv m' = hprv m
     \<and> hm_first m' = hm_first m \<and> dom (hm_node m') = dom (hm_node m)"
proof -
  from assms obtain c where "hm_node m a = Some c" by auto
  then show ?thesis
    by (intro exI [of _ "m\<lparr>hm_node := (hm_node m)(a \<mapsto> c\<lparr>hn_next := v\<rparr>)\<rparr>"])
      (auto simp: upd_hnode_def hnxt_def hprv_def fun_eq_iff)
qed

lemma upd_pprev_ok:
  assumes "a \<in> dom (hm_node m)"
  shows "\<exists>m'. upd_hnode m a (\<lambda>c. c\<lparr>hn_pprev := v\<rparr>) = Some m' \<and> hprv m' = (hprv m)(a \<mapsto> v) \<and> hnxt m' = hnxt m
     \<and> hm_first m' = hm_first m \<and> dom (hm_node m') = dom (hm_node m)"
proof -
  from assms obtain c where "hm_node m a = Some c" by auto
  then show ?thesis
    by (intro exI [of _ "m\<lparr>hm_node := (hm_node m)(a \<mapsto> c\<lparr>hn_pprev := v\<rparr>)\<rparr>"])
      (auto simp: upd_hnode_def hnxt_def hprv_def fun_eq_iff)
qed

lemma set_first_ok:
  assumes "h \<in> dom (hm_first m)"
  shows "\<exists>m'. set_first m h v = Some m' \<and> hm_first m' = (hm_first m)(h \<mapsto> v) \<and> hnxt m' = hnxt m \<and> hprv m' = hprv m
     \<and> hm_node m' = hm_node m"
  using assms by (auto simp: set_first_def hnxt_def hprv_def fun_eq_iff)

lemma hnode_dom: "hnxt m a = Some v \<Longrightarrow> a \<in> dom (hm_node m)" "hprv m a = Some w \<Longrightarrow> a \<in> dom (hm_node m)"
  by (auto simp: hnxt_def hprv_def)

text \<open>The back pointer of the next node, where there is one.\<close>

lemma upd_next_pprev_ok:
  assumes "hseg (hnxt m) (hprv m) loc y bs"
  shows "\<exists>m'. (if y \<noteq> 0 then upd_hnode m y (\<lambda>c. c\<lparr>hn_pprev := w\<rparr>) else Some m) = Some m'
     \<and> hprv m' = (if y = 0 then hprv m else (hprv m)(y \<mapsto> w)) \<and> hnxt m' = hnxt m
     \<and> hm_first m' = hm_first m \<and> dom (hm_node m') = dom (hm_node m)"
proof (cases bs)
  case Nil
  with assms show ?thesis by simp
next
  case (Cons z zs)
  with assms have "y \<in> dom (hm_node m)" "y \<noteq> 0" by (auto dest: hnode_dom)
  with upd_pprev_ok [of y m w] show ?thesis by auto
qed

lemma hseg_cong:
  assumes "\<And>a. a \<in> set xs \<Longrightarrow> n' a = n a \<and> p' a = p a"
  shows "hseg n' p' loc x xs \<longleftrightarrow> hseg n p loc x xs"
  using assms by (induction xs arbitrary: loc x) auto

text \<open>A store through the pointer that leads to the node behind \<open>as\<close>.\<close>

lemma store_loc:
  assumes f: "hm_first m h = Some f" "hpath (hnxt m) (hprv m) (PFirst h) f as e" and "distinct as"
  shows "\<exists>m1 f'. store_pptr m (hloc (PFirst h) as) v = Some m1 \<and> hprv m1 = hprv m \<and> dom (hm_node m1) = dom (hm_node m)
     \<and> hm_first m1 h = Some f' \<and> hpath (hnxt m1) (hprv m1) (PFirst h) f' as v \<and> (\<forall>a. a \<notin> set as \<longrightarrow> hnxt m1 a = hnxt m a)"
proof (cases as rule: rev_cases)
  case Nil
  have "h \<in> dom (hm_first m)" using f(1) by auto
  from set_first_ok [OF this, of v] Nil show ?thesis by auto
next
  case (snoc as' a)
  have "a \<in> dom (hm_node m)" using hpath_dom [OF f(2), of a] snoc by simp
  from upd_next_ok [OF this, of v] obtain m1 where m1: "upd_hnode m a (\<lambda>c. c\<lparr>hn_next := v\<rparr>) = Some m1"
    "hnxt m1 = (hnxt m)(a \<mapsto> v)" "hprv m1 = hprv m" "hm_first m1 = hm_first m" "dom (hm_node m1) = dom (hm_node m)" by blast
  have "hpath (hnxt m1) (hprv m1) (PFirst h) f as v"
    unfolding m1(2,3) snoc by (rule hpath_target) (use f(2) assms(3) snoc in auto)
  with m1 f(1) snoc show ?thesis by (auto simp: hloc_def)
qed

section \<open>The operations\<close>

lemma hlist_add_head_ok:
  assumes "hlist m h xs" "e \<in> dom (hm_node m)" "e \<notin> set xs" "e \<noteq> 0"
  shows "\<exists>m'. hlist_add_head m e h = Some m' \<and> hlist m' h (e # xs)"
proof -
  obtain f where f: "hm_first m h = Some f" "hseg (hnxt m) (hprv m) (PFirst h) f xs" "distinct xs"
    using assms(1) by (auto simp: hlist_def)
  obtain m1 where m1: "upd_hnode m e (\<lambda>c. c\<lparr>hn_next := f\<rparr>) = Some m1" "hnxt m1 = (hnxt m)(e \<mapsto> f)" "hprv m1 = hprv m"
    "hm_first m1 = hm_first m" "dom (hm_node m1) = dom (hm_node m)" using upd_next_ok [OF assms(2), of f] by blast
  have s1: "hseg (hnxt m1) (hprv m1) (PFirst h) f xs" unfolding m1(2,3) using f(2) assms(3) by (simp add: hseg_frame_next)
  obtain m2 where m2: "(if f \<noteq> 0 then upd_hnode m1 f (\<lambda>c. c\<lparr>hn_pprev := PNext e\<rparr>) else Some m1) = Some m2"
    "hprv m2 = (if f = 0 then hprv m1 else (hprv m1)(f \<mapsto> PNext e))" "hnxt m2 = hnxt m1" "hm_first m2 = hm_first m1"
    "dom (hm_node m2) = dom (hm_node m1)" using upd_next_pprev_ok [OF s1, of "PNext e"] by blast
  have s2: "hseg (hnxt m2) (hprv m2) (PNext e) f xs" unfolding m2(2,3) by (rule hseg_relocate [OF s1 f(3)])
  have "h \<in> dom (hm_first m2)" using f(1) m1(4) m2(4) by auto
  from set_first_ok [OF this, of e] obtain m3 where m3: "set_first m2 h e = Some m3"
    "hm_first m3 = (hm_first m2)(h \<mapsto> e)" "hnxt m3 = hnxt m2" "hprv m3 = hprv m2" "hm_node m3 = hm_node m2" by blast
  have "e \<in> dom (hm_node m3)" using assms(2) m1(5) m2(5) m3(5) by simp
  from upd_pprev_ok [OF this, of "PFirst h"] obtain m4 where m4:
    "upd_hnode m3 e (\<lambda>c. c\<lparr>hn_pprev := PFirst h\<rparr>) = Some m4" "hprv m4 = (hprv m3)(e \<mapsto> PFirst h)"
    "hnxt m4 = hnxt m3" "hm_first m4 = hm_first m3" by blast
  have "hlist_add_head m e h = Some m4"
    using f(1) m1(1) m2(1) m3(1) m4(1) by (simp add: hlist_add_head_def)
  moreover have "hseg (hnxt m4) (hprv m4) (PNext e) f xs"
    unfolding m4(2,3) m3(3,4) using s2 assms(3) by (simp add: hseg_frame_prev)
  moreover have "hnxt m4 e = Some f" "hprv m4 e = Some (PFirst h)" "hm_first m4 h = Some e"
    using m1(2) m2(3) m3(2,3) m4(2-4) by simp_all
  ultimately show ?thesis using f(3) assms(3,4) by (simp add: hlist_def)
qed

lemma raw_hlist_del_ok:
  assumes "hlist m h (as @ e # bs)"
  shows "\<exists>m'. raw_hlist_del m e = Some m' \<and> hlist m' h (as @ bs) \<and> e \<in> dom (hm_node m')"
proof -
  obtain f where f: "hm_first m h = Some f" "hseg (hnxt m) (hprv m) (PFirst h) f (as @ e # bs)" "distinct (as @ e # bs)"
    using assms by (auto simp: hlist_def)
  let ?loc = "hloc (PFirst h) as"
  obtain y where y: "hpath (hnxt m) (hprv m) (PFirst h) f as e" "hprv m e = Some ?loc" "hnxt m e = Some y" "e \<noteq> 0"
    "hseg (hnxt m) (hprv m) (PNext e) y bs" using f(2) by (auto simp: hseg_append)
  obtain c where c: "hm_node m e = Some c" "hn_next c = y" "hn_pprev c = ?loc"
    using y(2,3) by (auto simp: hnxt_def hprv_def)
  have dis: "e \<notin> set bs" "distinct bs" "set as \<inter> set (e # bs) = {}" using f(3) by auto
  obtain m1 f' where sl: "store_pptr m ?loc y = Some m1" "hprv m1 = hprv m" "dom (hm_node m1) = dom (hm_node m)"
    "hm_first m1 h = Some f'" "hpath (hnxt m1) (hprv m1) (PFirst h) f' as y" "\<forall>a. a \<notin> set as \<longrightarrow> hnxt m1 a = hnxt m a"
    using store_loc [OF f(1) y(1), of y] f(3) by auto
  have "hseg (hnxt m1) (hprv m1) (PNext e) y bs"
    using y(5) hseg_cong [of bs "hnxt m1" "hnxt m" "hprv m1" "hprv m"] sl(2,6) dis(3) by auto
  with sl have m1: "store_pptr m ?loc y = Some m1" "dom (hm_node m1) = dom (hm_node m)"
    "hm_first m1 h = Some f'" "hpath (hnxt m1) (hprv m1) (PFirst h) f' as y" "hseg (hnxt m1) (hprv m1) (PNext e) y bs" by blast+
  obtain m2 where m2: "(if y \<noteq> 0 then upd_hnode m1 y (\<lambda>c. c\<lparr>hn_pprev := ?loc\<rparr>) else Some m1) = Some m2"
    "hprv m2 = (if y = 0 then hprv m1 else (hprv m1)(y \<mapsto> ?loc))" "hnxt m2 = hnxt m1" "hm_first m2 = hm_first m1"
    "dom (hm_node m2) = dom (hm_node m1)" using upd_next_pprev_ok [OF m1(5), of ?loc] by blast
  have eq: "raw_hlist_del m e = Some m2" using c m1(1) m2(1) by (simp add: raw_hlist_del_def)
  have "hseg (hnxt m2) (hprv m2) ?loc y bs" unfolding m2(2,3) by (rule hseg_relocate [OF m1(5) dis(2)])
  moreover have "y \<noteq> 0 \<Longrightarrow> y \<in> set bs" using m1(5) by (cases bs) auto
  then have "y = 0 \<or> y \<notin> set as" using dis(3) by auto
  then have "hpath (hnxt m2) (hprv m2) (PFirst h) f' as y"
    unfolding m2(2,3) using m1(4) by (auto simp: hpath_frame_prev)
  ultimately have "hseg (hnxt m2) (hprv m2) (PFirst h) f' (as @ bs)" by (auto simp: hseg_append)
  then show ?thesis using eq f(3) m1(2,3) m2(4,5) c(1) by (auto simp: hlist_def)
qed

lemma hlist_frame_node:
  assumes "hlist m h xs" "e \<notin> set xs" "upd_hnode m e g = Some m'"
  shows "hlist m' h xs"
proof -
  obtain c where "hm_node m e = Some c" using assms(3) by (cases "hm_node m e") (auto simp: upd_hnode_def)
  then have "hnxt m' = (hnxt m)(e \<mapsto> hn_next (g c))" "hprv m' = (hprv m)(e \<mapsto> hn_pprev (g c))" "hm_first m' = hm_first m"
    using assms(3) by (auto simp: upd_hnode_def hnxt_def hprv_def fun_eq_iff)
  with assms(1,2) show ?thesis by (auto simp: hlist_def hseg_frame_next hseg_frame_prev)
qed

lemma hlist_del_ok:
  assumes "hlist m h (as @ e # bs)"
  shows "\<exists>m'. hlist_del m e = Some m' \<and> hlist m' h (as @ bs)"
    and "\<exists>m'. hlist_del_init m e = Some m' \<and> hlist m' h (as @ bs) \<and> hlist_unhashed m' e = Some True"
proof -
  obtain m1 where m1: "raw_hlist_del m e = Some m1" "hlist m1 h (as @ bs)" "e \<in> dom (hm_node m1)"
    using raw_hlist_del_ok [OF assms] by blast
  have e: "e \<notin> set (as @ bs)" using assms by (auto simp: hlist_def)
  obtain c1 where c1: "hm_node m1 e = Some c1" using m1(3) by auto
  then have ex: "\<exists>m2. upd_hnode m1 e g = Some m2 \<and> hm_node m2 e = Some (g c1)" for g by (simp add: upd_hnode_def)
  show "\<exists>m'. hlist_del m e = Some m' \<and> hlist m' h (as @ bs)"
    using ex [of "\<lambda>c. c\<lparr>hn_next := LIST_POISON1, hn_pprev := PPoison\<rparr>"] m1(1) hlist_frame_node [OF m1(2) e]
    by (auto simp: hlist_del_def)
  have "hprv m e \<noteq> None \<and> hprv m e \<noteq> Some PNull"
    using assms by (auto simp: hlist_def hseg_append hloc_def split: if_splits)
  then have "hlist_unhashed m e = Some False" by (auto simp: hlist_unhashed_def hprv_def)
  then show "\<exists>m'. hlist_del_init m e = Some m' \<and> hlist m' h (as @ bs) \<and> hlist_unhashed m' e = Some True"
    using ex [of "\<lambda>c. c\<lparr>hn_next := 0, hn_pprev := PNull\<rparr>"] m1(1) hlist_frame_node [OF m1(2) e]
    by (auto simp: hlist_del_init_def INIT_HLIST_NODE_def hlist_unhashed_def)
qed

lemma hlist_walk_ok: "hseg (hnxt m) (hprv m) loc x xs \<Longrightarrow> hlist_walk m x = Some xs"
proof (induction xs arbitrary: loc x)
  case Nil
  then show ?case by (simp add: hlist_walk.simps)
next
  case (Cons z zs)
  then show ?case by (subst hlist_walk.simps) (auto simp: hnxt_def)
qed

lemma hlist_for_each_ok: "hlist m h xs \<Longrightarrow> hlist_for_each m h = Some xs \<and> hlist_empty m h = Some (xs = [])"
  by (auto simp: hlist_def hlist_for_each_def hlist_empty_def hlist_walk_ok dest: hseg_hd) (cases xs; auto)+

lemma hlist_add_after_ok:
  assumes "hlist m h (as @ n # bs)" "e \<in> dom (hm_node m)" "e \<notin> set (as @ n # bs)" "e \<noteq> 0"
  shows "\<exists>m'. hlist_add_after m n e = Some m' \<and> hlist m' h (as @ n # e # bs)"
proof -
  obtain f where f: "hm_first m h = Some f" "hseg (hnxt m) (hprv m) (PFirst h) f (as @ n # bs)" "distinct (as @ n # bs)"
    using assms(1) by (auto simp: hlist_def)
  let ?loc = "hloc (PFirst h) as"
  obtain y where y: "hpath (hnxt m) (hprv m) (PFirst h) f as n" "hprv m n = Some ?loc" "hnxt m n = Some y" "n \<noteq> 0"
    "hseg (hnxt m) (hprv m) (PNext n) y bs" using f(2) by (auto simp: hseg_append)
  obtain c where c: "hm_node m n = Some c" "hn_next c = y" using y(3) by (auto simp: hnxt_def)
  have dis: "n \<notin> set bs" "distinct bs" "set as \<inter> set (n # bs) = {}" "e \<notin> set as" "e \<noteq> n" "e \<notin> set bs"
    using f(3) assms(3) by auto
  obtain m1 where m1: "upd_hnode m e (\<lambda>c. c\<lparr>hn_next := y\<rparr>) = Some m1" "hnxt m1 = (hnxt m)(e \<mapsto> y)" "hprv m1 = hprv m"
    "hm_first m1 = hm_first m" "dom (hm_node m1) = dom (hm_node m)" using upd_next_ok [OF assms(2), of y] by blast
  obtain m2 where m2: "upd_hnode m1 n (\<lambda>c. c\<lparr>hn_next := e\<rparr>) = Some m2" "hnxt m2 = (hnxt m1)(n \<mapsto> e)" "hprv m2 = hprv m1"
    "hm_first m2 = hm_first m1" "dom (hm_node m2) = dom (hm_node m1)" using upd_next_ok [of n m1 e] c(1) m1(5) by blast
  obtain m3 where m3: "upd_hnode m2 e (\<lambda>c. c\<lparr>hn_pprev := PNext n\<rparr>) = Some m3" "hprv m3 = (hprv m2)(e \<mapsto> PNext n)"
    "hnxt m3 = hnxt m2" "hm_first m3 = hm_first m2" using upd_pprev_ok [of e m2 "PNext n"] assms(2) m1(5) m2(5) by blast
  have N: "hnxt m3 = (hnxt m)(e \<mapsto> y, n \<mapsto> e)" and P: "hprv m3 = (hprv m)(e \<mapsto> PNext n)" using m1 m2 m3 by simp_all
  have s3: "hseg (hnxt m3) (hprv m3) (PNext n) y bs"
    unfolding N P using y(5) dis by (simp add: hseg_frame_next hseg_frame_prev)
  obtain m4 where m4: "(if y \<noteq> 0 then upd_hnode m3 y (\<lambda>c. c\<lparr>hn_pprev := PNext e\<rparr>) else Some m3) = Some m4"
    "hprv m4 = (if y = 0 then hprv m3 else (hprv m3)(y \<mapsto> PNext e))" "hnxt m4 = hnxt m3" "hm_first m4 = hm_first m3"
    using upd_next_pprev_ok [OF s3, of "PNext e"] by blast
  have eq: "hlist_add_after m n e = Some m4"
    using c m1(1) m2(1) m3(1) m4(1) by (simp add: hlist_add_after_def)
  have "hseg (hnxt m4) (hprv m4) (PNext e) y bs" unfolding m4(2,3) by (rule hseg_relocate [OF s3 dis(2)])
  moreover have "y = 0 \<or> y \<in> set bs" using s3 by (cases bs) auto
  then have yn: "y = 0 \<or> y \<noteq> n \<and> y \<noteq> e \<and> y \<notin> set as" using dis by auto
  then have "hpath (hnxt m4) (hprv m4) (PFirst h) f as n"
    unfolding m4(2,3) N P using y(1) dis by (auto simp: hpath_frame_next hpath_frame_prev)
  moreover have "hprv m4 n = Some ?loc" "hnxt m4 n = Some e" "hprv m4 e = Some (PNext n)" "hnxt m4 e = Some y"
    using m4(2,3) N P yn y(2) dis(5) by auto
  ultimately have "hseg (hnxt m4) (hprv m4) (PFirst h) f (as @ n # e # bs)"
    using y(4) assms(4) by (auto simp: hseg_append)
  moreover have "hm_first m4 h = Some f" using f(1) m1(4) m2(4) m3(4) m4(4) by simp
  ultimately show ?thesis using eq f(3) assms(3) by (auto simp: hlist_def)
qed

lemma hlist_add_before_ok:
  assumes "hlist m h (as @ n # bs)" "e \<in> dom (hm_node m)" "e \<notin> set (as @ n # bs)" "e \<noteq> 0"
  shows "\<exists>m'. hlist_add_before m e n = Some m' \<and> hlist m' h (as @ e # n # bs)"
proof -
  obtain f where f: "hm_first m h = Some f" "hseg (hnxt m) (hprv m) (PFirst h) f (as @ n # bs)" "distinct (as @ n # bs)"
    using assms(1) by (auto simp: hlist_def)
  let ?loc = "hloc (PFirst h) as"
  obtain y where y: "hpath (hnxt m) (hprv m) (PFirst h) f as n" "hprv m n = Some ?loc" "hnxt m n = Some y" "n \<noteq> 0"
    "hseg (hnxt m) (hprv m) (PNext n) y bs" using f(2) by (auto simp: hseg_append)
  obtain c where c: "hm_node m n = Some c" "hn_pprev c = ?loc" using y(2) by (auto simp: hprv_def)
  have dis: "n \<notin> set bs" "set as \<inter> set (n # bs) = {}" "e \<notin> set as" "e \<noteq> n" "e \<notin> set bs" "distinct as"
    using f(3) assms(3) by auto
  obtain m1 where m1: "upd_hnode m e (\<lambda>c. c\<lparr>hn_pprev := ?loc\<rparr>) = Some m1" "hprv m1 = (hprv m)(e \<mapsto> ?loc)" "hnxt m1 = hnxt m"
    "hm_first m1 = hm_first m" "dom (hm_node m1) = dom (hm_node m)" using upd_pprev_ok [OF assms(2), of ?loc] by blast
  obtain m2 where m2: "upd_hnode m1 e (\<lambda>c. c\<lparr>hn_next := n\<rparr>) = Some m2" "hnxt m2 = (hnxt m1)(e \<mapsto> n)" "hprv m2 = hprv m1"
    "hm_first m2 = hm_first m1" "dom (hm_node m2) = dom (hm_node m1)" using upd_next_ok [of e m1 n] assms(2) m1(5) by blast
  obtain m3 where m3: "upd_hnode m2 n (\<lambda>c. c\<lparr>hn_pprev := PNext e\<rparr>) = Some m3" "hprv m3 = (hprv m2)(n \<mapsto> PNext e)"
    "hnxt m3 = hnxt m2" "hm_first m3 = hm_first m2" using upd_pprev_ok [of n m2 "PNext e"] c(1) m1(5) m2(5) by blast
  have N: "hnxt m3 = (hnxt m)(e \<mapsto> n)" and P: "hprv m3 = (hprv m)(e \<mapsto> ?loc, n \<mapsto> PNext e)" and F: "hm_first m3 h = Some f"
    using m1 m2 m3 f(1) by simp_all
  have "hpath (hnxt m3) (hprv m3) (PFirst h) f as n"
    unfolding N P using y(1) dis by (simp add: hpath_frame_next hpath_frame_prev)
  from store_loc [OF F this dis(6), of e] obtain m4 f' where m4: "store_pptr m3 ?loc e = Some m4" "hprv m4 = hprv m3"
    "hm_first m4 h = Some f'" "hpath (hnxt m4) (hprv m4) (PFirst h) f' as e" "\<forall>a. a \<notin> set as \<longrightarrow> hnxt m4 a = hnxt m3 a" by blast
  have eq: "hlist_add_before m e n = Some m4"
    using c m1(1) m2(1) m3(1) m4(1) by (simp add: hlist_add_before_def)
  have "hseg (hnxt m3) (hprv m3) (PNext n) y bs"
    unfolding N P using y(5) dis by (simp add: hseg_frame_next hseg_frame_prev)
  then have "hseg (hnxt m4) (hprv m4) (PNext n) y bs"
    using hseg_cong [of bs "hnxt m4" "hnxt m3" "hprv m4" "hprv m3"] m4(2,5) dis(2) by auto
  moreover have "hnxt m4 e = Some n" "hnxt m4 n = Some y" "hprv m4 e = Some ?loc" "hprv m4 n = Some (PNext e)"
    using m4(2,5) N P dis y(3) by auto
  ultimately have "hseg (hnxt m4) (hprv m4) (PFirst h) f' (as @ e # n # bs)"
    using m4(4) y(4) assms(4) by (auto simp: hseg_append)
  then show ?thesis using eq m4(3) f(3) assms(3) by (auto simp: hlist_def)
qed

end
