(* ===== verification/Seq_Contract.thy ===== *)
theory Seq_Contract
  imports Prelude
begin

text \<open>
  The contract of an intrusive list: \<open>rep m h xs\<close> says that in memory \<open>m\<close> the head \<open>h\<close> leads to
  the entries \<open>xs\<close>; \<open>cell m e\<close> that \<open>e\<close> is an allocated entry.  Both list implementations of the
  chained hash table satisfy it, and the lemmas on sequences of operations are proved once here.
\<close>

fun push_all :: "('m \<Rightarrow> 'e \<Rightarrow> 'h \<Rightarrow> 'm option) \<Rightarrow> 'm \<Rightarrow> 'h \<Rightarrow> 'e list \<Rightarrow> 'm option" where
  "push_all add m h [] = Some m"
| "push_all add m h (e # es) = do { m1 \<leftarrow> add m e h; push_all add m1 h es }"

locale intrusive_list =
  fixes rep :: "'m \<Rightarrow> 'h \<Rightarrow> 'e list \<Rightarrow> bool" and cell :: "'m \<Rightarrow> 'e \<Rightarrow> bool" and apart :: "'h \<Rightarrow> 'e \<Rightarrow> bool"
    and add :: "'m \<Rightarrow> 'e \<Rightarrow> 'h \<Rightarrow> 'm option" and del :: "'m \<Rightarrow> 'e \<Rightarrow> 'm option"
    and walk :: "'m \<Rightarrow> 'h \<Rightarrow> 'e list option"
  assumes add_law: "rep m h xs \<Longrightarrow> cell m e \<Longrightarrow> apart h e \<Longrightarrow> e \<notin> set xs \<Longrightarrow>
      \<exists>m'. add m e h = Some m' \<and> rep m' h (e # xs) \<and> (\<forall>c. cell m c \<longrightarrow> cell m' c)"
    and del_law: "rep m h (as @ e # bs) \<Longrightarrow> \<exists>m'. del m e = Some m' \<and> rep m' h (as @ bs)"
    and walk_law: "rep m h xs \<Longrightarrow> walk m h = Some xs"
    and rep_distinct: "rep m h xs \<Longrightarrow> distinct xs"
begin

lemma rep_unique: "rep m h xs \<Longrightarrow> rep m h ys \<Longrightarrow> xs = ys"
  using walk_law [of m h xs] walk_law [of m h ys] by simp

text \<open>Entries added one after another are found in the opposite order.\<close>

lemma push_all_rep:
  assumes "rep m h xs" "distinct es" "set es \<inter> set xs = {}" "\<forall>e \<in> set es. cell m e \<and> apart h e"
  shows "\<exists>m'. push_all add m h es = Some m' \<and> rep m' h (rev es @ xs)"
  using assms
proof (induction es arbitrary: m xs)
  case Nil
  then show ?case by simp
next
  case (Cons e es)
  then obtain m1 where m1: "add m e h = Some m1" "rep m1 h (e # xs)" "\<forall>c. cell m c \<longrightarrow> cell m1 c"
    using add_law [of m h xs e] by auto
  from Cons.IH [OF m1(2)] Cons.prems m1(3)
  obtain m' where "push_all add m1 h es = Some m'" "rep m' h (rev es @ e # xs)" by auto
  with m1(1) show ?case by simp
qed

lemma push_all_walk:
  assumes "rep m h []" "distinct es" "\<forall>e \<in> set es. cell m e \<and> apart h e"
  shows "\<exists>m'. push_all add m h es = Some m' \<and> walk m' h = Some (rev es)"
  using push_all_rep [OF assms(1,2) _ assms(3)] walk_law by auto

text \<open>Deleting an entry just added restores the list.\<close>

lemma add_del:
  assumes "rep m h xs" "cell m e" "apart h e" "e \<notin> set xs"
  shows "\<exists>m1 m2. add m e h = Some m1 \<and> del m1 e = Some m2 \<and> walk m2 h = Some xs"
proof -
  obtain m1 where m1: "add m e h = Some m1" "rep m1 h ([] @ e # xs)" using add_law [OF assms] by auto
  then obtain m2 where "del m1 e = Some m2" "rep m2 h xs" using del_law [OF m1(2)] by auto
  with m1(1) walk_law show ?thesis by blast
qed

end

end
