(* ===== verification/Lists_Props.thy ===== *)
theory Lists_Props
  imports Linked_List_Ops Hlist Seq_Contract
begin

text \<open>Both list implementations satisfy the contract of intrusive lists; their properties.\<close>

interpretation dl: intrusive_list dll "\<lambda>m e. e \<in> dom m" "\<lambda>h e. e \<noteq> h" list_add list_del list_for_each
proof unfold_locales
  show "\<exists>m'. list_add m e h = Some m' \<and> dll m' h (e # xs) \<and> (\<forall>c. c \<in> dom m \<longrightarrow> c \<in> dom m')"
    if "dll m h xs" "e \<in> dom m" "e \<noteq> h" "e \<notin> set xs" for m h xs e
    using list_add_ok [OF that(1,2)] that(3,4) by (auto simp: unchanged_def)
  show "\<exists>m'. list_del m e = Some m' \<and> dll m' h (as @ bs)" if "dll m h (as @ e # bs)" for m h as e bs
    using list_del_ok [OF that] by blast
  show "list_for_each m h = Some xs" if "dll m h xs" for m h xs using that by (rule list_for_each_ok)
  show "distinct xs" if "dll m h xs" for m h xs using that by (simp add: dll_def)
qed

lemma hlist_add_head_cells:
  assumes "hlist_add_head m e h = Some m'" "c \<in> dom (hm_node m)"
  shows "c \<in> dom (hm_node m')"
  using assms by (auto simp: hlist_add_head_def upd_hnode_def set_first_def bind_eq_Some_conv split: if_splits)

interpretation hl: intrusive_list hlist "\<lambda>m e. e \<in> dom (hm_node m)" "\<lambda>h e. e \<noteq> 0" hlist_add_head hlist_del hlist_for_each
proof unfold_locales
  show "\<exists>m'. hlist_add_head m e h = Some m' \<and> hlist m' h (e # xs) \<and> (\<forall>c. c \<in> dom (hm_node m) \<longrightarrow> c \<in> dom (hm_node m'))"
    if "hlist m h xs" "e \<in> dom (hm_node m)" "e \<noteq> 0" "e \<notin> set xs" for m h xs e
    using hlist_add_head_ok [OF that(1,2,4,3)] hlist_add_head_cells by blast
  show "\<exists>m'. hlist_del m e = Some m' \<and> hlist m' h (as @ bs)" if "hlist m h (as @ e # bs)" for m h as e bs
    using hlist_del_ok(1) [OF that] .
  show "hlist_for_each m h = Some xs" if "hlist m h xs" for m h xs using hlist_for_each_ok [OF that] by simp
  show "distinct xs" if "hlist m h xs" for m h xs using that by (simp add: hlist_def)
qed

section \<open>Properties\<close>

text \<open>Concrete memories: a head at 8 with two entries, another head at 40, and spare cells.\<close>

definition blank :: list_head where "blank = \<lparr>lh_next = 0, lh_prev = 0\<rparr>"

definition demo_cells :: lmem where
  "demo_cells = [8 \<mapsto> \<lparr>lh_next = 16, lh_prev = 24\<rparr>, 16 \<mapsto> \<lparr>lh_next = 24, lh_prev = 8\<rparr>,
     24 \<mapsto> \<lparr>lh_next = 8, lh_prev = 16\<rparr>, 32 \<mapsto> blank, 40 \<mapsto> \<lparr>lh_next = 40, lh_prev = 40\<rparr>, 48 \<mapsto> blank]"

lemma demo_dll: "dll demo_cells 8 [16, 24]" "dll demo_cells 40 []"
  by (simp_all add: dll_def nxt_def prv_def demo_cells_def)

lemma demo_dom: "32 \<in> dom demo_cells" "48 \<in> dom demo_cells"
  by (simp_all add: demo_cells_def)

text \<open>
  C11. \<open>list_add\<close> and \<open>list_add_tail\<close> put a new entry at the front and at the end of a circular
  list; both directions of traversal then see exactly the old entries and the new one, and no
  cell outside the list changes.
\<close>

theorem list_add_front_and_tail:
  assumes "dll m h xs" "e \<in> dom m" "e \<notin> set (h # xs)"
  shows "\<exists>m1 m2. list_add m e h = Some m1 \<and> list_for_each m1 h = Some (e # xs) \<and> list_for_each_prev m1 h = Some (rev xs @ [e])
     \<and> list_add_tail m e h = Some m2 \<and> list_for_each m2 h = Some (xs @ [e]) \<and> list_for_each_prev m2 h = Some (e # rev xs)
     \<and> unchanged m m1 (set (h # e # xs)) \<and> unchanged m m2 (set (h # e # xs))"
proof -
  obtain m1 where m1: "list_add m e h = Some m1" "dll m1 h (e # xs)" "unchanged m m1 (set (h # e # xs))"
    using list_add_ok [OF assms] by blast
  obtain m2 where m2: "list_add_tail m e h = Some m2" "dll m2 h (xs @ [e])" "unchanged m m2 (set (h # e # xs))"
    using list_add_tail_ok [OF assms] by blast
  show ?thesis
    using m1 m2 list_for_each_ok [OF m1(2)] list_for_each_prev_ok [OF m1(2)]
      list_for_each_ok [OF m2(2)] list_for_each_prev_ok [OF m2(2)] by simp
qed

theorem list_add_front_and_tail_witness:
  "\<exists>m1 m2. list_add demo_cells 32 8 = Some m1 \<and> list_for_each m1 8 = Some [32, 16, 24]
     \<and> list_add_tail demo_cells 32 8 = Some m2 \<and> list_for_each m2 8 = Some [16, 24, 32]"
  using list_add_front_and_tail [OF demo_dll(1) demo_dom(1)] by auto

text \<open>
  \<open>list_del\<close> removes exactly its entry and poisons its links; \<open>list_del_init\<close> removes it and
  leaves it as an empty list of its own.
\<close>

theorem list_del_removes:
  assumes "dll m h (as @ e # bs)"
  shows "\<exists>m1 m2. list_del m e = Some m1 \<and> list_for_each m1 h = Some (as @ bs)
       \<and> m1 e = Some \<lparr>lh_next = LIST_POISON1, lh_prev = LIST_POISON2\<rparr>
     \<and> list_del_init m e = Some m2 \<and> list_for_each m2 h = Some (as @ bs) \<and> list_empty m2 e = Some True"
proof -
  obtain m1 where m1: "list_del m e = Some m1" "dll m1 h (as @ bs)"
    "m1 e = Some \<lparr>lh_next = LIST_POISON1, lh_prev = LIST_POISON2\<rparr>" using list_del_ok [OF assms] by blast
  obtain m2 where m2: "list_del_init m e = Some m2" "dll m2 h (as @ bs)" "dll m2 e []"
    using list_del_init_ok [OF assms] by blast
  show ?thesis
    using m1 m2 list_for_each_ok [OF m1(2)] list_for_each_ok [OF m2(2)] list_empty_ok [OF m2(3)] by simp
qed

theorem list_del_removes_witness:
  "\<exists>m1. list_del demo_cells 24 = Some m1 \<and> list_for_each m1 8 = Some [16]"
  using list_del_removes [of demo_cells 8 "[16]" 24 "[]"] demo_dll(1) by auto

text \<open>
  C12. \<open>list_move\<close> and \<open>list_move_tail\<close> take an entry out of one list and put it at the front or at
  the end of another; \<open>list_splice_init\<close> moves all entries of a list, in order, to the front of
  another and leaves the first list empty.
\<close>

theorem list_move_and_splice:
  assumes "dll m h (as @ e # bs)" "dll m h' ys" "set (h # as @ e # bs) \<inter> set (h' # ys) = {}"
  shows "\<exists>m1 m2 m3. list_move m e h' = Some m1 \<and> list_for_each m1 h = Some (as @ bs) \<and> list_for_each m1 h' = Some (e # ys)
     \<and> list_move_tail m e h' = Some m2 \<and> list_for_each m2 h = Some (as @ bs) \<and> list_for_each m2 h' = Some (ys @ [e])
     \<and> list_splice_init m h h' = Some m3 \<and> list_for_each m3 h' = Some (as @ e # bs @ ys) \<and> list_empty m3 h = Some True"
proof -
  obtain m1 where m1: "list_move m e h' = Some m1" "dll m1 h (as @ bs)" "dll m1 h' (e # ys)"
    using list_move_ok(1) [OF assms] by blast
  obtain m2 where m2: "list_move_tail m e h' = Some m2" "dll m2 h (as @ bs)" "dll m2 h' (ys @ [e])"
    using list_move_ok(2) [OF assms] by blast
  obtain m3 where m3: "list_splice_init m h h' = Some m3" "dll m3 h' ((as @ e # bs) @ ys)" "dll m3 h []"
    using list_splice_init_ok(1) [OF assms] by blast
  show ?thesis
    using m1(1) m2(1) m3(1) list_for_each_ok [OF m1(2)] list_for_each_ok [OF m1(3)] list_for_each_ok [OF m2(2)]
      list_for_each_ok [OF m2(3)] list_for_each_ok [OF m3(2)] list_empty_ok [OF m3(3)] by simp
qed

theorem list_move_and_splice_witness:
  "\<exists>m1 m3. list_move demo_cells 16 40 = Some m1 \<and> list_for_each m1 40 = Some [16]
     \<and> list_splice_init demo_cells 8 40 = Some m3 \<and> list_for_each m3 40 = Some [16, 24]"
  using list_move_and_splice [of demo_cells 8 "[]" 16 "[24]" 40 "[]"] demo_dll by auto

text \<open>
  C13. Entries added one after another with \<open>list_add\<close> are traversed in the opposite order, and
  the safe loop that deletes every entry it visits ends with an empty list.
\<close>

theorem list_stack_and_clear:
  assumes "dll m h []" "distinct es" "\<forall>e \<in> set es. e \<in> dom m \<and> e \<noteq> h"
  shows "\<exists>m1 m2. push_all list_add m h es = Some m1 \<and> list_for_each m1 h = Some (rev es)
     \<and> list_for_each_safe list_del m1 h = Some m2 \<and> list_empty m2 h = Some True"
proof -
  obtain m1 where m1: "push_all list_add m h es = Some m1" "dll m1 h (rev es)"
    using dl.push_all_rep [OF assms(1,2) _ assms(3)] by auto
  obtain m2 where m2: "list_for_each_safe list_del m1 h = Some m2" "dll m2 h []"
    using list_for_each_safe_del [OF m1(2)] by blast
  show ?thesis using m1 m2 list_for_each_ok [OF m1(2)] list_empty_ok [OF m2(2)] by simp
qed

theorem list_stack_and_clear_witness:
  "\<exists>m1 m2. push_all list_add demo_cells 40 [32, 48] = Some m1 \<and> list_for_each m1 40 = Some [48, 32]
     \<and> list_for_each_safe list_del m1 40 = Some m2 \<and> list_empty m2 40 = Some True"
  using list_stack_and_clear [OF demo_dll(2), of "[32, 48]"] demo_dom by auto

text \<open>
  C14. The operations of the lists with a single pointer head: adding at the head, before and
  after a node puts the new node there; \<open>hlist_del\<close> and \<open>hlist_del_init\<close> remove exactly the node.
\<close>

theorem hlist_operations:
  assumes "hlist m h (as @ n # bs)" "e \<in> dom (hm_node m)" "e \<notin> set (as @ n # bs)" "e \<noteq> 0"
  shows "\<exists>m1 m2 m3 m4 m5. hlist_add_head m e h = Some m1 \<and> hlist_for_each m1 h = Some (e # as @ n # bs)
     \<and> hlist_add_before m e n = Some m2 \<and> hlist_for_each m2 h = Some (as @ e # n # bs)
     \<and> hlist_add_after m n e = Some m3 \<and> hlist_for_each m3 h = Some (as @ n # e # bs)
     \<and> hlist_del m n = Some m4 \<and> hlist_for_each m4 h = Some (as @ bs)
     \<and> hlist_del_init m n = Some m5 \<and> hlist_for_each m5 h = Some (as @ bs) \<and> hlist_unhashed m5 n = Some True"
proof -
  obtain m1 where m1: "hlist_add_head m e h = Some m1" "hlist m1 h (e # as @ n # bs)"
    using hlist_add_head_ok [OF assms] by blast
  obtain m2 where m2: "hlist_add_before m e n = Some m2" "hlist m2 h (as @ e # n # bs)"
    using hlist_add_before_ok [OF assms] by blast
  obtain m3 where m3: "hlist_add_after m n e = Some m3" "hlist m3 h (as @ n # e # bs)"
    using hlist_add_after_ok [OF assms] by blast
  obtain m4 where m4: "hlist_del m n = Some m4" "hlist m4 h (as @ bs)" using hlist_del_ok(1) [OF assms(1)] by blast
  obtain m5 where m5: "hlist_del_init m n = Some m5" "hlist m5 h (as @ bs)" "hlist_unhashed m5 n = Some True"
    using hlist_del_ok(2) [OF assms(1)] by blast
  show ?thesis
    using m1(1) m2(1) m3(1) m4(1) m5(1,3) hl.walk_law [OF m1(2)] hl.walk_law [OF m2(2)] hl.walk_law [OF m3(2)]
      hl.walk_law [OF m4(2)] hl.walk_law [OF m5(2)] by blast
qed

definition demo_hmem :: hmem where
  "demo_hmem = \<lparr>hm_first = [8 \<mapsto> 16], hm_node = [16 \<mapsto> \<lparr>hn_next = 24, hn_pprev = PFirst 8\<rparr>,
     24 \<mapsto> \<lparr>hn_next = 0, hn_pprev = PNext 16\<rparr>, 32 \<mapsto> \<lparr>hn_next = 0, hn_pprev = PNull\<rparr>]\<rparr>"

theorem hlist_operations_witness:
  "\<exists>m2. hlist_add_before demo_hmem 32 24 = Some m2 \<and> hlist_for_each m2 8 = Some [16, 32, 24]"
proof -
  have "hlist demo_hmem 8 ([16] @ 24 # [])" "32 \<in> dom (hm_node demo_hmem)"
    by (simp_all add: hlist_def hnxt_def hprv_def demo_hmem_def)
  from hlist_operations [OF this] show ?thesis by auto
qed

end
