(* ===== verification/Chain_Hash.thy ===== *)
theory Chain_Hash
  imports Linked_List_Ops
begin

text \<open>
  The chained hash table of \<open>src/chaining_hash/hash.c\<close> and \<open>hash.h\<close>.  A node holds its item at
  offset 0 and its list links at offset 8, so that the links of the node at \<open>n\<close> are the cell at
  \<open>n + 8\<close> of a memory of list cells.  A bucket is a pointer to a head structure, whose one word
  points to the first node of a ring.
\<close>

section \<open>State\<close>

record chash =
  ch_size :: u64
  ch_slots :: "u64 list"
  ch_heads :: "u64 \<rightharpoonup> u64"
  ch_items :: "u64 \<rightharpoonup> u64"
  ch_cells :: lmem
  ch_avail :: "u64 list"

definition EEXIST_ch :: int where [c_consts]: "EEXIST_ch = 17"

definition list_of :: "u64 \<Rightarrow> u64" where "list_of node = node + 8"

definition node_of :: "u64 \<Rightarrow> u64" where "node_of p = p - 8"

definition calloc_ch :: "chash \<Rightarrow> u64 \<times> chash" where
  "calloc_ch h = (case ch_avail h of [] \<Rightarrow> (0, h) | a # as \<Rightarrow> (a, h\<lparr>ch_avail := as\<rparr>))"

definition load_slot_ch :: "chash \<Rightarrow> u64 \<Rightarrow> u64 option" where
  "load_slot_ch h i = (if unat i < length (ch_slots h) then Some (ch_slots h ! unat i) else None)"

section \<open>Operations\<close>

definition head_alloc_ch :: "chash \<Rightarrow> u64 \<times> chash" where
  "head_alloc_ch h = (case calloc_ch h of (ret, h1) \<Rightarrow>
     if ret = 0 then (0, h1) else (ret, h1\<lparr>ch_heads := (ch_heads h1)(ret \<mapsto> 0)\<rparr>))"

definition hash_node_alloc_ch :: "chash \<Rightarrow> u64 \<times> chash" where
  "hash_node_alloc_ch h = (case calloc_ch h of (ret, h1) \<Rightarrow>
     if ret = 0 then (0, h1)
     else (ret, h1\<lparr>ch_items := (ch_items h1)(ret \<mapsto> 0),
                   ch_cells := (ch_cells h1)(list_of ret \<mapsto> \<lparr>lh_next = 0, lh_prev = 0\<rparr>)\<rparr>))"

text \<open>
  The table itself and its slot array are allocated first; \<^term>\<open>None\<close> is the NULL that is returned
  where the first allocation fails, and a failed allocation of the slot array leaves an array
  without elements, every access to which faults.
\<close>

definition hash_alloc_ch :: "u64 list \<Rightarrow> u64 \<Rightarrow> chash option" where
  "hash_alloc_ch avail sz = (case avail of
     [] \<Rightarrow> None
   | ret # as \<Rightarrow> if ret = 0 then None
       else Some \<lparr>ch_size = sz,
          ch_slots = (case as of [] \<Rightarrow> [] | sl # _ \<Rightarrow> if sl = 0 then [] else replicate (unat sz) 0),
          ch_heads = Map.empty, ch_items = Map.empty, ch_cells = Map.empty, ch_avail = tl as\<rparr>)"

definition hash_extend_ch :: "chash \<Rightarrow> u64" where "hash_extend_ch h = 0"

text \<open>
  The hash function takes an \<open>int\<close>: the key is cut to 32 bits and read as signed, converted back
  to an unsigned long for the remainder, and the result is cut to an \<open>int\<close> again.
\<close>

definition hashCode_ch :: "chash \<Rightarrow> u64 \<Rightarrow> int option" where
  "hashCode_ch h key =
     (if ch_size h = 0 then None
      else Some (sint (ucast ((word_of_int (sint (ucast key :: u32)) :: u64) mod ch_size h) :: u32)))"

definition hash_get_ch :: "chash \<Rightarrow> u64 \<Rightarrow> (int \<times> u64 option) option" where
  "hash_get_ch h key = do {
     hashIndex \<leftarrow> hashCode_ch h key;
     slot \<leftarrow> load_slot_ch h (word_of_int hashIndex);
     if slot \<noteq> 0 then do { node \<leftarrow> ch_heads h slot; Some (1, Some node) } else Some (0, None)
   }"

definition hash_lookup_ch :: "chash \<Rightarrow> u64 \<Rightarrow> u64 option" where
  "hash_lookup_ch h key = do {
     hashIndex \<leftarrow> hashCode_ch h key;
     slot \<leftarrow> load_slot_ch h (word_of_int hashIndex);
     if slot \<noteq> 0 then Some slot else Some 0
   }"

definition hash_create_ch :: "chash \<Rightarrow> u64 \<Rightarrow> (int \<times> u64 \<times> chash) option" where
  "hash_create_ch h index = do {
     head \<leftarrow> load_slot_ch h index;
     if head \<noteq> 0 then do {
       head_node \<leftarrow> ch_heads h head;
       let (node, h1) = hash_node_alloc_ch h;
       cells \<leftarrow> list_add_tail (ch_cells h1) (list_of node) (list_of head_node);
       Some (0, node, h1\<lparr>ch_cells := cells\<rparr>)
     }
     else do {
       let (head1, h1) = head_alloc_ch h;
       let h2 = h1\<lparr>ch_slots := (ch_slots h1)[unat index := head1]\<rparr>;
       let (node, h3) = hash_node_alloc_ch h2;
       cells \<leftarrow> INIT_LIST_HEAD (ch_cells h3) (list_of node);
       hd1 \<leftarrow> ch_heads h3 head1;
       Some (0, node, h3\<lparr>ch_cells := cells, ch_heads := (ch_heads h3)(head1 \<mapsto> node)\<rparr>)
     }
   }"

definition insert_entries_ch :: "chash \<Rightarrow> u64 \<Rightarrow> u64 \<Rightarrow> (int \<times> chash) option" where
  "insert_entries_ch h node item = do {
     old \<leftarrow> ch_items h node;
     if old \<noteq> 0 then Some (- EEXIST_ch, h)
     else Some (1, h\<lparr>ch_items := (ch_items h)(node \<mapsto> item)\<rparr>)
   }"

definition hash_insert_ch :: "chash \<Rightarrow> u64 \<Rightarrow> u64 \<Rightarrow> (int \<times> chash) option" where
  "hash_insert_ch h key item = do {
     hashIndex \<leftarrow> hashCode_ch h key;
     (error, node, h1) \<leftarrow> hash_create_ch h (word_of_int hashIndex);
     if error \<noteq> 0 then Some (error, h1)
     else do {
       (error2, h2) \<leftarrow> insert_entries_ch h1 node item;
       if error2 < 0 then Some (error2, h2) else Some (0, h2)
     }
   }"

text \<open>What \<open>display\<close> prints for one bucket and for the table: the items along each ring.\<close>

fun items_of :: "chash \<Rightarrow> u64 list \<Rightarrow> u64 list option" where
  "items_of h [] = Some []"
| "items_of h (n # ns) = do { x \<leftarrow> ch_items h n; xs \<leftarrow> items_of h ns; Some (x # xs) }"

definition display_bucket_ch :: "chash \<Rightarrow> u64 \<Rightarrow> u64 list option" where
  "display_bucket_ch h i = do {
     (found, node) \<leftarrow> hash_get_ch h i;
     case node of
       None \<Rightarrow> Some []
     | Some n \<Rightarrow> do {
         ps \<leftarrow> list_for_each (ch_cells h) (list_of n);
         items_of h (n # map node_of ps)
       }
   }"

fun display_from :: "chash \<Rightarrow> nat \<Rightarrow> nat \<Rightarrow> u64 list list option" where
  "display_from h i 0 = Some []"
| "display_from h i (Suc k) = do {
     xs \<leftarrow> display_bucket_ch h (of_nat i);
     rest \<leftarrow> display_from h (Suc i) k;
     Some (xs # rest)
   }"

definition display_ch :: "chash \<Rightarrow> u64 list list option" where
  "display_ch h = display_from h 0 (unat (ch_size h))"

section \<open>Slot iterator\<close>

record hash_iter_ch =
  hi_index :: u64
  hi_next_index :: u64
  hi_node :: u64

definition hash_iter_init_ch :: "hash_iter_ch \<Rightarrow> u64 \<Rightarrow> hash_iter_ch" where
  "hash_iter_init_ch iter start = iter\<lparr>hi_index := 0, hi_next_index := start\<rparr>"

definition hash_iter_add_ch :: "hash_iter_ch \<Rightarrow> u64 \<Rightarrow> u64" where
  "hash_iter_add_ch iter slots = hi_index iter + slots"

text \<open>A slot pointer is an offset into the slot array; the loop reads at most 19 slots.\<close>

fun next_slot_loop_ch :: "chash \<Rightarrow> nat \<Rightarrow> nat \<Rightarrow> hash_iter_ch \<Rightarrow> (nat option \<times> hash_iter_ch) option" where
  "next_slot_loop_ch h 0 slot iter = Some (None, iter)"
| "next_slot_loop_ch h (Suc cnt) slot iter = do {
     let iter1 = iter\<lparr>hi_index := hash_iter_add_ch iter 1\<rparr>;
     entry \<leftarrow> (if Suc slot < length (ch_slots h) then Some (ch_slots h ! Suc slot) else None);
     if entry \<noteq> 0 then Some (Some (Suc slot), iter1) else next_slot_loop_ch h cnt (Suc slot) iter1
   }"

definition hash_next_slot_ch :: "chash \<Rightarrow> nat \<Rightarrow> hash_iter_ch \<Rightarrow> (nat option \<times> hash_iter_ch) option" where
  "hash_next_slot_ch h slot iter = next_slot_loop_ch h 19 slot iter"

end
