(* ===== verification/Bench_Grid.thy ===== *)
theory Bench_Grid
  imports Prelude
begin

text \<open>
  What the benchmarks of the radix tree and of the hash tables share: assertions, and the loops
  \<open>for (index = 0; index < size; index += step)\<close>, whose indices are the grid of the size and the step.
\<close>

text \<open>A failed assertion ends the program.\<close>

definition c_assert :: "bool \<Rightarrow> unit option" where "c_assert P = (if P then Some () else None)"

text \<open>The loops over arrays that end at a zero: what the code does for each element before it.\<close>

fun for_nonzero :: "('a \<Rightarrow> u64 \<Rightarrow> 'a option) \<Rightarrow> 'a \<Rightarrow> u64 list \<Rightarrow> 'a option" where
  "for_nonzero body x [] = None"
| "for_nonzero body x (a # as) = (if a = 0 then Some x else do { x1 \<leftarrow> body x a; for_nonzero body x1 as })"

section \<open>The grid\<close>

definition grid :: "u64 \<Rightarrow> u64 \<Rightarrow> u64 \<Rightarrow> u64 set" where
  "grid start sz step = {j. start \<le> j \<and> j < sz \<and> unat step dvd (unat j - unat start)}"

lemma grid_empty: "\<not> start < sz \<Longrightarrow> grid start sz step = {}"
  by (auto simp: grid_def)

lemma grid_step:
  assumes "start < sz" "step \<noteq> 0" "unat sz + unat step \<le> 2 ^ 64"
  shows "grid start sz step = insert start (grid (start + step) sz step)" "start \<notin> grid (start + step) sz step"
    "unat (start + step) = unat start + unat step" "unat sz - unat (start + step) < unat sz - unat start" "start < start + step"
proof -
  have "unat start + unat step < 2 ^ 64" using assms(1,3) by (simp add: word_less_nat_alt)
  then show u: "unat (start + step) = unat start + unat step" by (simp add: unat_word_ariths)
  have s: "0 < unat step" using assms(2) by (simp add: unat_gt_0)
  show "unat sz - unat (start + step) < unat sz - unat start" "start < start + step"
    using u s assms(1) by (simp_all add: word_less_nat_alt)
  show "start \<notin> grid (start + step) sz step" using u s by (auto simp: grid_def word_le_nat_alt)
  have d: "unat step dvd (unat j - unat start) \<longleftrightarrow> j = start \<or> unat start + unat step \<le> unat j \<and> unat step dvd (unat j - (unat start + unat step))"
    if "start \<le> j" for j
  proof -
    obtain e where e: "unat j = unat start + e" using \<open>start \<le> j\<close> le_iff_add by (auto simp: word_le_nat_alt)
    have "unat step dvd e \<longleftrightarrow> e = 0 \<or> unat step \<le> e \<and> unat step dvd (e - unat step)"
      using s by (metis dvd_0_right dvd_imp_le dvd_minus_self gr0I linorder_not_less)
    then show ?thesis using e word_unat_eq_iff [of j start] by auto
  qed
  show "grid start sz step = insert start (grid (start + step) sz step)"
    unfolding grid_def using d u assms(1) by (auto simp: word_le_nat_alt)
qed

lemma grid_card:
  assumes "start < sz" "step \<noteq> 0" "unat sz + unat step \<le> 2 ^ 64"
  shows "card (grid start sz step) = Suc (card (grid (start + step) sz step))"
  using grid_step [OF assms] by simp

end
