(* ===== verification/Chain_Bench.thy ===== *)
theory Chain_Bench
  imports Chain_Hash Bench_Grid
begin

text \<open>
  The callers of the chained hash table: the items of \<open>src/chaining_hash/test.c\<close> and the benchmark of
  \<open>src/chaining_hash/benchmark.c\<close>.  The tables take their memory from one list of addresses and the
  items from another; neither is given back.  Times and messages are left out.
\<close>

section \<open>test.c\<close>

record item_ch =
  ic_data :: u32
  ic_index :: u32

record cbench =
  cb_hash :: chash
  cb_items :: "u64 \<rightharpoonup> item_ch"
  cb_avail :: "u64 list"

text \<open>The index of an item is an \<open>int\<close>: the conversion keeps its lower 32 bits.\<close>

definition item_create_ch :: "cbench \<Rightarrow> u64 \<Rightarrow> u32 \<Rightarrow> (u64 \<times> cbench) option" where
  "item_create_ch b index dat = (case cb_avail b of
     [] \<Rightarrow> None
   | a # as \<Rightarrow> if a = 0 then None
       else Some (a, b\<lparr>cb_avail := as, cb_items := (cb_items b)(a \<mapsto> \<lparr>ic_data = dat, ic_index = ucast index\<rparr>)\<rparr>))"

definition item_free_ch :: "cbench \<Rightarrow> u64 \<Rightarrow> u64 \<Rightarrow> cbench option" where
  "item_free_ch b item index = (if item = 0 then Some b
     else if item \<in> dom (cb_items b) then Some (b\<lparr>cb_items := (cb_items b)(item := None)\<rparr>) else None)"

definition item_insert_ch :: "cbench \<Rightarrow> u64 \<Rightarrow> (int \<times> cbench) option" where
  "item_insert_ch b index = do {
     (item, b1) \<leftarrow> item_create_ch b index 0;
     it \<leftarrow> cb_items b1 item;
     (err, h) \<leftarrow> hash_insert_ch (cb_hash b1) (scast (ic_index it)) item;
     let b2 = b1\<lparr>cb_hash := h\<rparr>;
     b3 \<leftarrow> (if err \<noteq> 0 then item_free_ch b2 item index else Some b2);
     Some (err, b3)
   }"

definition item_check_present_ch :: "chash \<Rightarrow> u64 \<Rightarrow> unit option" where
  "item_check_present_ch h index = do { item \<leftarrow> hash_lookup_ch h index; c_assert (item \<noteq> 0) }"

definition item_lookup_ch :: "chash \<Rightarrow> u64 \<Rightarrow> u64 option" where
  "item_lookup_ch h index = hash_lookup_ch h index"

definition item_check_absent_ch :: "chash \<Rightarrow> u64 \<Rightarrow> unit option" where
  "item_check_absent_ch h index = do { item \<leftarrow> hash_lookup_ch h index; c_assert (item = 0) }"

section \<open>benchmark.c\<close>

partial_function (option) insert_loop_ch :: "cbench \<Rightarrow> u64 \<Rightarrow> u64 \<Rightarrow> u64 \<Rightarrow> cbench option" where
  "insert_loop_ch b index sz step = (if index < sz
     then do { (err, b1) \<leftarrow> item_insert_ch b index; insert_loop_ch b1 (index + step) sz step }
     else Some b)"

definition benchmark_insert_ch :: "cbench \<Rightarrow> u64 \<Rightarrow> u64 \<Rightarrow> cbench option" where
  "benchmark_insert_ch b sz step = insert_loop_ch b 0 sz step"

partial_function (option) search_loop_ch :: "chash \<Rightarrow> u64 \<Rightarrow> u64 \<Rightarrow> u64 \<Rightarrow> unit option" where
  "search_loop_ch h index sz step = (if index < sz
     then do { item_check_present_ch h index; search_loop_ch h (index + step) sz step }
     else Some ())"

definition benchmark_search_ch :: "chash \<Rightarrow> u64 \<Rightarrow> u64 \<Rightarrow> unit option" where
  "benchmark_search_ch h sz step = search_loop_ch h 0 sz step"

declare insert_loop_ch.simps [code] search_loop_ch.simps [code]

text \<open>One round, from the two lists of free addresses to what is left of them.\<close>

definition benchmark_size_ch :: "u64 list \<times> u64 list \<Rightarrow> u64 \<Rightarrow> u64 \<Rightarrow> (u64 list \<times> u64 list) option" where
  "benchmark_size_ch = (\<lambda>(nodes, items) sz step. do {
     h \<leftarrow> hash_alloc_ch nodes sz;
     b \<leftarrow> benchmark_insert_ch \<lparr>cb_hash = h, cb_items = Map.empty, cb_avail = items\<rparr> sz step;
     benchmark_search_ch (cb_hash b) sz step;
     Some (ch_avail (cb_hash b), cb_avail b)
   })"

text \<open>\<open>my_benchmark\<close>: what it displays.  The items are the keys, cast to pointers.\<close>

fun insert_array_ch :: "chash \<Rightarrow> (u64 \<times> u64) list \<Rightarrow> chash option" where
  "insert_array_ch h [] = Some h"
| "insert_array_ch h ((index, item) # rest) = do { (err, h1) \<leftarrow> hash_insert_ch h index item; insert_array_ch h1 rest }"

definition my_benchmark_ch :: "u64 list \<Rightarrow> u64 list list option" where
  "my_benchmark_ch nodes = do {
     h \<leftarrow> hash_alloc_ch nodes 20;
     h1 \<leftarrow> insert_array_ch h (zip [2, 6, 22, 37, 65] [2, 6, 22, 37, 65]);
     display_ch h1
   }"

definition benchmark_ch :: "u64 list \<times> u64 list \<Rightarrow> u64 list list option" where
  "benchmark_ch heap = do {
     heap1 \<leftarrow> for_nonzero (\<lambda>hp sz. for_nonzero (\<lambda>hp1 step. benchmark_size_ch hp1 sz step) hp
                [1, 2, 7, 15, 63, 64, 65, 128, 256, 512, 12345, 0]) heap [push_bit 10 1, push_bit 20 1, 0];
     my_benchmark_ch (fst heap1)
   }"

end
