(* ===== verification/Chain_Hash_Props.thy ===== *)
theory Chain_Hash_Props
  imports Chain_Hash
begin

text \<open>
  Insertion appends to the bucket of the key and to no other; what a bucket holds is read off by
  the traversal of \<open>display\<close>.  The invariant carries, per slot, the addresses of the nodes along
  its ring.
\<close>

section \<open>Invariant\<close>

definition bucket :: "chash \<Rightarrow> nat \<Rightarrow> u64 list \<Rightarrow> bool" where
  "bucket h i ns \<longleftrightarrow>
     (if ch_slots h ! i = 0 then ns = []
      else \<exists>n rest. ns = n # rest \<and> ch_heads h (ch_slots h ! i) = Some n
             \<and> dll (ch_cells h) (list_of n) (map list_of rest))"

definition ch_inv :: "chash \<Rightarrow> (nat \<Rightarrow> u64 list) \<Rightarrow> bool" where
  "ch_inv h B \<longleftrightarrow> 0 < unat (ch_size h) \<and> unat (ch_size h) < 2 ^ 31 \<and> length (ch_slots h) = unat (ch_size h)
     \<and> (\<forall>i < unat (ch_size h). bucket h i (B i) \<and> set (B i) \<subseteq> dom (ch_items h))
     \<and> (\<forall>i < unat (ch_size h). \<forall>j < unat (ch_size h). i \<noteq> j \<longrightarrow> set (B i) \<inter> set (B j) = {}
          \<and> (ch_slots h ! i \<noteq> 0 \<longrightarrow> ch_slots h ! i \<noteq> ch_slots h ! j))
     \<and> dom (ch_cells h) = list_of ` dom (ch_items h)
     \<and> distinct (ch_avail h) \<and> set (ch_avail h) \<inter> (dom (ch_heads h) \<union> dom (ch_items h)) = {}"

lemma list_of_inj [simp]: "list_of a = list_of b \<longleftrightarrow> a = b"
  by (simp add: list_of_def)

lemma node_of_list_of [simp]: "node_of (list_of a) = a"
  by (simp add: node_of_def list_of_def)

lemma list_of_image [simp]: "list_of a \<in> list_of ` A \<longleftrightarrow> a \<in> A"
  by auto

lemma ch_invD:
  assumes "ch_inv h B" "i < unat (ch_size h)"
  shows "bucket h i (B i)" "set (B i) \<subseteq> dom (ch_items h)" "i < length (ch_slots h)"
    "j < unat (ch_size h) \<Longrightarrow> i \<noteq> j \<Longrightarrow> set (B i) \<inter> set (B j) = {}"
    "j < unat (ch_size h) \<Longrightarrow> i \<noteq> j \<Longrightarrow> ch_slots h ! i \<noteq> 0 \<Longrightarrow> ch_slots h ! i \<noteq> ch_slots h ! j"
  using assms unfolding ch_inv_def by auto

section \<open>The hash function\<close>

lemma hashCode_ok:
  assumes "0 < unat (ch_size h)" "unat (ch_size h) < 2 ^ 31" "unat key < 2 ^ 31"
  shows "hashCode_ch h key = Some (int (unat key mod unat (ch_size h)))"
proof -
  have k32: "unat (ucast key :: u32) = unat key" using assms(3) by (intro unat_ucast_32) simp
  then have "sint (ucast key :: u32) = int (unat key)" using assms(3) by (simp add: sint_small_u32)
  then have k: "(word_of_int (sint (ucast key :: u32)) :: u64) = key" by simp
  let ?r = "key mod ch_size h"
  have r: "unat ?r = unat key mod unat (ch_size h)" by (simp add: unat_mod)
  have lt: "unat ?r < 2 ^ 31" using assms(1,2) r by (metis less_trans mod_less_divisor)
  then have "unat (ucast ?r :: u32) = unat ?r" by (intro unat_ucast_32) simp
  with lt have "sint (ucast ?r :: u32) = int (unat key mod unat (ch_size h))" by (simp add: sint_small_u32 r)
  moreover have "ch_size h \<noteq> 0" using assms(1) by auto
  ultimately show ?thesis unfolding hashCode_ch_def k by simp
qed

lemma load_bucket:
  assumes "ch_inv h B" "i < unat (ch_size h)"
  shows "load_slot_ch h (word_of_int (int i)) = Some (ch_slots h ! i)" "unat (word_of_int (int i) :: u64) = i"
proof -
  have "unat (word_of_int (int i) :: u64) = unat (of_nat i :: u64)" by simp
  also have "\<dots> = i" using assms unfolding ch_inv_def by (subst unat_of_nat) simp
  finally show u: "unat (word_of_int (int i) :: u64) = i" .
  show "load_slot_ch h (word_of_int (int i)) = Some (ch_slots h ! i)"
    using ch_invD(3) [OF assms] by (simp only: load_slot_ch_def u) simp
qed

section \<open>Traversal\<close>

lemma items_of_ok: "set ns \<subseteq> dom (ch_items h) \<Longrightarrow> items_of h ns = Some (map (\<lambda>n. the (ch_items h n)) ns)"
  by (induction ns) auto

lemma display_bucket_ok:
  assumes inv: "ch_inv h B" and i: "i < unat (ch_size h)"
  shows "display_bucket_ch h (of_nat i) = Some (map (\<lambda>n. the (ch_items h n)) (B i))"
proof -
  have sz: "0 < unat (ch_size h)" "unat (ch_size h) < 2 ^ 31" using inv by (auto simp: ch_inv_def)
  have "unat (of_nat i :: u64) = i" using load_bucket(2) [OF inv i] by simp
  then have hc: "hashCode_ch h (of_nat i) = Some (int i)"
    using hashCode_ok [OF sz, of "of_nat i"] i sz by simp
  note ld = load_bucket(1) [OF inv i]
  show ?thesis
  proof (cases "ch_slots h ! i = 0")
    case True
    with ch_invD(1) [OF inv i] hc ld show ?thesis
      by (simp add: bucket_def display_bucket_ch_def hash_get_ch_def)
  next
    case False
    then obtain n rest where n: "B i = n # rest" "ch_heads h (ch_slots h ! i) = Some n"
      "dll (ch_cells h) (list_of n) (map list_of rest)" using ch_invD(1) [OF inv i] by (auto simp: bucket_def)
    have "items_of h (n # map node_of (map list_of rest)) = Some (map (\<lambda>n. the (ch_items h n)) (B i))"
      using items_of_ok [of "B i" h] ch_invD(2) [OF inv i] n(1) by (simp add: comp_def)
    with False hc ld n list_for_each_ok [OF n(3)] show ?thesis
      by (simp add: display_bucket_ch_def hash_get_ch_def del: items_of.simps)
  qed
qed

section \<open>Insertion\<close>

text \<open>Another bucket is untouched when the nodes and the head of this one change.\<close>

lemma bucket_frame:
  assumes "bucket h j ns" "ch_slots h' ! j = ch_slots h ! j"
    and "ch_slots h ! j \<noteq> 0 \<Longrightarrow> ch_heads h' (ch_slots h ! j) = ch_heads h (ch_slots h ! j)"
    and "\<And>n. n \<in> set ns \<Longrightarrow> ch_cells h' (list_of n) = ch_cells h (list_of n)"
  shows "bucket h' j ns"
proof (cases "ch_slots h ! j = 0")
  case True
  with assms show ?thesis by (simp add: bucket_def)
next
  case False
  then obtain n rest where n: "ns = n # rest" "ch_heads h (ch_slots h ! j) = Some n"
    "dll (ch_cells h) (list_of n) (map list_of rest)" using assms(1) by (auto simp: bucket_def)
  have "lseg (nxt (ch_cells h')) (prv (ch_cells h')) (list_of n) (map list_of rest) (list_of n) =
      lseg (nxt (ch_cells h)) (prv (ch_cells h)) (list_of n) (map list_of rest) (list_of n)"
    by (rule lseg_cong) (use assms(4) n(1) in \<open>auto simp: nxt_def prv_def\<close>)
  with n(3) have "dll (ch_cells h') (list_of n) (map list_of rest)" by (simp add: dll_def)
  with False n assms(2,3) show ?thesis by (simp add: bucket_def)
qed

text \<open>
  A state that differs from \<open>h\<close> in bucket \<open>i\<close>, to which the fresh node \<open>n\<close> was appended, keeps
  the invariant; the two branches of \<open>hash_create_ch\<close> are instances.
\<close>

lemma append_inv:
  assumes inv: "ch_inv h B" and i: "i < unat (ch_size h)" and n: "n \<notin> dom (ch_items h)"
    and size: "ch_size h' = ch_size h" and items: "ch_items h' = (ch_items h)(n \<mapsto> x)"
    and cells: "dom (ch_cells h') = insert (list_of n) (dom (ch_cells h))"
      "\<And>m. m \<noteq> n \<Longrightarrow> m \<notin> set (B i) \<Longrightarrow> ch_cells h' (list_of m) = ch_cells h (list_of m)"
    and slots: "length (ch_slots h') = length (ch_slots h)"
      "\<And>j. j \<noteq> i \<Longrightarrow> j < length (ch_slots h) \<Longrightarrow> ch_slots h' ! j = ch_slots h ! j"
      "\<And>j. j \<noteq> i \<Longrightarrow> j < length (ch_slots h) \<Longrightarrow> ch_slots h' ! i \<noteq> ch_slots h ! j \<and>
        (ch_slots h ! j \<noteq> 0 \<longrightarrow> ch_heads h' (ch_slots h ! j) = ch_heads h (ch_slots h ! j))"
    and b: "bucket h' i (B i @ [n])"
    and av: "distinct (ch_avail h')" "set (ch_avail h') \<inter> (dom (ch_heads h') \<union> dom (ch_items h')) = {}"
  shows "ch_inv h' (B(i := B i @ [n]))"
proof -
  have len: "length (ch_slots h) = unat (ch_size h)" using inv by (simp add: ch_inv_def)
  have fresh: "n \<notin> set (B j)" if "j < unat (ch_size h)" for j using ch_invD(2) [OF inv that] n by auto
  have bk: "bucket h' j ((B(i := B i @ [n])) j) \<and> set ((B(i := B i @ [n])) j) \<subseteq> dom (ch_items h')"
    if j: "j < unat (ch_size h)" for j
  proof (cases "j = i")
    case True
    with b ch_invD(2) [OF inv i] items show ?thesis by auto
  next
    case False
    have "bucket h' j (B j)"
    proof (rule bucket_frame [OF ch_invD(1) [OF inv j]])
      fix m assume m: "m \<in> set (B j)"
      then have "m \<noteq> n" "m \<notin> set (B i)" using fresh [OF j] ch_invD(4) [OF inv j i False] by auto
      then show "ch_cells h' (list_of m) = ch_cells h (list_of m)" by (rule cells(2))
    qed (use slots(2,3) False j len in auto)
    with False ch_invD(2) [OF inv j] items show ?thesis by auto
  qed
  have ds: "set ((B(i := B i @ [n])) j) \<inter> set ((B(i := B i @ [n])) k) = {} \<and>
      (ch_slots h' ! j \<noteq> 0 \<longrightarrow> ch_slots h' ! j \<noteq> ch_slots h' ! k)"
    if "j < unat (ch_size h)" "k < unat (ch_size h)" "j \<noteq> k" for j k
    using that ch_invD(4,5) [OF inv that(1,2)] fresh [OF that(1)] fresh [OF that(2)] slots(2,3) len
    by (cases "j = i"; cases "k = i") (auto dest: not_sym)
  have "dom (ch_cells h') = list_of ` dom (ch_items h')"
    using cells(1) items inv by (auto simp: ch_inv_def)
  with bk ds len slots(1) size av inv show ?thesis unfolding ch_inv_def by auto
qed

lemma create_nonempty:
  assumes inv: "ch_inv h B" and i: "i < unat (ch_size h)" and ne: "ch_slots h ! i \<noteq> 0"
    and av: "ch_avail h = n # as" "n \<noteq> 0"
  shows "\<exists>h'. hash_create_ch h (word_of_int (int i)) = Some (0, n, h') \<and> ch_inv h' (B(i := B i @ [n]))
     \<and> ch_items h' = (ch_items h)(n \<mapsto> 0) \<and> ch_size h' = ch_size h \<and> ch_avail h' = as"
proof -
  obtain hn rest where b: "B i = hn # rest" "ch_heads h (ch_slots h ! i) = Some hn"
    "dll (ch_cells h) (list_of hn) (map list_of rest)" using ch_invD(1) [OF inv i] ne by (auto simp: bucket_def)
  have fr: "n \<notin> dom (ch_items h)" "n \<notin> dom (ch_heads h)" "n \<notin> set as" "distinct as"
    and dc: "dom (ch_cells h) = list_of ` dom (ch_items h)"
    and avs: "set (n # as) \<inter> (dom (ch_heads h) \<union> dom (ch_items h)) = {}"
    using inv av(1) by (auto simp: ch_inv_def)
  let ?c = "(ch_cells h)(list_of n \<mapsto> \<lparr>lh_next = 0, lh_prev = 0\<rparr>)"
  let ?h = "h\<lparr>ch_avail := as, ch_items := (ch_items h)(n \<mapsto> 0), ch_cells := ?c\<rparr>"
  have nin: "list_of n \<notin> set (list_of hn # map list_of rest)" using ch_invD(2) [OF inv i] b(1) fr(1) by auto
  have "lseg (nxt ?c) (prv ?c) (list_of hn) (map list_of rest) (list_of hn) =
      lseg (nxt (ch_cells h)) (prv (ch_cells h)) (list_of hn) (map list_of rest) (list_of hn)"
    by (rule lseg_cong) (use nin in \<open>auto simp: nxt_def prv_def\<close>)
  with b(3) have "dll ?c (list_of hn) (map list_of rest)" by (simp add: dll_def)
  from list_add_tail_ok [OF this _ nin] obtain c' where c': "list_add_tail ?c (list_of n) (list_of hn) = Some c'"
    "dll c' (list_of hn) (map list_of rest @ [list_of n])"
    "unchanged ?c c' (set (list_of hn # list_of n # map list_of rest))" by auto
  let ?h' = "?h\<lparr>ch_cells := c'\<rparr>"
  have eq: "hash_create_ch h (word_of_int (int i)) = Some (0, n, ?h')"
    using load_bucket(1) [OF inv i] ne b(2) av c'(1)
    by (simp add: hash_create_ch_def hash_node_alloc_ch_def calloc_ch_def)
  have "ch_inv ?h' (B(i := B i @ [n]))"
  proof (rule append_inv [OF inv i fr(1)])
    show "dom (ch_cells ?h') = insert (list_of n) (dom (ch_cells h))" using c'(3) by (simp add: unchanged_def)
    show "ch_cells ?h' (list_of m) = ch_cells h (list_of m)" if "m \<noteq> n" "m \<notin> set (B i)" for m
      using c'(3) that b(1) by (auto simp: unchanged_def)
    show "bucket ?h' i (B i @ [n])" using ne b c'(2) by (simp add: bucket_def)
    show "ch_slots ?h' ! i \<noteq> ch_slots h ! j \<and>
        (ch_slots h ! j \<noteq> 0 \<longrightarrow> ch_heads ?h' (ch_slots h ! j) = ch_heads h (ch_slots h ! j))"
      if "j \<noteq> i" "j < length (ch_slots h)" for j
      using ch_invD(5) [OF inv i, of j] that ne inv by (auto simp: ch_inv_def)
  qed (use fr avs in auto)
  with eq show ?thesis by simp
qed

lemma create_empty:
  assumes inv: "ch_inv h B" and i: "i < unat (ch_size h)" and e: "ch_slots h ! i = 0"
    and av: "ch_avail h = a # n # as" "a \<noteq> 0" "n \<noteq> 0"
  shows "\<exists>h'. hash_create_ch h (word_of_int (int i)) = Some (0, n, h') \<and> ch_inv h' (B(i := B i @ [n]))
     \<and> ch_items h' = (ch_items h)(n \<mapsto> 0) \<and> ch_size h' = ch_size h \<and> ch_avail h' = as"
proof -
  have Bi: "B i = []" using ch_invD(1) [OF inv i] e by (simp add: bucket_def)
  have fr: "n \<notin> dom (ch_items h)" "a \<notin> dom (ch_heads h)" "a \<noteq> n" "distinct as" "a \<notin> set as" "n \<notin> set as"
    and avs: "set (a # n # as) \<inter> (dom (ch_heads h) \<union> dom (ch_items h)) = {}"
    using inv av(1) by (auto simp: ch_inv_def)
  have len: "length (ch_slots h) = unat (ch_size h)" using inv by (simp add: ch_inv_def)
  note ld = load_bucket [OF inv i]
  let ?c = "(ch_cells h)(list_of n \<mapsto> \<lparr>lh_next = 0, lh_prev = 0\<rparr>)"
  obtain c' where c': "INIT_LIST_HEAD ?c (list_of n) = Some c'" "dll c' (list_of n) []" "unchanged ?c c' {list_of n}"
    using init_ok [of "list_of n" ?c] by auto
  let ?h' = "h\<lparr>ch_avail := as, ch_heads := (ch_heads h)(a \<mapsto> n), ch_slots := (ch_slots h)[i := a],
      ch_items := (ch_items h)(n \<mapsto> 0), ch_cells := c'\<rparr>"
  have eq: "hash_create_ch h (word_of_int (int i)) = Some (0, n, ?h')"
    using ld e av c'(1)
    by (cases h) (simp add: hash_create_ch_def head_alloc_ch_def hash_node_alloc_ch_def calloc_ch_def)
  have head: "ch_slots h ! j \<noteq> a" if "j < length (ch_slots h)" for j
  proof
    assume "ch_slots h ! j = a"
    with ch_invD(1) [OF inv, of j] that len av(2) have "a \<in> dom (ch_heads h)" by (auto simp: bucket_def)
    with fr(2) show False by simp
  qed
  have "ch_inv ?h' (B(i := B i @ [n]))"
  proof (rule append_inv [OF inv i fr(1)])
    show "dom (ch_cells ?h') = insert (list_of n) (dom (ch_cells h))" using c'(3) by (simp add: unchanged_def)
    show "ch_cells ?h' (list_of m) = ch_cells h (list_of m)" if "m \<noteq> n" "m \<notin> set (B i)" for m
      using c'(3) that by (auto simp: unchanged_def)
    show "bucket ?h' i (B i @ [n])" using i len Bi av(2) c'(2) by (simp add: bucket_def)
    show "ch_slots ?h' ! i \<noteq> ch_slots h ! j \<and>
        (ch_slots h ! j \<noteq> 0 \<longrightarrow> ch_heads ?h' (ch_slots h ! j) = ch_heads h (ch_slots h ! j))"
      if "j \<noteq> i" "j < length (ch_slots h)" for j
      using head [OF that(2)] that i len by auto
  qed (use fr avs i len in auto)
  with eq show ?thesis by simp
qed

lemma items_inv:
  assumes "ch_inv h B" "n \<in> dom (ch_items h)"
  shows "ch_inv (h\<lparr>ch_items := (ch_items h)(n \<mapsto> x)\<rparr>) B"
proof -
  have "dom ((ch_items h)(n \<mapsto> x)) = dom (ch_items h)" using assms(2) by auto
  moreover have "bucket (h\<lparr>ch_items := (ch_items h)(n \<mapsto> x)\<rparr>) j ns = bucket h j ns" for j ns by (simp add: bucket_def)
  ultimately show ?thesis using assms(1) by (simp add: ch_inv_def)
qed

lemma insert_ch_ok:
  assumes inv: "ch_inv h B" and key: "unat key < 2 ^ 31" and i: "i = unat key mod unat (ch_size h)"
    and av: "ch_avail h = a # c # as" "a \<noteq> 0" "c \<noteq> 0"
  shows "\<exists>h' n. hash_insert_ch h key item = Some (0, h') \<and> ch_inv h' (B(i := B i @ [n])) \<and> n \<notin> dom (ch_items h)
     \<and> ch_items h' = (ch_items h)(n \<mapsto> item) \<and> ch_size h' = ch_size h
     \<and> (ch_avail h' = as \<or> ch_avail h' = c # as)"
proof -
  have sz: "0 < unat (ch_size h)" "unat (ch_size h) < 2 ^ 31" using inv by (auto simp: ch_inv_def)
  have il: "i < unat (ch_size h)" using i sz(1) by simp
  have hc: "hashCode_ch h key = Some (int i)" using hashCode_ok [OF sz key] i by simp
  obtain n h1 where h1: "hash_create_ch h (word_of_int (int i)) = Some (0, n, h1)" "ch_inv h1 (B(i := B i @ [n]))"
    "ch_items h1 = (ch_items h)(n \<mapsto> 0)" "ch_size h1 = ch_size h" "n \<in> set (ch_avail h)"
    "ch_avail h1 = as \<or> ch_avail h1 = c # as"
  proof (cases "ch_slots h ! i = 0")
    case True
    from create_empty [OF inv il True av] that [of c] av(1) show thesis by force
  next
    case False
    from create_nonempty [OF inv il False av(1,2)] that [of a] av(1) show thesis by force
  qed
  have "n \<notin> dom (ch_items h)" using inv h1(5) by (auto simp: ch_inv_def)
  moreover have "hash_insert_ch h key item = Some (0, h1\<lparr>ch_items := (ch_items h1)(n \<mapsto> item)\<rparr>)"
    using hc h1(1,3) by (simp add: hash_insert_ch_def insert_entries_ch_def)
  moreover have "ch_inv (h1\<lparr>ch_items := (ch_items h1)(n \<mapsto> item)\<rparr>) (B(i := B i @ [n]))"
    by (rule items_inv [OF h1(2)]) (simp add: h1(3))
  ultimately show ?thesis using h1(3,4,6) by (intro exI [of _ "h1\<lparr>ch_items := (ch_items h1)(n \<mapsto> item)\<rparr>"] exI [of _ n]) simp
qed

section \<open>A table from its allocation on\<close>

text \<open>A sequence of insertions: the codes they return, and the table after the last of them.\<close>

fun insert_all_ch :: "chash \<Rightarrow> (u64 \<times> u64) list \<Rightarrow> (int list \<times> chash) option" where
  "insert_all_ch h [] = Some ([], h)"
| "insert_all_ch h ((k, x) # kvs) = do { (e, h1) \<leftarrow> hash_insert_ch h k x; (es, h2) \<leftarrow> insert_all_ch h1 kvs; Some (e # es, h2) }"

definition avail_ok :: "chash \<Rightarrow> nat \<Rightarrow> bool" where
  "avail_ok h k \<longleftrightarrow> k \<le> length (ch_avail h) \<and> (\<forall>a \<in> set (ch_avail h). a \<noteq> 0)"

lemma avail_ok_two:
  assumes "avail_ok h (Suc (Suc k))"
  obtains a c as where "ch_avail h = a # c # as" "a \<noteq> 0" "c \<noteq> 0"
  using assms by (cases "ch_avail h"; cases "tl (ch_avail h)") (auto simp: avail_ok_def)

definition bucket_view :: "chash \<Rightarrow> (nat \<Rightarrow> u64 list) \<Rightarrow> nat \<Rightarrow> u64 list" where
  "bucket_view h B j = map (\<lambda>n. the (ch_items h n)) (B j)"

lemma insert_view:
  assumes "ch_inv h B" "n \<notin> dom (ch_items h)" "ch_items h' = (ch_items h)(n \<mapsto> item)" "j < unat (ch_size h)"
  shows "bucket_view h' (B(i := B i @ [n])) j = bucket_view h B j @ (if j = i then [item] else [])"
proof -
  have "n \<notin> set (B j)" using ch_invD(2) [OF assms(1,4)] assms(2) by auto
  then show ?thesis using assms(3) by (auto simp: bucket_view_def)
qed

lemma insert_all_ok:
  assumes "ch_inv h B" "avail_ok h (2 * length kvs)" "\<forall>(k, x) \<in> set kvs. unat k < 2 ^ 31"
  shows "\<exists>h' B'. insert_all_ch h kvs = Some (replicate (length kvs) 0, h') \<and> ch_inv h' B' \<and> ch_size h' = ch_size h
     \<and> (\<forall>j < unat (ch_size h). bucket_view h' B' j =
          bucket_view h B j @ map snd (filter (\<lambda>(k, x). unat k mod unat (ch_size h) = j) kvs))"
  using assms
proof (induction kvs arbitrary: h B)
  case Nil
  then show ?case by auto
next
  case (Cons kv kvs)
  obtain k x where kv: "kv = (k, x)" by (cases kv)
  let ?i = "unat k mod unat (ch_size h)"
  obtain a c as where av: "ch_avail h = a # c # as" "a \<noteq> 0" "c \<noteq> 0"
    using avail_ok_two [of h "2 * length kvs"] Cons.prems(2) by auto
  obtain h1 n where h1: "hash_insert_ch h k x = Some (0, h1)" "ch_inv h1 (B(?i := B ?i @ [n]))" "n \<notin> dom (ch_items h)"
    "ch_items h1 = (ch_items h)(n \<mapsto> x)" "ch_size h1 = ch_size h" "ch_avail h1 = as \<or> ch_avail h1 = c # as"
    using insert_ch_ok [OF Cons.prems(1) _ refl av, of k x] Cons.prems(3) kv by auto
  have avl: "avail_ok h1 (2 * length kvs)" using h1(6) av(1) Cons.prems(2) by (auto simp: avail_ok_def)
  have "\<forall>(k, x) \<in> set kvs. unat k < 2 ^ 31" using Cons.prems(3) by simp
  from Cons.IH [OF h1(2) avl this] obtain h' B' where
    h': "insert_all_ch h1 kvs = Some (replicate (length kvs) 0, h')" "ch_inv h' B'" "ch_size h' = ch_size h1"
    "\<forall>j < unat (ch_size h1). bucket_view h' B' j = bucket_view h1 (B(?i := B ?i @ [n])) j
        @ map snd (filter (\<lambda>(k, x). unat k mod unat (ch_size h1) = j) kvs)" by blast
  have "bucket_view h' B' j = bucket_view h B j @ map snd (filter (\<lambda>(k, x). unat k mod unat (ch_size h) = j) (kv # kvs))"
    if "j < unat (ch_size h)" for j
    using that h'(4) h1(5) insert_view [OF Cons.prems(1) h1(3,4) that, of ?i] kv by auto
  with h' h1(1,5) kv show ?case by (intro exI [of _ h'] exI [of _ B']) auto
qed

lemma display_from_ok:
  assumes "ch_inv h B" "i + k \<le> unat (ch_size h)"
  shows "display_from h i k = Some (map (bucket_view h B) [i..<i + k])"
  using assms(2)
proof (induction k arbitrary: i)
  case (Suc k)
  then have "display_bucket_ch h (of_nat i) = Some (bucket_view h B i)"
    using display_bucket_ok [OF assms(1), of i] unfolding bucket_view_def by simp
  moreover have "[i..<i + Suc k] = i # [Suc i..<Suc i + k]" by (simp add: upt_rec)
  ultimately show ?case using Suc.IH [of "Suc i"] Suc.prems by simp
qed simp

lemma hash_alloc_ok:
  assumes "0 < unat sz" "unat sz < 2 ^ 31" "distinct as" "a \<noteq> 0" "s \<noteq> 0"
  shows "\<exists>h. hash_alloc_ch (a # s # as) sz = Some h \<and> ch_inv h (\<lambda>_. []) \<and> ch_size h = sz \<and> ch_avail h = as"
  using assms by (simp add: hash_alloc_ch_def ch_inv_def bucket_def)

text \<open>Allocation and insertions in sequence; then what display shows.\<close>

lemma fill_ok:
  assumes "0 < unat sz" "unat sz < 2 ^ 31" "distinct as" "\<forall>a \<in> set as. a \<noteq> 0" "a \<noteq> 0" "s \<noteq> 0"
    and "2 * length kvs \<le> length as" "\<forall>(k, x) \<in> set kvs. unat k < 2 ^ 31"
  shows "\<exists>h h' B. hash_alloc_ch (a # s # as) sz = Some h \<and> insert_all_ch h kvs = Some (replicate (length kvs) 0, h')
     \<and> ch_inv h' B \<and> ch_size h' = sz
     \<and> (\<forall>j < unat sz. bucket_view h' B j = map snd (filter (\<lambda>(k, x). unat k mod unat sz = j) kvs))"
proof -
  obtain h where h: "hash_alloc_ch (a # s # as) sz = Some h" "ch_inv h (\<lambda>_. [])" "ch_size h = sz" "ch_avail h = as"
    using hash_alloc_ok [OF assms(1-3,5,6)] by blast
  have "avail_ok h (2 * length kvs)" using h(4) assms(4,7) by (simp add: avail_ok_def)
  from insert_all_ok [OF h(2) this assms(8)] obtain h' B' where
    h': "insert_all_ch h kvs = Some (replicate (length kvs) 0, h')" "ch_inv h' B'" "ch_size h' = ch_size h"
    "\<forall>j < unat (ch_size h). bucket_view h' B' j =
        bucket_view h (\<lambda>_. []) j @ map snd (filter (\<lambda>(k, x). unat k mod unat (ch_size h) = j) kvs)" by blast
  have "\<forall>j < unat sz. bucket_view h' B' j = map snd (filter (\<lambda>(k, x). unat k mod unat sz = j) kvs)"
    using h'(4) h(3) by (simp add: bucket_view_def)
  with h(1,3) h'(1-3) show ?thesis by metis
qed

lemma display_ok: "ch_inv h B \<Longrightarrow> display_ch h = Some (map (bucket_view h B) [0..<unat (ch_size h)])"
  using display_from_ok [of h B 0 "unat (ch_size h)"] by (simp add: display_ch_def)

lemma fill_and_display:
  assumes "0 < unat sz" "unat sz < 2 ^ 31" "distinct as" "\<forall>a \<in> set as. a \<noteq> 0" "a \<noteq> 0" "s \<noteq> 0"
    and "2 * length kvs \<le> length as" "\<forall>(k, x) \<in> set kvs. unat k < 2 ^ 31"
  shows "\<exists>h h'. hash_alloc_ch (a # s # as) sz = Some h \<and> insert_all_ch h kvs = Some (replicate (length kvs) 0, h')
     \<and> display_ch h' = Some (map (\<lambda>j. map snd (filter (\<lambda>(k, x). unat k mod unat sz = j) kvs)) [0..<unat sz])"
proof -
  obtain h h' B where h: "hash_alloc_ch (a # s # as) sz = Some h" "insert_all_ch h kvs = Some (replicate (length kvs) 0, h')"
    "ch_inv h' B" "ch_size h' = sz"
    "\<forall>j < unat sz. bucket_view h' B j = map snd (filter (\<lambda>(k, x). unat k mod unat sz = j) kvs)"
    using fill_ok [OF assms] by blast
  have "map (bucket_view h' B) [0..<unat sz] = map (\<lambda>j. map snd (filter (\<lambda>(k, x). unat k mod unat sz = j) kvs)) [0..<unat sz]"
    using h(5) by simp
  with display_ok [OF h(3)] h(1,2,4) show ?thesis by simp
qed

text \<open>A lookup reads the slot of the key, which is NULL exactly if the bucket is empty.\<close>

lemma lookup_ch_bucket:
  assumes "ch_inv h B" "unat key < 2 ^ 31"
  shows "hash_lookup_ch h key = Some (ch_slots h ! (unat key mod unat (ch_size h)))
     \<and> (ch_slots h ! (unat key mod unat (ch_size h)) = 0 \<longleftrightarrow> B (unat key mod unat (ch_size h)) = [])"
proof -
  have sz: "0 < unat (ch_size h)" "unat (ch_size h) < 2 ^ 31" using assms(1) by (auto simp: ch_inv_def)
  let ?i = "unat key mod unat (ch_size h)"
  have i: "?i < unat (ch_size h)" using sz(1) by simp
  have "hash_lookup_ch h key = Some (ch_slots h ! ?i)"
    using hashCode_ok [OF sz assms(2)] load_bucket(1) [OF assms(1) i] by (simp add: hash_lookup_ch_def)
  with ch_invD(1) [OF assms(1) i] show ?thesis by (auto simp: bucket_def split: if_splits)
qed

text \<open>\<open>hash_get\<close> returns the first node of the bucket; the item in it is the first that the bucket shows.\<close>

lemma get_ch_bucket:
  assumes "ch_inv h B" "unat key < 2 ^ 31" "i = unat key mod unat (ch_size h)"
  shows "hash_get_ch h key = Some (if B i = [] then (0, None) else (1, Some (hd (B i))))"
    and "B i \<noteq> [] \<Longrightarrow> ch_items h (hd (B i)) = Some (hd (bucket_view h B i)) \<and> ch_heads h (ch_slots h ! i) = Some (hd (B i))"
proof -
  have sz: "0 < unat (ch_size h)" "unat (ch_size h) < 2 ^ 31" using assms(1) by (auto simp: ch_inv_def)
  have i: "i < unat (ch_size h)" using sz(1) assms(3) by simp
  have "hashCode_ch h key = Some (int i)" using hashCode_ok [OF sz assms(2)] assms(3) by simp
  with load_bucket(1) [OF assms(1) i] ch_invD(1) [OF assms(1) i]
  show "hash_get_ch h key = Some (if B i = [] then (0, None) else (1, Some (hd (B i))))"
    by (auto simp: hash_get_ch_def bucket_def split: if_splits)
  show "ch_items h (hd (B i)) = Some (hd (bucket_view h B i)) \<and> ch_heads h (ch_slots h ! i) = Some (hd (B i))" if "B i \<noteq> []"
    using that ch_invD(1,2) [OF assms(1) i] by (cases "B i") (auto simp: bucket_def bucket_view_def split: if_splits)
qed

section \<open>Properties\<close>

text \<open>
  C15. In a freshly allocated table every insertion succeeds and appends its item to the bucket of
  its key: after any sequence of insertions the traversal of \<open>display\<close> shows, bucket by bucket, the
  items in the order of insertion.  Keys fit an \<open>int\<close>, and two allocations per insertion are enough.
\<close>

theorem chain_insert_display:
  assumes "0 < unat sz" "unat sz < 2 ^ 31" "distinct as" "\<forall>a \<in> set as. a \<noteq> 0" "a \<noteq> 0" "s \<noteq> 0"
    and "2 * length kvs \<le> length as" "\<forall>(k, x) \<in> set kvs. unat k < 2 ^ 31"
  shows "\<exists>h h'. hash_alloc_ch (a # s # as) sz = Some h \<and> insert_all_ch h kvs = Some (replicate (length kvs) 0, h')
     \<and> display_ch h' = Some (map (\<lambda>j. map snd (filter (\<lambda>(k, x). unat k mod unat sz = j) kvs)) [0..<unat sz])"
  using fill_and_display [OF assms] .

theorem chain_insert_display_witness:
  "\<exists>h h'. hash_alloc_ch [8, 16, 64, 128, 192, 256, 320, 384] 2 = Some h
     \<and> insert_all_ch h [(1, 100), (4, 200), (3, 300)] = Some ([0, 0, 0], h') \<and> display_ch h' = Some [[200], [100, 300]]"
  using chain_insert_display [of 2 "[64, 128, 192, 256, 320, 384]" 8 16 "[(1, 100), (4, 200), (3, 300)]"]
  by (simp add: upt_rec del: insert_all_ch.simps)

text \<open>
  C16. \<open>hash_lookup\<close> and \<open>hash_get\<close> do not compare keys.  After any sequence of insertions in a
  fresh table, \<open>hash_lookup\<close> of any key, inserted or not, returns NULL exactly if no key of that
  bucket was inserted, and otherwise the address of the bucket's head structure;
  \<open>hash_get\<close> returns in that case 1 and the first node of the bucket, whose item is the one that was
  inserted first under any key of the bucket.
\<close>

theorem chain_lookup_is_bucket_test:
  assumes "0 < unat sz" "unat sz < 2 ^ 31" "distinct as" "\<forall>a \<in> set as. a \<noteq> 0" "a \<noteq> 0" "s \<noteq> 0"
    and "2 * length kvs \<le> length as" "\<forall>(k, x) \<in> set kvs. unat k < 2 ^ 31" "unat key < 2 ^ 31"
  shows "\<exists>h h' p. hash_alloc_ch (a # s # as) sz = Some h \<and> insert_all_ch h kvs = Some (replicate (length kvs) 0, h')
     \<and> hash_lookup_ch h' key = Some p
     \<and> (case filter (\<lambda>(k, x). unat k mod unat sz = unat key mod unat sz) kvs of
          [] \<Rightarrow> p = 0 \<and> hash_get_ch h' key = Some (0, None)
        | (k, x) # _ \<Rightarrow> p \<noteq> 0 \<and> (\<exists>n. hash_get_ch h' key = Some (1, Some n) \<and> ch_heads h' p = Some n \<and> ch_items h' n = Some x))"
proof -
  obtain h h' B where h: "hash_alloc_ch (a # s # as) sz = Some h" "insert_all_ch h kvs = Some (replicate (length kvs) 0, h')"
    "ch_inv h' B" "ch_size h' = sz"
    "\<forall>j < unat sz. bucket_view h' B j = map snd (filter (\<lambda>(k, x). unat k mod unat sz = j) kvs)"
    using fill_ok [OF assms(1-8)] by blast
  let ?i = "unat key mod unat sz"
  let ?kvs = "filter (\<lambda>(k, x). unat k mod unat sz = ?i) kvs"
  have v: "bucket_view h' B ?i = map snd ?kvs" using h(5) assms(1) by simp
  note l = lookup_ch_bucket [OF h(3) assms(9)]
  note g = get_ch_bucket [OF h(3) assms(9) refl]
  show ?thesis
  proof (cases ?kvs)
    case Nil
    with v have "B ?i = []" by (simp add: bucket_view_def)
    with l g(1) Nil h(1,2,4) show ?thesis by simp
  next
    case (Cons kx rest)
    with v have ne: "B ?i \<noteq> []" by (auto simp: bucket_view_def)
    with g v Cons h(4) have "hash_get_ch h' key = Some (1, Some (hd (B ?i)))" "ch_heads h' (ch_slots h' ! ?i) = Some (hd (B ?i))"
      "ch_items h' (hd (B ?i)) = Some (snd kx)" by simp_all
    with l ne h(1,2,4) Cons show ?thesis by (cases kx) simp
  qed
qed

theorem chain_lookup_is_bucket_test_witness:
  "\<exists>h h' p n. hash_alloc_ch [8, 16, 64, 128, 192, 256, 320, 384] 2 = Some h
     \<and> insert_all_ch h [(1, 100), (4, 200), (3, 300)] = Some ([0, 0, 0], h')
     \<and> hash_lookup_ch h' 7 = Some p \<and> p \<noteq> 0 \<and> hash_get_ch h' 7 = Some (1, Some n) \<and> ch_heads h' p = Some n \<and> ch_items h' n = Some 100"
  using chain_lookup_is_bucket_test [of 2 "[64, 128, 192, 256, 320, 384]" 8 16 "[(1, 100), (4, 200), (3, 300)]" 7]
  by auto

end
