(* ===== verification/Chain_Bench_Props.thy ===== *)
theory Chain_Bench_Props
  imports Chain_Bench Chain_Hash_Props
begin

text \<open>
  The benchmark of the chained hash table runs to its end: no assertion of its search phases fails.
\<close>

section \<open>One item\<close>

lemma scast_ucast_small:
  assumes "unat (key :: u64) < 2 ^ 31"
  shows "(scast (ucast key :: u32) :: u64) = key"
proof -
  have "unat (ucast key :: u32) = unat key" using assms by (intro unat_ucast_32) simp
  then have "sint (ucast key :: u32) = int (unat key)" using assms by (simp add: sint_small_u32)
  then show ?thesis by (metis of_int_of_nat_eq of_int_sint of_nat_unat ucast_id)
qed

lemma item_insert_ch_ok:
  assumes inv: "ch_inv (cb_hash b) B" and key: "unat j < 2 ^ 31" and av: "avail_ok (cb_hash b) (Suc (Suc x))"
    and it: "cb_avail b = a # as" "a \<noteq> 0"
  shows "\<exists>b' n. item_insert_ch b j = Some (0, b') \<and> ch_size (cb_hash b') = ch_size (cb_hash b)
     \<and> (let i = unat j mod unat (ch_size (cb_hash b)) in ch_inv (cb_hash b') (B(i := B i @ [n])))
     \<and> avail_ok (cb_hash b') x \<and> cb_avail b' = as"
proof -
  obtain c d es where es: "ch_avail (cb_hash b) = c # d # es" "c \<noteq> 0" "d \<noteq> 0" using avail_ok_two [OF av] .
  from insert_ch_ok [OF inv key refl es, of a] obtain h n where
    h: "hash_insert_ch (cb_hash b) j a = Some (0, h)" "ch_size h = ch_size (cb_hash b)" "ch_avail h = es \<or> ch_avail h = d # es"
    "let i = unat j mod unat (ch_size (cb_hash b)) in ch_inv h (B(i := B i @ [n]))" by (auto simp: Let_def)
  have "avail_ok h x" using h(3) av es(1) by (auto simp: avail_ok_def)
  moreover have "item_insert_ch b j = Some (0, b\<lparr>cb_avail := as, cb_items := (cb_items b)(a \<mapsto> \<lparr>ic_data = 0, ic_index = ucast j\<rparr>), cb_hash := h\<rparr>)"
    using it h(1) by (simp add: item_insert_ch_def item_create_ch_def scast_ucast_small [OF key])
  ultimately show ?thesis using h(2,4) by auto
qed

section \<open>The loops\<close>

lemma card_grid_le: "card (grid 0 sz step) \<le> unat sz"
proof -
  have "unat ` grid 0 sz step \<subseteq> {..<unat sz}" by (auto simp: grid_def word_less_nat_alt)
  then have "card (unat ` grid 0 sz step) \<le> card {..<unat sz}" by (intro card_mono) simp_all
  moreover have "inj_on unat (grid 0 sz step)" by (simp add: inj_on_def word_unat_eq_iff)
  ultimately show ?thesis by (simp add: card_image)
qed

lemma insert_loop_ch_ok:
  assumes "step \<noteq> 0" "unat sz + unat step \<le> 2 ^ 64" "unat sz \<le> 2 ^ 31" and "ch_inv (cb_hash b) B" 
    and "avail_ok (cb_hash b) (2 * card (grid start sz step) + x)" "card (grid start sz step) + y \<le> length (cb_avail b)" "0 \<notin> set (cb_avail b)"
  shows "\<exists>b' B'. insert_loop_ch b start sz step = Some b' \<and> ch_inv (cb_hash b') B' \<and> ch_size (cb_hash b') = ch_size (cb_hash b)
     \<and> (\<forall>i. B i \<noteq> [] \<longrightarrow> B' i \<noteq> []) \<and> (\<forall>j \<in> grid start sz step. B' (unat j mod unat (ch_size (cb_hash b))) \<noteq> [])
     \<and> avail_ok (cb_hash b') x \<and> y \<le> length (cb_avail b') \<and> 0 \<notin> set (cb_avail b')"
  using assms(4-)
proof (induction "unat sz - unat start" arbitrary: b B start rule: less_induct)
  case less
  show ?case
  proof (cases "start < sz")
    case False
    then show ?thesis using less.prems grid_empty [OF False] by (subst insert_loop_ch.simps) auto
  next
    case True
    note g = grid_step [OF True assms(1,2)] grid_card [OF True assms(1,2)]
    have "unat start < 2 ^ 31" using True assms(3) by (simp add: word_less_nat_alt)
    moreover obtain a as where as: "cb_avail b = a # as" "a \<noteq> 0" using less.prems(3,4) g(6) by (cases "cb_avail b") auto
    moreover have "avail_ok (cb_hash b) (Suc (Suc (2 * card (grid (start + step) sz step) + x)))" using less.prems(2) g(6) by simp
    ultimately obtain b1 n where b1: "item_insert_ch b start = Some (0, b1)" "ch_size (cb_hash b1) = ch_size (cb_hash b)"
      "let i = unat start mod unat (ch_size (cb_hash b)) in ch_inv (cb_hash b1) (B(i := B i @ [n]))"
      "avail_ok (cb_hash b1) (2 * card (grid (start + step) sz step) + x)" "cb_avail b1 = as"
      using item_insert_ch_ok [OF less.prems(1)] by blast
    let ?i = "unat start mod unat (ch_size (cb_hash b))"
    have "card (grid (start + step) sz step) + y \<le> length (cb_avail b1)" "0 \<notin> set (cb_avail b1)"
      using less.prems(3,4) as b1(5) g(6) by auto
    from less.hyps [OF g(4) b1(3) [unfolded Let_def] b1(4) this] obtain b' B' where
      b': "insert_loop_ch b1 (start + step) sz step = Some b'" "ch_inv (cb_hash b') B'" "ch_size (cb_hash b') = ch_size (cb_hash b)"
      "\<forall>i. (B(?i := B ?i @ [n])) i \<noteq> [] \<longrightarrow> B' i \<noteq> []"
      "\<forall>j \<in> grid (start + step) sz step. B' (unat j mod unat (ch_size (cb_hash b))) \<noteq> []"
      "avail_ok (cb_hash b') x" "y \<le> length (cb_avail b')" "0 \<notin> set (cb_avail b')" unfolding b1(2) by blast
    have "insert_loop_ch b start sz step = Some b'" using True b1(1) b'(1) by (subst insert_loop_ch.simps) simp
    moreover have "\<forall>i. B i \<noteq> [] \<longrightarrow> B' i \<noteq> []" "B' ?i \<noteq> []" using b'(4) by auto
    ultimately show ?thesis using b' g(1) by auto
  qed
qed

lemma search_loop_ch_ok:
  assumes "step \<noteq> 0" "unat sz + unat step \<le> 2 ^ 64" "unat sz \<le> 2 ^ 31" "ch_inv h B"
    and "\<forall>j \<in> grid start sz step. B (unat j mod unat (ch_size h)) \<noteq> []"
  shows "search_loop_ch h start sz step = Some ()"
  using assms(5)
proof (induction "unat sz - unat start" arbitrary: start rule: less_induct)
  case less
  show ?case
  proof (cases "start < sz")
    case False
    then show ?thesis by (subst search_loop_ch.simps) simp
  next
    case True
    note g = grid_step [OF True assms(1,2)]
    have "unat start < 2 ^ 31" using True assms(3) by (simp add: word_less_nat_alt)
    with lookup_ch_bucket [OF assms(4)] less.prems g(1) have "item_check_present_ch h start = Some ()"
      by (auto simp: item_check_present_ch_def c_assert_def)
    moreover have "search_loop_ch h (start + step) sz step = Some ()" using less.hyps [OF g(4)] less.prems g(1) by blast
    ultimately show ?thesis using True by (subst search_loop_ch.simps) simp
  qed
qed

section \<open>Rounds\<close>

definition heap_ch :: "nat \<Rightarrow> nat \<Rightarrow> u64 list \<times> u64 list \<Rightarrow> bool" where
  "heap_ch N M = (\<lambda>(nodes, items). distinct nodes \<and> 0 \<notin> set nodes \<and> N \<le> length nodes \<and> 0 \<notin> set items \<and> M \<le> length items)"

lemma benchmark_size_ch_ok:
  assumes "heap_ch (2 + 2 * unat sz + N) (unat sz + M) hp" "0 < unat sz" "unat sz < 2 ^ 31" "step \<noteq> 0" "unat sz + unat step \<le> 2 ^ 64"
  shows "\<exists>hp'. benchmark_size_ch hp sz step = Some hp' \<and> heap_ch N M hp'"
proof -
  obtain a c nodes items where hp: "hp = (a # c # nodes, items)" "a \<noteq> 0" "c \<noteq> 0" "distinct nodes" "0 \<notin> set nodes" "2 * unat sz + N \<le> length nodes"
    "0 \<notin> set items" "unat sz + M \<le> length items"
    using assms(1) by (cases hp; cases "fst hp"; cases "tl (fst hp)") (auto simp: heap_ch_def)
  from hash_alloc_ok [OF assms(2,3) hp(4,2,3)] obtain h where
    h: "hash_alloc_ch (a # c # nodes) sz = Some h" "ch_inv h (\<lambda>_. [])" "ch_size h = sz" "ch_avail h = nodes" by blast
  note c = card_grid_le [of sz step]
  let ?b = "\<lparr>cb_hash = h, cb_items = Map.empty, cb_avail = items\<rparr>"
  have "avail_ok (cb_hash ?b) (2 * card (grid 0 sz step) + N)" using h(4) hp(5,6) c by (auto simp: avail_ok_def)
  moreover have "card (grid 0 sz step) + M \<le> length (cb_avail ?b)" using hp(8) c by simp
  ultimately obtain b' B' where b': "insert_loop_ch ?b 0 sz step = Some b'" "ch_inv (cb_hash b') B'" "ch_size (cb_hash b') = sz"
    "\<forall>j \<in> grid 0 sz step. B' (unat j mod unat sz) \<noteq> []" "avail_ok (cb_hash b') N" "M \<le> length (cb_avail b')" "0 \<notin> set (cb_avail b')"
    using insert_loop_ch_ok [OF assms(4,5) less_imp_le [OF assms(3)], of ?b "\<lambda>_. []" 0 N M] h(2,3) hp(7) by auto
  have "search_loop_ch (cb_hash b') 0 sz step = Some ()"
    using search_loop_ch_ok [OF assms(4,5) less_imp_le [OF assms(3)] b'(2)] b'(3,4) by simp
  then have "benchmark_size_ch hp sz step = Some (ch_avail (cb_hash b'), cb_avail b')"
    using h(1) b'(1) by (simp add: benchmark_size_ch_def benchmark_insert_ch_def benchmark_search_ch_def hp(1))
  moreover have "heap_ch N M (ch_avail (cb_hash b'), cb_avail b')"
    using b'(2,5-) by (auto simp: heap_ch_def avail_ok_def ch_inv_def)
  ultimately show ?thesis by blast
qed

lemma for_nonzero_ok:
  assumes "\<And>x a k. a \<in> set as \<Longrightarrow> I (Suc k) x \<Longrightarrow> \<exists>x'. body x a = Some x' \<and> I k x'" "0 \<notin> set as" "I (length as + k) x"
  shows "\<exists>x'. for_nonzero body x (as @ [0]) = Some x' \<and> I k x'"
  using assms
proof (induction as arbitrary: x)
  case (Cons a as)
  from Cons.prems(1) [of a "length as + k" x] Cons.prems(3) obtain x1 where x1: "body x a = Some x1" "I (length as + k) x1" by auto
  with Cons.IH [of x1] Cons.prems(1,2) show ?case by auto
qed simp

definition bench_steps :: "u64 list" where "bench_steps = [1, 2, 7, 15, 63, 64, 65, 128, 256, 512, 12345]"

lemma bench_steps_small: "step \<in> set bench_steps \<Longrightarrow> step \<noteq> 0 \<and> unat step \<le> 12345"
  by (auto simp: bench_steps_def)

lemma rounds_ok:
  assumes "heap_ch (11 * (2 + 2 * unat sz) + N) (11 * unat sz + M) hp" "0 < unat sz" "unat sz < 2 ^ 31"
  shows "\<exists>hp'. for_nonzero (\<lambda>hp1 step. benchmark_size_ch hp1 sz step) hp (bench_steps @ [0]) = Some hp' \<and> heap_ch N M hp'"
proof -
  let ?I = "\<lambda>k. heap_ch (k * (2 + 2 * unat sz) + N) (k * unat sz + M)"
  have "\<exists>x'. benchmark_size_ch x step sz' = Some x' \<and> ?I k x'" if "sz' \<in> set bench_steps" "step = sz" "?I (Suc k) x" for x k step sz'
  proof -
    have "heap_ch (2 + 2 * unat sz + (k * (2 + 2 * unat sz) + N)) (unat sz + (k * unat sz + M)) x" using that(3) by (simp add: algebra_simps)
    from benchmark_size_ch_ok [OF this assms(2,3), of sz'] bench_steps_small [OF that(1)] assms(3) that(2) show ?thesis by simp
  qed
  moreover have "0 \<notin> set bench_steps" "length bench_steps = 11" by (auto simp: bench_steps_def)
  ultimately show ?thesis
    using for_nonzero_ok [of bench_steps ?I "\<lambda>hp1 step. benchmark_size_ch hp1 sz step" 0 hp] assms(1) by simp
qed

lemma insert_array_all: "insert_array_ch h kvs = map_option snd (insert_all_ch h kvs)"
  by (induction kvs arbitrary: h) (auto split: Option.bind_splits)

lemma my_benchmark_ch_ok:
  assumes "heap_ch 12 M hp"
  shows "my_benchmark_ch (fst hp) = Some (map (\<lambda>j. filter (\<lambda>key. unat key mod 20 = j) [2, 6, 22, 37, 65]) [0..<20])"
proof -
  obtain a c nodes items where hp: "hp = (a # c # nodes, items)" "a \<noteq> 0" "c \<noteq> 0" "distinct nodes" "\<forall>a \<in> set nodes. a \<noteq> 0" "10 \<le> length nodes"
    using assms by (cases hp; cases "fst hp"; cases "tl (fst hp)") (auto simp: heap_ch_def)
  let ?ks = "[2, 6, 22, 37, 65] :: u64 list"
  have m: "map snd (filter (\<lambda>(k, x). unat k mod 20 = j) (zip ?ks ?ks)) = filter (\<lambda>key. unat key mod 20 = j) ?ks" for j by simp
  have "unat (20 :: u64) = 20" by simp
  from fill_and_display [of 20 nodes a c "zip ?ks ?ks"] hp this obtain h h' where
    "hash_alloc_ch (a # c # nodes) 20 = Some h" "insert_all_ch h (zip ?ks ?ks) = Some (replicate (length (zip ?ks ?ks)) 0, h')"
    "display_ch h' = Some (map (\<lambda>j. map snd (filter (\<lambda>(k, x). unat k mod unat (20 :: u64) = j) (zip ?ks ?ks))) [0..<unat (20 :: u64)])" by auto
  then show ?thesis
    unfolding my_benchmark_ch_def insert_array_all hp(1) fst_conv \<open>unat 20 = 20\<close> m
    by (simp only: Option.bind.simps option.map snd_conv)
qed

section \<open>Items and table together\<close>






section \<open>Properties\<close>



text \<open>
  C40. The benchmark program of the chained hash table runs to its end: in each of its 22 rounds
  no assertion of the search phase fails, and the small table that it
  fills last is displayed with the keys in their buckets, in the order of insertion.  The addresses
  that the rounds use up are bounded by two per element of the table and two for the table.
\<close>

theorem chain_benchmark_runs:
  assumes "distinct nodes" "0 \<notin> set nodes" "23091256 \<le> length nodes" "0 \<notin> set items" "11545600 \<le> length items"
  shows "benchmark_ch (nodes, items) = Some (map (\<lambda>j. filter (\<lambda>key. unat key mod 20 = j) [2, 6, 22, 37, 65]) [0..<20])"
proof -
  have sz: "unat (push_bit 10 1 :: u64) = 1024" "unat (push_bit 20 1 :: u64) = 1048576" by (simp_all add: push_bit_eq_mult)
  have steps: "[1, 2, 7, 15, 63, 64, 65, 128, 256, 512, 12345, 0] = bench_steps @ [0]" by (simp add: bench_steps_def)
  have "heap_ch (11 * (2 + 2 * unat (push_bit 10 1 :: u64)) + (11 * (2 + 2 * unat (push_bit 20 1 :: u64)) + 12))
      (11 * unat (push_bit 10 1 :: u64) + (11 * unat (push_bit 20 1 :: u64) + 0)) (nodes, items)"
    using assms unfolding sz by (simp add: heap_ch_def)
  from rounds_ok [OF this] sz obtain hp1 where
    hp1: "for_nonzero (\<lambda>hp1 step. benchmark_size_ch hp1 (push_bit 10 1) step) (nodes, items) (bench_steps @ [0]) = Some hp1"
    "heap_ch (11 * (2 + 2 * unat (push_bit 20 1 :: u64)) + 12) (11 * unat (push_bit 20 1 :: u64) + 0) hp1" by auto
  from rounds_ok [OF hp1(2)] sz obtain hp2 where
    hp2: "for_nonzero (\<lambda>hp1 step. benchmark_size_ch hp1 (push_bit 20 1) step) hp1 (bench_steps @ [0]) = Some hp2" "heap_ch 12 0 hp2" by auto
  have "push_bit 10 1 \<noteq> (0 :: u64)" "push_bit 20 1 \<noteq> (0 :: u64)" using sz by (metis unat_0 zero_neq_numeral)+
  then show ?thesis
    unfolding benchmark_ch_def steps
    by (simp only: for_nonzero.simps hp1(1) hp2(1) my_benchmark_ch_ok [OF hp2(2)] Option.bind.simps if_False if_True refl)
qed

definition demo_addresses :: "nat \<Rightarrow> u64 list" where
  "demo_addresses n = map (\<lambda>i. of_nat (16 * Suc i)) [0..<n]"

lemma demo_addresses_ok:
  assumes "n < 2 ^ 59"
  shows "distinct (demo_addresses n)" "0 \<notin> set (demo_addresses n)" "length (demo_addresses n) = n"
proof -
  have u: "unat (of_nat (16 * Suc i) :: u64) = 16 * Suc i" if "i < n" for i
    using that assms by (subst unat_of_nat) simp
  have "inj_on (\<lambda>i. of_nat (16 * Suc i) :: u64) {0..<n}"
  proof (rule inj_onI)
    fix i j assume "i \<in> {0..<n}" "j \<in> {0..<n}" "(of_nat (16 * Suc i) :: u64) = of_nat (16 * Suc j)"
    with u [of i] u [of j] show "i = j" by (metis atLeastLessThan_iff mult_left_cancel nat.inject zero_neq_numeral)
  qed
  then show "distinct (demo_addresses n)" by (simp add: demo_addresses_def distinct_map)
  show "0 \<notin> set (demo_addresses n)"
  proof
    assume "0 \<in> set (demo_addresses n)"
    then obtain i where "i < n" "(0 :: u64) = of_nat (16 * Suc i)" unfolding demo_addresses_def by auto
    with u [of i] show False by (metis mult_eq_0_iff nat.distinct(1) unat_0 zero_neq_numeral)
  qed
  show "length (demo_addresses n) = n" by (simp add: demo_addresses_def)
qed

theorem chain_benchmark_runs_witness:
  "benchmark_ch (demo_addresses 24000000, demo_addresses 12000000)
     = Some [[], [], [2, 22], [], [], [65], [6], [], [], [], [], [], [], [], [], [], [], [37], [], []]"
proof -
  have "map (\<lambda>j. filter (\<lambda>key. unat (key :: u64) mod 20 = j) [2, 6, 22, 37, 65]) [0..<20]
    = [[], [], [2, 22], [], [], [65], [6], [], [], [], [], [], [], [], [], [], [], [37], [], []]" by code_simp
  moreover have "benchmark_ch (demo_addresses 24000000, demo_addresses 12000000)
      = Some (map (\<lambda>j. filter (\<lambda>key. unat key mod 20 = j) [2, 6, 22, 37, 65]) [0..<20])"
    by (rule chain_benchmark_runs) (simp_all add: demo_addresses_ok)
  ultimately show ?thesis by simp
qed

end
