(* ===== verification/HotRing.thy ===== *)
theory HotRing
  imports Prelude "HOL-Library.Signed_Division"
begin

text \<open>
  The hot-spot aware hash table of \<open>src/hotring/hotring.c\<close>, \<open>hotring.h\<close> and the singly linked
  rings of \<open>src/hotring/list.h\<close>.  A link is one packed 64-bit word: the address in the bits 0 to 47,
  an access counter above it and flag bits at the top.  The same word is written either as a whole
  (\<open>->next = p\<close>) or through one of its fields, and the model keeps the two apart.  The links of a
  node stand at offset 0, so that a node and its \<open>list\<close> have the same address.
\<close>

section \<open>Packed words\<close>

definition pk_addr :: "u64 \<Rightarrow> u64" where "pk_addr w = take_bit 48 w"

definition set_addr :: "u64 \<Rightarrow> u64 \<Rightarrow> u64" where
  "set_addr w a = (w AND NOT (mask 48)) OR take_bit 48 a"

definition list_counter :: "u64 \<Rightarrow> u64" where "list_counter w = take_bit 14 (drop_bit 48 w)"

definition set_list_counter :: "u64 \<Rightarrow> u64 \<Rightarrow> u64" where
  "set_list_counter w c = (w AND NOT (push_bit 48 (mask 14))) OR push_bit 48 (take_bit 14 c)"

definition head_counter :: "u64 \<Rightarrow> u64" where "head_counter w = take_bit 15 (drop_bit 48 w)"

definition set_head_counter :: "u64 \<Rightarrow> u64 \<Rightarrow> u64" where
  "set_head_counter w c = (w AND NOT (push_bit 48 (mask 15))) OR push_bit 48 (take_bit 15 c)"

definition set_head_active :: "u64 \<Rightarrow> bool \<Rightarrow> u64" where
  "set_head_active w b = (if b then set_bit 63 w else unset_bit 63 w)"

section \<open>State\<close>

record hr_node =
  rn_list :: u64
  rn_tag :: u64
  rn_key :: u64
  rn_value :: u64

type_synonym hr_nodes = "u64 \<rightharpoonup> hr_node"

record hr_state =
  hs_nodes :: hr_nodes
  hs_heads :: "u64 \<rightharpoonup> u64"
  hs_avail :: "u64 list"
  hs_request :: int
  hs_verbose :: int

record hr_hash =
  hr_n :: u64
  hr_k :: u64
  hr_size :: u64
  hr_slots :: "u64 list"

definition NBITS :: u64 where [c_consts]: "NBITS = 32"
definition INCOME_THRESHOLD :: int where [c_consts]: "INCOME_THRESHOLD = 5"
definition EEXIST_hr :: int where [c_consts]: "EEXIST_hr = 17"
definition LIST_POISON_hr :: u64 where "LIST_POISON_hr = 0x00100100"

section \<open>Rings\<close>

definition upd_node_hr :: "hr_nodes \<Rightarrow> u64 \<Rightarrow> (hr_node \<Rightarrow> hr_node) \<Rightarrow> hr_nodes option" where
  "upd_node_hr m p f = (case m p of None \<Rightarrow> None | Some n \<Rightarrow> Some (m(p \<mapsto> f n)))"

definition store_next :: "hr_nodes \<Rightarrow> u64 \<Rightarrow> u64 \<Rightarrow> hr_nodes option" where
  "store_next m p w = upd_node_hr m p (\<lambda>n. n\<lparr>rn_list := w\<rparr>)"

definition store_addr :: "hr_nodes \<Rightarrow> u64 \<Rightarrow> u64 \<Rightarrow> hr_nodes option" where
  "store_addr m p a = upd_node_hr m p (\<lambda>n. n\<lparr>rn_list := set_addr (rn_list n) a\<rparr>)"

definition store_counter :: "hr_nodes \<Rightarrow> u64 \<Rightarrow> (u64 \<Rightarrow> u64) \<Rightarrow> hr_nodes option" where
  "store_counter m p f = upd_node_hr m p (\<lambda>n. n\<lparr>rn_list := set_list_counter (rn_list n) (f (list_counter (rn_list n)))\<rparr>)"

definition INIT_LIST_HEAD_hr :: "hr_nodes \<Rightarrow> u64 \<Rightarrow> hr_nodes option" where
  "INIT_LIST_HEAD_hr m p = store_next m p p"

definition raw_list_add_hr :: "hr_nodes \<Rightarrow> u64 \<Rightarrow> u64 \<Rightarrow> u64 \<Rightarrow> hr_nodes option" where
  "raw_list_add_hr m new prev next = do { m1 \<leftarrow> store_next m new next; store_addr m1 prev new }"

definition list_add_hr :: "hr_nodes \<Rightarrow> u64 \<Rightarrow> u64 \<Rightarrow> hr_nodes option" where
  "list_add_hr m new head = do { n \<leftarrow> m head; raw_list_add_hr m new head (rn_list n) }"

definition raw_list_del_hr :: "hr_nodes \<Rightarrow> u64 \<Rightarrow> u64 \<Rightarrow> hr_nodes option" where
  "raw_list_del_hr m prev next = store_next m prev next"

definition list_del_by_addr_hr :: "hr_nodes \<Rightarrow> u64 \<Rightarrow> u64 \<Rightarrow> hr_nodes option" where
  "list_del_by_addr_hr m prev iptr = store_addr m prev iptr"

definition list_del_hr :: "hr_nodes \<Rightarrow> u64 \<Rightarrow> u64 \<Rightarrow> hr_nodes option" where
  "list_del_hr m prev entry = do {
     n \<leftarrow> m entry;
     m1 \<leftarrow> list_del_by_addr_hr m prev (pk_addr (rn_list n));
     store_next m1 entry LIST_POISON_hr
   }"

definition list_del_init_hr :: "hr_nodes \<Rightarrow> u64 \<Rightarrow> u64 \<Rightarrow> hr_nodes option" where
  "list_del_init_hr m prev entry = do {
     n \<leftarrow> m entry;
     m1 \<leftarrow> raw_list_del_hr m prev (rn_list n);
     INIT_LIST_HEAD_hr m1 entry
   }"

definition list_move_hr :: "hr_nodes \<Rightarrow> u64 \<Rightarrow> u64 \<Rightarrow> u64 \<Rightarrow> hr_nodes option" where
  "list_move_hr m prev entry head = do {
     n \<leftarrow> m entry;
     m1 \<leftarrow> raw_list_del_hr m prev (rn_list n);
     list_add_hr m1 entry head
   }"

definition list_empty_hr :: "hr_nodes \<Rightarrow> u64 \<Rightarrow> bool option" where
  "list_empty_hr m head = do { n \<leftarrow> m head; Some (rn_list n = head) }"

text \<open>The entries that \<open>list_for_each\<close> visits, from position \<open>pos\<close> and from the start.\<close>

partial_function (option) ring_from :: "hr_nodes \<Rightarrow> u64 \<Rightarrow> u64 \<Rightarrow> u64 list option" where
  "ring_from m head pos = (if pos = head then Some []
     else do { n \<leftarrow> m pos; rest \<leftarrow> ring_from m head (pk_addr (rn_list n)); Some (pos # rest) })"

declare ring_from.simps [code]

definition list_for_each_hr :: "hr_nodes \<Rightarrow> u64 \<Rightarrow> u64 list option" where
  "list_for_each_hr m head = do { n \<leftarrow> m head; ring_from m head (pk_addr (rn_list n)) }"

section \<open>Allocation\<close>

definition calloc_hr :: "hr_state \<Rightarrow> u64 \<times> hr_state" where
  "calloc_hr s = (case hs_avail s of [] \<Rightarrow> (0, s) | a # as \<Rightarrow> (a, s\<lparr>hs_avail := as\<rparr>))"

definition head_alloc_hr :: "hr_state \<Rightarrow> u64 \<times> hr_state" where
  "head_alloc_hr s = (case calloc_hr s of (ret, s1) \<Rightarrow>
     if ret = 0 then (0, s1) else (ret, s1\<lparr>hs_heads := (hs_heads s1)(ret \<mapsto> 0)\<rparr>))"

definition hash_node_alloc_hr :: "hr_state \<Rightarrow> u64 \<times> hr_state" where
  "hash_node_alloc_hr s = (case calloc_hr s of (ret, s1) \<Rightarrow>
     if ret = 0 then (0, s1)
     else (ret, s1\<lparr>hs_nodes := (hs_nodes s1)(ret \<mapsto> \<lparr>rn_list = 0, rn_tag = 0, rn_key = 0, rn_value = 0\<rparr>)\<rparr>))"

text \<open>
  Shifts of a signed \<open>int\<close>: outside the range where C defines them the result is \<^term>\<open>None\<close>.
\<close>

definition shl_int :: "int \<Rightarrow> int \<Rightarrow> int option" where
  "shl_int i b = (if 0 \<le> i \<and> 0 \<le> b \<and> b < 32 \<and> i * 2 ^ nat b < 2 ^ 31 then Some (i * 2 ^ nat b) else None)"

definition shl_ulong :: "u64 \<Rightarrow> int \<Rightarrow> u64 option" where
  "shl_ulong x b = (if 0 \<le> b \<and> b < 64 then Some (push_bit (nat b) x) else None)"

text \<open>
  The table and its slot array are allocated one after the other.  The result is NULL (\<open>None\<close>
  inside) where the first allocation fails; where the second one fails the loop that clears the
  slots faults.
\<close>

definition hash_alloc_hr :: "hr_state \<Rightarrow> u64 \<Rightarrow> u64 \<Rightarrow> (hr_hash option \<times> hr_state) option" where
  "hash_alloc_hr s nbits kbits = (case calloc_hr s of (ret, s1) \<Rightarrow>
     if ret = 0 then Some (None, s1)
     else do {
       sz \<leftarrow> shl_int 1 (uint kbits);
       (case calloc_hr s1 of (sl, s2) \<Rightarrow>
         if sl = 0 then None
         else Some (Some \<lparr>hr_n = nbits, hr_k = kbits, hr_size = word_of_int sz, hr_slots = replicate (nat sz) 0\<rparr>, s2))
     })"

definition hash_extend_hr :: "hr_hash \<Rightarrow> u64" where "hash_extend_hr h = 0"

text \<open>The index of the slot and the tag of a key.\<close>

definition hashCode_hr :: "hr_hash \<Rightarrow> u64 \<Rightarrow> (u64 \<times> u64) option" where
  "hashCode_hr h key = do {
     range \<leftarrow> shl_ulong 1 (uint (hr_n h));
     let hash_value = key mod range;
     tags \<leftarrow> shl_int 1 (uint (hr_n h - hr_k h));
     let hashTag = hash_value mod word_of_int tags;
     Some (key div word_of_int tags, hashTag)
   }"

definition load_slot_hr :: "hr_hash \<Rightarrow> u64 \<Rightarrow> u64 option" where
  "load_slot_hr h i = (if unat i < length (hr_slots h) then Some (hr_slots h ! unat i) else None)"

definition store_slot_hr :: "hr_hash \<Rightarrow> u64 \<Rightarrow> u64 \<Rightarrow> hr_hash option" where
  "store_slot_hr h i v = (if unat i < length (hr_slots h) then Some (h\<lparr>hr_slots := (hr_slots h)[unat i := v]\<rparr>) else None)"

section \<open>Lookup\<close>

definition get_head_node_by_head_pointer :: "hr_state \<Rightarrow> u64 \<Rightarrow> u64 option" where
  "get_head_node_by_head_pointer s head_pointer =
     (if head_pointer \<noteq> 0 then map_option pk_addr (hs_heads s head_pointer) else Some 0)"

definition raw_hash_get_first :: "hr_hash \<Rightarrow> hr_state \<Rightarrow> u64 \<Rightarrow> (int \<times> u64 option) option" where
  "raw_hash_get_first h s index = do {
     slot \<leftarrow> load_slot_hr h index;
     if slot \<noteq> 0 then do { head_node \<leftarrow> get_head_node_by_head_pointer s slot; Some (1, Some head_node) }
     else Some (0, None)
   }"

partial_function (option) largest_loop :: "hr_nodes \<Rightarrow> u64 \<Rightarrow> u64 \<Rightarrow> u64 \<Rightarrow> u64 option" where
  "largest_loop m head prev pos = (if pos = head then Some prev
     else do {
       np \<leftarrow> m prev;
       nn \<leftarrow> m pos;
       if rn_tag nn < rn_tag np then Some prev
       else largest_loop m head pos (pk_addr (rn_list nn))
     })"

declare largest_loop.simps [code]

definition raw_hash_get_largest :: "hr_hash \<Rightarrow> hr_state \<Rightarrow> u64 \<Rightarrow> (int \<times> u64 option) option" where
  "raw_hash_get_largest h s hashIndex = do {
     slot \<leftarrow> load_slot_hr h hashIndex;
     if slot \<noteq> 0 then do {
       head_node \<leftarrow> get_head_node_by_head_pointer s slot;
       n \<leftarrow> hs_nodes s head_node;
       prev \<leftarrow> largest_loop (hs_nodes s) head_node head_node (pk_addr (rn_list n));
       Some (1, Some prev)
     }
     else Some (0, None)
   }"

datatype hash_get_t = GET_NOT_FOUND | GET_SUCCESS | GET_ACCESS_HOT | GET_ACCESS_COLD

text \<open>
  The walk of \<open>__hash_get\<close>: the node found, its predecessor and the memory with the counter of the
  node raised; \<open>None\<close> inside where the walk ends at the head or leaves at one of the three tests on
  the order of the keys.
\<close>

partial_function (option) get_loop ::
  "hr_nodes \<Rightarrow> u64 \<Rightarrow> u64 \<Rightarrow> u64 \<Rightarrow> u64 \<Rightarrow> (u64 \<times> u64 \<times> hr_nodes) option option" where
  "get_loop m head key prev pos = (if pos = head then Some None
     else do {
       tmp \<leftarrow> m pos;
       np \<leftarrow> m prev;
       if rn_key tmp = key then do { m1 \<leftarrow> store_counter m pos (\<lambda>c. c + 1); Some (Some (pos, prev, m1)) }
       else if rn_key np < key \<and> key < rn_key tmp then Some None
       else if key < rn_key tmp \<and> rn_key tmp < rn_key np then Some None
       else if rn_key tmp < rn_key np \<and> rn_key np < key then Some None
       else get_loop m head key pos (pk_addr (rn_list tmp))
     })"

declare get_loop.simps [code]

text \<open>
  The result of \<open>__hash_get\<close>: the outcome, what is stored through \<open>nodep\<close> (\<open>None\<close> where the code
  leaves it alone) and through \<open>prevp\<close>, and the new state.
\<close>

definition raw_hash_get :: "hr_hash \<Rightarrow> hr_state \<Rightarrow> u64 \<Rightarrow> (hash_get_t \<times> u64 option \<times> u64 \<times> hr_state) option" where
  "raw_hash_get h s key = do {
     (hashIndex, hashTag) \<leftarrow> hashCode_hr h key;
     slot \<leftarrow> load_slot_hr h hashIndex;
     if slot \<noteq> 0 then do {
       w \<leftarrow> hs_heads s slot;
       let s1 = s\<lparr>hs_heads := (hs_heads s)(slot \<mapsto> set_head_counter w (head_counter w + 1))\<rparr>;
       head_node \<leftarrow> get_head_node_by_head_pointer s1 slot;
       hn \<leftarrow> hs_nodes s1 head_node;
       if rn_key hn = key then do {
         m1 \<leftarrow> store_counter (hs_nodes s1) head_node (\<lambda>c. c + 1);
         Some (GET_ACCESS_HOT, Some head_node, 0, s1\<lparr>hs_nodes := m1\<rparr>)
       }
       else do {
         found \<leftarrow> get_loop (hs_nodes s1) head_node key head_node (pk_addr (rn_list hn));
         case found of
           None \<Rightarrow> Some (GET_NOT_FOUND, None, 0, s1)
         | Some (node, prev, m1) \<Rightarrow> Some (GET_ACCESS_COLD, Some node, prev, s1\<lparr>hs_nodes := m1\<rparr>)
       }
     }
     else Some (GET_NOT_FOUND, None, 0, s)
   }"

section \<open>Insertion\<close>

partial_function (option) create_loop_hr ::
  "hr_nodes \<Rightarrow> u64 \<Rightarrow> u64 \<Rightarrow> u64 \<Rightarrow> u64 \<Rightarrow> u64 \<Rightarrow> (hr_nodes \<times> bool \<times> u64) option" where
  "create_loop_hr m head node tag prev pos = (if pos = head then Some (m, False, prev)
     else do {
       np \<leftarrow> m prev;
       nn \<leftarrow> m pos;
       if rn_tag nn < rn_tag np \<and> (tag \<le> rn_tag nn \<or> rn_tag np < tag)
       then do { m1 \<leftarrow> list_add_hr m node prev; Some (m1, True, prev) }
       else if rn_tag np < tag \<and> tag \<le> rn_tag nn
       then do { m1 \<leftarrow> list_add_hr m node prev; Some (m1, True, prev) }
       else create_loop_hr m head node tag pos (pk_addr (rn_list nn))
     })"

declare create_loop_hr.simps [code]

definition raw_hash_create :: "hr_hash \<Rightarrow> hr_state \<Rightarrow> u64 \<Rightarrow> u64 \<Rightarrow> (int \<times> u64 \<times> hr_hash \<times> hr_state) option" where
  "raw_hash_create h s index tag = do {
     slot \<leftarrow> load_slot_hr h index;
     (node, h1, s1) \<leftarrow>
       (if slot \<noteq> 0 then do {
          head_node \<leftarrow> get_head_node_by_head_pointer s slot;
          let (node, s1) = hash_node_alloc_hr s;
          hn \<leftarrow> hs_nodes s1 head_node;
          (m1, added, prev) \<leftarrow> create_loop_hr (hs_nodes s1) head_node node tag head_node (pk_addr (rn_list hn));
          m2 \<leftarrow> (if \<not> added then list_add_hr m1 node prev else Some m1);
          Some (node, h, s1\<lparr>hs_nodes := m2\<rparr>)
        }
        else do {
          let (head_pointer, s1) = head_alloc_hr s;
          h1 \<leftarrow> store_slot_hr h index head_pointer;
          let (node, s2) = hash_node_alloc_hr s1;
          m1 \<leftarrow> INIT_LIST_HEAD_hr (hs_nodes s2) node;
          w \<leftarrow> hs_heads s2 head_pointer;
          Some (node, h1, s2\<lparr>hs_nodes := m1, hs_heads := (hs_heads s2)(head_pointer \<mapsto> node)\<rparr>)
        });
     m3 \<leftarrow> store_counter (hs_nodes s1) node (\<lambda>_. 1);
     Some (0, node, h1, s1\<lparr>hs_nodes := m3\<rparr>)
   }"

definition insert_entries_hr :: "hr_state \<Rightarrow> u64 \<Rightarrow> u64 \<Rightarrow> u64 \<Rightarrow> u64 \<Rightarrow> (int \<times> hr_state) option" where
  "insert_entries_hr s node key tag val = do {
     n \<leftarrow> hs_nodes s node;
     if rn_value n \<noteq> 0 then Some (- EEXIST_hr, s)
     else Some (1, s\<lparr>hs_nodes := (hs_nodes s)(node \<mapsto> n\<lparr>rn_key := key, rn_tag := tag, rn_value := val\<rparr>)\<rparr>)
   }"

definition hash_insert_hr :: "hr_hash \<Rightarrow> hr_state \<Rightarrow> u64 \<Rightarrow> u64 \<Rightarrow> (int \<times> hr_hash \<times> hr_state) option" where
  "hash_insert_hr h s key val = do {
     (hashIndex, hashTag) \<leftarrow> hashCode_hr h key;
     (error, node, h1, s1) \<leftarrow> raw_hash_create h s hashIndex hashTag;
     if error \<noteq> 0 then Some (error, h1, s1)
     else do {
       (error2, s2) \<leftarrow> insert_entries_hr s1 node key hashTag val;
       if error2 < 0 then Some (error2, h1, s2) else Some (0, h1, s2)
     }
   }"

section \<open>Deletion\<close>

text \<open>
  \<open>free\<close> of NULL does nothing; of anything but an allocated object it faults.  At verbosity 3 and
  above \<open>hotring_node_free\<close> reads the key of the node it has just freed.
\<close>

definition free_head :: "hr_state \<Rightarrow> u64 \<Rightarrow> hr_state option" where
  "free_head s p = (if p = 0 then Some s
     else case hs_heads s p of None \<Rightarrow> None | Some w \<Rightarrow> Some (s\<lparr>hs_heads := (hs_heads s)(p := None)\<rparr>))"

definition hotring_head_free :: "hr_hash \<Rightarrow> hr_state \<Rightarrow> u64 \<Rightarrow> (hr_hash \<times> hr_state) option" where
  "hotring_head_free h s key = do {
     (hashIndex, tag) \<leftarrow> hashCode_hr h key;
     head_pointer \<leftarrow> load_slot_hr h hashIndex;
     h1 \<leftarrow> store_slot_hr h hashIndex 0;
     s1 \<leftarrow> free_head s head_pointer;
     Some (h1, s1)
   }"

definition hotring_head_free_by_index :: "hr_hash \<Rightarrow> hr_state \<Rightarrow> u64 \<Rightarrow> (hr_hash \<times> hr_state) option" where
  "hotring_head_free_by_index h s index = do {
     head_pointer \<leftarrow> load_slot_hr h index;
     h1 \<leftarrow> store_slot_hr h index 0;
     s1 \<leftarrow> free_head s head_pointer;
     Some (h1, s1)
   }"

definition hotring_node_free :: "hr_state \<Rightarrow> u64 \<Rightarrow> hr_state option" where
  "hotring_node_free s node =
     (if 3 \<le> hs_verbose s then None
      else if node = 0 then Some s
      else case hs_nodes s node of None \<Rightarrow> None | Some n \<Rightarrow> Some (s\<lparr>hs_nodes := (hs_nodes s)(node := None)\<rparr>))"

definition hotring_delete_head :: "hr_hash \<Rightarrow> hr_state \<Rightarrow> u64 \<Rightarrow> (bool \<times> hr_hash \<times> hr_state) option" where
  "hotring_delete_head h s index = do {
     head_pointer \<leftarrow> load_slot_hr h index;
     head_node \<leftarrow> get_head_node_by_head_pointer s head_pointer;
     hn \<leftarrow> hs_nodes s head_node;
     if rn_list hn = head_node then do {
       s1 \<leftarrow> hotring_node_free s head_node;
       (h1, s2) \<leftarrow> hotring_head_free_by_index h s1 index;
       Some (True, h1, s2)
     }
     else do {
       w \<leftarrow> hs_heads s head_pointer;
       let s1 = s\<lparr>hs_heads := (hs_heads s)(head_pointer \<mapsto> pk_addr (rn_list hn))\<rparr>;
       ps \<leftarrow> list_for_each_hr (hs_nodes s1) head_node;
       if ps = [] then None
       else do {
         m1 \<leftarrow> list_del_hr (hs_nodes s1) (last ps) head_node;
         s2 \<leftarrow> hotring_node_free (s1\<lparr>hs_nodes := m1\<rparr>) head_node;
         Some (True, h, s2)
       }
     }
   }"

definition hotring_delete :: "hr_hash \<Rightarrow> hr_state \<Rightarrow> u64 \<Rightarrow> (bool \<times> hr_hash \<times> hr_state) option" where
  "hotring_delete h s key = do {
     (ret, target, prev, s1) \<leftarrow> raw_hash_get h s key;
     if ret \<noteq> GET_NOT_FOUND then do {
       t \<leftarrow> target;
       m1 \<leftarrow> (if prev \<noteq> 0 then list_del_hr (hs_nodes s1) prev t else Some (hs_nodes s1));
       s2 \<leftarrow> hotring_node_free (s1\<lparr>hs_nodes := m1\<rparr>) t;
       (h1, s3) \<leftarrow> (if prev = 0 then hotring_head_free h s2 key else Some (h, s2));
       Some (True, h1, s3)
     }
     else Some (False, h, s1)
   }"

end
