(* ===== verification/Cyclic_Order.thy ===== *)
theory Cyclic_Order
  imports Main
begin

text \<open>
  Rings kept in cyclic order: a list, read from an arbitrary starting point of the ring, is
  cyclically sorted if one of its rotations is sorted.  The lemmas here are about the two walks
  of the hot-ring table: the position at which a new value is put, and the test that ends an
  unsuccessful search early.
\<close>

definition cyc_sorted :: "'a :: linorder list \<Rightarrow> bool" where
  "cyc_sorted xs \<longleftrightarrow> (\<exists>as bs. xs = as @ bs \<and> sorted (bs @ as))"

lemma cyc_sortedI: "xs = as @ bs \<Longrightarrow> sorted (bs @ as) \<Longrightarrow> cyc_sorted xs"
  by (auto simp: cyc_sorted_def)

lemma cyc_sorted_single [simp]: "cyc_sorted [x]"
  by (rule cyc_sortedI [of _ "[x]" "[]"]) simp_all

lemma cyc_sorted_Nil [simp]: "cyc_sorted []"
  by (rule cyc_sortedI [of _ "[]" "[]"]) simp_all

lemma cyc_sorted_rotate: "cyc_sorted (as @ bs) \<Longrightarrow> cyc_sorted (bs @ as)"
proof -
  assume "cyc_sorted (as @ bs)"
  then obtain cs ds where cd: "as @ bs = cs @ ds" "sorted (ds @ cs)" by (auto simp: cyc_sorted_def)
  from cd(1) consider (1) us where "as = cs @ us" "ds = us @ bs" | (2) us where "cs = as @ us" "bs = us @ ds"
    by (auto simp: append_eq_append_conv2)
  then show ?thesis
  proof cases
    case 1
    then show ?thesis using cd(2) by (intro cyc_sortedI [of _ "bs @ cs" us]) simp_all
  next
    case 2
    then show ?thesis using cd(2) by (intro cyc_sortedI [of _ us "ds @ as"]) simp_all
  qed
qed

lemma cyc_sorted_subseq: "cyc_sorted (as @ x # bs) \<Longrightarrow> cyc_sorted (as @ bs)"
proof -
  assume "cyc_sorted (as @ x # bs)"
  then obtain cs ds where cd: "as @ x # bs = cs @ ds" "sorted (ds @ cs)" by (auto simp: cyc_sorted_def)
  from cd(1) consider (1) us where "as = cs @ us" "ds = us @ x # bs" | (2) us where "cs = as @ x # us" "bs = us @ ds"
    by (auto simp: append_eq_append_conv2 Cons_eq_append_conv)
  then show ?thesis
  proof cases
    case 1
    then show ?thesis using cd(2) by (intro cyc_sortedI [of _ cs "us @ bs"]) (auto simp: sorted_append)
  next
    case 2
    then show ?thesis using cd(2) by (intro cyc_sortedI [of _ "as @ us" ds]) (auto simp: sorted_append)
  qed
qed

lemma sorted_le_last: "sorted xs \<Longrightarrow> x \<in> set xs \<Longrightarrow> x \<le> last xs"
  by (induction xs) auto

text \<open>Neighbours of a cyclically sorted list: ascending with nothing between, or maximum and minimum.\<close>

lemma cyc_sorted_neighbours:
  assumes "cyc_sorted (l @ p # q # r)" "x \<in> set (l @ p # q # r)"
  shows "p \<le> q \<and> (x \<le> p \<or> q \<le> x) \<or> q < p \<and> q \<le> x \<and> x \<le> p"
proof -
  from assms(1) obtain cs ds where cd: "l @ p # q # r = cs @ ds" "sorted (ds @ cs)" by (auto simp: cyc_sorted_def)
  from cd(1) consider (1) us where "l = cs @ us" "ds = us @ p # q # r" | (2) "cs = l @ [p]" "ds = q # r"
    | (3) us where "cs = l @ p # q # us" "r = us @ ds"
    by (auto simp: append_eq_append_conv2 Cons_eq_append_conv)
  then show ?thesis
  proof cases
    case 1 with cd(2) assms(2) show ?thesis by (auto simp: sorted_append)
  next
    case 2 with cd(2) assms(2) show ?thesis by (fastforce simp: sorted_append)
  next
    case 3 with cd(2) assms(2) show ?thesis by (auto simp: sorted_append)
  qed
qed

text \<open>
  Where the insertion puts a new value \<open>t\<close>: behind the first neighbours between which it fits, and
  at the end if there are none.
\<close>

fun cyc_ins :: "'a :: linorder \<Rightarrow> 'a \<Rightarrow> 'a list \<Rightarrow> 'a list" where
  "cyc_ins t p [] = [t]"
| "cyc_ins t p (q # qs) =
     (if q < p \<and> (t \<le> q \<or> p < t) \<or> p < t \<and> t \<le> q then t # q # qs else q # cyc_ins t q qs)"

lemma cyc_ins_ascending:
  assumes "sorted (p # qs)"
  shows "\<exists>us vs. qs = us @ vs \<and> cyc_ins t p qs = us @ t # vs
     \<and> ((\<forall>u \<in> set (p # us). u < t) \<and> (\<forall>v \<in> set vs. t \<le> v) \<or> vs = [] \<and> t \<le> p)"
  using assms
proof (induction qs arbitrary: p)
  case (Cons q qs)
  show ?case
  proof (cases "p < t \<and> t \<le> q")
    case True
    with Cons.prems have "qs = [] \<or> (\<forall>v \<in> set qs. t \<le> v)" by fastforce
    with True Cons.prems show ?thesis by (intro exI [of _ "[]"] exI [of _ "q # qs"]) auto
  next
    case False
    with Cons.prems have step: "cyc_ins t p (q # qs) = q # cyc_ins t q qs" by auto
    from Cons.IH [of q] Cons.prems obtain us vs where uv: "qs = us @ vs" "cyc_ins t q qs = us @ t # vs"
      "(\<forall>u \<in> set (q # us). u < t) \<and> (\<forall>v \<in> set vs. t \<le> v) \<or> vs = [] \<and> t \<le> q" by auto
    have "(\<forall>u \<in> set (p # q # us). u < t) \<and> (\<forall>v \<in> set vs. t \<le> v) \<or> vs = [] \<and> t \<le> p"
      using uv(3) False Cons.prems by auto
    with uv(1,2) step show ?thesis by (intro exI [of _ "q # us"] exI [of _ vs]) auto
  qed
qed auto

lemma cyc_ins_inside:
  assumes "sorted (p # as)" "p < t" "t \<le> last (p # as)"
  shows "\<exists>us vs. as = us @ vs \<and> cyc_ins t p (as @ rest) = us @ t # vs @ rest
     \<and> (\<forall>u \<in> set us. u < t) \<and> (\<forall>v \<in> set vs. t \<le> v)"
  using assms
proof (induction as arbitrary: p)
  case (Cons q as)
  show ?case
  proof (cases "t \<le> q")
    case True
    with Cons.prems show ?thesis by (intro exI [of _ "[]"] exI [of _ "q # as"]) force
  next
    case False
    with Cons.prems have step: "cyc_ins t p ((q # as) @ rest) = q # cyc_ins t q (as @ rest)" by auto
    from Cons.IH [of q] Cons.prems False obtain us vs where "as = us @ vs"
      "cyc_ins t q (as @ rest) = us @ t # vs @ rest" "\<forall>u \<in> set us. u < t" "\<forall>v \<in> set vs. t \<le> v"
      by (metis last.simps linorder_not_le order_less_le_trans sorted2 sorted_simps(2) last_ConsR list.distinct(1) not_less)
    with step False show ?thesis by (intro exI [of _ "q # us"] exI [of _ vs]) auto
  qed
qed simp

lemma cyc_ins_outside:
  assumes "sorted (p # as)" "t \<le> p \<or> last (p # as) < t"
  shows "cyc_ins t p (as @ b # bs) = as @ cyc_ins t (last (p # as)) (b # bs)"
  using assms
proof (induction as arbitrary: p)
  case (Cons q as)
  have le: "q \<le> last (q # as)" using Cons.prems(1) by (cases as) (auto dest: last_in_set)
  with Cons.prems have "\<not> (p < t \<and> t \<le> q)" "\<not> q < p" "t \<le> q \<or> last (q # as) < t" by auto
  with Cons.IH [of q] Cons.prems(1) show ?case by auto
qed simp

text \<open>Insertion keeps the cyclic order: in a sorted list, and in a rotated one outside its first run.\<close>

lemma cyc_ins_sorted_run:
  assumes "sorted (p # qs)"
  shows "cyc_sorted (p # cyc_ins t p qs)"
proof -
  from cyc_ins_ascending [OF assms, of t] obtain us vs where uv: "qs = us @ vs" "cyc_ins t p qs = us @ t # vs"
    "(\<forall>u \<in> set (p # us). u < t) \<and> (\<forall>v \<in> set vs. t \<le> v) \<or> vs = [] \<and> t \<le> p" by blast
  from uv(3) show ?thesis
  proof (elim disjE conjE)
    assume "\<forall>u \<in> set (p # us). u < t" "\<forall>v \<in> set vs. t \<le> v"
    with assms uv(1,2) show ?thesis by (intro cyc_sortedI [of _ "p # us @ t # vs" "[]"]) (auto simp: sorted_append)
  next
    assume "vs = []" "t \<le> p"
    with assms uv(1,2) show ?thesis by (intro cyc_sortedI [of _ "p # us" "[t]"]) (auto simp: sorted_append)
  qed
qed

lemma rotated_drop:
  assumes srt: "sorted (b # bs @ p # as)" and no: "\<not> sorted (p # as @ b # bs)"
  shows "b < last (p # as)"
proof (rule ccontr)
  assume "\<not> b < last (p # as)"
  moreover have "\<forall>x \<in> set (b # bs @ p # as). b \<le> x" using srt by (auto simp: sorted_append)
  moreover have "\<forall>x \<in> set (b # bs @ p # as). x \<le> last (p # as)"
    using sorted_le_last [OF srt] by simp
  ultimately have "\<forall>x \<in> set (b # bs @ p # as). x = b" by force
  moreover have "sorted (p # as)" "sorted (b # bs)" using srt by (auto simp: sorted_append)
  ultimately have "sorted (p # as @ b # bs)" by (auto simp: sorted_append)
  with no show False by simp
qed

lemma cyc_ins_sorted_rotated:
  assumes srt: "sorted (b # bs @ p # as)" and drop: "b < last (p # as)" and out: "t \<le> p \<or> last (p # as) < t"
  shows "cyc_sorted (p # cyc_ins t p (as @ b # bs))"
proof -
  have parts: "sorted (p # as)" "sorted (b # bs)" using srt by (auto simp: sorted_append)
  note ins = cyc_ins_outside [OF parts(1) out]
  consider "t \<le> b" | "last (p # as) < t" | "b < t" "t \<le> last (p # as)" by fastforce
  then show ?thesis
  proof cases
    case 1
    with ins drop have "cyc_ins t p (as @ b # bs) = as @ t # b # bs" by simp
    moreover have "\<forall>x \<in> set (b # bs @ p # as). t \<le> x" using 1 srt by (auto intro: order_trans)
    then have "sorted (t # b # bs @ p # as)" using srt by (metis sorted_simps(2))
    ultimately show ?thesis by (intro cyc_sortedI [of _ "p # as" "t # b # bs"]) simp_all
  next
    case 2
    with ins drop have "cyc_ins t p (as @ b # bs) = as @ t # b # bs" by simp
    moreover have "\<forall>x \<in> set (p # as). x \<le> last (p # as)"
      using sorted_le_last [OF parts(1)] by blast
    ultimately show ?thesis using 2 srt
      by (intro cyc_sortedI [of _ "p # as @ [t]" "b # bs"]) (force simp: sorted_append)+
  next
    case 3
    with out have "t \<le> p" by auto
    from 3 ins drop have "cyc_ins t p (as @ b # bs) = as @ b # cyc_ins t b bs" by auto
    moreover from cyc_ins_ascending [OF parts(2), of t] 3 obtain us vs where "bs = us @ vs"
      "cyc_ins t b bs = us @ t # vs" "\<forall>u \<in> set (b # us). u < t" "\<forall>v \<in> set vs. t \<le> v" by auto
    ultimately show ?thesis using \<open>t \<le> p\<close> srt
      by (intro cyc_sortedI [of _ "p # as" "b # us @ t # vs"]) (auto 0 4 simp: sorted_append)
  qed
qed

lemma cyc_ins_sorted:
  assumes "cyc_sorted (p # qs)"
  shows "cyc_sorted (p # cyc_ins t p qs)"
proof (cases "sorted (p # qs)")
  case False
  from assms obtain cs ds where cd: "p # qs = cs @ ds" "sorted (ds @ cs)" by (auto simp: cyc_sorted_def)
  with False obtain as b bs where split: "qs = as @ b # bs" "sorted (b # bs @ p # as)"
    by (cases cs; cases ds) auto
  have drop: "b < last (p # as)" by (rule rotated_drop [OF split(2)]) (use False split(1) in simp)
  have srt: "sorted (p # as)" using split(2) by (auto simp: sorted_append)
  show ?thesis
  proof (cases "p < t \<and> t \<le> last (p # as)")
    case True
    with cyc_ins_inside [OF srt, of t "b # bs"] split(1) obtain us vs where uv: "as = us @ vs"
      "cyc_ins t p qs = us @ t # vs @ b # bs" "\<forall>u \<in> set us. u < t" "\<forall>v \<in> set vs. t \<le> v" by auto
    with split(2) True show ?thesis
      by (intro cyc_sortedI [of _ "p # us @ t # vs" "b # bs"]) (auto simp: sorted_append)
  next
    case False
    then have "t \<le> p \<or> last (p # as) < t" by auto
    from cyc_ins_sorted_rotated [OF split(2) drop this] split(1) show ?thesis by simp
  qed
qed (rule cyc_ins_sorted_run)

text \<open>Two numberings of the same elements that order them alike.\<close>

lemma cyc_sorted_map: "cyc_sorted (map f xs) \<longleftrightarrow> (\<exists>as bs. xs = as @ bs \<and> sorted (map f (bs @ as)))"
  by (auto simp: cyc_sorted_def map_eq_append_conv)

lemma cyc_sorted_reorder:
  assumes "\<forall>x \<in> set xs. \<forall>y \<in> set xs. f x \<le> f y \<longrightarrow> g x \<le> g y" "cyc_sorted (map f xs)"
  shows "cyc_sorted (map g xs)"
proof -
  obtain as bs where ab: "xs = as @ bs" "sorted (map f (bs @ as))" using assms(2) by (auto simp: cyc_sorted_map)
  then have "sorted (map g (bs @ as))"
    using assms(1) by (auto simp: sorted_map sorted_wrt_append intro: sorted_wrt_mono_rel [of _ "\<lambda>x y. f x \<le> f y"])
  with ab(1) show ?thesis unfolding cyc_sorted_map by blast
qed

end
