(* ===== verification/HotRing_Ring.thy ===== *)
theory HotRing_Ring
  imports HotRing Cyclic_Order "HOL-Library.Multiset"
begin

text \<open>
  Rings of nodes: the fields of the packed words, the predicate that the links of a list of nodes
  form a ring, and what each loop and each list operation does to a ring.
\<close>

section \<open>Fields of a packed word\<close>

lemma pk_addr_fields [simp]:
  "pk_addr (set_addr w a) = pk_addr a" "pk_addr (set_list_counter w c) = pk_addr w"
  "pk_addr (set_head_counter w c) = pk_addr w" "pk_addr (set_head_active w b) = pk_addr w"
  "pk_addr (pk_addr w) = pk_addr w" "pk_addr 0 = 0"
  by (auto simp: pk_addr_def set_addr_def set_list_counter_def set_head_counter_def set_head_active_def
      intro!: bit_eqI simp: bit_simps)

lemma counter_fields [simp]:
  "list_counter (set_addr w a) = list_counter w" "list_counter (set_list_counter w c) = take_bit 14 c"
  "head_counter (set_head_counter w c) = take_bit 15 c" "head_counter (set_head_active w b) = head_counter w"
  by (auto simp: list_counter_def head_counter_def set_addr_def set_list_counter_def set_head_counter_def set_head_active_def
      intro!: bit_eqI simp: bit_simps)

section \<open>Links and payload\<close>

definition lnk :: "hr_nodes \<Rightarrow> u64 \<rightharpoonup> u64" where "lnk m a = map_option (\<lambda>n. pk_addr (rn_list n)) (m a)"

definition pay :: "hr_nodes \<Rightarrow> u64 \<rightharpoonup> u64 \<times> u64 \<times> u64" where
  "pay m a = map_option (\<lambda>n. (rn_key n, rn_tag n, rn_value n)) (m a)"

definition key_of :: "hr_nodes \<Rightarrow> u64 \<Rightarrow> u64" where "key_of m a = rn_key (the (m a))"
definition tag_of :: "hr_nodes \<Rightarrow> u64 \<Rightarrow> u64" where "tag_of m a = rn_tag (the (m a))"
definition value_of :: "hr_nodes \<Rightarrow> u64 \<Rightarrow> u64" where "value_of m a = rn_value (the (m a))"

lemmas payload_defs = key_of_def tag_of_def value_of_def

fun rpath :: "(u64 \<rightharpoonup> u64) \<Rightarrow> u64 list \<Rightarrow> u64 \<Rightarrow> bool" where
  "rpath f [] z \<longleftrightarrow> True"
| "rpath f (a # as) z \<longleftrightarrow> f a = Some (hd (as @ [z])) \<and> rpath f as z"

definition ring :: "hr_nodes \<Rightarrow> u64 list \<Rightarrow> bool" where
  "ring m xs \<longleftrightarrow> xs \<noteq> [] \<and> distinct xs \<and> rpath (lnk m) xs (hd xs)"

lemma rpath_append: "rpath f (xs @ ys) z \<longleftrightarrow> rpath f xs (hd (ys @ [z])) \<and> rpath f ys z"
  by (induction xs) (auto simp: hd_append)

lemma rpath_cong: "(\<And>a. a \<in> set xs \<Longrightarrow> f a = g a) \<Longrightarrow> rpath f xs z \<longleftrightarrow> rpath g xs z"
  by (induction xs) auto

lemma rpath_dom: "rpath (lnk m) xs z \<Longrightarrow> a \<in> set xs \<Longrightarrow> \<exists>n. m a = Some n"
  by (induction xs) (auto simp: lnk_def)

lemma ring_dom: "ring m xs \<Longrightarrow> a \<in> set xs \<Longrightarrow> \<exists>n. m a = Some n"
  by (auto simp: ring_def dest: rpath_dom)

lemma ring_rotate: "ring m (as @ bs) \<Longrightarrow> ring m (bs @ as)"
  by (cases as; cases bs) (auto simp: ring_def rpath_append hd_append)

lemma rpath_target: "rpath (lnk m) xs z \<Longrightarrow> a \<in> set (tl xs @ [z]) \<Longrightarrow> xs \<noteq> [] \<Longrightarrow> pk_addr a = a"
proof (induction xs)
  case (Cons x xs)
  then show ?case by (cases xs) (auto simp: lnk_def)
qed simp

lemma ring_addr: "ring m xs \<Longrightarrow> a \<in> set xs \<Longrightarrow> pk_addr a = a"
  using rpath_target [of m xs "hd xs" a] by (cases xs) (auto simp: ring_def)

lemma ring_cong: "(\<And>a. a \<in> set xs \<Longrightarrow> lnk m a = lnk m' a) \<Longrightarrow> ring m xs \<longleftrightarrow> ring m' xs"
  by (simp add: ring_def cong: rpath_cong)

lemma rpath_upd [simp]: "a \<notin> set xs \<Longrightarrow> rpath (f(a := v)) xs z \<longleftrightarrow> rpath f xs z"
  by (rule rpath_cong) auto

lemma hd_ring: "hd (as @ p # qs) = hd (as @ [p])"
  by (cases as) simp_all

lemma ring_split: "ring m (as @ p # qs) \<longleftrightarrow> distinct (as @ p # qs) \<and> rpath (lnk m) as p
     \<and> lnk m p = Some (hd (qs @ [hd (as @ [p])])) \<and> rpath (lnk m) qs (hd (as @ [p]))"
  unfolding ring_def rpath_append hd_ring [of as p qs] by simp

text \<open>The values of one memory seen from another that differs only in links and counters.\<close>

lemma pay_eqD: "pay m' a = pay m a \<Longrightarrow> key_of m' a = key_of m a \<and> tag_of m' a = tag_of m a \<and> value_of m' a = value_of m a"
  by (cases "m a"; cases "m' a") (auto simp: pay_def payload_defs)

section \<open>Operations\<close>

lemma store_counter_ok:
  assumes "m a = Some n"
  shows "\<exists>m'. store_counter m a f = Some m' \<and> lnk m' = lnk m \<and> pay m' = pay m \<and> (\<forall>x. x \<noteq> a \<longrightarrow> m' x = m x)"
  using assms
  by (intro exI [of _ "m(a \<mapsto> n\<lparr>rn_list := set_list_counter (rn_list n) (f (list_counter (rn_list n)))\<rparr>)"])
     (auto simp: store_counter_def upd_node_hr_def lnk_def pay_def fun_eq_iff)

lemma list_add_hr_ok:
  assumes "ring m (as @ p # qs)" "m e = Some n" "e \<notin> set (as @ p # qs)" "pk_addr e = e"
  shows "\<exists>m'. list_add_hr m e p = Some m' \<and> ring m' (as @ p # e # qs) \<and> pay m' = pay m
     \<and> (\<forall>x. x \<noteq> p \<and> x \<noteq> e \<longrightarrow> m' x = m x)"
proof -
  from ring_dom [OF assms(1), of p] obtain np where np: "m p = Some np" by auto
  have ep: "e \<noteq> p" using assms(3) by auto
  let ?m1 = "m(e \<mapsto> n\<lparr>rn_list := rn_list np\<rparr>)"
  let ?m = "?m1(p \<mapsto> np\<lparr>rn_list := set_addr (rn_list np) e\<rparr>)"
  have run: "list_add_hr m e p = Some ?m"
    using np assms(2) ep by (simp add: list_add_hr_def raw_list_add_hr_def store_next_def store_addr_def upd_node_hr_def)
  have l: "lnk ?m = (lnk m)(e := lnk m p, p := Some e)"
    using np ep assms(4) by (auto simp: lnk_def fun_eq_iff)
  have "ring ?m (as @ p # e # qs)"
    using assms(1,3) ep unfolding ring_split l by auto
  moreover have "pay ?m = pay m" using np assms(2) ep by (auto simp: pay_def fun_eq_iff)
  ultimately show ?thesis using run by auto
qed

lemma list_del_hr_ok:
  assumes "ring m (as @ p # e # qs)"
  shows "\<exists>m'. list_del_hr m p e = Some m' \<and> ring m' (as @ p # qs) \<and> pay m' = pay m
     \<and> (\<forall>x. x \<noteq> p \<and> x \<noteq> e \<longrightarrow> m' x = m x)"
proof -
  from ring_dom [OF assms, of p] obtain np where np: "m p = Some np" by auto
  from ring_dom [OF assms, of e] obtain ne where ne: "m e = Some ne" by auto
  have ep: "e \<noteq> p" "distinct (as @ p # e # qs)" using assms by (auto simp: ring_def)
  let ?m1 = "m(p \<mapsto> np\<lparr>rn_list := set_addr (rn_list np) (pk_addr (rn_list ne))\<rparr>)"
  let ?m = "?m1(e \<mapsto> ne\<lparr>rn_list := LIST_POISON_hr\<rparr>)"
  have run: "list_del_hr m p e = Some ?m"
    using np ne ep by (simp add: list_del_hr_def list_del_by_addr_hr_def store_next_def store_addr_def upd_node_hr_def)
  have l: "lnk ?m = (lnk m)(p := lnk m e, e := Some (pk_addr LIST_POISON_hr))"
    using np ne ep by (auto simp: lnk_def fun_eq_iff)
  have "ring ?m (as @ p # qs)"
    using assms ep unfolding ring_split l by auto
  moreover have "pay ?m = pay m" using np ne ep by (auto simp: pay_def fun_eq_iff)
  ultimately show ?thesis using run by auto
qed

section \<open>Walks\<close>

lemma ring_from_ok:
  "rpath (lnk m) qs head \<Longrightarrow> head \<notin> set qs \<Longrightarrow> ring_from m head (hd (qs @ [head])) = Some qs"
proof (induction qs)
  case Nil
  then show ?case by (subst ring_from.simps) simp
next
  case (Cons q qs)
  then obtain n where "m q = Some n" "pk_addr (rn_list n) = hd (qs @ [head])" by (auto simp: lnk_def)
  with Cons show ?case by (subst ring_from.simps) auto
qed

lemma list_for_each_hr_ok:
  assumes "ring m (a # qs)"
  shows "list_for_each_hr m a = Some qs"
proof -
  from assms obtain n where "m a = Some n" "pk_addr (rn_list n) = hd (qs @ [a])" by (auto simp: ring_def lnk_def)
  with assms show ?thesis by (simp add: list_for_each_hr_def ring_from_ok ring_def)
qed

text \<open>The search on the list of nodes that the walk of \<open>__hash_get\<close> performs.\<close>

fun seek :: "(u64 \<Rightarrow> u64) \<Rightarrow> u64 \<Rightarrow> u64 \<Rightarrow> u64 list \<Rightarrow> (u64 \<times> u64) option" where
  "seek kf key p [] = None"
| "seek kf key p (q # qs) = (if kf q = key then Some (q, p)
     else if kf p < key \<and> key < kf q \<or> key < kf q \<and> kf q < kf p \<or> kf q < kf p \<and> kf p < key then None
     else seek kf key q qs)"

lemma get_loop_ok:
  assumes "rpath (lnk m) (p # qs) head" "head \<notin> set qs"
  shows "get_loop m head key p (hd (qs @ [head])) =
     (case seek (key_of m) key p qs of None \<Rightarrow> Some None
      | Some (x, pv) \<Rightarrow> map_option (\<lambda>m1. Some (x, pv, m1)) (store_counter m x (\<lambda>c. c + 1)))"
  using assms
proof (induction qs arbitrary: p)
  case Nil
  then show ?case by (subst get_loop.simps) simp
next
  case (Cons q qs)
  from Cons.prems(1) obtain np nq where n: "m p = Some np" "m q = Some nq" "pk_addr (rn_list nq) = hd (qs @ [head])"
    by (auto simp: lnk_def)
  have "q \<noteq> head" using Cons.prems(2) by auto
  from Cons.IH [of q] Cons.prems have IH: "get_loop m head key q (hd (qs @ [head])) =
     (case seek (key_of m) key q qs of None \<Rightarrow> Some None
      | Some (x, pv) \<Rightarrow> map_option (\<lambda>m1. Some (x, pv, m1)) (store_counter m x (\<lambda>c. c + 1)))" by simp
  from \<open>q \<noteq> head\<close> n IH show ?case
    by (subst get_loop.simps) (auto simp: key_of_def map_conv_bind_option comp_def split: option.split)
qed

lemma seek_ok:
  assumes "cyc_sorted (map kf (l @ p # qs))" "key \<notin> kf ` set (l @ [p])"
  shows "case seek kf key p qs of None \<Rightarrow> key \<notin> kf ` set (l @ p # qs)
     | Some (x, pv) \<Rightarrow> \<exists>us vs. qs = us @ x # vs \<and> pv = last (p # us) \<and> kf x = key \<and> key \<notin> kf ` set (l @ p # us)"
  using assms
proof (induction qs arbitrary: l p)
  case (Cons q qs)
  show ?case
  proof (cases "kf q = key")
    case True
    with Cons.prems(2) show ?thesis by force
  next
    case neq: False
    show ?thesis
    proof (cases "kf p < key \<and> key < kf q \<or> key < kf q \<and> kf q < kf p \<or> kf q < kf p \<and> kf p < key")
      case True
      have "key \<notin> kf ` set (l @ p # q # qs)"
      proof
        assume "key \<in> kf ` set (l @ p # q # qs)"
        with cyc_sorted_neighbours [of "map kf l" "kf p" "kf q" "map kf qs" key] Cons.prems(1)
        have "kf p \<le> kf q \<and> (key \<le> kf p \<or> kf q \<le> key) \<or> kf q < kf p \<and> kf q \<le> key \<and> key \<le> kf p" by (auto simp: image_Un)
        with True show False by auto
      qed
      with True neq show ?thesis by simp
    next
      case False
      from Cons.IH [of "l @ [p]" q] Cons.prems neq
      have IH: "case seek kf key q qs of None \<Rightarrow> key \<notin> kf ` set ((l @ [p]) @ q # qs)
        | Some (x, pv) \<Rightarrow> \<exists>us vs. qs = us @ x # vs \<and> pv = last (q # us) \<and> kf x = key \<and> key \<notin> kf ` set ((l @ [p]) @ q # us)"
        by simp
      show ?thesis
      proof (cases "seek kf key q qs")
        case None
        with IH False neq show ?thesis by simp
      next
        case (Some r)
        then obtain x pv where r: "seek kf key q qs = Some (x, pv)" by (cases r) auto
        with IH obtain us vs where "qs = us @ x # vs" "pv = last (q # us)" "kf x = key"
          "key \<notin> kf ` set ((l @ [p]) @ q # us)" by auto
        with r False neq show ?thesis
          by (simp only: seek.simps if_False option.case prod.case) (intro exI [of _ "q # us"] exI [of _ vs], simp)
      qed
    qed
  qed
qed simp

text \<open>The list of nodes that the walk of \<open>__hash_create\<close> leaves.\<close>

fun ring_ins :: "(u64 \<Rightarrow> u64) \<Rightarrow> u64 \<Rightarrow> u64 \<Rightarrow> u64 \<Rightarrow> u64 list \<Rightarrow> u64 list" where
  "ring_ins tf t e p [] = [e]"
| "ring_ins tf t e p (q # qs) =
     (if tf q < tf p \<and> (t \<le> tf q \<or> tf p < t) \<or> tf p < t \<and> t \<le> tf q then e # q # qs else q # ring_ins tf t e q qs)"

lemma ring_ins_mset: "mset (ring_ins tf t e p qs) = add_mset e (mset qs)"
  by (induction tf t e p qs rule: ring_ins.induct) auto

lemma ring_ins_set: "set (ring_ins tf t e p qs) = insert e (set qs)"
  using ring_ins_mset [of tf t e p qs] by (metis set_mset_mset set_mset_add_mset_insert)

lemma ring_ins_cong:
  "(\<And>x. x \<in> set (p # qs) \<Longrightarrow> tf x = tf' x) \<Longrightarrow> ring_ins tf t e p qs = ring_ins tf' t e p qs"
  by (induction qs arbitrary: p) auto

lemma ring_ins_tags:
  "e \<notin> set (p # qs) \<Longrightarrow> map (tf(e := t)) (ring_ins tf t e p qs) = cyc_ins t (tf p) (map tf qs)"
  by (induction tf t e p qs rule: ring_ins.induct) auto

lemma create_loop_hr_ok:
  assumes "ring m (l @ p # qs)" "m e = Some n" "e \<notin> set (l @ p # qs)" "pk_addr e = e" "head = hd (l @ [p])"
  shows "\<exists>m1 added pv m2. create_loop_hr m head e t p (hd (qs @ [head])) = Some (m1, added, pv)
     \<and> (if \<not> added then list_add_hr m1 e pv else Some m1) = Some m2
     \<and> ring m2 (l @ p # ring_ins (tag_of m) t e p qs) \<and> pay m2 = pay m
     \<and> (\<forall>x. x \<notin> set (e # l @ p # qs) \<longrightarrow> m2 x = m x)"
  using assms
proof (induction qs arbitrary: l p)
  case Nil
  from list_add_hr_ok [OF Nil.prems(1-4)] Nil.prems(5) show ?case by (subst create_loop_hr.simps) fastforce
next
  case (Cons q qs)
  from ring_dom [OF Cons.prems(1)] obtain np where np: "m p = Some np" by auto
  from ring_dom [OF Cons.prems(1)] obtain nq where nq: "m q = Some nq" by auto
  have lq: "pk_addr (rn_list nq) = hd (qs @ [head])"
    using Cons.prems(1,5) nq by (auto simp: ring_split lnk_def)
  have "q \<noteq> head" using Cons.prems(1,5) by (cases l) (auto simp: ring_def)
  let ?c = "rn_tag nq < rn_tag np \<and> (t \<le> rn_tag nq \<or> rn_tag np < t) \<or> rn_tag np < t \<and> t \<le> rn_tag nq"
  show ?case
  proof (cases ?c)
    case True
    from list_add_hr_ok [OF Cons.prems(1-4)] obtain m' where m': "list_add_hr m e p = Some m'"
      "ring m' (l @ p # e # q # qs)" "pay m' = pay m" "\<forall>x. x \<noteq> p \<and> x \<noteq> e \<longrightarrow> m' x = m x" by blast
    have "create_loop_hr m head e t p (hd ((q # qs) @ [head])) = Some (m', True, p)"
      using True m'(1) np nq \<open>q \<noteq> head\<close> by (subst create_loop_hr.simps) auto
    moreover have "ring_ins (tag_of m) t e p (q # qs) = e # q # qs" using True np nq by (auto simp: tag_of_def)
    ultimately show ?thesis using m'(2-4) by auto
  next
    case False
    have "create_loop_hr m head e t p (hd ((q # qs) @ [head])) = create_loop_hr m head e t q (hd (qs @ [head]))"
      using False np nq \<open>q \<noteq> head\<close> lq by (subst create_loop_hr.simps) auto
    moreover have "ring_ins (tag_of m) t e p (q # qs) = q # ring_ins (tag_of m) t e q qs"
      using False np nq by (auto simp: tag_of_def)
    moreover have "head = hd ((l @ [p]) @ [q])" using Cons.prems(5) by (cases l) auto
    ultimately show ?thesis using Cons.IH [of "l @ [p]" q] Cons.prems(1-4) by simp
  qed
qed

end
