(* ===== verification/HotRing_Shift.thy ===== *)
theory HotRing_Shift
  imports HotRing
begin

text \<open>
  The reorganising half of \<open>src/hotring/hotring.c\<close>: the rehash that doubles the table, the hot-spot
  shift that moves a head pointer, the public \<open>hash_get\<close> that triggers them, and \<open>display\<close>.
  The shift computes in \<open>double\<close>; its operations are a parameter of the model, so that what is
  proved holds for every arithmetic.
\<close>

section \<open>Display\<close>

fun read_nodes :: "hr_nodes \<Rightarrow> u64 list \<Rightarrow> (u64 \<times> u64 \<times> u64) list option" where
  "read_nodes m [] = Some []"
| "read_nodes m (p # ps) = do {
     n \<leftarrow> m p; rest \<leftarrow> read_nodes m ps; Some ((rn_key n, rn_tag n, rn_value n) # rest) }"

definition display_bucket_hr :: "hr_hash \<Rightarrow> hr_state \<Rightarrow> u64 \<Rightarrow> (u64 \<times> u64 \<times> u64) list option" where
  "display_bucket_hr h s i = do {
     (found, node) \<leftarrow> raw_hash_get_first h s i;
     case node of
       None \<Rightarrow> Some []
     | Some n \<Rightarrow> do { ps \<leftarrow> list_for_each_hr (hs_nodes s) n; read_nodes (hs_nodes s) (n # ps) }
   }"

fun display_from_hr :: "hr_hash \<Rightarrow> hr_state \<Rightarrow> nat \<Rightarrow> nat \<Rightarrow> (u64 \<times> u64 \<times> u64) list list option" where
  "display_from_hr h s i 0 = Some []"
| "display_from_hr h s i (Suc k) = do {
     xs \<leftarrow> display_bucket_hr h s (of_nat i);
     rest \<leftarrow> display_from_hr h s (Suc i) k;
     Some (xs # rest)
   }"

definition display_hr :: "hr_hash \<Rightarrow> hr_state \<Rightarrow> (u64 \<times> u64 \<times> u64) list list option" where
  "display_hr h s = display_from_hr h s 0 (unat (hr_size h))"

section \<open>Rehash\<close>

text \<open>A new head structure whose one word points to the node, at a slot of the new table.\<close>

definition hang_head :: "hr_hash \<Rightarrow> hr_state \<Rightarrow> u64 \<Rightarrow> u64 \<Rightarrow> (hr_hash \<times> hr_state) option" where
  "hang_head new s i node = do {
     let (head_pointer, s1) = head_alloc_hr s;
     new1 \<leftarrow> store_slot_hr new i head_pointer;
     w \<leftarrow> hs_heads s1 head_pointer;
     Some (new1, s1\<lparr>hs_heads := (hs_heads s1)(head_pointer \<mapsto> node)\<rparr>)
   }"

definition milestone :: "hr_hash \<Rightarrow> hr_state \<Rightarrow> nat \<Rightarrow> u64 \<Rightarrow> u64 \<Rightarrow> (u64 \<times> hr_hash \<times> hr_state) option" where
  "milestone h s i key tag = do {
     (error, node, h1, s1) \<leftarrow> raw_hash_create h s (of_nat i) tag;
     (error2, s2) \<leftarrow> insert_entries_hr s1 node key tag 0;
     Some (node, h1, s2)
   }"

fun rehash_init_loop ::
  "int \<Rightarrow> u64 \<Rightarrow> hr_hash \<Rightarrow> hr_hash \<Rightarrow> hr_state \<Rightarrow> nat \<Rightarrow> nat \<Rightarrow> (hr_hash \<times> hr_hash \<times> hr_state) option" where
  "rehash_init_loop bits halfTag h new s i 0 = Some (h, new, s)"
| "rehash_init_loop bits halfTag h new s i (Suc k) = do {
     slot \<leftarrow> load_slot_hr h (of_nat i);
     if slot \<noteq> 0 then do {
       base \<leftarrow> shl_int (int i) bits;
       (node, h1, s1) \<leftarrow> milestone h s i (word_of_int base + halfTag) halfTag;
       (new1, s2) \<leftarrow> hang_head new s1 (of_nat (i * 2 + 1)) node;
       (node2, h2, s3) \<leftarrow> milestone h1 s2 i (word_of_int base) 0;
       (new2, s4) \<leftarrow> hang_head new1 s3 (of_nat (i * 2)) node2;
       rehash_init_loop bits halfTag h2 new2 s4 (Suc i) k
     }
     else rehash_init_loop bits halfTag h new s (Suc i) k
   }"

text \<open>
  \<open>hotring_rehash_init\<close>.  A new table that is NULL faults at its first use, in this function or
  in its caller; the model faults here.
\<close>

definition hotring_rehash_init :: "hr_hash \<Rightarrow> hr_state \<Rightarrow> (hr_hash \<times> hr_hash \<times> hr_state) option" where
  "hotring_rehash_init h s = do {
     let hash_tag_bits = sint (ucast (hr_n h - hr_k h) :: u32);
     maxTag \<leftarrow> shl_ulong 1 hash_tag_bits;
     halfTag \<leftarrow> shl_ulong 1 (hash_tag_bits - 1);
     (newp, s1) \<leftarrow> hash_alloc_hr s NBITS (hr_k h + 1);
     new \<leftarrow> newp;
     rehash_init_loop hash_tag_bits halfTag h new s1 0 (unat (hr_size h))
   }"

text \<open>
  The split of one ring: the links of the two tails are overwritten as whole words.  A milestone
  that is not found leaves a NULL tail, and the store through it faults.
\<close>

definition split_ring :: "int \<Rightarrow> u64 \<Rightarrow> hr_hash \<Rightarrow> hr_state \<Rightarrow> nat \<Rightarrow> hr_state option" where
  "split_ring bits halfTag h s i = do {
     base \<leftarrow> shl_int (int i) bits;
     (r1, ring1_head, ring2_tail, s1) \<leftarrow> raw_hash_get h s (word_of_int base);
     (r2, ring2_head, ring1_tail, s2) \<leftarrow> raw_hash_get h s1 (word_of_int base + halfTag);
     h1 \<leftarrow> ring1_head;
     h2 \<leftarrow> ring2_head;
     m1 \<leftarrow> store_next (hs_nodes s2) ring1_tail h1;
     m2 \<leftarrow> store_next m1 ring2_tail h2;
     Some (s2\<lparr>hs_nodes := m2\<rparr>)
   }"

fun split_loop :: "int \<Rightarrow> u64 \<Rightarrow> hr_hash \<Rightarrow> hr_state \<Rightarrow> nat \<Rightarrow> nat \<Rightarrow> hr_state option" where
  "split_loop bits halfTag h s i 0 = Some s"
| "split_loop bits halfTag h s i (Suc k) = do {
     slot \<leftarrow> load_slot_hr h (of_nat i);
     if slot \<noteq> 0 then do { s1 \<leftarrow> split_ring bits halfTag h s i; split_loop bits halfTag h s1 (Suc i) k }
     else split_loop bits halfTag h s (Suc i) k
   }"

fun delete_heads_loop :: "hr_hash \<Rightarrow> hr_state \<Rightarrow> nat \<Rightarrow> nat \<Rightarrow> (hr_hash \<times> hr_state) option" where
  "delete_heads_loop new s i 0 = Some (new, s)"
| "delete_heads_loop new s i (Suc k) = do {
     slot \<leftarrow> load_slot_hr new (of_nat i);
     if slot \<noteq> 0 then do { (del, new1, s1) \<leftarrow> hotring_delete_head new s (of_nat i); delete_heads_loop new1 s1 (Suc i) k }
     else delete_heads_loop new s (Suc i) k
   }"

definition hotring_rehash :: "hr_hash \<Rightarrow> hr_state \<Rightarrow> (hr_hash \<times> hr_state) option" where
  "hotring_rehash h s = do {
     (h1, new, s1) \<leftarrow> hotring_rehash_init h s;
     let hash_tag_bits = sint (ucast (hr_n h1 - hr_k h1) :: u32);
     halfTag \<leftarrow> shl_ulong 1 (hash_tag_bits - 1);
     s2 \<leftarrow> split_loop hash_tag_bits halfTag h1 s1 0 (unat (hr_size h1));
     (new1, s3) \<leftarrow> delete_heads_loop new s2 0 (unat (hr_size new));
     shown \<leftarrow> display_hr new1 s3;
     Some (new1, s3)
   }"

section \<open>Hot-spot shift\<close>

record 'd double_ops =
  d_of_int :: "int \<Rightarrow> 'd"
  d_add :: "'d \<Rightarrow> 'd \<Rightarrow> 'd"
  d_mul :: "'d \<Rightarrow> 'd \<Rightarrow> 'd"
  d_div :: "'d \<Rightarrow> 'd \<Rightarrow> 'd"
  d_less :: "'d \<Rightarrow> 'd \<Rightarrow> bool"
  d_eq :: "'d \<Rightarrow> 'd \<Rightarrow> bool"

datatype hotspot_shift_t = SHIFT_REHASH | SHIFT_SUCCESS

text \<open>
  The walk that reads and resets the counters; \<open>nr\<close> is the index of the last counter written,
  and a store past the array of 100000 counters faults.
\<close>

partial_function (option) counters_loop :: "hr_nodes \<Rightarrow> u64 \<Rightarrow> int \<Rightarrow> u64 \<Rightarrow> (int list \<times> hr_nodes) option" where
  "counters_loop m head nr pos = (if pos = head then Some ([], m)
     else do {
       n \<leftarrow> m pos;
       if nr + 1 \<ge> 100000 then None
       else do {
         m1 \<leftarrow> store_counter m pos (\<lambda>_. 0);
         (cs, m2) \<leftarrow> counters_loop m1 head (nr + 1) (pk_addr (rn_list n));
         Some (uint (list_counter (rn_list n)) # cs, m2)
       }
     })"

declare counters_loop.simps [code]

definition income_of :: "'d double_ops \<Rightarrow> 'd \<Rightarrow> int list \<Rightarrow> int \<Rightarrow> 'd" where
  "income_of D total_counter counters t =
     foldl (\<lambda>income i. d_add D income
              (d_mul D (d_div D (d_of_int D (counters ! i)) total_counter)
                       (d_of_int D \<bar>(int i - t) smod int (length counters)\<bar>)))
       (d_of_int D 0) [0..<length counters]"

text \<open>The search for the cheapest position: least income, its index, and the income of the head.\<close>

definition find_hottest :: "'d double_ops \<Rightarrow> 'd \<Rightarrow> int list \<Rightarrow> 'd \<times> nat \<times> 'd" where
  "find_hottest D total_counter counters =
     foldl (\<lambda>(min_income, nr_hottest, head_income) t.
         let income = income_of D total_counter counters (int t);
             head_income1 = (if t = 0 then income else head_income) in
         if d_less D income min_income then (income, t, head_income1) else (min_income, nr_hottest, head_income1))
       (d_of_int D 1000000000, 0, d_of_int D 0) [0..<length counters]"

partial_function (option) hottest_loop :: "hr_nodes \<Rightarrow> u64 \<Rightarrow> nat \<Rightarrow> nat \<Rightarrow> u64 \<Rightarrow> u64 option" where
  "hottest_loop m head nr_hottest i pos = (if pos = head then Some 0
     else if i = nr_hottest then Some pos
     else do { n \<leftarrow> m pos; hottest_loop m head nr_hottest (i + 1) (pk_addr (rn_list n)) })"

declare hottest_loop.simps [code]

definition upd_head :: "hr_state \<Rightarrow> u64 \<Rightarrow> (u64 \<Rightarrow> u64) \<Rightarrow> hr_state option" where
  "upd_head s head f = (case hs_heads s head of None \<Rightarrow> None | Some w \<Rightarrow> Some (s\<lparr>hs_heads := (hs_heads s)(head \<mapsto> f w)\<rparr>))"

definition stay_hot :: "hr_state \<Rightarrow> u64 \<Rightarrow> (hotspot_shift_t \<times> hr_state) option" where
  "stay_hot s head = do {
     s1 \<leftarrow> upd_head s head (\<lambda>w. set_head_counter w 0);
     s2 \<leftarrow> upd_head s1 head (\<lambda>w. set_head_active w False);
     Some (SHIFT_SUCCESS, s2)
   }"

definition do_hotspot_shift :: "'d double_ops \<Rightarrow> hr_state \<Rightarrow> u64 \<Rightarrow> u64 \<Rightarrow> (hotspot_shift_t \<times> hr_state) option" where
  "do_hotspot_shift D s head head_node = do {
     s1 \<leftarrow> upd_head s head (\<lambda>w. set_head_active w True);
     w \<leftarrow> hs_heads s1 head;
     let total_counter = d_of_int D (uint (head_counter w));
     hn \<leftarrow> hs_nodes s1 head_node;
     m1 \<leftarrow> store_counter (hs_nodes s1) head_node (\<lambda>_. 0);
     (cs, m2) \<leftarrow> counters_loop m1 head_node 0 (pk_addr (rn_list hn));
     let s2 = s1\<lparr>hs_nodes := m2\<rparr>;
     let (min_income, nr_hottest, head_income) =
       find_hottest D total_counter (uint (list_counter (rn_list hn)) # cs);
     if d_eq D min_income head_income then stay_hot s2 head
     else do {
       hn2 \<leftarrow> m2 head_node;
       hottest \<leftarrow> hottest_loop m2 head_node nr_hottest 1 (pk_addr (rn_list hn2));
       s3 \<leftarrow> upd_head s2 head (\<lambda>_. hottest);
       if d_less D (d_of_int D INCOME_THRESHOLD) min_income then Some (SHIFT_REHASH, s3)
       else stay_hot s3 head
     }
   }"

definition hotspot_shift :: "'d double_ops \<Rightarrow> hr_hash \<Rightarrow> hr_state \<Rightarrow> u64 \<Rightarrow> (hr_hash \<times> hr_state) option" where
  "hotspot_shift D h s index = do {
     head_pointer \<leftarrow> load_slot_hr h index;
     head_node \<leftarrow> get_head_node_by_head_pointer s head_pointer;
     (ret, s1) \<leftarrow> do_hotspot_shift D s head_pointer head_node;
     case ret of SHIFT_SUCCESS \<Rightarrow> Some (h, s1) | SHIFT_REHASH \<Rightarrow> hotring_rehash h s1
   }"

section \<open>The public lookup\<close>

definition hash_get_hr ::
  "'d double_ops \<Rightarrow> hr_hash \<Rightarrow> hr_state \<Rightarrow> u64 \<Rightarrow> (int \<times> u64 option \<times> u64 \<times> hr_hash \<times> hr_state) option" where
  "hash_get_hr D h s key = (if hs_request s = 2 ^ 31 - 1 then None
     else do {
       let s1 = s\<lparr>hs_request := hs_request s + 1\<rparr>;
       (ret, nodep, prevp, s2) \<leftarrow> raw_hash_get h s1 key;
       (hashIndex, hashTag) \<leftarrow> hashCode_hr h key;
       case ret of
         GET_SUCCESS \<Rightarrow> Some (1, nodep, prevp, h, s2)
       | GET_ACCESS_HOT \<Rightarrow> Some (1, nodep, prevp, h, s2)
       | GET_ACCESS_COLD \<Rightarrow>
           if 5 \<le> hs_request s2 then do {
             (h1, s3) \<leftarrow> hotspot_shift D h s2 hashIndex;
             Some (1, nodep, prevp, h1, s3\<lparr>hs_request := 0\<rparr>)
           }
           else Some (1, nodep, prevp, h, s2)
       | GET_NOT_FOUND \<Rightarrow> Some (0, nodep, prevp, h, s2)
     })"

section \<open>Slot iterator\<close>

record hash_iter_hr =
  it_index :: u64
  it_next_index :: u64
  it_node :: u64

definition hash_iter_init_hr :: "hash_iter_hr \<Rightarrow> u64 \<Rightarrow> hash_iter_hr" where
  "hash_iter_init_hr iter start = iter\<lparr>it_index := 0, it_next_index := start\<rparr>"

definition hash_iter_add_hr :: "hash_iter_hr \<Rightarrow> u64 \<Rightarrow> u64" where
  "hash_iter_add_hr iter slots = it_index iter + slots"

fun next_slot_loop_hr :: "hr_hash \<Rightarrow> nat \<Rightarrow> nat \<Rightarrow> hash_iter_hr \<Rightarrow> (nat option \<times> hash_iter_hr) option" where
  "next_slot_loop_hr h 0 slot iter = Some (None, iter)"
| "next_slot_loop_hr h (Suc cnt) slot iter = do {
     let iter1 = iter\<lparr>it_index := hash_iter_add_hr iter 1\<rparr>;
     entry \<leftarrow> (if Suc slot < length (hr_slots h) then Some (hr_slots h ! Suc slot) else None);
     if entry \<noteq> 0 then Some (Some (Suc slot), iter1) else next_slot_loop_hr h cnt (Suc slot) iter1
   }"

definition hash_next_slot_hr :: "hr_hash \<Rightarrow> nat \<Rightarrow> hash_iter_hr \<Rightarrow> (nat option \<times> hash_iter_hr) option" where
  "hash_next_slot_hr h slot iter = next_slot_loop_hr h 19 slot iter"

end
