(* ===== verification/HotRing_Table.thy ===== *)
theory HotRing_Table
  imports HotRing_Ring HotRing_Shift
begin

text \<open>
  The representation invariant of the hot-ring table, relative to the rings \<open>R i\<close> of its buckets,
  and the effect of lookup, insertion and deletion on it.
\<close>

section \<open>Geometry\<close>

definition nb :: "hr_hash \<Rightarrow> nat" where "nb h = unat (hr_n h)"
definition kb :: "hr_hash \<Rightarrow> nat" where "kb h = unat (hr_k h)"
definition tb :: "hr_hash \<Rightarrow> nat" where "tb h = nb h - kb h"

definition geo :: "hr_hash \<Rightarrow> bool" where
  "geo h \<longleftrightarrow> kb h \<le> nb h \<and> nb h < 64 \<and> tb h \<le> 30 \<and> kb h \<le> 30 \<and> length (hr_slots h) = 2 ^ kb h \<and> unat (hr_size h) = 2 ^ kb h"

definition slot_of :: "hr_hash \<Rightarrow> u64 \<Rightarrow> nat" where "slot_of h key = unat key div 2 ^ tb h"

lemma shl_int_1: "0 \<le> b \<Longrightarrow> b \<le> 30 \<Longrightarrow> shl_int 1 b = Some (2 ^ nat b)"
proof -
  assume b: "0 \<le> b" "b \<le> 30"
  then have "(2 :: int) ^ nat b \<le> 2 ^ 30" by (intro power_increasing) auto
  with b show ?thesis by (simp add: shl_int_def)
qed

lemma unat_pow2_word: "b < 64 \<Longrightarrow> unat (word_of_int (2 ^ b) :: u64) = 2 ^ b"
proof -
  assume b: "b < 64"
  then have "(2 :: int) ^ b < 2 ^ 64" by (intro power_strict_increasing) auto
  then have "uint (word_of_int (2 ^ b) :: u64) = 2 ^ b" by (simp only: uint_word_of_int) simp
  then have "nat (uint (word_of_int (2 ^ b) :: u64)) = 2 ^ b" by (simp only: nat_power_eq) simp
  then show ?thesis by (simp only: unat_eq_nat_uint)
qed

lemma hashCode_hr_ok:
  assumes "geo h"
  shows "\<exists>ix tg. hashCode_hr h key = Some (ix, tg) \<and> unat ix = slot_of h key \<and> unat tg = unat key mod 2 ^ tb h"
proof -
  from assms have g: "kb h \<le> nb h" "nb h < 64" "tb h \<le> 30" by (simp_all add: geo_def)
  have un: "uint (hr_n h) = int (nb h)" by (simp add: nb_def)
  have "hr_k h \<le> hr_n h" using g(1) by (simp only: nb_def kb_def word_le_nat_alt)
  then have "unat (hr_n h - hr_k h) = tb h" by (simp only: tb_def nb_def kb_def unat_sub)
  then have sub: "uint (hr_n h - hr_k h) = int (tb h)" by (simp only: uint_nat)
  have t: "unat (word_of_int (2 ^ tb h) :: u64) = 2 ^ tb h" using g(3) by (intro unat_pow2_word) simp
  have "push_bit (nb h) 1 = (word_of_int (2 ^ nb h) :: u64)" by (simp add: push_bit_eq_mult)
  then have range: "unat (push_bit (nb h) 1 :: u64) = 2 ^ nb h" using unat_pow2_word [OF g(2)] by simp
  have dvd: "(2 :: nat) ^ tb h dvd 2 ^ nb h" by (simp add: le_imp_power_dvd tb_def)
  have "hashCode_hr h key = Some (key div word_of_int (2 ^ tb h), key mod push_bit (nb h) 1 mod word_of_int (2 ^ tb h))"
    using g shl_int_1 [of "int (tb h)"] by (simp add: hashCode_hr_def shl_ulong_def un sub)
  then show ?thesis
    using t range by (simp add: slot_of_def unat_div unat_mod mod_mod_cancel [OF dvd])
qed

section \<open>Invariant\<close>

definition bucket_hr :: "hr_hash \<Rightarrow> hr_state \<Rightarrow> nat \<Rightarrow> u64 list \<Rightarrow> bool" where
  "bucket_hr h s i xs \<longleftrightarrow>
     (if hr_slots h ! i = 0 then xs = []
      else map_option pk_addr (hs_heads s (hr_slots h ! i)) = Some (hd xs) \<and> ring (hs_nodes s) xs
        \<and> cyc_sorted (map (key_of (hs_nodes s)) xs) \<and> (\<forall>x \<in> set xs. slot_of h (key_of (hs_nodes s) x) = i))"

definition hr_rep :: "hr_hash \<Rightarrow> hr_state \<Rightarrow> (nat \<Rightarrow> u64 list) \<Rightarrow> bool" where
  "hr_rep h s R \<longleftrightarrow> geo h \<and> (\<forall>i < 2 ^ kb h. bucket_hr h s i (R i))
     \<and> (\<forall>i < 2 ^ kb h. \<forall>j < 2 ^ kb h. i \<noteq> j \<longrightarrow> set (R i) \<inter> set (R j) = {}
          \<and> (hr_slots h ! i \<noteq> 0 \<longrightarrow> hr_slots h ! i \<noteq> hr_slots h ! j))
     \<and> distinct (hs_avail s) \<and> set (hs_avail s) \<inter> (dom (hs_nodes s) \<union> dom (hs_heads s)) = {}
     \<and> (\<forall>a \<in> set (hs_avail s). pk_addr a = a) \<and> 0 \<notin> dom (hs_nodes s)"

text \<open>Every node carries the tag of its key: what insertion relies on beside the order of the keys.\<close>

definition tags_ok :: "hr_hash \<Rightarrow> hr_state \<Rightarrow> (nat \<Rightarrow> u64 list) \<Rightarrow> bool" where
  "tags_ok h s R \<longleftrightarrow> (\<forall>i < 2 ^ kb h. \<forall>x \<in> set (R i).
     unat (tag_of (hs_nodes s) x) = unat (key_of (hs_nodes s) x) mod 2 ^ tb h)"

definition room_hr :: "hr_state \<Rightarrow> nat \<Rightarrow> bool" where
  "room_hr s k \<longleftrightarrow> k \<le> length (hs_avail s) \<and> 0 \<notin> set (hs_avail s)"

lemma hr_repD:
  assumes "hr_rep h s R"
  shows "geo h" "i < 2 ^ kb h \<Longrightarrow> bucket_hr h s i (R i)" "0 \<notin> dom (hs_nodes s)"
    "i < 2 ^ kb h \<Longrightarrow> j < 2 ^ kb h \<Longrightarrow> i \<noteq> j \<Longrightarrow> set (R i) \<inter> set (R j) = {}"
    "i < 2 ^ kb h \<Longrightarrow> j < 2 ^ kb h \<Longrightarrow> i \<noteq> j \<Longrightarrow> hr_slots h ! i \<noteq> 0 \<Longrightarrow> hr_slots h ! i \<noteq> hr_slots h ! j"
  using assms unfolding hr_rep_def by auto

text \<open>States that differ only in counters and flags.\<close>

definition heads_view :: "hr_state \<Rightarrow> u64 \<rightharpoonup> u64" where
  "heads_view s p = map_option pk_addr (hs_heads s p)"

definition same_view :: "hr_state \<Rightarrow> hr_state \<Rightarrow> bool" where
  "same_view s s' \<longleftrightarrow> lnk (hs_nodes s') = lnk (hs_nodes s) \<and> pay (hs_nodes s') = pay (hs_nodes s)
     \<and> heads_view s' = heads_view s \<and> hs_avail s' = hs_avail s"

lemma same_view_refl [simp]: "same_view s s"
  by (simp add: same_view_def)

lemma same_view_trans: "same_view s s1 \<Longrightarrow> same_view s1 s2 \<Longrightarrow> same_view s s2"
  by (simp add: same_view_def)

lemma dom_pay: "dom (pay m) = dom m"
  by (auto simp: pay_def)

lemma dom_heads_view: "dom (heads_view s) = dom (hs_heads s)"
  by (auto simp: heads_view_def)

lemma pay_eq_funs:
  assumes "pay m' = pay m"
  shows "key_of m' = key_of m" "tag_of m' = tag_of m" "value_of m' = value_of m"
  using pay_eqD [of m' _ m] assms by (auto simp: fun_eq_iff)

lemma heads_view_nodes [simp]: "heads_view (s\<lparr>hs_nodes := m\<rparr>) = heads_view s" "heads_view (s\<lparr>hs_avail := as\<rparr>) = heads_view s"
  by (simp_all add: heads_view_def fun_eq_iff)

lemma bucket_cong:
  assumes "hr_slots h' ! i = hr_slots h ! i" "tb h' = tb h" "heads_view s' (hr_slots h ! i) = heads_view s (hr_slots h ! i)"
    and "\<And>x. x \<in> set xs \<Longrightarrow> lnk (hs_nodes s') x = lnk (hs_nodes s) x \<and> pay (hs_nodes s') x = pay (hs_nodes s) x"
  shows "bucket_hr h' s' i xs \<longleftrightarrow> bucket_hr h s i xs"
proof -
  have k: "x \<in> set xs \<Longrightarrow> key_of (hs_nodes s') x = key_of (hs_nodes s) x" for x
    using assms(4) pay_eqD by blast
  then have "map (key_of (hs_nodes s')) xs = map (key_of (hs_nodes s)) xs" by simp
  moreover have "ring (hs_nodes s') xs \<longleftrightarrow> ring (hs_nodes s) xs" using assms(4) by (intro ring_cong) blast
  ultimately show ?thesis
    using assms(1-3) k by (simp add: bucket_hr_def slot_of_def flip: heads_view_def cong: ball_cong map_cong)
qed

lemma same_view_rep:
  assumes "hr_rep h s R" "same_view s s'"
  shows "hr_rep h s' R" "tags_ok h s R \<Longrightarrow> tags_ok h s' R" "room_hr s' k \<longleftrightarrow> room_hr s k"
proof -
  have v: "lnk (hs_nodes s') = lnk (hs_nodes s)" "pay (hs_nodes s') = pay (hs_nodes s)"
    "heads_view s' = heads_view s" "hs_avail s' = hs_avail s" using assms(2) by (auto simp: same_view_def)
  have d: "dom (hs_nodes s') = dom (hs_nodes s)" "dom (hs_heads s') = dom (hs_heads s)"
    using v(2,3) by (metis dom_pay, metis dom_heads_view)
  have "bucket_hr h s' i (R i) \<longleftrightarrow> bucket_hr h s i (R i)" for i using v by (intro bucket_cong) auto
  with assms(1) d v(4) show "hr_rep h s' R" by (simp add: hr_rep_def)
  show "tags_ok h s R \<Longrightarrow> tags_ok h s' R" using pay_eq_funs [OF v(2)] by (simp add: tags_ok_def)
  show "room_hr s' k \<longleftrightarrow> room_hr s k" using v(4) by (simp add: room_hr_def)
qed

section \<open>Lookup\<close>

text \<open>What a lookup returns on a ring: the first node with the key, counted from the head.\<close>

definition get_out :: "hr_nodes \<Rightarrow> u64 \<Rightarrow> u64 list \<Rightarrow> hash_get_t \<times> u64 option \<times> u64" where
  "get_out m key xs = (case dropWhile (\<lambda>x. key_of m x \<noteq> key) xs of
      [] \<Rightarrow> (GET_NOT_FOUND, None, 0)
    | x # vs \<Rightarrow> if key_of m (hd xs) = key then (GET_ACCESS_HOT, Some x, 0)
                else (GET_ACCESS_COLD, Some x, last (takeWhile (\<lambda>x. key_of m x \<noteq> key) xs)))"

lemma get_out_miss: "key \<notin> key_of m ` set xs \<Longrightarrow> get_out m key xs = (GET_NOT_FOUND, None, 0)"
proof -
  assume "key \<notin> key_of m ` set xs"
  then have "dropWhile (\<lambda>x. key_of m x \<noteq> key) xs = []" by (auto simp: dropWhile_eq_Nil_conv)
  then show ?thesis by (simp only: get_out_def list.case)
qed

lemma get_out_hit:
  assumes "key \<notin> key_of m ` set us" "key_of m x = key"
  shows "get_out m key (us @ x # vs) =
     (if us = [] then (GET_ACCESS_HOT, Some x, 0) else (GET_ACCESS_COLD, Some x, last us))"
proof -
  have "dropWhile (\<lambda>x. key_of m x \<noteq> key) (us @ x # vs) = x # vs"
    "takeWhile (\<lambda>x. key_of m x \<noteq> key) (us @ x # vs) = us"
    using assms by (auto simp: dropWhile_append takeWhile_append dropWhile_eq_Nil_conv image_iff)
  with assms show ?thesis by (cases us) (auto simp: get_out_def)
qed

lemma bucketD:
  assumes "bucket_hr h s i xs" "hr_slots h ! i \<noteq> 0"
  shows "\<exists>w qs. hs_heads s (hr_slots h ! i) = Some w \<and> xs = pk_addr w # qs \<and> ring (hs_nodes s) xs"
    "cyc_sorted (map (key_of (hs_nodes s)) xs)" "\<forall>x \<in> set xs. slot_of h (key_of (hs_nodes s) x) = i"
  using assms by (cases xs; auto simp: bucket_hr_def ring_def)+

lemma slot_bound: "geo h \<Longrightarrow> unat key < 2 ^ nb h \<Longrightarrow> slot_of h key < 2 ^ kb h"
proof -
  assume g: "geo h" and k: "unat key < 2 ^ nb h"
  have "(2 :: nat) ^ nb h = 2 ^ kb h * 2 ^ tb h" using g by (simp add: tb_def geo_def flip: power_add)
  with k show ?thesis by (simp add: slot_of_def less_mult_imp_div_less)
qed

text \<open>The search behind a head whose key is another one.\<close>

lemma get_loop_out:
  assumes r: "ring m (a # qs)" and srt: "cyc_sorted (map (key_of m) (a # qs))" and a: "key_of m a \<noteq> key"
  obtains (miss) "get_loop m a key a (hd (qs @ [a])) = Some None" "get_out m key (a # qs) = (GET_NOT_FOUND, None, 0)"
  | (hit) x pv m1 where "get_loop m a key a (hd (qs @ [a])) = Some (Some (x, pv, m1))"
      "get_out m key (a # qs) = (GET_ACCESS_COLD, Some x, pv)" "lnk m1 = lnk m" "pay m1 = pay m"
      "\<forall>y. y \<notin> set (a # qs) \<longrightarrow> m1 y = m y"
proof -
  have pn: "rpath (lnk m) (a # qs) a" "a \<notin> set qs" using r by (auto simp: ring_def)
  note gl = get_loop_ok [OF pn, of key]
  have "key \<notin> key_of m ` set ([] @ [a])" using a by simp
  from seek_ok [OF _ this, of qs] srt have sk: "case seek (key_of m) key a qs of None \<Rightarrow> key \<notin> key_of m ` set (a # qs)
    | Some (x, pv) \<Rightarrow> \<exists>us vs. qs = us @ x # vs \<and> pv = last (a # us) \<and> key_of m x = key \<and> key \<notin> key_of m ` set (a # us)"
    by (simp only: append_Nil list.map)
  show thesis
  proof (cases "seek (key_of m) key a qs")
    case None
    with sk gl get_out_miss [of key m "a # qs"] show ?thesis by (intro miss) simp_all
  next
    case (Some y)
    then obtain x pv where y: "seek (key_of m) key a qs = Some (x, pv)" by (cases y) auto
    with sk obtain us vs where uv: "qs = us @ x # vs" "pv = last (a # us)" "key_of m x = key"
      "key \<notin> key_of m ` set (a # us)" by auto
    from ring_dom [OF r, of x] uv(1) obtain nx where nx: "m x = Some nx" by auto
    from store_counter_ok [where m = m and f = "\<lambda>c. c + 1", OF nx] obtain m1 where
      m1: "store_counter m x (\<lambda>c. c + 1) = Some m1" "lnk m1 = lnk m" "pay m1 = pay m" "\<forall>z. z \<noteq> x \<longrightarrow> m1 z = m z" by blast
    show ?thesis
    proof (rule hit [OF _ _ m1(2,3)])
      show "get_loop m a key a (hd (qs @ [a])) = Some (Some (x, pv, m1))" using gl y m1(1) by simp
      show "get_out m key (a # qs) = (GET_ACCESS_COLD, Some x, pv)" using get_out_hit [OF uv(4,3), of vs] uv(1,2) by simp
      show "\<forall>z. z \<notin> set (a # qs) \<longrightarrow> m1 z = m z" using m1(4) uv(1) by simp
    qed
  qed
qed

lemma raw_hash_get_used:
  assumes ix: "hashCode_hr h key = Some (ix, tg)" "load_slot_hr h ix = Some p" and p: "p \<noteq> 0" "hs_heads s p = Some w"
    and n: "hs_nodes s (pk_addr w) = Some n"
  shows "raw_hash_get h s key = (let t = s\<lparr>hs_heads := (hs_heads s)(p \<mapsto> set_head_counter w (head_counter w + 1))\<rparr> in
     if rn_key n = key
     then map_option (\<lambda>m1. (GET_ACCESS_HOT, Some (pk_addr w), 0, t\<lparr>hs_nodes := m1\<rparr>)) (store_counter (hs_nodes s) (pk_addr w) (\<lambda>c. c + 1))
     else (case get_loop (hs_nodes s) (pk_addr w) key (pk_addr w) (pk_addr (rn_list n)) of None \<Rightarrow> None
       | Some None \<Rightarrow> Some (GET_NOT_FOUND, None, 0, t)
       | Some (Some (node, prev, m1)) \<Rightarrow> Some (GET_ACCESS_COLD, Some node, prev, t\<lparr>hs_nodes := m1\<rparr>)))"
  using assms
  by (simp add: raw_hash_get_def Let_def get_head_node_by_head_pointer_def map_conv_bind_option comp_def split: option.split)

text \<open>A lookup depends on, and touches, the bucket of its key only.\<close>

lemma raw_hash_get_bucket:
  assumes g: "geo h" and key: "unat key < 2 ^ nb h" and b: "bucket_hr h s (slot_of h key) xs"
  shows "\<exists>r np pv s'. raw_hash_get h s key = Some (r, np, pv, s')
     \<and> (r, np, pv) = get_out (hs_nodes s) key xs \<and> same_view s s'
     \<and> hs_request s' = hs_request s \<and> hs_verbose s' = hs_verbose s
     \<and> (\<forall>x. x \<notin> set xs \<longrightarrow> hs_nodes s' x = hs_nodes s x)
     \<and> (\<forall>p. p \<noteq> hr_slots h ! slot_of h key \<longrightarrow> hs_heads s' p = hs_heads s p)"
proof -
  let ?i = "slot_of h key" and ?m = "hs_nodes s"
  have i: "?i < 2 ^ kb h" using slot_bound [OF g key] .
  obtain ix tg where ix: "hashCode_hr h key = Some (ix, tg)" "unat ix = ?i" using hashCode_hr_ok [OF g, of key] by blast
  have load: "load_slot_hr h ix = Some (hr_slots h ! ?i)" using ix(2) i g by (simp add: load_slot_hr_def geo_def)
  show ?thesis
  proof (cases "hr_slots h ! ?i = 0")
    case True
    then have "xs = []" using b by (simp add: bucket_hr_def)
    with True ix load show ?thesis by (simp add: raw_hash_get_def get_out_def)
  next
    case False
    from bucketD [OF b False] obtain w qs where w: "hs_heads s (hr_slots h ! ?i) = Some w" "xs = pk_addr w # qs"
      "ring ?m (pk_addr w # qs)" "cyc_sorted (map (key_of ?m) (pk_addr w # qs))" by blast
    let ?a = "pk_addr w"
    let ?s = "s\<lparr>hs_heads := (hs_heads s)(hr_slots h ! ?i \<mapsto> set_head_counter w (head_counter w + 1))\<rparr>"
    from ring_dom [OF w(3), of ?a] obtain n where n: "?m ?a = Some n" by auto
    have nx: "pk_addr (rn_list n) = hd (qs @ [?a])" using w(3) n by (auto simp: ring_def lnk_def)
    have hv: "heads_view ?s = heads_view s" using w(1) by (auto simp: heads_view_def fun_eq_iff)
    have sv: "same_view s (?s\<lparr>hs_nodes := m1\<rparr>)" if "lnk m1 = lnk ?m" "pay m1 = pay ?m" for m1
      using that hv by (simp add: same_view_def heads_view_def)
    note run = raw_hash_get_used [OF ix(1) load False w(1) n, unfolded Let_def nx]
    show ?thesis
    proof (cases "rn_key n = key")
      case True
      from store_counter_ok [where m = "?m" and f = "\<lambda>c. c + 1", OF n] obtain m1 where
        m1: "store_counter ?m ?a (\<lambda>c. c + 1) = Some m1" "lnk m1 = lnk ?m" "pay m1 = pay ?m" "\<forall>x. x \<noteq> ?a \<longrightarrow> m1 x = ?m x" by blast
      have "get_out ?m key xs = (GET_ACCESS_HOT, Some ?a, 0)"
        using get_out_hit [of key ?m "[]" ?a qs] w(2) n True by (simp add: key_of_def)
      with run True m1 sv [OF m1(2,3)] w(2) show ?thesis by simp
    next
      case False
      then have "key_of ?m ?a \<noteq> key" using n by (simp add: key_of_def)
      with w(3,4) show ?thesis
      proof (cases rule: get_loop_out)
        case miss
        with run False hv w(2) show ?thesis by (simp add: same_view_def)
      next
        case (hit x pv m1)
        with run False sv [OF hit(3,4)] w(2) show ?thesis by simp
      qed
    qed
  qed
qed

lemma raw_hash_get_ok:
  assumes "hr_rep h s R" "unat key < 2 ^ nb h"
  shows "\<exists>r np pv s'. raw_hash_get h s key = Some (r, np, pv, s')
     \<and> (r, np, pv) = get_out (hs_nodes s) key (R (slot_of h key)) \<and> same_view s s'
     \<and> hs_request s' = hs_request s \<and> hs_verbose s' = hs_verbose s"
proof -
  note g = hr_repD(1) [OF assms(1)]
  from raw_hash_get_bucket [OF g assms(2) hr_repD(2) [OF assms(1) slot_bound [OF g assms(2)]]] show ?thesis by blast
qed

end
