(* ===== verification/HotRing_Insert.thy ===== *)
theory HotRing_Insert
  imports HotRing_Table
begin

text \<open>
  Insertion: a new node goes to its place in the ring of its bucket, or founds the ring of an
  empty bucket; nothing else changes.
\<close>

section \<open>Keys and tags of one bucket are ordered alike\<close>

lemma same_slot_order:
  assumes "slot_of h k1 = slot_of h k2" "unat t1 = unat k1 mod 2 ^ tb h" "unat t2 = unat k2 mod 2 ^ tb h"
  shows "k1 \<le> k2 \<longleftrightarrow> t1 \<le> t2"
proof -
  have "unat k1 = slot_of h k1 * 2 ^ tb h + unat t1" "unat k2 = slot_of h k1 * 2 ^ tb h + unat t2"
    using assms div_mult_mod_eq [of "unat k1" "2 ^ tb h"] div_mult_mod_eq [of "unat k2" "2 ^ tb h"]
    by (simp_all add: slot_of_def)
  then show ?thesis by (simp add: word_le_nat_alt)
qed

lemma bucket_orders:
  assumes "\<forall>x \<in> set xs. slot_of h (key_of m x) = i" "\<forall>x \<in> set xs. unat (tag_of m x) = unat (key_of m x) mod 2 ^ tb h"
  shows "cyc_sorted (map (key_of m) xs) \<longleftrightarrow> cyc_sorted (map (tag_of m) xs)"
proof -
  have "key_of m x \<le> key_of m y \<longleftrightarrow> tag_of m x \<le> tag_of m y" if "x \<in> set xs" "y \<in> set xs" for x y
    using assms that by (intro same_slot_order) auto
  then show ?thesis
    using cyc_sorted_reorder [of xs "key_of m" "tag_of m"] cyc_sorted_reorder [of xs "tag_of m" "key_of m"] by blast
qed

section \<open>The new node in its ring\<close>

definition zero_node :: hr_node where "zero_node = \<lparr>rn_list = 0, rn_tag = 0, rn_key = 0, rn_value = 0\<rparr>"

text \<open>What the code does to the new node once it is linked: its counter, then its three fields.\<close>

lemma finish_node:
  assumes "m node = Some n" "pay m node = Some (0, 0, 0)"
  shows "\<exists>m3 n3. store_counter m node (\<lambda>_. 1) = Some m3 \<and> m3 node = Some n3 \<and> rn_value n3 = 0
     \<and> lnk (m3(node \<mapsto> n3\<lparr>rn_key := key, rn_tag := tag, rn_value := val\<rparr>)) = lnk m
     \<and> pay (m3(node \<mapsto> n3\<lparr>rn_key := key, rn_tag := tag, rn_value := val\<rparr>)) = (pay m)(node \<mapsto> (key, tag, val))
     \<and> (\<forall>x. x \<noteq> node \<longrightarrow> m3 x = m x)"
proof -
  from store_counter_ok [where m = m and f = "\<lambda>_. 1", OF assms(1)] obtain m3 where
    m3: "store_counter m node (\<lambda>_. 1) = Some m3" "lnk m3 = lnk m" "pay m3 = pay m" "\<forall>x. x \<noteq> node \<longrightarrow> m3 x = m x" by blast
  have "pay m3 node = Some (0, 0, 0)" using m3(3) assms(2) by simp
  then obtain n3 where n3: "m3 node = Some n3" "rn_value n3 = 0" by (auto simp: pay_def)
  have "lnk (m3(node \<mapsto> n3\<lparr>rn_key := key, rn_tag := tag, rn_value := val\<rparr>)) = lnk m3"
    using n3(1) by (auto simp: lnk_def fun_eq_iff)
  moreover have "pay (m3(node \<mapsto> n3\<lparr>rn_key := key, rn_tag := tag, rn_value := val\<rparr>)) = (pay m3)(node \<mapsto> (key, tag, val))"
    by (auto simp: pay_def fun_eq_iff)
  ultimately show ?thesis using m3 n3 by auto
qed

lemma lnk_fresh [simp]: "x \<noteq> e \<Longrightarrow> lnk (m(e \<mapsto> n)) x = lnk m x"
  by (simp add: lnk_def)

lemma pay_fresh [simp]: "x \<noteq> e \<Longrightarrow> pay (m(e \<mapsto> n)) x = pay m x"
  by (simp add: pay_def)

text \<open>Insertion into an existing ring, at the level of the node memory.\<close>

lemma ring_insert_ok:
  assumes "ring m (a # qs)" "m e = None" "pk_addr e = e"
  shows "\<exists>m1 added pv m2 m3 n3. create_loop_hr (m(e \<mapsto> zero_node)) a e tag a (hd (qs @ [a])) = Some (m1, added, pv)
     \<and> (if \<not> added then list_add_hr m1 e pv else Some m1) = Some m2
     \<and> store_counter m2 e (\<lambda>_. 1) = Some m3 \<and> m3 e = Some n3 \<and> rn_value n3 = 0
     \<and> ring (m3(e \<mapsto> n3\<lparr>rn_key := key, rn_tag := tag, rn_value := val\<rparr>)) (a # ring_ins (tag_of m) tag e a qs)
     \<and> pay (m3(e \<mapsto> n3\<lparr>rn_key := key, rn_tag := tag, rn_value := val\<rparr>)) = (pay m)(e \<mapsto> (key, tag, val))
     \<and> (\<forall>x. x \<notin> set (e # a # qs) \<longrightarrow> m3 x = m x)"
proof -
  let ?m = "m(e \<mapsto> zero_node)"
  have e: "e \<notin> set (a # qs)" using ring_dom [OF assms(1)] assms(2) by fastforce
  then have r: "ring ?m ([] @ a # qs)"
    using assms(1) ring_cong [of "a # qs" "m" ?m] by (metis append_Nil lnk_fresh)
  have "ring_ins (tag_of ?m) tag e a qs = ring_ins (tag_of m) tag e a qs"
    by (rule ring_ins_cong) (use e in \<open>auto simp: tag_of_def\<close>)
  with create_loop_hr_ok [OF r _ _ assms(3), of zero_node a tag] e obtain m1 added pv m2 where
    c: "create_loop_hr ?m a e tag a (hd (qs @ [a])) = Some (m1, added, pv)"
    "(if \<not> added then list_add_hr m1 e pv else Some m1) = Some m2"
    "ring m2 (a # ring_ins (tag_of m) tag e a qs)" "pay m2 = pay ?m" "\<forall>x. x \<notin> set (e # a # qs) \<longrightarrow> m2 x = ?m x"
    by fastforce
  have p2: "pay m2 e = Some (0, 0, 0)" using c(4) by (simp add: pay_def zero_node_def)
  then obtain n2 where "m2 e = Some n2" by (auto simp: pay_def)
  from finish_node [where key = key and tag = tag and val = val, OF this p2] obtain m3 n3 where f: "store_counter m2 e (\<lambda>_. 1) = Some m3" "m3 e = Some n3"
    "rn_value n3 = 0" "lnk (m3(e \<mapsto> n3\<lparr>rn_key := key, rn_tag := tag, rn_value := val\<rparr>)) = lnk m2"
    "pay (m3(e \<mapsto> n3\<lparr>rn_key := key, rn_tag := tag, rn_value := val\<rparr>)) = (pay m2)(e \<mapsto> (key, tag, val))"
    "\<forall>x. x \<noteq> e \<longrightarrow> m3 x = m2 x" by blast
  have "ring (m3(e \<mapsto> n3\<lparr>rn_key := key, rn_tag := tag, rn_value := val\<rparr>)) (a # ring_ins (tag_of m) tag e a qs)"
    using c(3) ring_cong [of "a # ring_ins (tag_of m) tag e a qs" m2] f(4) by metis
  moreover have "(pay m2)(e \<mapsto> (key, tag, val)) = (pay m)(e \<mapsto> (key, tag, val))" using c(4) by (auto simp: fun_eq_iff)
  moreover have "\<forall>x. x \<notin> set (e # a # qs) \<longrightarrow> m3 x = m x" using c(5) f(6) by auto
  ultimately show ?thesis using c(1,2) f(1-3,5)
    by (intro exI [of _ m1] exI [of _ added] exI [of _ pv] exI [of _ m2] exI [of _ m3] exI [of _ n3]) simp
qed

section \<open>One bucket changes\<close>

lemma rep_update:
  assumes rep: "hr_rep h s R" and i: "i < 2 ^ kb h"
    and same: "hr_n h1 = hr_n h" "hr_k h1 = hr_k h" "hr_size h1 = hr_size h" "hr_slots h1 = (hr_slots h)[i := p]"
    and new: "bucket_hr h1 s1 i xs" "p = hr_slots h ! i \<or> p = 0 \<or> p \<notin> set (hr_slots h)"
    and apart: "\<And>j. j < 2 ^ kb h \<Longrightarrow> j \<noteq> i \<Longrightarrow> set xs \<inter> set (R j) = {}"
    and frame: "\<And>j x. j < 2 ^ kb h \<Longrightarrow> j \<noteq> i \<Longrightarrow> x \<in> set (R j) \<Longrightarrow> hs_nodes s1 x = hs_nodes s x"
      "\<And>j. j < 2 ^ kb h \<Longrightarrow> j \<noteq> i \<Longrightarrow> hr_slots h ! j \<noteq> 0 \<Longrightarrow> hs_heads s1 (hr_slots h ! j) = hs_heads s (hr_slots h ! j)"
    and avail: "distinct (hs_avail s1)" "set (hs_avail s1) \<inter> (dom (hs_nodes s1) \<union> dom (hs_heads s1)) = {}"
      "set (hs_avail s1) \<subseteq> set (hs_avail s)"
    and zero: "0 \<notin> dom (hs_nodes s1)"
  shows "hr_rep h1 s1 (R(i := xs))"
proof -
  have g: "geo h" "length (hr_slots h) = 2 ^ kb h" using hr_repD(1) [OF rep] by (auto simp: geo_def)
  have k: "nb h1 = nb h" "kb h1 = kb h" "tb h1 = tb h" using same by (simp_all add: nb_def kb_def tb_def)
  have "bucket_hr h1 s1 j ((R(i := xs)) j)" if j: "j < 2 ^ kb h" for j
  proof (cases "j = i")
    case False
    have "bucket_hr h1 s1 j (R j) \<longleftrightarrow> bucket_hr h s j (R j)"
    proof (cases "hr_slots h ! j = 0")
      case True
      with False same(4) show ?thesis by (simp add: bucket_hr_def)
    next
      case used: False
      show ?thesis
        using False same(4) k(3) frame(1) [OF j False] frame(2) [OF j False used]
        by (intro bucket_cong) (auto simp: heads_view_def lnk_def pay_def)
    qed
    with hr_repD(2) [OF rep j] False show ?thesis by simp
  qed (use new(1) in simp)
  moreover have "set ((R(i := xs)) a) \<inter> set ((R(i := xs)) b) = {} \<and> (hr_slots h1 ! a \<noteq> 0 \<longrightarrow> hr_slots h1 ! a \<noteq> hr_slots h1 ! b)"
    if ab: "a < 2 ^ kb h" "b < 2 ^ kb h" "a \<noteq> b" for a b
  proof -
    have in_slots: "c < 2 ^ kb h \<Longrightarrow> hr_slots h ! c \<in> set (hr_slots h)" for c using g(2) by simp
    show ?thesis
      using apart ab hr_repD(4,5) [OF rep, of a b] hr_repD(5) [OF rep, of b a] new(2) in_slots [of a] in_slots [of b] same(4) g(2)
      by (cases "a = i"; cases "b = i") (auto simp: nth_list_update)
  qed
  moreover have "geo h1" using g same(3,4) k by (simp add: geo_def)
  moreover have "\<forall>a \<in> set (hs_avail s1). pk_addr a = a" using rep avail(3) by (auto simp: hr_rep_def)
  ultimately show ?thesis using k avail(1,2) zero unfolding hr_rep_def k by blast
qed

lemma tags_update:
  assumes "tags_ok h s R" "hr_n h1 = hr_n h" "hr_k h1 = hr_k h"
    and "\<And>x. x \<in> set xs \<Longrightarrow> unat (tag_of (hs_nodes s1) x) = unat (key_of (hs_nodes s1) x) mod 2 ^ tb h"
    and "\<And>j x. j < 2 ^ kb h \<Longrightarrow> j \<noteq> i \<Longrightarrow> x \<in> set (R j) \<Longrightarrow> hs_nodes s1 x = hs_nodes s x"
  shows "tags_ok h1 s1 (R(i := xs))"
proof -
  have k: "kb h1 = kb h" "tb h1 = tb h" using assms(2,3) by (simp_all add: nb_def kb_def tb_def)
  show ?thesis using assms(1,4,5) unfolding tags_ok_def k by (auto simp: payload_defs)
qed

lemma slot_in_heads: "hr_rep h s R \<Longrightarrow> p \<in> set (hr_slots h) \<Longrightarrow> p \<noteq> 0 \<Longrightarrow> p \<in> dom (hs_heads s)"
proof -
  assume rep: "hr_rep h s R" and p: "p \<in> set (hr_slots h)" "p \<noteq> 0"
  then obtain j where "j < 2 ^ kb h" "hr_slots h ! j = p"
    using hr_repD(1) [OF rep] by (auto simp: in_set_conv_nth geo_def)
  with hr_repD(2) [OF rep, of j] p(2) show ?thesis by (auto simp: bucket_hr_def)
qed

lemma ring_in_dom: "hr_rep h s R \<Longrightarrow> i < 2 ^ kb h \<Longrightarrow> set (R i) \<subseteq> dom (hs_nodes s)"
  using hr_repD(2) [of h s R i] ring_dom [of "hs_nodes s" "R i"] by (force simp: bucket_hr_def split: if_splits)

section \<open>Insertion into a table\<close>

text \<open>
  The relation between the states before and after a node with the given key, tag and value has
  been put into bucket \<open>i\<close>, whose ring becomes \<open>xs\<close>.
\<close>

definition put_done :: "hr_hash \<Rightarrow> hr_state \<Rightarrow> (nat \<Rightarrow> u64 list) \<Rightarrow> nat \<Rightarrow> u64 \<Rightarrow> u64 \<times> u64 \<times> u64 \<Rightarrow> u64 list \<Rightarrow> hr_hash \<Rightarrow> hr_state \<Rightarrow> bool" where
  "put_done h s R i node fv xs h1 s1 \<longleftrightarrow>
     hr_rep h1 s1 (R(i := xs)) \<and> tags_ok h1 s1 (R(i := xs))
     \<and> mset xs = add_mset node (mset (R i)) \<and> node \<in> set (hs_avail s)
     \<and> pay (hs_nodes s1) = (pay (hs_nodes s))(node \<mapsto> fv)
     \<and> hr_n h1 = hr_n h \<and> hr_k h1 = hr_k h \<and> hr_size h1 = hr_size h
     \<and> hs_request s1 = hs_request s \<and> hs_verbose s1 = hs_verbose s
     \<and> (\<exists>used. hs_avail s = used @ hs_avail s1 \<and> length used \<le> 2 \<and> dom (hs_heads s1) \<union> dom (hs_nodes s1) \<subseteq> dom (hs_heads s) \<union> dom (hs_nodes s) \<union> set used)
     \<and> (\<forall>x. x \<notin> insert node (set (R i)) \<longrightarrow> hs_nodes s1 x = hs_nodes s x)
     \<and> (R i \<noteq> [] \<longrightarrow> h1 = h \<and> hs_heads s1 = hs_heads s \<and> hd xs = hd (R i) \<and> hs_avail s1 = tl (hs_avail s)
          \<and> xs = hd (R i) # ring_ins (tag_of (hs_nodes s)) (fst (snd fv)) node (hd (R i)) (tl (R i)))"

lemma put_doneD:
  assumes "put_done h s R i node fv xs h1 s1"
  shows "hr_rep h1 s1 (R(i := xs))" "tags_ok h1 s1 (R(i := xs))" "mset xs = add_mset node (mset (R i))" "node \<in> set (hs_avail s)"
    "pay (hs_nodes s1) = (pay (hs_nodes s))(node \<mapsto> fv)" "hs_verbose s1 = hs_verbose s"
    "R i \<noteq> [] \<Longrightarrow> hs_heads s1 = hs_heads s"
    "R i \<noteq> [] \<Longrightarrow> xs = hd (R i) # ring_ins (tag_of (hs_nodes s)) (fst (snd fv)) node (hd (R i)) (tl (R i))"
  using assms unfolding put_done_def by blast+

lemma avail_head:
  assumes "hr_rep h s R" "room_hr s (Suc k)"
  obtains a as where "hs_avail s = a # as" "a \<noteq> 0" "pk_addr a = a" "hs_nodes s a = None" "hs_heads s a = None"
    "distinct (a # as)" "set as \<inter> (dom (hs_nodes s) \<union> dom (hs_heads s)) = {}"
proof -
  from assms(2) obtain a as where a: "hs_avail s = a # as" by (cases "hs_avail s") (auto simp: room_hr_def)
  show thesis
    by (rule that [OF a]) (use assms a in \<open>auto simp: hr_rep_def room_hr_def\<close>)
qed

text \<open>The new node is put where it keeps the order of the ring.\<close>

lemma ring_ins_order:
  assumes own: "\<forall>x \<in> set (a # qs). slot_of h (key_of m x) = i" "\<forall>x \<in> set (a # qs). unat (tag_of m x) = unat (key_of m x) mod 2 ^ tb h"
    and cyc: "cyc_sorted (map (key_of m) (a # qs))" and e: "e \<notin> set (a # qs)"
    and new: "slot_of h key = i" "unat tag = unat key mod 2 ^ tb h" "pay m' = (pay m)(e \<mapsto> (key, tag, val))"
    and xs: "xs = a # ring_ins (tag_of m) tag e a qs"
  shows "cyc_sorted (map (key_of m') xs)" "\<forall>x \<in> set xs. slot_of h (key_of m' x) = i"
    "\<forall>x \<in> set xs. unat (tag_of m' x) = unat (key_of m' x) mod 2 ^ tb h"
proof -
  have "pay m' e = Some (key, tag, val)" using new(3) by simp
  then have ne: "key_of m' e = key" "tag_of m' e = tag" by (auto simp: pay_def payload_defs)
  have k: "key_of m' x = (if x = e then key else key_of m x)" "tag_of m' x = (if x = e then tag else tag_of m x)" for x
    using pay_eqD [of m' x m] new(3) ne by auto
  have st: "set xs = insert e (set (a # qs))" using xs by (auto simp: ring_ins_set)
  show tags: "\<forall>x \<in> set xs. unat (tag_of m' x) = unat (key_of m' x) mod 2 ^ tb h" using st k own(2) new(2) by auto
  show slots: "\<forall>x \<in> set xs. slot_of h (key_of m' x) = i" using st k own(1) new(1) by auto
  have "cyc_sorted (map (tag_of m) (a # qs))" using bucket_orders [OF own] cyc by simp
  then have "cyc_sorted (tag_of m a # cyc_ins tag (tag_of m a) (map (tag_of m) qs))" using cyc_ins_sorted by simp
  moreover have "tag_of m' = (tag_of m)(e := tag)" using k(2) by (auto simp: fun_eq_iff)
  then have "map (tag_of m') xs = tag_of m a # cyc_ins tag (tag_of m a) (map (tag_of m) qs)"
    using ring_ins_tags [OF e, of "tag_of m" tag] e xs by auto
  ultimately show "cyc_sorted (map (key_of m') xs)" using bucket_orders [OF slots tags] by simp
qed

lemma put_nonempty:
  assumes "hr_rep h s R" "tags_ok h s R" "room_hr s 1" "unat ix < 2 ^ kb h" "unat ix = slot_of h key"
    "unat tag = unat key mod 2 ^ tb h" "R (unat ix) \<noteq> []"
  shows "\<exists>node s1 s2 xs. raw_hash_create h s ix tag = Some (0, node, h, s1)
     \<and> insert_entries_hr s1 node key tag val = Some (1, s2) \<and> put_done h s R (unat ix) node (key, tag, val) xs h s2"
proof -
  let ?i = "unat ix" and ?m = "hs_nodes s"
  have b: "bucket_hr h s ?i (R ?i)" using hr_repD(2) [OF assms(1,4)] .
  have used: "hr_slots h ! ?i \<noteq> 0" using b assms(7) by (auto simp: bucket_hr_def)
  from bucketD [OF b used] obtain w qs where w: "hs_heads s (hr_slots h ! ?i) = Some w" "R ?i = pk_addr w # qs"
    "ring ?m (pk_addr w # qs)" "cyc_sorted (map (key_of ?m) (pk_addr w # qs))" "\<forall>x \<in> set (pk_addr w # qs). slot_of h (key_of ?m x) = ?i" by auto
  let ?a = "pk_addr w"
  obtain e as where e: "hs_avail s = e # as" "e \<noteq> 0" "pk_addr e = e" "?m e = None" "hs_heads s e = None"
    "distinct (e # as)" "set as \<inter> (dom ?m \<union> dom (hs_heads s)) = {}" using avail_head [OF assms(1)] assms(3) by auto
  have load: "load_slot_hr h ix = Some (hr_slots h ! ?i)"
    using assms(4) hr_repD(1) [OF assms(1)] by (simp add: load_slot_hr_def geo_def)
  from ring_insert_ok [where key = key and tag = tag and val = val, OF w(3) e(4,3)] obtain m1 added pv m2 m3 n3 where
    c: "create_loop_hr (?m(e \<mapsto> zero_node)) ?a e tag ?a (hd (qs @ [?a])) = Some (m1, added, pv)"
    "(if \<not> added then list_add_hr m1 e pv else Some m1) = Some m2"
    "store_counter m2 e (\<lambda>_. 1) = Some m3" "m3 e = Some n3" "rn_value n3 = 0"
    "ring (m3(e \<mapsto> n3\<lparr>rn_key := key, rn_tag := tag, rn_value := val\<rparr>)) (?a # ring_ins (tag_of ?m) tag e ?a qs)"
    "pay (m3(e \<mapsto> n3\<lparr>rn_key := key, rn_tag := tag, rn_value := val\<rparr>)) = (pay ?m)(e \<mapsto> (key, tag, val))"
    "\<forall>x. x \<notin> set (e # ?a # qs) \<longrightarrow> m3 x = ?m x" by blast
  let ?m4 = "m3(e \<mapsto> n3\<lparr>rn_key := key, rn_tag := tag, rn_value := val\<rparr>)"
  let ?xs = "?a # ring_ins (tag_of ?m) tag e ?a qs"
  let ?s1 = "s\<lparr>hs_avail := as, hs_nodes := m3\<rparr>" and ?s2 = "s\<lparr>hs_avail := as, hs_nodes := ?m4\<rparr>"
  from ring_dom [OF w(3), of ?a] obtain na where na: "?m ?a = Some na" by auto
  have ea: "e \<notin> set (?a # qs)" using ring_dom [OF w(3)] e(4) by fastforce
  have lna: "pk_addr (rn_list na) = hd (qs @ [?a])" using w(3) na by (simp add: ring_def lnk_def)
  have run: "raw_hash_create h s ix tag = Some (0, e, h, ?s1)" "insert_entries_hr ?s1 e key tag val = Some (1, ?s2)"
    using load used w(1) e(1,2) na ea lna c(1-5)
    by (auto simp: raw_hash_create_def get_head_node_by_head_pointer_def hash_node_alloc_hr_def calloc_hr_def zero_node_def insert_entries_hr_def)
  have "\<forall>x \<in> set (?a # qs). unat (tag_of ?m x) = unat (key_of ?m x) mod 2 ^ tb h" using assms(2,4) w(2) by (auto simp: tags_ok_def)
  note o = ring_ins_order [OF w(5) this w(4) ea assms(5) [symmetric] assms(6) c(7) refl]
  have nb4: "bucket_hr h ?s2 ?i ?xs" using c(6) o(1,2) w(1) by (simp add: bucket_hr_def used)
  have st: "set ?xs = insert e (set (R ?i))" using w(2) by (auto simp: ring_ins_set)
  have frame: "?m4 x = ?m x" if "x \<notin> insert e (set (R ?i))" for x using that c(8) w(2) by auto
  have apart: "set ?xs \<inter> set (R j) = {}" "\<And>x. x \<in> set (R j) \<Longrightarrow> x \<notin> insert e (set (R ?i))"
    if "j < 2 ^ kb h" "j \<noteq> ?i" for j
    using hr_repD(4) [OF assms(1) that(1) assms(4) that(2)] ring_in_dom [OF assms(1) that(1)] st e(4) by auto
  have dm: "dom ?m4 = insert e (dom ?m)" using c(7) by (metis dom_fun_upd dom_pay option.distinct(1))
  have "hr_rep h ?s2 (R(?i := ?xs))"
    using nb4 apart frame dm e(2,4,5,6,7) hr_repD(3) [OF assms(1)] e(1)
    by (intro rep_update [OF assms(1,4), where p = "hr_slots h ! ?i"]) auto
  moreover have "tags_ok h ?s2 (R(?i := ?xs))" using o(3) apart frame by (intro tags_update [OF assms(2)]) auto
  moreover have "mset ?xs = add_mset e (mset (R ?i))" using w(2) by (simp add: ring_ins_mset)
  ultimately have "put_done h s R ?i e (key, tag, val) ?xs h ?s2"
    using c(7) e(1) frame dm w(2) unfolding put_done_def by auto
  with run show ?thesis by blast
qed

lemma put_empty:
  assumes "hr_rep h s R" "tags_ok h s R" "room_hr s 2" "unat ix < 2 ^ kb h" "unat ix = slot_of h key"
    "unat tag = unat key mod 2 ^ tb h" "R (unat ix) = []"
  shows "\<exists>node h1 s1 s2 xs. raw_hash_create h s ix tag = Some (0, node, h1, s1)
     \<and> insert_entries_hr s1 node key tag val = Some (1, s2) \<and> put_done h s R (unat ix) node (key, tag, val) xs h1 s2"
proof -
  let ?i = "unat ix" and ?m = "hs_nodes s"
  have free: "hr_slots h ! ?i = 0"
    using hr_repD(2) [OF assms(1,4)] assms(7) by (auto simp: bucket_hr_def ring_def split: if_splits)
  have len: "?i < length (hr_slots h)" using assms(4) hr_repD(1) [OF assms(1)] by (simp add: geo_def)
  obtain p as where p: "hs_avail s = p # as" "p \<noteq> 0" "pk_addr p = p" "?m p = None" "hs_heads s p = None"
    "distinct (p # as)" "set as \<inter> (dom ?m \<union> dom (hs_heads s)) = {}" using avail_head [OF assms(1)] assms(3) by (auto simp: numeral_2_eq_2)
  obtain e bs where e: "as = e # bs" "e \<noteq> 0" "pk_addr e = e"
    using assms(1,3) p(1) by (cases as) (auto simp: room_hr_def hr_rep_def)
  have ep: "e \<noteq> p" "?m e = None" "hs_heads s e = None" "e \<notin> set bs" "p \<notin> set bs" using p e(1) by auto
  let ?n = "zero_node\<lparr>rn_list := e\<rparr>"
  from finish_node [where m = "?m(e \<mapsto> ?n)" and node = e and key = key and tag = tag and val = val] obtain m3 n3 where
    f: "store_counter (?m(e \<mapsto> ?n)) e (\<lambda>_. 1) = Some m3" "m3 e = Some n3" "rn_value n3 = 0"
    "lnk (m3(e \<mapsto> n3\<lparr>rn_key := key, rn_tag := tag, rn_value := val\<rparr>)) = lnk (?m(e \<mapsto> ?n))"
    "pay (m3(e \<mapsto> n3\<lparr>rn_key := key, rn_tag := tag, rn_value := val\<rparr>)) = (pay (?m(e \<mapsto> ?n)))(e \<mapsto> (key, tag, val))"
    "\<forall>x. x \<noteq> e \<longrightarrow> m3 x = (?m(e \<mapsto> ?n)) x" by (auto simp: pay_def zero_node_def)
  let ?m4 = "m3(e \<mapsto> n3\<lparr>rn_key := key, rn_tag := tag, rn_value := val\<rparr>)"
  let ?h = "h\<lparr>hr_slots := (hr_slots h)[?i := p]\<rparr>"
  let ?s1 = "s\<lparr>hs_heads := (hs_heads s)(p \<mapsto> e), hs_avail := bs, hs_nodes := m3\<rparr>" and ?s2 = "s\<lparr>hs_heads := (hs_heads s)(p \<mapsto> e), hs_avail := bs, hs_nodes := ?m4\<rparr>"
  have run1: "raw_hash_create h s ix tag = Some (0, e, ?h, ?s1)"
    using free len p(1,2) e(1,2) f(1)
    by (simp add: raw_hash_create_def load_slot_hr_def store_slot_hr_def head_alloc_hr_def hash_node_alloc_hr_def calloc_hr_def
        INIT_LIST_HEAD_hr_def store_next_def upd_node_hr_def zero_node_def)
  have run2: "insert_entries_hr ?s1 e key tag val = Some (1, ?s2)" using f(2,3) by (simp add: insert_entries_hr_def)
  have pm: "pay ?m4 = (pay ?m)(e \<mapsto> (key, tag, val))" using f(5) by (auto simp: fun_eq_iff pay_def)
  have k4: "key_of ?m4 e = key" "tag_of ?m4 e = tag" by (simp_all add: payload_defs)
  have nb4: "bucket_hr ?h ?s2 ?i [e]"
    using f(4) e(2,3) p(2) k4 len assms(5) by (simp add: bucket_hr_def ring_def lnk_def slot_of_def tb_def nb_def kb_def)
  have frame: "?m4 x = ?m x" if "x \<noteq> e" for x using that f(6) by simp
  have apart: "e \<notin> set (R j)" if "j < 2 ^ kb h" for j using ring_in_dom [OF assms(1) that] ep(2) by auto
  have dm: "dom ?m4 = insert e (dom ?m)" using pm by (metis dom_fun_upd dom_pay option.distinct(1))
  have pslot: "p \<notin> set (hr_slots h)" using slot_in_heads [OF assms(1)] p(2,5) by auto
  then have "hr_slots h ! j \<noteq> p" if "j < 2 ^ kb h" for j
    using that hr_repD(1) [OF assms(1)] by (auto simp: geo_def)
  then have "hr_rep ?h ?s2 (R(?i := [e]))"
    using nb4 apart frame dm e(1,2) ep p pslot hr_repD(3) [OF assms(1)]
    by (intro rep_update [OF assms(1,4), where p = p]) auto
  moreover have "tags_ok ?h ?s2 (R(?i := [e]))"
  proof (rule tags_update [OF assms(2)])
    show "unat (tag_of (hs_nodes ?s2) x) = unat (key_of (hs_nodes ?s2) x) mod 2 ^ tb h" if "x \<in> set [e]" for x
      using that k4 assms(6) by simp
    show "hs_nodes ?s2 x = hs_nodes s x" if "j < 2 ^ kb h" "x \<in> set (R j)" for j x
      using frame [of x] apart [OF that(1)] that(2) by fastforce
  qed simp_all
  moreover have "\<exists>used. hs_avail s = used @ bs \<and> length used \<le> 2
       \<and> dom ((hs_heads s)(p \<mapsto> e)) \<union> dom ?m4 \<subseteq> dom (hs_heads s) \<union> dom ?m \<union> set used"
    using p(1) e(1) dm by (intro exI [of _ "[p, e]"]) auto
  ultimately have "put_done h s R ?i e (key, tag, val) [e] ?h ?s2"
    using pm p(1) e(1) frame assms(7) unfolding put_done_def by simp
  with run1 run2 show ?thesis by blast
qed

lemma put_ok:
  assumes "hr_rep h s R" "tags_ok h s R" "room_hr s 2" "unat ix < 2 ^ kb h" "unat ix = slot_of h key"
    "unat tag = unat key mod 2 ^ tb h"
  shows "\<exists>node h1 s1 s2 xs. raw_hash_create h s ix tag = Some (0, node, h1, s1)
     \<and> insert_entries_hr s1 node key tag val = Some (1, s2) \<and> put_done h s R (unat ix) node (key, tag, val) xs h1 s2"
proof (cases "R (unat ix) = []")
  case True
  from put_empty [OF assms this] show ?thesis by blast
next
  case False
  have "room_hr s 1" using assms(3) by (simp add: room_hr_def)
  from put_nonempty [OF assms(1,2) this assms(4-6) False] show ?thesis by blast
qed

lemma room_put: "put_done h s R i node fv xs h1 s1 \<Longrightarrow> room_hr s (Suc (Suc k)) \<Longrightarrow> room_hr s1 k"
proof -
  assume p: "put_done h s R i node fv xs h1 s1" and room: "room_hr s (Suc (Suc k))"
  obtain us where "hs_avail s = us @ hs_avail s1" "length us \<le> 2" using p unfolding put_done_def by blast
  with room show ?thesis by (auto simp: room_hr_def)
qed

lemma hash_insert_ok:
  assumes "hr_rep h s R" "tags_ok h s R" "room_hr s 2" "unat key < 2 ^ nb h"
  shows "\<exists>node h1 s1 tag xs. hash_insert_hr h s key val = Some (0, h1, s1)
     \<and> put_done h s R (slot_of h key) node (key, tag, val) xs h1 s1"
proof -
  have g: "geo h" using hr_repD(1) [OF assms(1)] .
  obtain ix tg where ix: "hashCode_hr h key = Some (ix, tg)" "unat ix = slot_of h key" "unat tg = unat key mod 2 ^ tb h"
    using hashCode_hr_ok [OF g, of key] by blast
  have "unat ix < 2 ^ kb h" using ix(2) slot_bound [OF g assms(4)] by simp
  from put_ok [OF assms(1-3) this ix(2,3), of val] obtain node h1 s1 s2 xs where
    "raw_hash_create h s ix tg = Some (0, node, h1, s1)" "insert_entries_hr s1 node key tg val = Some (1, s2)"
    "put_done h s R (unat ix) node (key, tg, val) xs h1 s2" by blast
  with ix show ?thesis by (auto simp: hash_insert_hr_def)
qed

end
