(* ===== verification/HotRing_Delete.thy ===== *)
theory HotRing_Delete
  imports HotRing_Insert
begin

text \<open>
  Deletion.  A node that is not the head of its ring is unlinked and freed.  The head node is freed
  together with the head pointer of the bucket, so that the rest of its ring is lost.
\<close>

section \<open>A ring without one node\<close>

lemma unlink_free_ring:
  assumes "ring m (as @ p # e # qs)"
  shows "\<exists>m'. list_del_hr m p e = Some m' \<and> m' e \<noteq> None \<and> ring (m'(e := None)) (as @ p # qs)
     \<and> pay (m'(e := None)) = (pay m)(e := None) \<and> (\<forall>x. x \<noteq> p \<and> x \<noteq> e \<longrightarrow> m' x = m x)"
proof -
  from list_del_hr_ok [OF assms] obtain m' where m': "list_del_hr m p e = Some m'" "ring m' (as @ p # qs)"
    "pay m' = pay m" "\<forall>x. x \<noteq> p \<and> x \<noteq> e \<longrightarrow> m' x = m x" by blast
  have "e \<notin> set (as @ p # qs)" using assms by (auto simp: ring_def)
  then have "lnk (m'(e := None)) x = lnk m' x" if "x \<in> set (as @ p # qs)" for x using that by (auto simp: lnk_def)
  then have "ring (m'(e := None)) (as @ p # qs)" using m'(2) ring_cong by metis
  moreover have "pay (m'(e := None)) = (pay m)(e := None)" using m'(3) by (auto simp: pay_def fun_eq_iff)
  moreover have "m' e \<noteq> None"
  proof -
    obtain n where "m e = Some n" using ring_dom [OF assms, of e] by auto
    then have "e \<in> dom (pay m')" using m'(3) by (auto simp: pay_def)
    then show ?thesis by (auto simp: dom_pay)
  qed
  ultimately show ?thesis using m'(1,4) by blast
qed

lemma ring_avoids_null: "hr_rep h s R \<Longrightarrow> i < 2 ^ kb h \<Longrightarrow> 0 \<notin> set (R i)"
  using ring_in_dom [of h s R i] hr_repD(3) [of h s R] by blast

lemma get_out_cases:
  obtains "key \<notin> key_of m ` set xs" "get_out m key xs = (GET_NOT_FOUND, None, 0)"
  | vs x where "xs = x # vs" "key_of m x = key" "get_out m key xs = (GET_ACCESS_HOT, Some x, 0)"
  | us p x vs where "xs = us @ p # x # vs" "key_of m x = key" "key \<notin> key_of m ` set (us @ [p])"
      "get_out m key xs = (GET_ACCESS_COLD, Some x, p)"
proof (cases "key \<in> key_of m ` set xs")
  case False
  with get_out_miss show thesis using that(1) by blast
next
  case True
  then obtain us x vs where x: "xs = us @ x # vs" "key_of m x = key" "key \<notin> key_of m ` set us"
    using split_list_first_prop [of xs "\<lambda>x. key_of m x = key"] by (fastforce simp: image_iff)
  show thesis
  proof (cases us rule: rev_cases)
    case Nil
    with x get_out_hit [OF x(3,2), of vs] show thesis using that(2) by simp
  next
    case (snoc us1 p)
    with x get_out_hit [OF x(3,2), of vs] show thesis using that(3) [of us1 p x vs] by simp
  qed
qed

section \<open>Deletion from a table\<close>

text \<open>The ring that deletion of a key leaves.\<close>

definition ring_after_delete :: "hr_nodes \<Rightarrow> u64 \<Rightarrow> u64 list \<Rightarrow> u64 list" where
  "ring_after_delete m key xs =
     (case xs of [] \<Rightarrow> []
      | x # _ \<Rightarrow> if key_of m x = key then []
                 else takeWhile (\<lambda>x. key_of m x \<noteq> key) xs @ tl (dropWhile (\<lambda>x. key_of m x \<noteq> key) xs))"

lemma ring_after_delete_hit:
  assumes "key_of m x = key" "key \<notin> key_of m ` set us" "us \<noteq> []"
  shows "ring_after_delete m key (us @ x # vs) = us @ vs"
proof -
  have "dropWhile (\<lambda>x. key_of m x \<noteq> key) (us @ x # vs) = x # vs"
    "takeWhile (\<lambda>x. key_of m x \<noteq> key) (us @ x # vs) = us"
    using assms(1,2) by (auto simp: dropWhile_append takeWhile_append dropWhile_eq_Nil_conv image_iff)
  with assms(2,3) show ?thesis by (cases us) (auto simp: ring_after_delete_def)
qed

lemma ring_after_delete_miss: "key \<notin> key_of m ` set xs \<Longrightarrow> ring_after_delete m key xs = xs"
proof -
  assume a: "key \<notin> key_of m ` set xs"
  then have w: "takeWhile (\<lambda>x. key_of m x \<noteq> key) xs = xs" "dropWhile (\<lambda>x. key_of m x \<noteq> key) xs = []"
    by (auto simp: dropWhile_eq_Nil_conv takeWhile_eq_all_conv)
  have "xs = [] \<or> key_of m (hd xs) \<noteq> key" using a by (cases xs) auto
  then have "ring_after_delete m key xs = takeWhile (\<lambda>x. key_of m x \<noteq> key) xs @ tl (dropWhile (\<lambda>x. key_of m x \<noteq> key) xs)"
    by (cases xs) (auto simp: ring_after_delete_def)
  then show ?thesis unfolding w by simp
qed

lemma delete_cold:
  assumes rep: "hr_rep h s R" and i: "i < 2 ^ kb h" and R: "R i = us @ p # x # vs" and v: "hs_verbose s < 3"
  shows "\<exists>m' s'. list_del_hr (hs_nodes s) p x = Some m' \<and> hotring_node_free (s\<lparr>hs_nodes := m'\<rparr>) x = Some s'
     \<and> hr_rep h s' (R(i := us @ p # vs)) \<and> (tags_ok h s R \<longrightarrow> tags_ok h s' (R(i := us @ p # vs)))
     \<and> pay (hs_nodes s') = (pay (hs_nodes s))(x := None) \<and> hs_avail s' = hs_avail s"
proof -
  let ?m = "hs_nodes s"
  have used: "hr_slots h ! i \<noteq> 0" using hr_repD(2) [OF rep i] R by (auto simp: bucket_hr_def)
  from bucketD [OF hr_repD(2) [OF rep i] used] obtain w qs where w: "hs_heads s (hr_slots h ! i) = Some w" "R i = pk_addr w # qs"
    "ring ?m (R i)" "cyc_sorted (map (key_of ?m) (R i))" "\<forall>x \<in> set (R i). slot_of h (key_of ?m x) = i" by blast
  from unlink_free_ring [of ?m us p x vs] w(3) R obtain m' where m': "list_del_hr ?m p x = Some m'" "m' x \<noteq> None"
    "ring (m'(x := None)) (us @ p # vs)" "pay (m'(x := None)) = (pay ?m)(x := None)"
    "\<forall>y. y \<noteq> p \<and> y \<noteq> x \<longrightarrow> m' y = ?m y" by auto
  let ?s = "s\<lparr>hs_nodes := m'(x := None)\<rparr>"
  have "x \<noteq> 0" using ring_avoids_null [OF rep i] R by auto
  then have run: "hotring_node_free (s\<lparr>hs_nodes := m'\<rparr>) x = Some ?s"
    using v m'(2) by (auto simp: hotring_node_free_def)
  have xs: "x \<notin> set (us @ p # vs)" using w(3) R by (auto simp: ring_def)
  have k: "key_of (m'(x := None)) y = key_of ?m y" "tag_of (m'(x := None)) y = tag_of ?m y" if "y \<noteq> x" for y
    using pay_eqD [of "m'(x := None)" y ?m] m'(4) that by auto
  then have keys: "map (key_of (m'(x := None))) (us @ p # vs) = map (key_of ?m) (us @ p # vs)"
    using xs by (intro map_cong refl) metis
  have "cyc_sorted (map (key_of (m'(x := None))) (us @ p # vs))"
    unfolding keys using cyc_sorted_subseq [of "map (key_of ?m) (us @ [p])" "key_of ?m x" "map (key_of ?m) vs"] w(4) R by simp
  moreover have "pk_addr w = hd (us @ p # vs)" using w(2) R by (cases us) auto
  moreover have "\<forall>y \<in> set (us @ p # vs). slot_of h (key_of (m'(x := None)) y) = i"
  proof
    fix y assume "y \<in> set (us @ p # vs)"
    with xs R have "y \<noteq> x" "y \<in> set (R i)" by auto
    with k(1) w(5) show "slot_of h (key_of (m'(x := None)) y) = i" by metis
  qed
  ultimately have b: "bucket_hr h ?s i (us @ p # vs)" using m'(3) w(1) used by (simp add: bucket_hr_def)
  have dm: "dom (m'(x := None)) = dom ?m - {x}" using m'(4) by (metis dom_pay dom_fun_upd)
  have apart: "y \<notin> set (R i)" if "j < 2 ^ kb h" "j \<noteq> i" "y \<in> set (R j)" for j y
    using hr_repD(4) [OF rep that(1) i that(2)] that(3) by blast
  have frame: "(m'(x := None)) y = ?m y" if "y \<notin> set (R i)" for y using that m'(5) R by auto
  have "hr_rep h ?s (R(i := us @ p # vs))"
  proof (rule rep_update [OF rep i, where p = "hr_slots h ! i"])
    show "set (us @ p # vs) \<inter> set (R j) = {}" if "j < 2 ^ kb h" "j \<noteq> i" for j using apart [OF that] R by auto
    show "hs_nodes ?s y = hs_nodes s y" if "j < 2 ^ kb h" "j \<noteq> i" "y \<in> set (R j)" for j y
      using frame apart [OF that] by simp
  qed (use b rep dm in \<open>auto simp: hr_rep_def\<close>)
  moreover have "tags_ok h ?s (R(i := us @ p # vs))" if t: "tags_ok h s R"
  proof (rule tags_update [OF t])
    show "unat (tag_of (hs_nodes ?s) y) = unat (key_of (hs_nodes ?s) y) mod 2 ^ tb h" if "y \<in> set (us @ p # vs)" for y
    proof -
      have "y \<noteq> x" "y \<in> set (R i)" using that xs R by auto
      with t i k [of y] show ?thesis by (simp add: tags_ok_def)
    qed
    show "hs_nodes ?s y = hs_nodes s y" if "j < 2 ^ kb h" "j \<noteq> i" "y \<in> set (R j)" for j y
      using frame apart [OF that] by simp
  qed simp_all
  ultimately show ?thesis using m'(1,4) run by (intro exI [of _ m'] exI [of _ ?s]) simp
qed

text \<open>Freeing the head node and the head pointer empties the bucket.\<close>

lemma drop_bucket:
  assumes rep: "hr_rep h s R" and i: "i < 2 ^ kb h" and R: "R i = x # vs" and v: "hs_verbose s < 3"
  shows "\<exists>s1 s'. hotring_node_free s x = Some s1 \<and> free_head s1 (hr_slots h ! i) = Some s'
     \<and> hr_rep (h\<lparr>hr_slots := (hr_slots h)[i := 0]\<rparr>) s' (R(i := []))
     \<and> (tags_ok h s R \<longrightarrow> tags_ok (h\<lparr>hr_slots := (hr_slots h)[i := 0]\<rparr>) s' (R(i := [])))
     \<and> pay (hs_nodes s') = (pay (hs_nodes s))(x := None) \<and> hs_avail s' = hs_avail s
     \<and> hs_nodes s' = (hs_nodes s)(x := None) \<and> hs_verbose s' = hs_verbose s"
proof -
  let ?m = "hs_nodes s" and ?h = "h\<lparr>hr_slots := (hr_slots h)[i := 0]\<rparr>"
  have used: "hr_slots h ! i \<noteq> 0" using hr_repD(2) [OF rep i] R by (auto simp: bucket_hr_def)
  from bucketD [OF hr_repD(2) [OF rep i] used] obtain w qs where w: "hs_heads s (hr_slots h ! i) = Some w" "ring ?m (R i)" by blast
  obtain n where n: "?m x = Some n" using ring_dom [OF w(2), of x] R by auto
  have "x \<noteq> 0" using ring_avoids_null [OF rep i] R by auto
  let ?s1 = "s\<lparr>hs_nodes := ?m(x := None)\<rparr>"
  let ?s = "?s1\<lparr>hs_heads := (hs_heads s)(hr_slots h ! i := None)\<rparr>"
  have run: "hotring_node_free s x = Some ?s1" "free_head ?s1 (hr_slots h ! i) = Some ?s"
    using v n \<open>x \<noteq> 0\<close> used w(1) by (simp_all add: hotring_node_free_def free_head_def)
  have b: "bucket_hr ?h ?s i []" using i hr_repD(1) [OF rep] by (simp add: bucket_hr_def geo_def)
  have apart: "x \<noteq> y" if "j < 2 ^ kb h" "j \<noteq> i" "y \<in> set (R j)" for j y
    using hr_repD(4) [OF rep that(1) i that(2)] that(3) R by auto
  have "hr_rep ?h ?s (R(i := []))"
  proof (rule rep_update [OF rep i, where p = 0])
    show "hs_nodes ?s y = hs_nodes s y" if "j < 2 ^ kb h" "j \<noteq> i" "y \<in> set (R j)" for j y using apart [OF that] by simp
    show "hs_heads ?s (hr_slots h ! j) = hs_heads s (hr_slots h ! j)" if "j < 2 ^ kb h" "j \<noteq> i" "hr_slots h ! j \<noteq> 0" for j
      using hr_repD(5) [OF rep that(1) i that(2,3)] by simp
  qed (use b rep in \<open>auto simp: hr_rep_def\<close>)
  moreover have "tags_ok ?h ?s (R(i := []))" if "tags_ok h s R"
    using apart by (intro tags_update [OF that]) auto
  moreover have "pay (hs_nodes ?s) = (pay ?m)(x := None)" by (auto simp: pay_def fun_eq_iff)
  ultimately show ?thesis using run by (intro exI [of _ ?s1] exI [of _ ?s]) simp
qed

lemma hotring_delete_ok:
  assumes "hr_rep h s R" "unat key < 2 ^ nb h" "hs_verbose s < 3"
  shows "\<exists>ok h' s'. hotring_delete h s key = Some (ok, h', s') \<and> (ok \<longleftrightarrow> key \<in> key_of (hs_nodes s) ` set (R (slot_of h key)))
     \<and> hr_rep h' s' (R(slot_of h key := ring_after_delete (hs_nodes s) key (R (slot_of h key))))
     \<and> (tags_ok h s R \<longrightarrow> tags_ok h' s' (R(slot_of h key := ring_after_delete (hs_nodes s) key (R (slot_of h key)))))
     \<and> (\<forall>x. x \<in> set (R (slot_of h key)) \<longrightarrow> key_of (hs_nodes s) x \<noteq> key \<longrightarrow> pay (hs_nodes s') x = pay (hs_nodes s) x)"
proof -
  let ?i = "slot_of h key" and ?m = "hs_nodes s"
  have g: "geo h" using hr_repD(1) [OF assms(1)] .
  have i: "?i < 2 ^ kb h" using slot_bound [OF g assms(2)] .
  obtain ix tg where ix: "hashCode_hr h key = Some (ix, tg)" "unat ix = ?i" using hashCode_hr_ok [OF g, of key] by blast
  have slot: "load_slot_hr h ix = Some (hr_slots h ! ?i)" "store_slot_hr h ix 0 = Some (h\<lparr>hr_slots := (hr_slots h)[?i := 0]\<rparr>)"
    using ix(2) i g by (simp_all add: load_slot_hr_def store_slot_hr_def geo_def)
  obtain r np pv s1 where get: "raw_hash_get h s key = Some (r, np, pv, s1)" "(r, np, pv) = get_out ?m key (R ?i)"
    "same_view s s1" "hs_verbose s1 = hs_verbose s" using raw_hash_get_ok [OF assms(1,2)] by blast
  note rep1 = same_view_rep(1) [OF assms(1) get(3)] and tags1 = same_view_rep(2) [OF assms(1) get(3)]
  have pm: "pay (hs_nodes s1) = pay ?m" using get(3) by (simp add: same_view_def)
  have v1: "hs_verbose s1 < 3" using get(4) assms(3) by simp
  show ?thesis
  proof (cases rule: get_out_cases [of key ?m "R ?i"])
    case 1
    then have "hotring_delete h s key = Some (False, h, s1)" using get(1,2) by (simp add: hotring_delete_def)
    moreover have "R(?i := ring_after_delete ?m key (R ?i)) = R" using ring_after_delete_miss [OF 1(1)] by simp
    ultimately show ?thesis using rep1 tags1 1(1) pm by (intro exI [of _ False] exI [of _ h] exI [of _ s1]) simp
  next
    case (2 vs x)
    from drop_bucket [OF rep1 i 2(1) v1] obtain s2 s' where d: "hotring_node_free s1 x = Some s2"
      "free_head s2 (hr_slots h ! ?i) = Some s'" "hr_rep (h\<lparr>hr_slots := (hr_slots h)[?i := 0]\<rparr>) s' (R(?i := []))"
      "tags_ok h s1 R \<longrightarrow> tags_ok (h\<lparr>hr_slots := (hr_slots h)[?i := 0]\<rparr>) s' (R(?i := []))"
      "pay (hs_nodes s') = (pay (hs_nodes s1))(x := None)" by blast
    have "hotring_delete h s key = Some (True, h\<lparr>hr_slots := (hr_slots h)[?i := 0]\<rparr>, s')"
      using get(1,2) 2(3) d(1,2) ix(1) slot by (simp add: hotring_delete_def hotring_head_free_def)
    moreover have "ring_after_delete ?m key (R ?i) = []" using 2(1,2) by (simp add: ring_after_delete_def)
    moreover have "key \<in> key_of ?m ` set (R ?i)" using 2(1,2) by auto
    ultimately show ?thesis using d(3-5) tags1 pm 2(2) by auto
  next
    case (3 us p x vs)
    from delete_cold [OF rep1 i 3(1) v1] obtain m' s' where d: "list_del_hr (hs_nodes s1) p x = Some m'"
      "hotring_node_free (s1\<lparr>hs_nodes := m'\<rparr>) x = Some s'" "hr_rep h s' (R(?i := us @ p # vs))"
      "tags_ok h s1 R \<longrightarrow> tags_ok h s' (R(?i := us @ p # vs))" "pay (hs_nodes s') = (pay (hs_nodes s1))(x := None)" by blast
    have "p \<noteq> 0" using ring_avoids_null [OF assms(1) i] 3(1) by auto
    then have "hotring_delete h s key = Some (True, h, s')" using get(1,2) 3(4) d(1,2) by (simp add: hotring_delete_def)
    moreover have "ring_after_delete ?m key (R ?i) = us @ p # vs"
      using ring_after_delete_hit [OF 3(2,3), of vs] 3(1) by simp
    moreover have "key \<in> key_of ?m ` set (R ?i)" using 3(1,2) by auto
    ultimately show ?thesis using d(3-5) tags1 pm 3(2) by auto
  qed
qed

end
