(* ===== verification/Bag_Table.thy ===== *)
theory Bag_Table
  imports Prelude "HOL-Library.Multiset"
begin

text \<open>
  The contract of a hash table that keeps every pair it is given: an insertion adds a pair, a
  search returns the value of some pair with the key, or reports that there is none, and leaves
  the pairs alone.  The search may change the state (it counts accesses).
\<close>

fun insert_all :: "('s \<Rightarrow> 'k \<Rightarrow> 'v \<Rightarrow> (int \<times> 's) option) \<Rightarrow> 's \<Rightarrow> ('k \<times> 'v) list \<Rightarrow> 's option" where
  "insert_all ins s [] = Some s"
| "insert_all ins s ((k, v) # kvs) = do {
     (r, s1) \<leftarrow> ins s k v;
     if r = 0 then insert_all ins s1 kvs else None
   }"

fun search_all :: "('s \<Rightarrow> 'k \<Rightarrow> ('v option \<times> 's) option) \<Rightarrow> 's \<Rightarrow> 'k list \<Rightarrow> ('v option list \<times> 's) option" where
  "search_all get s [] = Some ([], s)"
| "search_all get s (k # ks) = do {
     (v, s1) \<leftarrow> get s k;
     (vs, s2) \<leftarrow> search_all get s1 ks;
     Some (v # vs, s2)
   }"

text \<open>
  Each search returns the value of a pair with its key, or reports that there is none; where the keys
  of the pairs are distinct this is a lookup in the map they form.
\<close>

definition answers :: "('k \<times> 'v) list \<Rightarrow> 'k \<Rightarrow> 'v option \<Rightarrow> bool" where
  "answers kvs k r \<longleftrightarrow> (case r of None \<Rightarrow> k \<notin> fst ` set kvs | Some v \<Rightarrow> (k, v) \<in> set kvs)"

lemma answers_map: "distinct (map fst kvs) \<Longrightarrow> answers kvs k r \<Longrightarrow> map_of kvs k = r"
  by (cases r) (auto simp: answers_def map_of_eq_None_iff)

locale bag_table =
  fixes inv :: "'s \<Rightarrow> bool" and items :: "'s \<Rightarrow> ('k \<times> 'v) multiset" and key_ok :: "'k \<Rightarrow> bool"
    and ins :: "'s \<Rightarrow> 'k \<Rightarrow> 'v \<Rightarrow> (int \<times> 's) option" and get :: "'s \<Rightarrow> 'k \<Rightarrow> ('v option \<times> 's) option"
    and room :: "'s \<Rightarrow> nat \<Rightarrow> bool"
  assumes ins_law: "inv s \<Longrightarrow> key_ok k \<Longrightarrow> room s (Suc x) \<Longrightarrow>
      \<exists>s'. ins s k v = Some (0, s') \<and> inv s' \<and> items s' = add_mset (k, v) (items s) \<and> room s' x"
    and get_law: "inv s \<Longrightarrow> key_ok k \<Longrightarrow>
      \<exists>r s'. get s k = Some (r, s') \<and> inv s' \<and> items s' = items s
        \<and> (case r of None \<Rightarrow> k \<notin> fst ` set_mset (items s) | Some v \<Rightarrow> (k, v) \<in># items s)"
begin

lemma insert_all_items:
  assumes "inv s" "\<forall>(k, v) \<in> set kvs. key_ok k" "room s (length kvs)"
  shows "\<exists>s'. insert_all ins s kvs = Some s' \<and> inv s' \<and> items s' = items s + mset kvs"
  using assms
proof (induction kvs arbitrary: s)
  case (Cons kv kvs)
  obtain k v where kv: "kv = (k, v)" by (cases kv)
  with ins_law [of s k "length kvs" v] Cons.prems obtain s1 where
    s1: "ins s k v = Some (0, s1)" "inv s1" "items s1 = add_mset (k, v) (items s)" "room s1 (length kvs)" by auto
  from Cons.IH [OF s1(2) _ s1(4)] Cons.prems(2) obtain s' where
    "insert_all ins s1 kvs = Some s'" "inv s'" "items s' = items s1 + mset kvs" by auto
  with s1 kv show ?case by simp
qed simp

lemma search_all_answers:
  assumes "inv s" "\<forall>k \<in> set ks. key_ok k" "items s = mset kvs"
  shows "\<exists>rs s'. search_all get s ks = Some (rs, s') \<and> list_all2 (answers kvs) ks rs \<and> inv s' \<and> items s' = mset kvs"
  using assms
proof (induction ks arbitrary: s)
  case (Cons k ks)
  then have "inv s" "key_ok k" by simp_all
  from get_law [OF this] obtain r s1 where s1: "get s k = Some (r, s1)" "inv s1" "items s1 = items s"
    "case r of None \<Rightarrow> k \<notin> fst ` set_mset (items s) | Some v \<Rightarrow> (k, v) \<in># items s" by blast
  then have "answers kvs k r" using Cons.prems(3) by (simp add: answers_def split: option.splits)
  moreover from Cons.IH [OF s1(2)] Cons.prems s1(3) obtain rs s' where
    "search_all get s1 ks = Some (rs, s')" "list_all2 (answers kvs) ks rs" "inv s'" "items s' = mset kvs" by auto
  ultimately show ?case using s1(1) by simp
qed simp

text \<open>Filling an empty table and searching it, as the benchmark does.\<close>

lemma fill_and_search:
  assumes "inv s" "items s = {#}" "\<forall>(k, v) \<in> set kvs. key_ok k" "\<forall>k \<in> set ks. key_ok k" "room s (length kvs)"
  shows "\<exists>s1 rs s2. insert_all ins s kvs = Some s1 \<and> inv s1 \<and> items s1 = mset kvs
     \<and> search_all get s1 ks = Some (rs, s2) \<and> list_all2 (answers kvs) ks rs \<and> inv s2 \<and> items s2 = mset kvs"
proof -
  from insert_all_items [OF assms(1,3,5)] assms(2) obtain s1 where
    s1: "insert_all ins s kvs = Some s1" "inv s1" "items s1 = mset kvs" by auto
  from search_all_answers [OF s1(2) assms(4) s1(3)] s1 show ?thesis by blast
qed

end

end
