(* ===== verification/HotRing_Store.thy ===== *)
theory HotRing_Store
  imports HotRing_Delete Bag_Table
begin

text \<open>
  What \<open>display\<close> shows of a table, and the hot-ring table as an instance of the contract of a table
  that keeps every pair it is given.
\<close>

section \<open>Display\<close>

lemma read_nodes_ok: "set ps \<subseteq> dom m \<Longrightarrow> read_nodes m ps = Some (map (\<lambda>x. the (pay m x)) ps)"
  by (induction ps) (auto simp: pay_def)

lemma display_bucket_hr_ok:
  assumes "hr_rep h s R" "i < 2 ^ kb h"
  shows "display_bucket_hr h s (of_nat i) = Some (map (\<lambda>x. the (pay (hs_nodes s) x)) (R i))"
proof -
  have g: "geo h" using hr_repD(1) [OF assms(1)] .
  have "i < 2 ^ 64" using assms(2) g power_increasing [of "kb h" 64 "2 :: nat"] by (simp add: geo_def)
  then have load: "load_slot_hr h (of_nat i) = Some (hr_slots h ! i)"
    using g assms(2) by (simp add: load_slot_hr_def geo_def unat_of_nat)
  have b: "bucket_hr h s i (R i)" using hr_repD(2) [OF assms] .
  show ?thesis
  proof (cases "hr_slots h ! i = 0")
    case True
    with b load show ?thesis by (simp add: display_bucket_hr_def raw_hash_get_first_def bucket_hr_def)
  next
    case False
    from bucketD [OF b False] obtain w qs where w: "hs_heads s (hr_slots h ! i) = Some w" "R i = pk_addr w # qs"
      "ring (hs_nodes s) (R i)" by blast
    have "read_nodes (hs_nodes s) (pk_addr w # qs) = Some (map (\<lambda>x. the (pay (hs_nodes s) x)) (pk_addr w # qs))"
      using ring_in_dom [OF assms] w(2) by (intro read_nodes_ok) auto
    with False load w list_for_each_hr_ok [of "hs_nodes s" "pk_addr w" qs] show ?thesis
      by (simp add: display_bucket_hr_def raw_hash_get_first_def get_head_node_by_head_pointer_def)
  qed
qed

lemma display_from_hr_ok:
  "hr_rep h s R \<Longrightarrow> i + k \<le> 2 ^ kb h \<Longrightarrow>
   display_from_hr h s i k = Some (map (\<lambda>j. map (\<lambda>x. the (pay (hs_nodes s) x)) (R j)) [i..<i + k])"
  by (induction k arbitrary: i) (auto simp: display_bucket_hr_ok upt_rec)

lemma display_hr_ok:
  "hr_rep h s R \<Longrightarrow> display_hr h s = Some (map (\<lambda>j. map (\<lambda>x. the (pay (hs_nodes s) x)) (R j)) [0..<2 ^ kb h])"
  using display_from_hr_ok [of h s R 0 "2 ^ kb h"] hr_repD(1) [of h s R] by (simp add: display_hr_def geo_def)

section \<open>The pairs of a table\<close>

type_synonym hr_table = "hr_hash \<times> hr_state"

definition hr_items :: "hr_table \<Rightarrow> (u64 \<times> u64) multiset" where
  "hr_items t = (case t of (h, s) \<Rightarrow> mset (map (\<lambda>(k, _, v). (k, v)) (concat (the (display_hr h s)))))"

definition hr_ok :: "nat \<Rightarrow> nat \<Rightarrow> hr_table \<Rightarrow> bool" where
  "hr_ok n b t \<longleftrightarrow> (case t of (h, s) \<Rightarrow> nb h = n \<and> kb h = b \<and> (\<exists>R. hr_rep h s R \<and> tags_ok h s R))"

definition hr_insert :: "hr_table \<Rightarrow> u64 \<Rightarrow> u64 \<Rightarrow> (int \<times> hr_table) option" where
  "hr_insert t k v = (case t of (h, s) \<Rightarrow> hash_insert_hr h s k v)"

definition hr_search :: "hr_table \<Rightarrow> u64 \<Rightarrow> (u64 option \<times> hr_table) option" where
  "hr_search t k = (case t of (h, s) \<Rightarrow> do {
     (r, np, pv, s1) \<leftarrow> raw_hash_get h s k;
     case np of None \<Rightarrow> Some (None, h, s1)
     | Some x \<Rightarrow> do { n \<leftarrow> hs_nodes s1 x; Some (Some (rn_value n), h, s1) }
   })"

definition kv_of :: "hr_nodes \<Rightarrow> u64 \<Rightarrow> u64 \<times> u64" where "kv_of m x = (key_of m x, value_of m x)"

lemma kv_of_pay: "x \<in> dom m \<Longrightarrow> (\<lambda>(k, _, v). (k, v)) (the (pay m x)) = kv_of m x"
  by (auto simp: pay_def kv_of_def payload_defs)

lemma mset_concat_upt: "mset (concat (map f [0..<n])) = (\<Sum>i < n. mset (f i))"
  by (induction n) (simp_all add: add.commute)

lemma hr_items_rep:
  assumes "hr_rep h s R"
  shows "hr_items (h, s) = (\<Sum>i < 2 ^ kb h. image_mset (kv_of (hs_nodes s)) (mset (R i)))"
proof -
  have "map (\<lambda>(k, _, v). (k, v)) (map (\<lambda>x. the (pay (hs_nodes s) x)) (R j)) = map (kv_of (hs_nodes s)) (R j)" if "j < 2 ^ kb h" for j
    using ring_in_dom [OF assms that] unfolding map_map comp_def by (intro map_cong refl kv_of_pay) auto
  then have m: "map (\<lambda>j. map (\<lambda>(k, _, v). (k, v)) (map (\<lambda>x. the (pay (hs_nodes s) x)) (R j))) [0..<2 ^ kb h] =
      map (\<lambda>j. map (kv_of (hs_nodes s)) (R j)) [0..<2 ^ kb h]" by (intro map_cong refl) simp
  have "hr_items (h, s) = mset (concat (map (\<lambda>j. map (\<lambda>(k, _, v). (k, v)) (map (\<lambda>x. the (pay (hs_nodes s) x)) (R j))) [0..<2 ^ kb h]))"
    unfolding hr_items_def by (simp only: prod.case display_hr_ok [OF assms] option.sel map_concat map_map comp_def)
  also have "\<dots> = mset (concat (map (\<lambda>j. map (kv_of (hs_nodes s)) (R j)) [0..<2 ^ kb h]))" by (simp only: m)
  also have "\<dots> = (\<Sum>i < 2 ^ kb h. image_mset (kv_of (hs_nodes s)) (mset (R i)))"
    by (simp add: mset_concat_upt)
  finally show ?thesis .
qed

lemma hr_items_set:
  assumes "hr_rep h s R"
  shows "set_mset (hr_items (h, s)) = (\<Union>i < 2 ^ kb h. kv_of (hs_nodes s) ` set (R i))"
  unfolding hr_items_rep [OF assms] by (simp add: set_mset_sum)

lemma key_stored_iff:
  assumes "hr_rep h s R" "unat k < 2 ^ nb h"
  shows "k \<in> fst ` set_mset (hr_items (h, s)) \<longleftrightarrow> k \<in> key_of (hs_nodes s) ` set (R (slot_of h k))"
proof -
  have own: "i = slot_of h k" if "i < 2 ^ kb h" "k \<in> key_of (hs_nodes s) ` set (R i)" for i
    using hr_repD(2) [OF assms(1) that(1)] that(2) by (auto simp: bucket_hr_def split: if_splits)
  have bound: "slot_of h k < 2 ^ kb h" using slot_bound [OF hr_repD(1) [OF assms(1)] assms(2)] .
  have "fst ` set_mset (hr_items (h, s)) = (\<Union>i < 2 ^ kb h. key_of (hs_nodes s) ` set (R i))"
    unfolding hr_items_set [OF assms(1)] by (simp add: kv_of_def image_UN image_image)
  then have "k \<in> fst ` set_mset (hr_items (h, s)) \<longleftrightarrow> (\<exists>i < 2 ^ kb h. k \<in> key_of (hs_nodes s) ` set (R i))" by (auto simp: lessThan_iff)
  with own bound show ?thesis by metis
qed

lemma hr_items_same_view:
  assumes "hr_rep h s R" "same_view s s'"
  shows "hr_items (h, s') = hr_items (h, s)"
proof -
  have "pay (hs_nodes s') = pay (hs_nodes s)" using assms(2) by (simp add: same_view_def)
  from pay_eq_funs [OF this] have "kv_of (hs_nodes s') = kv_of (hs_nodes s)" by (simp add: kv_of_def fun_eq_iff)
  then show ?thesis unfolding hr_items_rep [OF assms(1)] hr_items_rep [OF same_view_rep(1) [OF assms]] by simp
qed

lemma hr_items_put:
  assumes "hr_rep h s R" "put_done h s R i node (k, t, v) xs h1 s1" "i < 2 ^ kb h"
  shows "hr_items (h1, s1) = add_mset (k, v) (hr_items (h, s))"
proof -
  from assms(2) have p: "hr_rep h1 s1 (R(i := xs))" "mset xs = add_mset node (mset (R i))" "node \<in> set (hs_avail s)"
    "pay (hs_nodes s1) = (pay (hs_nodes s))(node \<mapsto> (k, t, v))" "hr_k h1 = hr_k h" unfolding put_done_def by blast+
  have kb1: "kb h1 = kb h" using p(5) by (simp add: kb_def)
  have fresh: "node \<notin> dom (hs_nodes s)" using assms(1) p(3) by (auto simp: hr_rep_def)
  let ?f = "\<lambda>j. image_mset (kv_of (hs_nodes s)) (mset (R j))"
  have kv: "kv_of (hs_nodes s1) x = kv_of (hs_nodes s) x" if "x \<noteq> node" for x
    using pay_eqD [of "hs_nodes s1" x "hs_nodes s"] p(4) that by (simp add: kv_of_def)
  have "pay (hs_nodes s1) node = Some (k, t, v)" using p(4) by simp
  then have kvn: "kv_of (hs_nodes s1) node = (k, v)" by (auto simp: pay_def kv_of_def payload_defs)
  have old: "image_mset (kv_of (hs_nodes s1)) (mset (R j)) = ?f j" if "j < 2 ^ kb h" for j
    using ring_in_dom [OF assms(1) that] fresh by (intro image_mset_cong) (auto intro!: kv)
  have "hr_items (h1, s1) = (\<Sum>j < 2 ^ kb h. if j = i then add_mset (k, v) (?f i) else ?f j)"
    unfolding hr_items_rep [OF p(1)] kb1 using old p(2) kvn assms(3) by (intro sum.cong) auto
  also have "\<dots> = add_mset (k, v) (?f i) + (\<Sum>j \<in> {..<2 ^ kb h} - {i}. ?f j)"
    using assms(3) by (subst sum.remove [of _ i]) auto
  also have "\<dots> = add_mset (k, v) (hr_items (h, s))"
    unfolding hr_items_rep [OF assms(1)] using assms(3) by (subst (2) sum.remove [of _ i]) auto
  finally show ?thesis .
qed

section \<open>The contract\<close>

lemma hr_insert_law:
  assumes "hr_ok n b t" "unat k < 2 ^ n" "room_hr (snd t) (2 * Suc x)"
  shows "\<exists>t'. hr_insert t k v = Some (0, t') \<and> hr_ok n b t' \<and> hr_items t' = add_mset (k, v) (hr_items t) \<and> room_hr (snd t') (2 * x)"
proof -
  obtain h s where t: "t = (h, s)" by (cases t)
  with assms(1) obtain R where R: "nb h = n \<and> kb h = b" "hr_rep h s R" "tags_ok h s R" by (auto simp: hr_ok_def)
  have room: "room_hr s (Suc (Suc (2 * x)))" "room_hr s 2" using assms(3) t by (auto simp: room_hr_def)
  from hash_insert_ok [OF R(2,3) room(2)] assms(2) R(1) obtain node h1 s1 tag xs where
    ins: "hash_insert_hr h s k v = Some (0, h1, s1)" "put_done h s R (slot_of h k) node (k, tag, v) xs h1 s1" by blast
  have "slot_of h k < 2 ^ kb h" using slot_bound [OF hr_repD(1) [OF R(2)]] assms(2) R(1) by blast
  from hr_items_put [OF R(2) ins(2) this] room_put [OF ins(2) room(1)]
  have "hr_items (h1, s1) = add_mset (k, v) (hr_items (h, s))" "room_hr s1 (2 * x)" .
  moreover have "hr_ok n b (h1, s1)"
    using ins(2) R(1) unfolding put_done_def hr_ok_def by (auto simp: nb_def kb_def)
  ultimately show ?thesis using ins(1) t by (simp add: hr_insert_def)
qed

lemma hr_search_law:
  assumes "hr_ok n b t" "unat k < 2 ^ n"
  shows "\<exists>r t'. hr_search t k = Some (r, t') \<and> hr_ok n b t' \<and> hr_items t' = hr_items t
     \<and> (case r of None \<Rightarrow> k \<notin> fst ` set_mset (hr_items t) | Some v \<Rightarrow> (k, v) \<in># hr_items t)"
proof -
  obtain h s where t: "t = (h, s)" by (cases t)
  with assms(1) obtain R where R: "nb h = n \<and> kb h = b" "hr_rep h s R" "tags_ok h s R" by (auto simp: hr_ok_def)
  have k: "unat k < 2 ^ nb h" using assms(2) R(1) by simp
  obtain r np pv s' where get: "raw_hash_get h s k = Some (r, np, pv, s')"
    "(r, np, pv) = get_out (hs_nodes s) k (R (slot_of h k))" "same_view s s'" using raw_hash_get_ok [OF R(2) k] by blast
  have keep: "hr_ok n b (h, s')" "hr_items (h, s') = hr_items (h, s)"
    using same_view_rep [OF R(2) get(3)] R hr_items_same_view [OF R(2) get(3)] by (auto simp: hr_ok_def)
  have i: "slot_of h k < 2 ^ kb h" using slot_bound [OF hr_repD(1) [OF R(2)] k] .
  show ?thesis
  proof (cases np)
    case None
    then have "k \<notin> key_of (hs_nodes s) ` set (R (slot_of h k))"
      using get(2) by (cases rule: get_out_cases [of k "hs_nodes s" "R (slot_of h k)"]) auto
    with key_stored_iff [OF R(2) k] get(1) None keep t show ?thesis by (simp add: hr_search_def)
  next
    case (Some x)
    then have x: "x \<in> set (R (slot_of h k))" "key_of (hs_nodes s) x = k"
      using get(2) by (cases rule: get_out_cases [of k "hs_nodes s" "R (slot_of h k)"]; auto)+
    have ps: "pay (hs_nodes s') = pay (hs_nodes s)" using get(3) by (simp add: same_view_def)
    have "x \<in> dom (hs_nodes s')" using ring_in_dom [OF R(2) i] x(1) arg_cong [OF ps, of dom] unfolding dom_pay by blast
    then obtain nx where nx: "hs_nodes s' x = Some nx" by auto
    have "rn_value nx = value_of (hs_nodes s) x" using fun_cong [OF pay_eq_funs(3) [OF ps], of x] by (simp add: value_of_def nx)
    then have "(k, rn_value nx) = kv_of (hs_nodes s) x" using x(2) by (simp add: kv_of_def)
    then have "(k, rn_value nx) \<in># hr_items (h, s)" using x(1) i unfolding hr_items_set [OF R(2)] by blast
    with get(1) Some nx keep t show ?thesis by (simp add: hr_search_def)
  qed
qed

interpretation hb: bag_table "hr_ok n b" hr_items "\<lambda>k. unat k < 2 ^ n" hr_insert hr_search "\<lambda>t x. room_hr (snd t) (2 * x)" for n b
proof
  show "\<exists>s'. hr_insert s k v = Some (0, s') \<and> hr_ok n b s' \<and> hr_items s' = add_mset (k, v) (hr_items s) \<and> room_hr (snd s') (2 * x)"
    if "hr_ok n b s" "unat k < 2 ^ n" "room_hr (snd s) (2 * Suc x)" for s k x v
    using hr_insert_law [OF that] .
  show "\<exists>r s'. hr_search s k = Some (r, s') \<and> hr_ok n b s' \<and> hr_items s' = hr_items s
      \<and> (case r of None \<Rightarrow> k \<notin> fst ` set_mset (hr_items s) | Some v \<Rightarrow> (k, v) \<in># hr_items s)"
    if "hr_ok n b s" "unat k < 2 ^ n" for s k
    using hr_search_law [OF that] .
qed

text \<open>A fresh table.\<close>

lemma hash_alloc_hr_ok:
  assumes "distinct as" "\<forall>a \<in> set as. pk_addr a = a" "a \<noteq> 0" "b \<noteq> 0"
    and "unat k \<le> unat n" "unat n < 64" "unat n - unat k \<le> 30" "unat k \<le> 30"
  shows "\<exists>h. hash_alloc_hr \<lparr>hs_nodes = Map.empty, hs_heads = Map.empty, hs_avail = a # b # as, hs_request = 0, hs_verbose = v\<rparr> n k
       = Some (Some h, \<lparr>hs_nodes = Map.empty, hs_heads = Map.empty, hs_avail = as, hs_request = 0, hs_verbose = v\<rparr>)
     \<and> hr_rep h \<lparr>hs_nodes = Map.empty, hs_heads = Map.empty, hs_avail = as, hs_request = 0, hs_verbose = v\<rparr> (\<lambda>_. [])
     \<and> hr_n h = n \<and> hr_k h = k"
proof -
  let ?s = "\<lparr>hs_nodes = Map.empty, hs_heads = Map.empty, hs_avail = as, hs_request = 0, hs_verbose = v\<rparr>"
  let ?h = "\<lparr>hr_n = n, hr_k = k, hr_size = word_of_int (2 ^ unat k), hr_slots = replicate (2 ^ unat k) 0\<rparr>"
  have "int (unat k) \<le> 30" using assms(8) by (metis of_nat_le_iff of_nat_numeral)
  from shl_int_1 [OF _ this] have "shl_int 1 (int (unat k)) = Some (2 ^ unat k)" by (simp only: nat_int of_nat_0_le_iff)
  then have "shl_int 1 (uint k) = Some (2 ^ unat k)" by (simp only: uint_nat)
  then have "hash_alloc_hr \<lparr>hs_nodes = Map.empty, hs_heads = Map.empty, hs_avail = a # b # as, hs_request = 0, hs_verbose = v\<rparr> n k
      = Some (Some ?h, ?s)"
    using assms(3,4) by (simp add: hash_alloc_hr_def calloc_hr_def nat_power_eq)
  moreover have "geo ?h" using assms(5-8) unat_pow2_word [of "unat k"] by (simp add: geo_def nb_def kb_def tb_def)
  then have "hr_rep ?h ?s (\<lambda>_. [])" using assms(1,2) by (simp add: hr_rep_def bucket_hr_def kb_def)
  ultimately show ?thesis by (intro exI [of _ ?h]) simp
qed

end
