(* ===== verification/HotRing_Split.thy ===== *)
theory HotRing_Split
  imports HotRing_Store
begin

text \<open>
  The split of a ring at its two milestone nodes: where insertion puts them, why the part from
  the first to the second holds exactly the lower half of the tags, and what the two stores of
  \<open>hotring_rehash\<close> do to the links.
\<close>

section \<open>Where a milestone stands\<close>

text \<open>A new node precedes, seen from the head, every node with the same tag.\<close>

lemma ring_ins_first:
  "tf p \<noteq> t \<Longrightarrow> \<exists>us vs. ring_ins tf t e p qs = us @ e # vs \<and> qs = us @ vs \<and> t \<notin> tf ` set (p # us)"
proof (induction qs arbitrary: p)
  case (Cons q qs)
  show ?case
  proof (cases "tf q < tf p \<and> (t \<le> tf q \<or> tf p < t) \<or> tf p < t \<and> t \<le> tf q")
    case True
    with Cons.prems show ?thesis by (intro exI [of _ "[]"] exI [of _ "q # qs"]) simp
  next
    case False
    with Cons.prems have "tf q \<noteq> t" by auto
    from Cons.IH [OF this] obtain us vs where "ring_ins tf t e q qs = us @ e # vs" "qs = us @ vs" "t \<notin> tf ` set (q # us)" by blast
    with False Cons.prems show ?thesis by (intro exI [of _ "q # us"] exI [of _ vs]) auto
  qed
qed simp

lemma first_min_sorted:
  assumes "cyc_sorted (map tf (u @ x # v))" "u \<noteq> []" "\<And>y. tf x \<le> tf y" "tf x \<notin> tf ` set u"
  shows "sorted (map tf (x # v @ u))"
proof -
  obtain as bs where ab: "u @ x # v = as @ bs" "sorted (map tf (bs @ as))" using assms(1) unfolding cyc_sorted_map by blast
  from ab(1) consider (1) c where "as = u @ x # c" | (2) c where "u = as @ c" "bs = c @ x # v"
    by (auto simp: append_eq_append_conv2 Cons_eq_append_conv)
  then show ?thesis
  proof cases
    case 1
    with ab(2) assms(2) have "tf (hd u) \<le> tf x" by (cases u) (auto simp: sorted_append)
    with assms(2-4) show ?thesis by (metis antisym image_eqI list.set_sel(1))
  next
    case 2
    have "c = []"
    proof (rule ccontr)
      assume "c \<noteq> []"
      with ab(2) 2 have "tf (hd c) \<le> tf x" by (cases c) (auto simp: sorted_append)
      moreover have "hd c \<in> set u" using \<open>c \<noteq> []\<close> 2(1) by simp
      ultimately show False using assms(3,4) by (metis antisym image_eqI)
    qed
    with 2 ab(2) show ?thesis by simp
  qed
qed

lemma sorted_at:
  assumes "sorted (map tf (P @ m # Q))"
  shows "sorted (map tf P)" "sorted (map tf (m # Q))" "\<forall>x \<in> set P. tf x \<le> tf m" "\<forall>x \<in> set (m # Q). tf m \<le> tf x"
  using assms by (auto simp: sorted_append)

text \<open>
  The ring read from the zero milestone on: the nodes below the half, the other milestone, the
  nodes from the half on; and the predecessors of the two milestones.
\<close>

lemma milestones_split:
  assumes cyc: "cyc_sorted (map tf xs)" and H: "tf m0 < tf m1" "\<And>y. tf m0 \<le> tf y"
    and x0: "xs = u0 @ m0 # v0" "u0 \<noteq> []" "tf m0 \<notin> tf ` set u0" and x1: "xs = u1 @ m1 # v1" "u1 \<noteq> []" "tf m1 \<notin> tf ` set u1"
  shows "\<exists>A B us vs. xs = us @ vs \<and> vs @ us = m0 # A @ m1 # B \<and> last u0 = last (m1 # B) \<and> last u1 = last (m0 # A)
     \<and> sorted (map tf (m0 # A)) \<and> sorted (map tf (m1 # B)) \<and> (\<forall>x \<in> set (m0 # A). tf x < tf m1) \<and> (\<forall>x \<in> set (m1 # B). tf m1 \<le> tf x)"
proof -
  have srt: "sorted (map tf (m0 # v0 @ u0))" using first_min_sorted [of tf u0 m0 v0] cyc x0 H(2) by simp
  from x0(1) x1(1) have "u0 @ m0 # v0 = u1 @ m1 # v1" by simp
  then obtain c where "u0 = u1 @ c \<and> c @ m0 # v0 = m1 # v1 \<or> u0 @ c = u1 \<and> m0 # v0 = c @ m1 # v1"
    by (auto simp: append_eq_append_conv2)
  with H(1) consider (1) A where "u1 = u0 @ m0 # A" "v0 = A @ m1 # v1" | (2) C where "u0 = u1 @ m1 # C" "v1 = C @ m0 # v0"
    by (cases c) auto
  then show ?thesis
  proof cases
    case 1
    have s: "sorted (map tf ((m0 # A) @ m1 # v1 @ u0))" using srt 1(2) by simp
    have lt: "\<forall>x \<in> set (m0 # A). tf x < tf m1"
    proof
      fix x assume x: "x \<in> set (m0 # A)"
      then have "x \<in> set u1" using 1(1) by auto
      then have "tf x \<noteq> tf m1" using x1(3) by (metis image_eqI)
      with sorted_at(3) [OF s] x show "tf x < tf m1" by fastforce
    qed
    show ?thesis
      by (rule exI [of _ A], rule exI [of _ "v1 @ u0"], rule exI [of _ u0], rule exI [of _ "m0 # v0"])
         (use sorted_at [OF s] lt 1 x0(1,2) in \<open>simp only: append_Cons append_assoc last_append last.simps, simp\<close>)
  next
    case 2
    have s: "sorted (map tf ((m0 # v0 @ u1) @ m1 # C))" using srt 2(1) by simp
    have u1: "tf x < tf m1" if "x \<in> set u1" for x
    proof -
      have "tf x \<noteq> tf m1" using x1(3) that by (metis image_eqI)
      moreover have "tf x \<le> tf m1" using sorted_at(3) [OF s] that by simp
      ultimately show ?thesis by simp
    qed
    have hd1: "hd u1 \<in> set u1" using x1(2) by simp
    have "sorted (map tf ((m0 # v0) @ hd u1 # tl u1 @ m1 # C))"
      using s x1(2) by (cases u1) (simp_all del: sorted_simps(2))
    from sorted_at(3) [OF this] u1 [OF hd1] have "\<forall>x \<in> set (m0 # v0). tf x < tf m1" by fastforce
    with u1 have lt: "\<forall>x \<in> set (m0 # v0 @ u1). tf x < tf m1" by auto
    show ?thesis
      by (rule exI [of _ "v0 @ u1"], rule exI [of _ C], rule exI [of _ u0], rule exI [of _ "m0 # v0"])
         (use sorted_at [OF s] lt 2 x0(1) x1(2) in \<open>simp only: append_Cons append_assoc last_append last.simps, simp\<close>)
  qed
qed

section \<open>The two stores\<close>

lemma store_next_lnk:
  assumes "m x = Some n" "pk_addr a = a"
  shows "\<exists>m'. store_next m x a = Some m' \<and> lnk m' = (lnk m)(x \<mapsto> a) \<and> pay m' = pay m \<and> rn_list (the (m' x)) = a
     \<and> (\<forall>y. y \<noteq> x \<longrightarrow> m' y = m y)"
  using assms by (intro exI [of _ "m(x \<mapsto> n\<lparr>rn_list := a\<rparr>)"])
    (auto simp: store_next_def upd_node_hr_def lnk_def pay_def fun_eq_iff)

lemma rpath_snoc: "rpath f (l @ [x]) z \<longleftrightarrow> rpath f l x \<and> f x = Some z"
  by (simp add: rpath_append)

lemma split_stores:
  assumes "ring m (m0 # A @ m1 # B)"
  shows "\<exists>m' m''. store_next m (last (m0 # A)) m0 = Some m' \<and> store_next m' (last (m1 # B)) m1 = Some m''
     \<and> ring m'' (m0 # A) \<and> ring m'' (m1 # B) \<and> pay m'' = pay m
     \<and> (A = [] \<longrightarrow> rn_list (the (m'' m0)) = m0) \<and> (B = [] \<longrightarrow> rn_list (the (m'' m1)) = m1)
     \<and> (\<forall>x. x \<notin> set (m0 # A @ m1 # B) \<longrightarrow> m'' x = m x)"
proof -
  obtain l x where l: "m0 # A = l @ [x]" by (metis append_butlast_last_id list.distinct(1))
  obtain k y where k: "m1 # B = k @ [y]" by (metis append_butlast_last_id list.distinct(1))
  have lst: "last (m0 # A) = x" "last (m1 # B) = y" using l k by simp_all
  have r: "ring m ((l @ [x]) @ k @ [y])" using assms l k by (metis append_Cons)
  then have d: "distinct (l @ x # k @ [y])" and p: "rpath (lnk m) l x" "rpath (lnk m) k y"
    by (auto simp: ring_def rpath_append)
  have addr: "pk_addr m0 = m0" "pk_addr m1 = m1" using ring_addr [OF assms] by simp_all
  obtain nx where "m x = Some nx" using ring_dom [OF r, of x] by auto
  from store_next_lnk [where m = m, OF this addr(1)] obtain m' where m': "store_next m x m0 = Some m'" "lnk m' = (lnk m)(x \<mapsto> m0)"
    "pay m' = pay m" "rn_list (the (m' x)) = m0" "\<forall>z. z \<noteq> x \<longrightarrow> m' z = m z" by blast
  have "x \<noteq> y" using d by auto
  obtain ny where "m' y = Some ny" using ring_dom [OF r, of y] m'(5) \<open>x \<noteq> y\<close> by auto
  from store_next_lnk [where m = m', OF this addr(2)] obtain m'' where m'': "store_next m' y m1 = Some m''" "lnk m'' = (lnk m')(y \<mapsto> m1)"
    "pay m'' = pay m'" "rn_list (the (m'' y)) = m1" "\<forall>z. z \<noteq> y \<longrightarrow> m'' z = m' z" by blast
  have ll: "lnk m'' = (lnk m)(x \<mapsto> m0, y \<mapsto> m1)" using m'(2) m''(2) by simp
  have hds: "hd (l @ [x]) = m0" "hd (k @ [y]) = m1" by (simp_all only: l [symmetric] k [symmetric] list.sel)
  have "ring m'' (l @ [x])" "ring m'' (k @ [y])"
    unfolding ring_def hds rpath_snoc ll using d p \<open>x \<noteq> y\<close> by auto
  moreover have "A = [] \<longrightarrow> rn_list (the (m'' m0)) = m0" using l m'(4) m''(5) \<open>x \<noteq> y\<close> by (cases l) auto
  moreover have "B = [] \<longrightarrow> rn_list (the (m'' m1)) = m1" using k m''(4) by (cases k) auto
  moreover have "set (m0 # A @ m1 # B) = set ((m0 # A) @ (m1 # B))" by simp
  then have "x \<in> set (m0 # A @ m1 # B)" "y \<in> set (m0 # A @ m1 # B)" unfolding l k by simp_all
  then have "\<forall>z. z \<notin> set (m0 # A @ m1 # B) \<longrightarrow> m'' z = m z" using m'(5) m''(5) by metis
  ultimately show ?thesis using m'(1,3) m''(1,3) unfolding lst l k by (intro exI [of _ m'] exI [of _ m'']) simp
qed

end
