(* ===== verification/HotRing_Rehash.thy ===== *)
theory HotRing_Rehash
  imports HotRing_Split
begin

text \<open>
  The rehash: two milestone nodes per used bucket, the split of every ring at them, and the
  deletion of the milestones from the doubled table.  The table that results holds the same pairs.
\<close>

section \<open>Deletion of the head node alone\<close>

lemma of_nat_slot: "geo h \<Longrightarrow> i < 2 ^ kb h \<Longrightarrow> unat (of_nat i :: u64) = i"
proof -
  assume g: "geo h" "i < 2 ^ kb h"
  then have "i < 2 ^ 64" using power_increasing [of "kb h" 64 "2 :: nat"] by (simp add: geo_def)
  then show ?thesis by (simp add: unat_of_nat)
qed

definition head_deleted :: "hr_hash \<Rightarrow> hr_state \<Rightarrow> (nat \<Rightarrow> u64 list) \<Rightarrow> nat \<Rightarrow> u64 \<Rightarrow> u64 list \<Rightarrow> hr_hash \<Rightarrow> hr_state \<Rightarrow> bool" where
  "head_deleted h s R i x vs h' s' \<longleftrightarrow> hr_rep h' s' (R(i := vs)) \<and> hr_n h' = hr_n h \<and> hr_k h' = hr_k h \<and> hr_size h' = hr_size h
     \<and> pay (hs_nodes s') = (pay (hs_nodes s))(x := None) \<and> hs_verbose s' = hs_verbose s
     \<and> (\<forall>y. y \<notin> set (R i) \<longrightarrow> hs_nodes s' y = hs_nodes s y)"

lemma slot_access:
  assumes "hr_rep h s R" "i < 2 ^ kb h"
  shows "load_slot_hr h (of_nat i) = Some (hr_slots h ! i)"
    and "store_slot_hr h (of_nat i) e = Some (h\<lparr>hr_slots := (hr_slots h)[i := e]\<rparr>)"
  using of_nat_slot [OF hr_repD(1) [OF assms(1)] assms(2)] hr_repD(1) [OF assms(1)] assms(2)
  by (simp_all add: load_slot_hr_def store_slot_hr_def geo_def)

lemma delete_head_alone:
  assumes rep: "hr_rep h s R" and i: "i < 2 ^ kb h" and R: "R i = [x]" and v: "hs_verbose s < 3"
    and w: "hr_slots h ! i \<noteq> 0" "hs_heads s (hr_slots h ! i) = Some w" "pk_addr w = x"
    and n: "hs_nodes s x = Some n" "rn_list n = x"
  shows "\<exists>h' s'. hotring_delete_head h s (of_nat i) = Some (True, h', s') \<and> head_deleted h s R i x [] h' s'"
proof -
  from drop_bucket [OF rep i R v] obtain s1 s' where d: "hotring_node_free s x = Some s1" "free_head s1 (hr_slots h ! i) = Some s'"
    "hr_rep (h\<lparr>hr_slots := (hr_slots h)[i := 0]\<rparr>) s' (R(i := []))" "pay (hs_nodes s') = (pay (hs_nodes s))(x := None)"
    "hs_nodes s' = (hs_nodes s)(x := None)" "hs_verbose s' = hs_verbose s" by blast
  have "hotring_delete_head h s (of_nat i) = Some (True, h\<lparr>hr_slots := (hr_slots h)[i := 0]\<rparr>, s')"
    using slot_access [OF rep i] w n d(1,2)
    by (simp add: hotring_delete_head_def get_head_node_by_head_pointer_def hotring_head_free_by_index_def)
  with d(3-6) R show ?thesis by (simp add: head_deleted_def)
qed

lemma bucket_without_head:
  assumes b: "bucket_hr h s i (x # vs)" "hr_slots h ! i \<noteq> 0" and vs: "vs \<noteq> []" "x \<notin> set vs"
    and m: "ring m vs" "pay m = (pay (hs_nodes s))(x := None)"
    and s': "hs_heads s' = (hs_heads s)(hr_slots h ! i \<mapsto> hd vs)" "hs_nodes s' = m"
  shows "bucket_hr h s' i vs"
proof -
  have sorted: "cyc_sorted (map (key_of (hs_nodes s)) (x # vs))" and own: "\<forall>y \<in> set (x # vs). slot_of h (key_of (hs_nodes s) y) = i"
    using bucketD [OF b] by blast+
  have k: "key_of m y = key_of (hs_nodes s) y" if "y \<in> set vs" for y
  proof -
    have "y \<noteq> x" using that vs(2) by auto
    then show ?thesis using pay_eqD [of m y "hs_nodes s"] m(2) by simp
  qed
  then have keys: "map (key_of m) vs = map (key_of (hs_nodes s)) vs" by simp
  have "cyc_sorted (map (key_of m) vs)"
    unfolding keys using cyc_sorted_subseq [of "[]" "key_of (hs_nodes s) x" "map (key_of (hs_nodes s)) vs"] sorted by simp
  moreover have "pk_addr (hd vs) = hd vs" using ring_addr [OF m(1)] vs(1) by simp
  ultimately show ?thesis using m(1) b(2) k own s' by (simp add: bucket_hr_def)
qed

lemma delete_head_more:
  assumes rep: "hr_rep h s R" and i: "i < 2 ^ kb h" and R: "R i = x # vs" "vs \<noteq> []" and v: "hs_verbose s < 3"
    and w: "hr_slots h ! i \<noteq> 0" "hs_heads s (hr_slots h ! i) = Some w" "pk_addr w = x" and n: "hs_nodes s x = Some n"
  shows "\<exists>h' s'. hotring_delete_head h s (of_nat i) = Some (True, h', s') \<and> head_deleted h s R i x vs h' s'"
proof -
  let ?m = "hs_nodes s" and ?p = "hr_slots h ! i"
  have b: "bucket_hr h s i (x # vs)" using hr_repD(2) [OF rep i] R(1) by simp
  then have ring: "ring ?m (x # vs)" using bucketD [OF b w(1)] by blast
  have "x \<noteq> 0" using ring_avoids_null [OF rep i] R by auto
  have eq: "butlast vs @ last vs # x # [] = vs @ [x]"
    using append_butlast_last_id [OF R(2)] by (metis append.assoc append_Cons append_Nil)
  have r: "ring ?m (butlast vs @ last vs # x # [])" unfolding eq using ring_rotate [of ?m "[x]" vs] ring by simp
  from unlink_free_ring [OF r] R(2) obtain m' where m': "list_del_hr ?m (last vs) x = Some m'" "m' x \<noteq> None"
    "ring (m'(x := None)) vs" "pay (m'(x := None)) = (pay ?m)(x := None)" "\<forall>y. y \<noteq> last vs \<and> y \<noteq> x \<longrightarrow> m' y = ?m y" by auto
  have nx: "pk_addr (rn_list n) = hd vs" and xvs: "x \<notin> set vs" using ring n R(2) by (simp_all add: ring_def lnk_def)
  then have "rn_list n \<noteq> x" using ring_addr [OF ring, of x] R(2) by (metis hd_in_set list.set_intros(1))
  let ?s = "s\<lparr>hs_heads := (hs_heads s)(?p \<mapsto> hd vs), hs_nodes := m'(x := None)\<rparr>"
  have run: "hotring_delete_head h s (of_nat i) = Some (True, h, ?s)"
    using slot_access(1) [OF rep i] w n ring \<open>rn_list n \<noteq> x\<close> nx list_for_each_hr_ok [of ?m x vs] R m'(1,2) v \<open>x \<noteq> 0\<close>
    by (auto simp: hotring_delete_head_def get_head_node_by_head_pointer_def hotring_node_free_def)
  have dm: "dom (m'(x := None)) = dom ?m - {x}" using m'(4) by (metis dom_pay dom_fun_upd)
  have frame: "(m'(x := None)) y = ?m y" if "y \<notin> set (R i)" for y
    using that m'(5) R by (metis fun_upd_other last_in_set list.set_intros)
  have "hr_rep h ?s (R(i := vs))"
  proof (rule rep_update [OF rep i, where p = ?p])
    show "bucket_hr h ?s i vs" by (rule bucket_without_head [OF b w(1) R(2) xvs m'(3,4)]) simp_all
    show "set vs \<inter> set (R j) = {}" if "j < 2 ^ kb h" "j \<noteq> i" for j using hr_repD(4) [OF rep i that(1)] that(2) R by auto
    show "hs_nodes ?s y = hs_nodes s y" if "j < 2 ^ kb h" "j \<noteq> i" "y \<in> set (R j)" for j y
    proof -
      have "y \<notin> set (R i)" using hr_repD(4) [OF rep that(1) i that(2)] that(3) by blast
      from frame [OF this] show ?thesis by simp
    qed
    show "hs_heads ?s (hr_slots h ! j) = hs_heads s (hr_slots h ! j)" if "j < 2 ^ kb h" "j \<noteq> i" "hr_slots h ! j \<noteq> 0" for j
      using hr_repD(5) [OF rep that(1) i that(2,3)] by simp
  qed (use rep dm w(2) in \<open>auto simp: hr_rep_def\<close>)
  then have "head_deleted h s R i x vs h ?s" using m'(4) frame by (simp add: head_deleted_def)
  with run show ?thesis by blast
qed

lemma delete_head_ok:
  assumes rep: "hr_rep h s R" and i: "i < 2 ^ kb h" and R: "R i = x # vs" and v: "hs_verbose s < 3"
    and alone: "vs = [] \<longrightarrow> rn_list (the (hs_nodes s x)) = x"
  shows "\<exists>h' s'. hotring_delete_head h s (of_nat i) = Some (True, h', s') \<and> head_deleted h s R i x vs h' s'"
proof -
  have b: "bucket_hr h s i (x # vs)" using hr_repD(2) [OF rep i] R by simp
  then have used: "hr_slots h ! i \<noteq> 0" by (auto simp: bucket_hr_def)
  from bucketD [OF b used] obtain w where w: "hs_heads s (hr_slots h ! i) = Some w" "pk_addr w = x" "ring (hs_nodes s) (x # vs)" by auto
  obtain n where n: "hs_nodes s x = Some n" using ring_dom [OF w(3), of x] by auto
  show ?thesis
  proof (cases "vs = []")
    case True
    then show ?thesis using delete_head_alone [OF rep i _ v used w(1,2) n] alone R n by simp
  qed (rule delete_head_more [OF rep i R _ v used w(1,2) n])
qed

text \<open>The loop over the new table: every head is deleted.\<close>

lemma slot_used_iff: "hr_rep h s R \<Longrightarrow> i < 2 ^ kb h \<Longrightarrow> hr_slots h ! i \<noteq> 0 \<longleftrightarrow> R i \<noteq> []"
  using hr_repD(2) [of h s R i] by (auto simp: bucket_hr_def ring_def split: if_splits)

definition heads_deleted :: "hr_hash \<Rightarrow> hr_state \<Rightarrow> (nat \<Rightarrow> u64 list) \<Rightarrow> nat \<Rightarrow> hr_hash \<Rightarrow> hr_state \<Rightarrow> (nat \<Rightarrow> u64 list) \<Rightarrow> bool" where
  "heads_deleted h s R i h' s' R' \<longleftrightarrow> hr_rep h' s' R' \<and> hr_n h' = hr_n h \<and> hr_k h' = hr_k h
     \<and> (\<forall>j < 2 ^ kb h. R' j = (if i \<le> j then tl (R j) else R j))
     \<and> (\<forall>x. (\<forall>j < 2 ^ kb h. i \<le> j \<longrightarrow> R j \<noteq> [] \<longrightarrow> x \<noteq> hd (R j)) \<longrightarrow> pay (hs_nodes s') x = pay (hs_nodes s) x)"

lemma heads_deleted_skip:
  assumes "heads_deleted h s R (Suc i) h' s' R'" "R i = []"
  shows "heads_deleted h s R i h' s' R'"
proof -
  have "R' j = (if i \<le> j then tl (R j) else R j)" if "j < 2 ^ kb h" for j
    using assms that unfolding heads_deleted_def by (cases "j = i") auto
  with assms(1) show ?thesis unfolding heads_deleted_def by auto
qed

lemma heads_deleted_step:
  assumes one: "head_deleted h s R i x vs h1 s1" and rest: "heads_deleted h1 s1 (R(i := vs)) (Suc i) h' s' R'"
    and i: "i < 2 ^ kb h" "R i = x # vs"
  shows "heads_deleted h s R i h' s' R'"
proof -
  note d = one [unfolded head_deleted_def] and r = rest [unfolded heads_deleted_def]
  have kb1: "kb h1 = kb h" using d by (simp add: kb_def)
  have "R' j = (if i \<le> j then tl (R j) else R j)" if "j < 2 ^ kb h" for j
    using r i that kb1 by (cases "j = i") auto
  moreover have "pay (hs_nodes s') z = pay (hs_nodes s) z" if "\<forall>j < 2 ^ kb h. i \<le> j \<longrightarrow> R j \<noteq> [] \<longrightarrow> z \<noteq> hd (R j)" for z
  proof -
    have "z \<noteq> x" using that i by auto
    moreover have "\<forall>j < 2 ^ kb h1. Suc i \<le> j \<longrightarrow> (R(i := vs)) j \<noteq> [] \<longrightarrow> z \<noteq> hd ((R(i := vs)) j)" using that kb1 by auto
    ultimately show ?thesis using r d by simp
  qed
  ultimately show ?thesis using r d unfolding heads_deleted_def by auto
qed

lemma delete_heads_ok:
  assumes "hr_rep h s R" "i + k = 2 ^ kb h" "hs_verbose s < 3"
    "\<And>j x. i \<le> j \<Longrightarrow> j < 2 ^ kb h \<Longrightarrow> R j = [x] \<Longrightarrow> rn_list (the (hs_nodes s x)) = x"
  shows "\<exists>h' s' R'. delete_heads_loop h s i k = Some (h', s') \<and> heads_deleted h s R i h' s' R'"
  using assms
proof (induction k arbitrary: h s R i)
  case 0
  then show ?case by (auto simp: heads_deleted_def)
next
  case (Suc k)
  have i: "i < 2 ^ kb h" using Suc.prems(2) by simp
  note load = slot_access(1) [OF Suc.prems(1) i] slot_used_iff [OF Suc.prems(1) i]
  show ?case
  proof (cases "R i")
    case Nil
    have "\<exists>h' s' R'. delete_heads_loop h s (Suc i) k = Some (h', s') \<and> heads_deleted h s R (Suc i) h' s' R'"
    proof (rule Suc.IH [OF Suc.prems(1) _ Suc.prems(3)])
      show "rn_list (the (hs_nodes s x)) = x" if "Suc i \<le> j" "j < 2 ^ kb h" "R j = [x]" for j x
        using Suc.prems(4) [of j x] that by simp
    qed (use Suc.prems(2) in simp)
    with load Nil show ?thesis by (auto intro: heads_deleted_skip)
  next
    case (Cons x vs)
    have "vs = [] \<longrightarrow> rn_list (the (hs_nodes s x)) = x" using Suc.prems(4) [of i x] i Cons by simp
    from delete_head_ok [OF Suc.prems(1) i Cons Suc.prems(3) this] obtain h1 s1 where
      run: "hotring_delete_head h s (of_nat i) = Some (True, h1, s1)" and d: "head_deleted h s R i x vs h1 s1" by blast
    have kb1: "kb h1 = kb h" using d by (simp add: head_deleted_def kb_def)
    have alone: "rn_list (the (hs_nodes s1 y)) = y" if "Suc i \<le> j" "j < 2 ^ kb h1" "(R(i := vs)) j = [y]" for j y
    proof -
      have "R j = [y]" "j \<noteq> i" using that(1,3) by auto
      moreover have "y \<notin> set (R i)" using hr_repD(4) [OF Suc.prems(1), of j i] that(2) kb1 i calculation by auto
      ultimately show ?thesis using d Suc.prems(4) [of j y] that(1,2) kb1 by (simp add: head_deleted_def)
    qed
    have "hr_rep h1 s1 (R(i := vs))" "Suc i + k = 2 ^ kb h1" "hs_verbose s1 < 3"
      using d kb1 Suc.prems(2,3) by (simp_all add: head_deleted_def)
    with Suc.IH [OF this] alone obtain h' s' R' where
      r: "delete_heads_loop h1 s1 (Suc i) k = Some (h', s')" "heads_deleted h1 s1 (R(i := vs)) (Suc i) h' s' R'" by blast
    with load Cons run heads_deleted_step [OF d r(2) i Cons] show ?thesis by auto
  qed
qed

end
