(* ===== verification/HotRing_Split_Ring.thy ===== *)
theory HotRing_Split_Ring
  imports HotRing_Rehash
begin

text \<open>One bucket of the rehash: its ring with both milestones is split into the rings of two buckets of the new table.\<close>

section \<open>Milestone keys\<close>

definition half_tag :: "hr_hash \<Rightarrow> u64" where "half_tag h = push_bit (tb h - 1) 1"
definition base_key :: "hr_hash \<Rightarrow> nat \<Rightarrow> u64" where "base_key h j = word_of_int (int j * 2 ^ tb h)"

lemma unat_half_tag: "geo h \<Longrightarrow> unat (half_tag h) = 2 ^ (tb h - 1)"
proof -
  assume "geo h"
  then have "tb h \<le> 30" by (simp add: geo_def)
  then have "tb h - 1 < 64" by simp
  from unat_pow2_word [OF this] show ?thesis by (simp add: half_tag_def push_bit_eq_mult)
qed

lemma unat_base_key: "j * 2 ^ tb h < 2 ^ 31 \<Longrightarrow> unat (base_key h j) = j * 2 ^ tb h"
proof -
  assume a: "j * 2 ^ tb h < 2 ^ 31"
  have "base_key h j = of_nat (j * 2 ^ tb h)" by (simp add: base_key_def)
  moreover have "unat (of_nat (j * 2 ^ tb h) :: u64) = j * 2 ^ tb h" using a by (simp only: unat_of_nat) simp
  ultimately show ?thesis by (simp only:)
qed

lemma base_key_nat: "of_nat j * 2 ^ tb h = base_key h j"
  by (simp add: base_key_def)

lemma half_lt: "0 < tb h \<Longrightarrow> (2 :: nat) ^ (tb h - 1) < 2 ^ tb h"
  by simp

lemma base_key_facts:
  assumes "geo h" "0 < tb h" "j < 2 ^ kb h" "j * 2 ^ tb h < 2 ^ 31"
  shows "unat (base_key h j + half_tag h) = j * 2 ^ tb h + 2 ^ (tb h - 1)"
    "slot_of h (base_key h j) = j" "slot_of h (base_key h j + half_tag h) = j"
    "unat (base_key h j) mod 2 ^ tb h = 0" "unat (base_key h j + half_tag h) mod 2 ^ tb h = unat (half_tag h)"
    "unat (base_key h j) < 2 ^ nb h" "unat (base_key h j + half_tag h) < 2 ^ nb h"
proof -
  note u = unat_base_key [OF assms(4)] unat_half_tag [OF assms(1)]
  have "(2 :: nat) ^ (tb h - 1) \<le> 2 ^ 30" using assms(1) by (intro power_increasing) (auto simp: geo_def)
  with assms(4) have "j * 2 ^ tb h + 2 ^ (tb h - 1) < 2 ^ 64" by simp
  then show s: "unat (base_key h j + half_tag h) = j * 2 ^ tb h + 2 ^ (tb h - 1)"
    using u by (simp add: unat_word_ariths)
  show "slot_of h (base_key h j) = j" "unat (base_key h j) mod 2 ^ tb h = 0" using u(1) by (simp_all add: slot_of_def)
  show "slot_of h (base_key h j + half_tag h) = j" "unat (base_key h j + half_tag h) mod 2 ^ tb h = unat (half_tag h)"
    using s u(2) half_lt [OF assms(2)] by (simp_all add: slot_of_def)
  have "Suc j * 2 ^ tb h \<le> 2 ^ kb h * 2 ^ tb h" using assms(3) by (intro mult_right_mono) auto
  also have "\<dots> = (2 :: nat) ^ nb h" using assms(1) by (simp add: tb_def geo_def flip: power_add)
  finally have "j * 2 ^ tb h + 2 ^ tb h \<le> 2 ^ nb h" by simp
  moreover have "0 < (2 :: nat) ^ tb h" by simp
  ultimately show "unat (base_key h j) < 2 ^ nb h" "unat (base_key h j + half_tag h) < 2 ^ nb h"
    unfolding s u(1) using half_lt [OF assms(2)] by linarith+
qed

text \<open>Slots of the new table, which has one more bit of index.\<close>

lemma slot_of_doubled:
  assumes "tb new = tb h - 1" "0 < tb h" "slot_of h k = j" "unat t = unat k mod 2 ^ tb h"
  shows "slot_of new k = (if unat t < 2 ^ (tb h - 1) then 2 * j else 2 * j + 1)"
proof -
  obtain c where c: "tb h = Suc c" using assms(2) by (cases "tb h") auto
  have k: "unat k = j * 2 ^ Suc c + unat t" using div_mult_mod_eq [of "unat k" "2 ^ tb h"] assms(3,4) c by (simp add: slot_of_def)
  have t: "unat t < 2 ^ Suc c" using assms(4) c by simp
  have "slot_of new k = (2 * j * 2 ^ c + unat t) div 2 ^ c" using assms(1) c k by (simp add: slot_of_def algebra_simps)
  also have "\<dots> = 2 * j + unat t div 2 ^ c" by simp
  also have "unat t div 2 ^ c = (if unat t < 2 ^ c then 0 else 1)" using t by (auto simp: div_nat_eqI)
  finally show ?thesis using c by simp
qed

section \<open>The split\<close>

definition marked :: "hr_hash \<Rightarrow> hr_hash \<Rightarrow> hr_state \<Rightarrow> nat \<Rightarrow> u64 list \<Rightarrow> u64 \<Rightarrow> u64 \<Rightarrow> bool" where
  "marked h new s j xs m0 m1 \<longleftrightarrow>
     (\<exists>u v. xs = u @ m0 # v \<and> u \<noteq> [] \<and> 0 \<notin> tag_of (hs_nodes s) ` set u)
     \<and> (\<exists>u v. xs = u @ m1 # v \<and> u \<noteq> [] \<and> half_tag h \<notin> tag_of (hs_nodes s) ` set u)
     \<and> key_of (hs_nodes s) m0 = base_key h j \<and> tag_of (hs_nodes s) m0 = 0
     \<and> key_of (hs_nodes s) m1 = base_key h j + half_tag h \<and> tag_of (hs_nodes s) m1 = half_tag h
     \<and> hr_slots new ! (2 * j) \<noteq> 0 \<and> heads_view s (hr_slots new ! (2 * j)) = Some m0
     \<and> hr_slots new ! (2 * j + 1) \<noteq> 0 \<and> heads_view s (hr_slots new ! (2 * j + 1)) = Some m1"

definition split_done :: "hr_hash \<Rightarrow> hr_state \<Rightarrow> nat \<Rightarrow> u64 list \<Rightarrow> u64 list \<Rightarrow> bool" where
  "split_done new s j xs ys \<longleftrightarrow> bucket_hr new s (2 * j) xs \<and> bucket_hr new s (2 * j + 1) ys
     \<and> (\<forall>x. xs = [x] \<longrightarrow> rn_list (the (hs_nodes s x)) = x) \<and> (\<forall>y. ys = [y] \<longrightarrow> rn_list (the (hs_nodes s y)) = y)"

lemma shl_base:
  assumes "geo h" "i * 2 ^ tb h < 2 ^ 31"
  shows "shl_int (int i) (int (tb h)) = Some (int i * 2 ^ tb h)"
proof -
  have "int (i * 2 ^ tb h) < 2 ^ 31" using assms(2) by (metis of_nat_less_iff of_nat_numeral of_nat_power)
  then show ?thesis using assms(1) by (simp add: shl_int_def geo_def)
qed

lemma key_absent:
  assumes "\<forall>x \<in> set u. unat (tag_of m x) = unat (key_of m x) mod 2 ^ b" "t \<notin> tag_of m ` set u" "unat k mod 2 ^ b = unat t"
  shows "k \<notin> key_of m ` set u"
proof
  assume "k \<in> key_of m ` set u"
  then obtain y where y: "y \<in> set u" "key_of m y = k" by auto
  with assms(1,3) have "tag_of m y = t" by (simp add: word_unat_eq_iff)
  with y(1) assms(2) show False by auto
qed

text \<open>The searches for the two milestones, which leave the view of the table as it is.\<close>

lemma get_cold:
  assumes "geo h" "unat key < 2 ^ nb h" "bucket_hr h s (slot_of h key) xs" "xs = u @ x # v" "u \<noteq> []"
    "key \<notin> key_of (hs_nodes s) ` set u" "key_of (hs_nodes s) x = key"
  obtains s' where "raw_hash_get h s key = Some (GET_ACCESS_COLD, Some x, last u, s')" "same_view s s'"
    "hs_verbose s' = hs_verbose s" "\<forall>y. y \<notin> set xs \<longrightarrow> hs_nodes s' y = hs_nodes s y"
  using raw_hash_get_bucket [OF assms(1-3)] get_out_hit [OF assms(6,7), of v] assms(4,5) that by auto

lemma split_gets:
  assumes g: "geo h" "0 < tb h" "j < 2 ^ kb h" "j * 2 ^ tb h < 2 ^ 31"
    and b: "bucket_hr h s j xs" "\<forall>x \<in> set xs. unat (tag_of (hs_nodes s) x) = unat (key_of (hs_nodes s) x) mod 2 ^ tb h"
    and x0: "xs = u0 @ m0 # v0" "u0 \<noteq> []" "0 \<notin> tag_of (hs_nodes s) ` set u0" "key_of (hs_nodes s) m0 = base_key h j"
    and x1: "xs = u1 @ m1 # v1" "u1 \<noteq> []" "half_tag h \<notin> tag_of (hs_nodes s) ` set u1"
      "key_of (hs_nodes s) m1 = base_key h j + half_tag h"
  obtains s1 s2 where "raw_hash_get h s (base_key h j) = Some (GET_ACCESS_COLD, Some m0, last u0, s1)"
    "raw_hash_get h s1 (base_key h j + half_tag h) = Some (GET_ACCESS_COLD, Some m1, last u1, s2)"
    "same_view s s2" "hs_verbose s2 = hs_verbose s" "\<forall>y. y \<notin> set xs \<longrightarrow> hs_nodes s2 y = hs_nodes s y"
proof -
  note kf = base_key_facts [OF g]
  have k0: "base_key h j \<notin> key_of (hs_nodes s) ` set u0"
    by (rule key_absent [OF _ x0(3)]) (use b(2) x0(1) kf(4) in auto)
  have "bucket_hr h s (slot_of h (base_key h j)) xs" using b(1) kf(2) by simp
  from get_cold [OF g(1) kf(6) this x0(1,2) k0 x0(4)] obtain s1 where
    g1: "raw_hash_get h s (base_key h j) = Some (GET_ACCESS_COLD, Some m0, last u0, s1)" "same_view s s1" "hs_verbose s1 = hs_verbose s"
    "\<forall>y. y \<notin> set xs \<longrightarrow> hs_nodes s1 y = hs_nodes s y" by blast
  have v1: "lnk (hs_nodes s1) = lnk (hs_nodes s)" "pay (hs_nodes s1) = pay (hs_nodes s)" "heads_view s1 = heads_view s"
    using g1(2) by (auto simp: same_view_def)
  have "base_key h j + half_tag h \<notin> key_of (hs_nodes s) ` set u1"
    by (rule key_absent [OF _ x1(3)]) (use b(2) x1(1) kf(5) in auto)
  then have k1: "base_key h j + half_tag h \<notin> key_of (hs_nodes s1) ` set u1" "key_of (hs_nodes s1) m1 = base_key h j + half_tag h"
    using x1(4) pay_eq_funs [OF v1(2)] by simp_all
  have "bucket_hr h s1 (slot_of h (base_key h j + half_tag h)) xs"
    using b(1) kf(3) bucket_cong [of h j h s1 s xs] v1 by simp
  from get_cold [OF g(1) kf(7) this x1(1,2) k1] obtain s2 where
    g2: "raw_hash_get h s1 (base_key h j + half_tag h) = Some (GET_ACCESS_COLD, Some m1, last u1, s2)" "same_view s1 s2"
    "hs_verbose s2 = hs_verbose s1" "\<forall>y. y \<notin> set xs \<longrightarrow> hs_nodes s2 y = hs_nodes s1 y" by blast
  show thesis by (rule that [OF g1(1) g2(1) same_view_trans [OF g1(2) g2(2)]]) (use g1 g2 in simp_all)
qed

text \<open>A part of the ring whose tags are all in one half is a ring of the new table.\<close>

lemma new_half:
  assumes new: "tb new = tb h - 1" "0 < tb h"
    and own: "\<forall>x \<in> set xs. slot_of h (key_of m x) = j" "\<forall>x \<in> set xs. unat (tag_of m x) = unat (key_of m x) mod 2 ^ tb h"
    and ys: "set ys \<subseteq> set xs" "sorted (map (tag_of m) ys)" "ys = x # zs"
      "\<forall>x \<in> set ys. d = (if unat (tag_of m x) < 2 ^ (tb h - 1) then 2 * j else 2 * j + 1)"
    and s: "key_of (hs_nodes s) = key_of m" "ring (hs_nodes s) ys" "hr_slots new ! d \<noteq> 0" "heads_view s (hr_slots new ! d) = Some x"
  shows "bucket_hr new s d ys"
proof -
  have "cyc_sorted (map (tag_of m) ys)" using ys(2) by (intro cyc_sortedI [of _ _ "[]"]) simp_all
  then have "cyc_sorted (map (key_of m) ys)" using bucket_orders [of ys h m j] own ys(1) by blast
  moreover have "slot_of new (key_of m z) = d" if "z \<in> set ys" for z
  proof -
    have "z \<in> set xs" using that ys(1) by blast
    then show ?thesis using slot_of_doubled [OF new, of "key_of m z" j "tag_of m z"] own ys(4) that by simp
  qed
  ultimately show ?thesis unfolding bucket_hr_def heads_view_def [symmetric] using s ys(3) by auto
qed

text \<open>What the split of one ring \<open>xs\<close> leaves: the milestones head the two halves.\<close>

definition split_one :: "hr_hash \<Rightarrow> hr_state \<Rightarrow> nat \<Rightarrow> u64 list \<Rightarrow> u64 \<Rightarrow> u64 \<Rightarrow> hr_state \<Rightarrow> u64 list \<Rightarrow> u64 list \<Rightarrow> bool" where
  "split_one new s j xs m0 m1 s' A B \<longleftrightarrow> mset xs = add_mset m0 (add_mset m1 (mset A + mset B))
     \<and> split_done new s' j (m0 # A) (m1 # B)
     \<and> pay (hs_nodes s') = pay (hs_nodes s) \<and> heads_view s' = heads_view s \<and> hs_avail s' = hs_avail s \<and> hs_verbose s' = hs_verbose s
     \<and> (\<forall>x. x \<notin> set xs \<longrightarrow> hs_nodes s' x = hs_nodes s x)"

definition splittable :: "hr_hash \<Rightarrow> hr_hash \<Rightarrow> hr_state \<Rightarrow> nat \<Rightarrow> u64 list \<Rightarrow> u64 \<Rightarrow> u64 \<Rightarrow> bool" where
  "splittable h new s j xs m0 m1 \<longleftrightarrow> bucket_hr h s j xs
     \<and> (\<forall>x \<in> set xs. unat (tag_of (hs_nodes s) x) = unat (key_of (hs_nodes s) x) mod 2 ^ tb h)
     \<and> (xs \<noteq> [] \<longrightarrow> marked h new s j xs m0 m1)"

lemma split_ring_ok:
  assumes g: "geo h" "0 < tb h" "j < 2 ^ kb h" "j * 2 ^ tb h < 2 ^ 31" and new: "tb new = tb h - 1"
    and sp: "splittable h new s j xs m0 m1" "xs \<noteq> []"
  shows "\<exists>s' A B. split_ring (int (tb h)) (half_tag h) h s j = Some s' \<and> split_one new s j xs m0 m1 s' A B"
proof -
  let ?m = "hs_nodes s" and ?H = "half_tag h"
  have b: "bucket_hr h s j xs" "\<forall>x \<in> set xs. unat (tag_of ?m x) = unat (key_of ?m x) mod 2 ^ tb h"
    and mk: "marked h new s j xs m0 m1" using sp by (simp_all add: splittable_def)
  from mk obtain u0 v0 u1 v1 where x: "xs = u0 @ m0 # v0" "u0 \<noteq> []" "0 \<notin> tag_of ?m ` set u0"
    "xs = u1 @ m1 # v1" "u1 \<noteq> []" "?H \<notin> tag_of ?m ` set u1"
    and m: "key_of ?m m0 = base_key h j" "tag_of ?m m0 = 0" "key_of ?m m1 = base_key h j + ?H" "tag_of ?m m1 = ?H"
    and sl: "hr_slots new ! (2 * j) \<noteq> 0" "heads_view s (hr_slots new ! (2 * j)) = Some m0"
      "hr_slots new ! (2 * j + 1) \<noteq> 0" "heads_view s (hr_slots new ! (2 * j + 1)) = Some m1" unfolding marked_def by blast
  have used: "hr_slots h ! j \<noteq> 0" using b(1) x(1) by (auto simp: bucket_hr_def)
  have ring: "ring ?m xs" and cyc: "cyc_sorted (map (key_of ?m) xs)" and own: "\<forall>x \<in> set xs. slot_of h (key_of ?m x) = j"
    using bucketD [OF b(1) used] by blast+
  have cyct: "cyc_sorted (map (tag_of ?m) xs)" using bucket_orders [OF own b(2)] cyc by simp
  obtain s1 s2 where gets: "raw_hash_get h s (base_key h j) = Some (GET_ACCESS_COLD, Some m0, last u0, s1)"
    "raw_hash_get h s1 (base_key h j + ?H) = Some (GET_ACCESS_COLD, Some m1, last u1, s2)"
    "same_view s s2" "hs_verbose s2 = hs_verbose s" "\<forall>y. y \<notin> set xs \<longrightarrow> hs_nodes s2 y = ?m y"
    by (rule split_gets [OF g b x(1-3) m(1) x(4-6) m(3)])
  have v2: "lnk (hs_nodes s2) = lnk ?m" "pay (hs_nodes s2) = pay ?m" "heads_view s2 = heads_view s" "hs_avail s2 = hs_avail s"
    using gets(3) by (auto simp: same_view_def)
  have H0: "tag_of ?m m0 < tag_of ?m m1" using m(2,4) unat_half_tag [OF g(1)] by (simp add: word_less_nat_alt)
  from milestones_split [OF cyct H0 _ x(1,2) _ x(4,5)] x(3,6) m(2,4) obtain A B us vs where
    ab: "xs = us @ vs" "vs @ us = m0 # A @ m1 # B" "last u0 = last (m1 # B)" "last u1 = last (m0 # A)"
    "sorted (map (tag_of ?m) (m0 # A))" "sorted (map (tag_of ?m) (m1 # B))" "\<forall>x \<in> set (m0 # A). tag_of ?m x < ?H"
    "\<forall>x \<in> set (m1 # B). ?H \<le> tag_of ?m x" by auto
  have "ring (hs_nodes s2) (m0 # A @ m1 # B)"
    using ring_rotate [of ?m us vs] ring ab(1,2) ring_cong [of "m0 # A @ m1 # B" ?m "hs_nodes s2"] v2(1) by simp
  from split_stores [OF this] obtain n1 n2 where n: "store_next (hs_nodes s2) (last u1) m0 = Some n1" "store_next n1 (last u0) m1 = Some n2"
    "ring n2 (m0 # A)" "ring n2 (m1 # B)" "pay n2 = pay (hs_nodes s2)" "A = [] \<longrightarrow> rn_list (the (n2 m0)) = m0"
    "B = [] \<longrightarrow> rn_list (the (n2 m1)) = m1" "\<forall>x. x \<notin> set (m0 # A @ m1 # B) \<longrightarrow> n2 x = hs_nodes s2 x"
    unfolding ab(3,4) by blast
  let ?s = "s2\<lparr>hs_nodes := n2\<rparr>"
  have run: "split_ring (int (tb h)) ?H h s j = Some ?s"
    using gets(1,2) n(1,2) shl_base [OF g(1,4)] by (simp add: split_ring_def base_key_nat)
  have ms: "mset xs = mset (m0 # A @ m1 # B)" using ab(1,2) by (metis mset_append union_commute)
  then have st: "set xs = set (m0 # A @ m1 # B)" by (metis set_mset_mset)
  have fs: "key_of (hs_nodes ?s) = key_of ?m" using pay_eq_funs [of n2 ?m] n(5) v2(2) by simp
  have "bucket_hr new ?s (2 * j) (m0 # A)"
    by (rule new_half [OF new g(2) own b(2) _ ab(5) refl _ fs])
      (use st n(3) sl v2(3) ab(7) unat_half_tag [OF g(1)] in \<open>auto simp: word_less_nat_alt\<close>)
  moreover have "bucket_hr new ?s (2 * j + 1) (m1 # B)"
    by (rule new_half [OF new g(2) own b(2) _ ab(6) refl _ fs])
      (use st n(4) sl v2(3) ab(8) unat_half_tag [OF g(1)] in \<open>auto simp: word_le_nat_alt\<close>)
  ultimately have "split_done new ?s j (m0 # A) (m1 # B)" using n(6,7) by (simp add: split_done_def)
  then have "split_one new s j xs m0 m1 ?s A B"
    unfolding split_one_def using ms n(5,8) v2 gets(4,5) st by simp
  with run show ?thesis by blast
qed

end
