(* ===== verification/HotRing_Init.thy ===== *)
theory HotRing_Init
  imports HotRing_Split_Ring
begin

text \<open>The first phase of the rehash: two milestones in every used ring, each with a head in the new table.\<close>

section \<open>Frame lemmas\<close>

lemma marked_cong:
  assumes "\<And>x. x \<in> set xs \<Longrightarrow> pay (hs_nodes s') x = pay (hs_nodes s) x"
    "hr_slots new' ! (2 * j) = hr_slots new ! (2 * j)" "hr_slots new' ! (2 * j + 1) = hr_slots new ! (2 * j + 1)"
    "heads_view s' (hr_slots new ! (2 * j)) = heads_view s (hr_slots new ! (2 * j))"
    "heads_view s' (hr_slots new ! (2 * j + 1)) = heads_view s (hr_slots new ! (2 * j + 1))"
    and mk: "marked h new s j xs m0 m1"
  shows "marked h new' s' j xs m0 m1"
proof -
  from mk obtain u0 v0 u1 v1 where x: "xs = u0 @ m0 # v0" "u0 \<noteq> []" "0 \<notin> tag_of (hs_nodes s) ` set u0"
    "xs = u1 @ m1 # v1" "u1 \<noteq> []" "half_tag h \<notin> tag_of (hs_nodes s) ` set u1" unfolding marked_def by blast
  have f: "tag_of (hs_nodes s') x = tag_of (hs_nodes s) x" "key_of (hs_nodes s') x = key_of (hs_nodes s) x" if "x \<in> set xs" for x
    using pay_eqD [OF assms(1) [OF that]] by auto
  have "tag_of (hs_nodes s') ` set u0 = tag_of (hs_nodes s) ` set u0" by (intro image_cong refl f) (simp add: x(1))
  moreover have "tag_of (hs_nodes s') ` set u1 = tag_of (hs_nodes s) ` set u1" by (intro image_cong refl f) (simp add: x(4))
  moreover have "m0 \<in> set xs" "m1 \<in> set xs" using x(1) by simp (simp add: x(4))
  ultimately show ?thesis using mk x f [of m0] f [of m1] assms(2-5) unfolding marked_def by metis
qed

lemma rep_new_head:
  assumes "hr_rep h s R" "hs_avail s = p # as" "p \<noteq> 0"
  shows "hr_rep h (s\<lparr>hs_avail := as, hs_heads := (hs_heads s)(p \<mapsto> w)\<rparr>) R"
proof -
  have p: "p \<notin> dom (hs_heads s)" "p \<notin> dom (hs_nodes s)" "p \<notin> set as" using assms(1,2) by (auto simp: hr_rep_def)
  have "bucket_hr h (s\<lparr>hs_avail := as, hs_heads := (hs_heads s)(p \<mapsto> w)\<rparr>) j (R j) \<longleftrightarrow> bucket_hr h s j (R j)" if "j < 2 ^ kb h" for j
  proof (cases "hr_slots h ! j = 0")
    case False
    have "hr_slots h ! j \<in> set (hr_slots h)" using that hr_repD(1) [OF assms(1)] by (simp add: geo_def)
    with slot_in_heads [OF assms(1) _ False] p(1) have "hr_slots h ! j \<noteq> p" by auto
    then show ?thesis by (intro bucket_cong) (auto simp: heads_view_def)
  qed (simp add: bucket_hr_def)
  with assms(1,2) p show ?thesis by (auto simp: hr_rep_def)
qed

section \<open>The two steps for one milestone\<close>

lemma hang_head_ok:
  assumes "hr_rep h s R" "room_hr s (Suc k)" "idx < length (hr_slots new)" "length (hr_slots new) < 2 ^ 64"
  shows "\<exists>p as. p \<noteq> 0 \<and> hs_avail s = p # as \<and> p \<notin> dom (hs_heads s)
     \<and> hang_head new s (of_nat idx) node =
         Some (new\<lparr>hr_slots := (hr_slots new)[idx := p]\<rparr>, s\<lparr>hs_avail := as, hs_heads := (hs_heads s)(p \<mapsto> node)\<rparr>)
     \<and> hr_rep h (s\<lparr>hs_avail := as, hs_heads := (hs_heads s)(p \<mapsto> node)\<rparr>) R
     \<and> room_hr (s\<lparr>hs_avail := as, hs_heads := (hs_heads s)(p \<mapsto> node)\<rparr>) k"
proof -
  obtain p as where p: "hs_avail s = p # as" "p \<noteq> 0" "hs_heads s p = None" using avail_head [OF assms(1,2)] by metis
  have "unat (of_nat idx :: u64) = idx" using assms(3,4) by (simp add: unat_of_nat)
  then have "hang_head new s (of_nat idx) node =
      Some (new\<lparr>hr_slots := (hr_slots new)[idx := p]\<rparr>, s\<lparr>hs_avail := as, hs_heads := (hs_heads s)(p \<mapsto> node)\<rparr>)"
    using p assms(3) by (simp add: hang_head_def head_alloc_hr_def calloc_hr_def store_slot_hr_def)
  with p rep_new_head [OF assms(1) p(1,2)] assms(2) show ?thesis
    by (intro exI [of _ p] exI [of _ as]) (auto simp: room_hr_def)
qed

lemma milestone_ok:
  assumes "hr_rep h s R" "tags_ok h s R" "room_hr s (Suc k)" "i < 2 ^ kb h" "slot_of h key = i" "unat tag = unat key mod 2 ^ tb h" "R i \<noteq> []"
  shows "\<exists>node s1 xs. milestone h s i key tag = Some (node, h, s1) \<and> put_done h s R i node (key, tag, 0) xs h s1 \<and> room_hr s1 k"
proof -
  have u: "unat (of_nat i :: u64) = i" using of_nat_slot [OF hr_repD(1) [OF assms(1)] assms(4)] .
  have "room_hr s 1" using assms(3) by (simp add: room_hr_def)
  from put_nonempty [OF assms(1,2) this, of "of_nat i" key tag 0] u assms(4-7) obtain node s1 s2 xs where
    p: "raw_hash_create h s (of_nat i) tag = Some (0, node, h, s1)" "insert_entries_hr s1 node key tag 0 = Some (1, s2)"
    "put_done h s R i node (key, tag, 0) xs h s2" by auto
  have "hs_avail s2 = tl (hs_avail s)" using p(3) assms(7) unfolding put_done_def by blast
  then have "room_hr s2 k" using assms(3) by (cases "hs_avail s") (auto simp: room_hr_def)
  with p show ?thesis by (auto simp: milestone_def)
qed

section \<open>Both milestones of one bucket\<close>

text \<open>Both are the first of their tag, whichever of the two the walk meets first.\<close>

lemma two_firsts:
  assumes "us1 @ e1 # vs1 = us2 @ vs2" "H \<notin> tf ` set (a # us1)" "Z \<notin> tf ` set (a # us2)" "tf e0 \<noteq> H"
  shows "\<exists>u v. a # us2 @ e0 # vs2 = u @ e1 # v \<and> u \<noteq> [] \<and> H \<notin> tf ` set u"
proof -
  from assms(1) obtain c where "us1 = us2 @ c \<and> c @ e1 # vs1 = vs2 \<or> us1 @ c = us2 \<and> e1 # vs1 = c @ vs2"
    by (auto simp: append_eq_append_conv2)
  then consider (1) "us1 = us2 @ c" "vs2 = c @ e1 # vs1" | (2) d where "us2 = us1 @ e1 # d" "vs1 = d @ vs2" | (3) "us1 = us2" "vs2 = e1 # vs1"
    by (cases c) auto
  then show ?thesis
  proof cases
    case 1
    with assms(2,4) show ?thesis by (intro exI [of _ "a # us2 @ e0 # c"] exI [of _ vs1]) auto
  next
    case 2
    with assms(2) show ?thesis by (intro exI [of _ "a # us1"] exI [of _ "d @ e0 # vs2"]) auto
  next
    case 3
    with assms(2,4) show ?thesis by (intro exI [of _ "a # us2 @ [e0]"] exI [of _ vs1]) auto
  qed
qed

lemma both_first:
  assumes "tf a \<noteq> 0" "tf a \<noteq> H" "tf e0 = 0" "H \<noteq> 0"
    and "xs = a # ring_ins tf 0 e0 a (ring_ins tf H e1 a qs)"
  shows "\<exists>u v. xs = u @ e0 # v \<and> u \<noteq> [] \<and> 0 \<notin> tf ` set u"
    and "\<exists>u v. xs = u @ e1 # v \<and> u \<noteq> [] \<and> H \<notin> tf ` set u"
proof -
  from ring_ins_first [where tf = tf and e = e1 and qs = qs, OF assms(2)] obtain us1 vs1 where
    f1: "ring_ins tf H e1 a qs = us1 @ e1 # vs1" "H \<notin> tf ` set (a # us1)" by blast
  from ring_ins_first [where tf = tf and e = e0 and qs = "ring_ins tf H e1 a qs", OF assms(1)] obtain us2 vs2 where
    f0: "ring_ins tf 0 e0 a (ring_ins tf H e1 a qs) = us2 @ e0 # vs2" "ring_ins tf H e1 a qs = us2 @ vs2"
      "0 \<notin> tf ` set (a # us2)" by blast
  have xs: "xs = a # us2 @ e0 # vs2" using assms(5) f0(1) by simp
  then show "\<exists>u v. xs = u @ e0 # v \<and> u \<noteq> [] \<and> 0 \<notin> tf ` set u"
    using f0(3) by (intro exI [of _ "a # us2"] exI [of _ vs2]) simp
  have "us1 @ e1 # vs1 = us2 @ vs2" "tf e0 \<noteq> H" using f0(2) f1(1) assms(3,4) by simp_all
  from two_firsts [OF this(1) f1(2) f0(3) this(2)] xs
  show "\<exists>u v. xs = u @ e1 # v \<and> u \<noteq> [] \<and> H \<notin> tf ` set u" by simp
qed

text \<open>
  \<open>planted h s X i key tag e p xs s'\<close>: in \<open>s'\<close> the ring \<open>xs\<close> of bucket \<open>i\<close> has the new milestone \<open>e\<close>
  with the key and the tag, and the fresh head \<open>p\<close> points to it.
\<close>

definition planted :: "hr_hash \<Rightarrow> hr_state \<Rightarrow> (nat \<Rightarrow> u64 list) \<Rightarrow> nat \<Rightarrow> u64 \<Rightarrow> u64 \<Rightarrow> u64 \<Rightarrow> u64 \<Rightarrow> u64 list \<Rightarrow> hr_state \<Rightarrow> bool" where
  "planted h s X i key tag e p xs s' \<longleftrightarrow> hr_rep h s' (X(i := xs)) \<and> tags_ok h s' (X(i := xs))
     \<and> xs = hd (X i) # ring_ins (tag_of (hs_nodes s)) tag e (hd (X i)) (tl (X i)) \<and> mset xs = add_mset e (mset (X i))
     \<and> e \<notin> dom (hs_nodes s) \<and> pk_addr e = e \<and> p \<noteq> 0 \<and> p \<notin> dom (hs_heads s) \<and> hs_heads s' = (hs_heads s)(p \<mapsto> e)
     \<and> pay (hs_nodes s') = (pay (hs_nodes s))(e \<mapsto> (key, tag, 0)) \<and> hs_verbose s' = hs_verbose s"

lemma plant_ok:
  assumes rep: "hr_rep h s X" "tags_ok h s X" and room: "room_hr s (Suc (Suc r))" and i: "i < 2 ^ kb h"
    and key: "slot_of h key = i" "unat tag = unat key mod 2 ^ tb h" and ne: "X i \<noteq> []"
    and idx: "idx < length (hr_slots new)" "length (hr_slots new) < 2 ^ 64"
  obtains e p xs s1 s' where "milestone h s i key tag = Some (e, h, s1)"
    "hang_head new s1 (of_nat idx) e = Some (new\<lparr>hr_slots := (hr_slots new)[idx := p]\<rparr>, s')"
    "planted h s X i key tag e p xs s'" "room_hr s' r"
proof -
  from milestone_ok [OF rep room i key ne] obtain e s1 xs where
    m: "milestone h s i key tag = Some (e, h, s1)" "put_done h s X i e (key, tag, 0) xs h s1" "room_hr s1 (Suc r)" by blast
  note d = put_doneD [OF m(2)]
  from hang_head_ok [OF d(1) m(3) idx, of e] obtain p as where
    h: "p \<noteq> 0" "hs_avail s1 = p # as" "p \<notin> dom (hs_heads s1)"
    "hang_head new s1 (of_nat idx) e = Some (new\<lparr>hr_slots := (hr_slots new)[idx := p]\<rparr>, s1\<lparr>hs_avail := as, hs_heads := (hs_heads s1)(p \<mapsto> e)\<rparr>)"
    "hr_rep h (s1\<lparr>hs_avail := as, hs_heads := (hs_heads s1)(p \<mapsto> e)\<rparr>) (X(i := xs))"
    "room_hr (s1\<lparr>hs_avail := as, hs_heads := (hs_heads s1)(p \<mapsto> e)\<rparr>) r" by blast
  have "tags_ok h (s1\<lparr>hs_avail := as, hs_heads := (hs_heads s1)(p \<mapsto> e)\<rparr>) (X(i := xs))" using d(2) by (simp add: tags_ok_def)
  moreover have "e \<notin> dom (hs_nodes s)" "pk_addr e = e" using rep(1) d(4) by (auto simp: hr_rep_def)
  moreover have "xs = hd (X i) # ring_ins (tag_of (hs_nodes s)) tag e (hd (X i)) (tl (X i))"
    "hs_heads s1 = hs_heads s" using d(7,8) [OF ne] by simp_all
  ultimately have "planted h s X i key tag e p xs (s1\<lparr>hs_avail := as, hs_heads := (hs_heads s1)(p \<mapsto> e)\<rparr>)"
    unfolding planted_def using h(1,3,5) d(3,5,6) by simp
  then show thesis by (rule that [OF m(1) h(4) _ h(6)])
qed

text \<open>Both milestones of a bucket with their heads.\<close>

abbreviation marked_table :: "hr_hash \<Rightarrow> nat \<Rightarrow> u64 \<Rightarrow> u64 \<Rightarrow> hr_hash" where
  "marked_table new i p0 p1 \<equiv> new\<lparr>hr_slots := (hr_slots new)[2 * i + 1 := p1, 2 * i := p0]\<rparr>"

definition marks :: "hr_hash \<Rightarrow> hr_hash \<Rightarrow> hr_state \<Rightarrow> (nat \<Rightarrow> u64 list) \<Rightarrow> nat \<Rightarrow> hr_state \<Rightarrow> u64 \<Rightarrow> u64 \<Rightarrow> u64 \<Rightarrow> u64 \<Rightarrow> u64 list \<Rightarrow> bool" where
  "marks h new s X i s' e0 e1 p0 p1 xs \<longleftrightarrow> hr_rep h s' (X(i := xs)) \<and> tags_ok h s' (X(i := xs)) \<and> hs_verbose s' = hs_verbose s
     \<and> mset xs = add_mset e0 (add_mset e1 (mset (X i))) \<and> marked h (marked_table new i p0 p1) s' i xs e0 e1
     \<and> p0 \<noteq> 0 \<and> p1 \<noteq> 0 \<and> p0 \<noteq> p1 \<and> p0 \<notin> dom (hs_heads s) \<and> p1 \<notin> dom (hs_heads s)
     \<and> dom (hs_heads s') = insert p0 (insert p1 (dom (hs_heads s)))
     \<and> (\<forall>q \<in> dom (hs_heads s). heads_view s' q = heads_view s q)
     \<and> (\<forall>x \<in> dom (hs_nodes s). pay (hs_nodes s') x = pay (hs_nodes s) x)"

lemma marks_ring:
  assumes rep: "hr_rep h s X" and i: "geo h" "i < 2 ^ kb h"
    and X: "X i = a # qs" "tag_of (hs_nodes s) a \<noteq> 0" "tag_of (hs_nodes s) a \<noteq> half_tag h"
    and one: "planted h s X i k1 (half_tag h) e1 p1 xs1 s2" and two: "planted h s2 (X(i := xs1)) i k0 0 e0 p0 xs s'"
  shows "\<exists>u v. xs = u @ e0 # v \<and> u \<noteq> [] \<and> 0 \<notin> tag_of (hs_nodes s') ` set u"
    and "\<exists>u v. xs = u @ e1 # v \<and> u \<noteq> [] \<and> half_tag h \<notin> tag_of (hs_nodes s') ` set u"
proof -
  note P = one [unfolded planted_def] and Q = two [unfolded planted_def]
  have "dom (hs_nodes s2) = insert e1 (dom (hs_nodes s))" using P by (metis dom_fun_upd dom_pay option.distinct(1))
  then have fresh: "e1 \<notin> dom (hs_nodes s)" "e0 \<notin> dom (hs_nodes s)" "e0 \<noteq> e1" using P Q by auto
  have Xd: "set (a # qs) \<subseteq> dom (hs_nodes s)" using ring_in_dom [OF rep i(2)] X(1) by simp
  have t: "tag_of (hs_nodes s') x = tag_of (hs_nodes s) x" if "x \<in> set (a # qs)" for x
  proof -
    have "x \<noteq> e1" "x \<noteq> e0" using that Xd fresh by auto
    then have "pay (hs_nodes s') x = pay (hs_nodes s) x" using P Q by simp
    then show ?thesis using pay_eqD by blast
  qed
  have t2: "tag_of (hs_nodes s') x = tag_of (hs_nodes s2) x" if "x \<noteq> e0" for x
    using pay_eqD [of "hs_nodes s'" x "hs_nodes s2"] Q that by simp
  have xs1: "xs1 = a # ring_ins (tag_of (hs_nodes s')) (half_tag h) e1 a qs"
    using P X(1) ring_ins_cong [of a qs "tag_of (hs_nodes s')" "tag_of (hs_nodes s)"] t by simp
  then have "e0 \<notin> set xs1" using Xd fresh by (auto simp: ring_ins_set)
  then have "xs = a # ring_ins (tag_of (hs_nodes s')) 0 e0 a (tl xs1)"
    using Q xs1 ring_ins_cong [of a "tl xs1" "tag_of (hs_nodes s')" "tag_of (hs_nodes s2)"] t2 by simp metis
  then have xs: "xs = a # ring_ins (tag_of (hs_nodes s')) 0 e0 a (ring_ins (tag_of (hs_nodes s')) (half_tag h) e1 a qs)"
    using xs1 by simp
  have "pay (hs_nodes s') e0 = Some (k0, 0, 0)" using Q by simp
  then have e0: "tag_of (hs_nodes s') e0 = 0" by (auto simp: pay_def payload_defs)
  have H: "half_tag h \<noteq> 0" using unat_half_tag [OF i(1)] by (metis unat_0 power_not_zero zero_neq_numeral)
  show "\<exists>u v. xs = u @ e0 # v \<and> u \<noteq> [] \<and> 0 \<notin> tag_of (hs_nodes s') ` set u"
    "\<exists>u v. xs = u @ e1 # v \<and> u \<noteq> [] \<and> half_tag h \<notin> tag_of (hs_nodes s') ` set u"
    by (rule both_first [OF _ _ e0 H xs]; use t X in simp)+
qed

lemma marks_intro:
  assumes rep: "hr_rep h s X" and i: "geo h" "i < 2 ^ kb h" and len: "length (hr_slots new) = 2 * 2 ^ kb h"
    and X: "X i = a # qs" "tag_of (hs_nodes s) a \<noteq> 0" "tag_of (hs_nodes s) a \<noteq> half_tag h"
    and one: "planted h s X i (base_key h i + half_tag h) (half_tag h) e1 p1 xs1 s2"
    and two: "planted h s2 (X(i := xs1)) i (base_key h i) 0 e0 p0 xs s'"
  shows "marks h new s X i s' e0 e1 p0 p1 xs"
proof -
  note P = one [unfolded planted_def] and Q = two [unfolded planted_def]
  have "dom (hs_nodes s2) = insert e1 (dom (hs_nodes s))" using P by (metis dom_fun_upd dom_pay option.distinct(1))
  then have fresh: "e1 \<notin> dom (hs_nodes s)" "e0 \<notin> dom (hs_nodes s)" "e0 \<noteq> e1" using P Q by auto
  have pays: "pay (hs_nodes s') = (pay (hs_nodes s))(e1 \<mapsto> (base_key h i + half_tag h, half_tag h, 0), e0 \<mapsto> (base_key h i, 0, 0))"
    using P Q by simp
  then have "pay (hs_nodes s') e0 = Some (base_key h i, 0, 0)" "pay (hs_nodes s') e1 = Some (base_key h i + half_tag h, half_tag h, 0)"
    using fresh(3) by simp_all
  then have fields: "key_of (hs_nodes s') e0 = base_key h i" "tag_of (hs_nodes s') e0 = 0"
    "key_of (hs_nodes s') e1 = base_key h i + half_tag h" "tag_of (hs_nodes s') e1 = half_tag h"
    by (auto simp: pay_def payload_defs)
  have heads: "hs_heads s' = (hs_heads s)(p1 \<mapsto> e1, p0 \<mapsto> e0)" and pp: "p0 \<noteq> p1" "p0 \<notin> dom (hs_heads s)" "p1 \<notin> dom (hs_heads s)"
    using P Q by auto
  have hv: "heads_view s' p0 = Some e0" "heads_view s' p1 = Some e1" using heads pp(1) P Q by (simp_all add: heads_view_def)
  have "hr_slots (marked_table new i p0 p1) ! (2 * i) = p0" "hr_slots (marked_table new i p0 p1) ! (2 * i + 1) = p1"
    using len i(2) by simp_all
  then have "marked h (marked_table new i p0 p1) s' i xs e0 e1"
    unfolding marked_def using fields hv P Q marks_ring [OF rep i X one two] by simp
  moreover have "dom (hs_heads s') = insert p0 (insert p1 (dom (hs_heads s)))" using heads by auto
  moreover have "\<forall>q \<in> dom (hs_heads s). heads_view s' q = heads_view s q" using pp heads by (auto simp: heads_view_def)
  moreover have "\<forall>x \<in> dom (hs_nodes s). pay (hs_nodes s') x = pay (hs_nodes s) x" using pays fresh by auto
  moreover have "hr_rep h s' (X(i := xs))" "tags_ok h s' (X(i := xs))" using Q by (metis fun_upd_upd)+
  moreover have "mset xs = add_mset e0 (add_mset e1 (mset (X i)))" using P Q by (metis fun_upd_same)
  moreover have "p0 \<noteq> 0" "p1 \<noteq> 0" "hs_verbose s' = hs_verbose s" using P Q by simp_all
  ultimately show ?thesis unfolding marks_def using pp by blast
qed

lemma mark_bucket:
  assumes rep: "hr_rep h s X" "tags_ok h s X" and room: "room_hr s (Suc (Suc (Suc (Suc r))))"
    and i: "0 < tb h" "i < 2 ^ kb h" "i * 2 ^ tb h < 2 ^ 31"
    and X: "X i = a # qs" "tag_of (hs_nodes s) a \<noteq> 0" "tag_of (hs_nodes s) a \<noteq> half_tag h"
    and len: "length (hr_slots new) = 2 * 2 ^ kb h"
  shows "\<exists>s' e0 e1 p0 p1 xs.
     (\<forall>k. rehash_init_loop (int (tb h)) (half_tag h) h new s i (Suc k) =
        rehash_init_loop (int (tb h)) (half_tag h) h (marked_table new i p0 p1) s' (Suc i) k)
     \<and> room_hr s' r \<and> marks h new s X i s' e0 e1 p0 p1 xs"
proof -
  have g: "geo h" using hr_repD(1) [OF rep(1)] .
  note kf = base_key_facts [OF g i]
  have "(2 :: nat) ^ Suc (kb h) < 2 ^ 64" using g by (intro power_strict_increasing) (auto simp: geo_def)
  then have big: "(2 :: nat) * 2 ^ kb h < 2 ^ 64" by simp
  have kt: "unat (half_tag h) = unat (base_key h i + half_tag h) mod 2 ^ tb h" "unat (0 :: u64) = unat (base_key h i) mod 2 ^ tb h"
    using kf(4,5) by simp_all
  have ne: "X i \<noteq> []" and idx1: "2 * i + 1 < length (hr_slots new)" "length (hr_slots new) < 2 ^ 64"
    using X(1) len i(2) big by simp_all
  obtain e1 p1 xs1 s1 s2 where one: "milestone h s i (base_key h i + half_tag h) (half_tag h) = Some (e1, h, s1)"
    "hang_head new s1 (of_nat (2 * i + 1)) e1 = Some (new\<lparr>hr_slots := (hr_slots new)[2 * i + 1 := p1]\<rparr>, s2)"
    "planted h s X i (base_key h i + half_tag h) (half_tag h) e1 p1 xs1 s2" "room_hr s2 (Suc (Suc r))"
    by (rule plant_ok [OF rep room i(2) kf(3) kt(1) ne idx1])
  let ?new1 = "new\<lparr>hr_slots := (hr_slots new)[2 * i + 1 := p1]\<rparr>"
  have ne1: "(X(i := xs1)) i \<noteq> []" and idx0: "2 * i < length (hr_slots ?new1)" "length (hr_slots ?new1) < 2 ^ 64"
    using one(3) len i(2) big by (simp_all add: planted_def)
  have rep1: "hr_rep h s2 (X(i := xs1))" "tags_ok h s2 (X(i := xs1))" using one(3) unfolding planted_def by blast+
  obtain e0 p0 xs s3 s' where two: "milestone h s2 i (base_key h i) 0 = Some (e0, h, s3)"
    "hang_head ?new1 s3 (of_nat (2 * i)) e0 = Some (?new1\<lparr>hr_slots := (hr_slots ?new1)[2 * i := p0]\<rparr>, s')"
    "planted h s2 (X(i := xs1)) i (base_key h i) 0 e0 p0 xs s'" "room_hr s' r"
    by (rule plant_ok [OF rep1 one(4) i(2) kf(2) kt(2) ne1 idx0])
  have load: "load_slot_hr h (of_nat i) = Some (hr_slots h ! i)" "hr_slots h ! i \<noteq> 0"
    using of_nat_slot [OF g i(2)] g i(2) slot_used_iff [OF rep(1) i(2)] ne by (simp_all add: load_slot_hr_def geo_def)
  have "rehash_init_loop (int (tb h)) (half_tag h) h new s i (Suc k) =
      rehash_init_loop (int (tb h)) (half_tag h) h (marked_table new i p0 p1) s' (Suc i) k" for k
    using load shl_base [OF g i(3)] one(1,2) two(1,2) by (simp add: base_key_nat mult.commute [of i 2])
  with two(4) marks_intro [OF rep(1) g i(2) len X one(3) two(3)] show ?thesis by blast
qed

end
