(* ===== verification/HotRing_Double.thy ===== *)
theory HotRing_Double
  imports HotRing_Init
begin

text \<open>The loops of the rehash over all buckets, and the rehash as a whole.\<close>

section \<open>The loop that sets the milestones\<close>

text \<open>
  Buckets below \<open>i\<close> have their milestones, the others are as before.  \<open>R\<close> are the rings at the
  start, \<open>X\<close> the rings now, \<open>M0\<close> and \<open>M1\<close> the milestones, \<open>P\<close> the fields of the nodes at the start.
\<close>

definition init_inv :: "hr_hash \<Rightarrow> hr_hash \<Rightarrow> hr_state \<Rightarrow> (nat \<Rightarrow> u64 list) \<Rightarrow> (nat \<Rightarrow> u64 list) \<Rightarrow> (nat \<Rightarrow> u64) \<Rightarrow> (nat \<Rightarrow> u64) \<Rightarrow> (u64 \<rightharpoonup> u64 \<times> u64 \<times> u64) \<Rightarrow> nat \<Rightarrow> bool" where
  "init_inv h new s R X M0 M1 P i \<longleftrightarrow> hr_rep h s X \<and> tags_ok h s X
     \<and> (\<forall>j < 2 ^ kb h. i \<le> j \<longrightarrow> X j = R j)
     \<and> (\<forall>j < i. R j = [] \<longrightarrow> X j = [] \<and> hr_slots new ! (2 * j) = 0 \<and> hr_slots new ! (2 * j + 1) = 0)
     \<and> (\<forall>j < i. R j \<noteq> [] \<longrightarrow> marked h new s j (X j) (M0 j) (M1 j) \<and> mset (X j) = add_mset (M0 j) (add_mset (M1 j) (mset (R j))))
     \<and> length (hr_slots new) = 2 * 2 ^ kb h \<and> (\<forall>a < 2 * 2 ^ kb h. 2 * i \<le> a \<longrightarrow> hr_slots new ! a = 0)
     \<and> (\<forall>a < 2 * 2 ^ kb h. \<forall>b < 2 * 2 ^ kb h. a \<noteq> b \<longrightarrow> hr_slots new ! a \<noteq> 0 \<longrightarrow> hr_slots new ! a \<noteq> hr_slots new ! b)
     \<and> (\<forall>a < 2 * 2 ^ kb h. hr_slots new ! a \<noteq> 0 \<longrightarrow> hr_slots new ! a \<in> dom (hs_heads s))
     \<and> (\<forall>x \<in> dom P. x \<in> dom (hs_nodes s) \<and> pay (hs_nodes s) x = P x)"

lemma init_skip:
  assumes "init_inv h new s R X M0 M1 P i" "i < 2 ^ kb h" "R i = []"
  shows "init_inv h new s R X M0 M1 P (Suc i)"
  using assms unfolding init_inv_def by (auto simp: less_Suc_eq)

lemma init_invD:
  assumes "init_inv h new s R X M0 M1 P i"
  shows "hr_rep h s X" "tags_ok h s X" "length (hr_slots new) = 2 * 2 ^ kb h"
    "\<And>j. j < 2 ^ kb h \<Longrightarrow> i \<le> j \<Longrightarrow> X j = R j"
    "\<And>j. j < i \<Longrightarrow> R j = [] \<Longrightarrow> X j = [] \<and> hr_slots new ! (2 * j) = 0 \<and> hr_slots new ! (2 * j + 1) = 0"
    "\<And>j. j < i \<Longrightarrow> R j \<noteq> [] \<Longrightarrow> marked h new s j (X j) (M0 j) (M1 j)"
    "\<And>j. j < i \<Longrightarrow> R j \<noteq> [] \<Longrightarrow> mset (X j) = add_mset (M0 j) (add_mset (M1 j) (mset (R j)))"
    "\<And>a. a < 2 * 2 ^ kb h \<Longrightarrow> 2 * i \<le> a \<Longrightarrow> hr_slots new ! a = 0"
    "\<And>a b. a < 2 * 2 ^ kb h \<Longrightarrow> b < 2 * 2 ^ kb h \<Longrightarrow> a \<noteq> b \<Longrightarrow> hr_slots new ! a \<noteq> 0 \<Longrightarrow> hr_slots new ! a \<noteq> hr_slots new ! b"
    "\<And>a. a < 2 * 2 ^ kb h \<Longrightarrow> hr_slots new ! a \<noteq> 0 \<Longrightarrow> hr_slots new ! a \<in> dom (hs_heads s)"
    "\<And>x. x \<in> dom P \<Longrightarrow> x \<in> dom (hs_nodes s) \<and> pay (hs_nodes s) x = P x"
  using assms unfolding init_inv_def by blast+

lemma marked_table_slot:
  assumes "length (hr_slots new) = 2 * n" "i < n" "b < 2 * n"
  shows "hr_slots (marked_table new i p0 p1) ! b = (if b = 2 * i then p0 else if b = 2 * i + 1 then p1 else hr_slots new ! b)"
  using assms by (auto simp: nth_list_update)

lemma marked_table_other:
  assumes "length (hr_slots new) = 2 * n" "i < n" "j < n" "j \<noteq> i"
  shows "hr_slots (marked_table new i p0 p1) ! (2 * j) = hr_slots new ! (2 * j)"
    "hr_slots (marked_table new i p0 p1) ! (2 * j + 1) = hr_slots new ! (2 * j + 1)"
proof -
  have d: "2 * j < 2 * n" "2 * j + 1 < 2 * n" "2 * j \<noteq> 2 * i" "2 * j \<noteq> 2 * i + 1" "2 * j + 1 \<noteq> 2 * i" "2 * j + 1 \<noteq> 2 * i + 1"
    using assms(3,4) by presburger+
  show "hr_slots (marked_table new i p0 p1) ! (2 * j) = hr_slots new ! (2 * j)"
    "hr_slots (marked_table new i p0 p1) ! (2 * j + 1) = hr_slots new ! (2 * j + 1)"
    by (simp_all only: marked_table_slot [OF assms(1,2) d(1)] marked_table_slot [OF assms(1,2) d(2)] d if_False)
qed

lemma marked_kept:
  assumes inv: "init_inv h new s R X M0 M1 P i" and i: "i < 2 ^ kb h" and mk: "marks h new s X i s' e0 e1 p0 p1 xs"
    and j: "j < i" "R j \<noteq> []"
  shows "marked h (marked_table new i p0 p1) s' j (X j) (M0 j) (M1 j)"
proof -
  note I = init_invD [OF inv] and m = mk [unfolded marks_def]
  have k: "marked h new s j (X j) (M0 j) (M1 j)" by (rule I(6) [OF j])
  have jn: "j < 2 ^ kb h" "j \<noteq> i" and d: "2 * j < 2 * 2 ^ kb h" "2 * j + 1 < 2 * 2 ^ kb h" using j(1) i by simp_all
  have "heads_view s' (hr_slots new ! b) = heads_view s (hr_slots new ! b)" if "b < 2 * 2 ^ kb h" "hr_slots new ! b \<noteq> 0" for b
    using m I(10) [OF that] by blast
  moreover have "hr_slots new ! (2 * j) \<noteq> 0" "hr_slots new ! (2 * j + 1) \<noteq> 0" using k by (simp_all add: marked_def)
  moreover have "pay (hs_nodes s') x = pay (hs_nodes s) x" if "x \<in> set (X j)" for x
    using ring_in_dom [OF I(1) jn(1)] m that by blast
  ultimately show ?thesis
    using marked_cong [of "X j" s' s "marked_table new i p0 p1" j new, OF _ marked_table_other [OF I(3) i jn] _ _ k] d by blast
qed

lemma marked_table_distinct:
  assumes inv: "init_inv h new s R X M0 M1 P i" and i: "i < 2 ^ kb h" and mk: "marks h new s X i s' e0 e1 p0 p1 xs"
    and cd: "c < 2 * 2 ^ kb h" "d < 2 * 2 ^ kb h" "c \<noteq> d" "hr_slots (marked_table new i p0 p1) ! c \<noteq> 0"
  shows "hr_slots (marked_table new i p0 p1) ! c \<noteq> hr_slots (marked_table new i p0 p1) ! d"
proof -
  note I = init_invD [OF inv]
  have p: "p0 \<noteq> 0" "p1 \<noteq> 0" "p0 \<noteq> p1" "p0 \<notin> dom (hs_heads s)" "p1 \<notin> dom (hs_heads s)" using mk by (simp_all add: marks_def)
  have "hr_slots new ! b \<noteq> p0 \<and> hr_slots new ! b \<noteq> p1" if "b < 2 * 2 ^ kb h" for b using I(10) [OF that] p by metis
  then show ?thesis using I(9) [OF cd(1-3)] cd p by (metis marked_table_slot [OF I(3) i])
qed

lemma init_inv_step:
  assumes inv: "init_inv h new s R X M0 M1 P i" and i: "i < 2 ^ kb h" "R i \<noteq> []" and mk: "marks h new s X i s' e0 e1 p0 p1 xs"
  shows "init_inv h (marked_table new i p0 p1) s' R (X(i := xs)) (M0(i := e0)) (M1(i := e1)) P (Suc i)"
proof -
  note I = init_invD [OF inv] and m = mk [unfolded marks_def]
  note sl = marked_table_slot [OF I(3) i(1)] and keep = marked_table_other [OF I(3) i(1)]
  have "(X(i := xs)) j = [] \<and> hr_slots (marked_table new i p0 p1) ! (2 * j) = 0 \<and> hr_slots (marked_table new i p0 p1) ! (2 * j + 1) = 0"
    if "j < Suc i" "R j = []" for j
  proof -
    have "j < i" using that i(2) by (cases "j = i") auto
    then show ?thesis using I(5) [OF _ that(2)] keep [of j] i(1) by simp
  qed
  moreover have "marked h (marked_table new i p0 p1) s' j ((X(i := xs)) j) ((M0(i := e0)) j) ((M1(i := e1)) j)
      \<and> mset ((X(i := xs)) j) = add_mset ((M0(i := e0)) j) (add_mset ((M1(i := e1)) j) (mset (R j)))"
    if "j < Suc i" "R j \<noteq> []" for j
    using that m marked_kept [OF inv i(1) mk, of j] I(7) [of j] I(4) [OF i(1)] by (cases "j = i") auto
  moreover have "hr_slots (marked_table new i p0 p1) ! c = 0" if "c < 2 * 2 ^ kb h" "2 * Suc i \<le> c" for c
    unfolding sl [OF that(1)] using I(8) [OF that(1)] that(2) by simp
  moreover have "hr_slots (marked_table new i p0 p1) ! c \<in> dom (hs_heads s')"
    if "c < 2 * 2 ^ kb h" "hr_slots (marked_table new i p0 p1) ! c \<noteq> 0" for c
    using that(2) I(10) [OF that(1)] m unfolding sl [OF that(1)] by (simp split: if_splits)
  moreover have "x \<in> dom (hs_nodes s') \<and> pay (hs_nodes s') x = P x" if x: "x \<in> dom P" for x
  proof -
    have "pay (hs_nodes s') x = P x" using I(11) [OF x] m by simp
    moreover from this x have "x \<in> dom (pay (hs_nodes s'))" by auto
    ultimately show ?thesis by (simp add: dom_pay)
  qed
  ultimately show ?thesis
    unfolding init_inv_def using m I(3,4) marked_table_distinct [OF inv i(1) mk] by auto
qed

lemma init_mark:
  assumes inv: "init_inv h new s R X M0 M1 P i" and i: "0 < tb h" "i < 2 ^ kb h" "i * 2 ^ tb h < 2 ^ 31"
    and R: "R i = a # qs" "P a = Some (ka, ta, va)" "ta \<noteq> 0" "ta \<noteq> half_tag h" and room: "room_hr s (4 * Suc r)"
  shows "\<exists>new' s' X' M0' M1'. (\<forall>k. rehash_init_loop (int (tb h)) (half_tag h) h new s i (Suc k) = rehash_init_loop (int (tb h)) (half_tag h) h new' s' (Suc i) k)
     \<and> init_inv h new' s' R X' M0' M1' P (Suc i) \<and> room_hr s' (4 * r) \<and> hs_verbose s' = hs_verbose s
     \<and> hr_n new' = hr_n new \<and> hr_k new' = hr_k new \<and> hr_size new' = hr_size new"
proof -
  note I = init_invD [OF inv]
  have X: "X i = a # qs" using I(4) [OF i(2)] R(1) by simp
  have "pay (hs_nodes s) a = P a" using I(11) R(2) by blast
  then have ta: "tag_of (hs_nodes s) a = ta" using R(2) by (auto simp: pay_def payload_defs)
  have room4: "room_hr s (Suc (Suc (Suc (Suc (4 * r)))))" using room by (simp add: room_hr_def)
  from mark_bucket [OF I(1,2) room4 i X _ _ I(3)] ta R(3,4) obtain s' e0 e1 p0 p1 xs where
    m: "\<forall>k. rehash_init_loop (int (tb h)) (half_tag h) h new s i (Suc k) =
        rehash_init_loop (int (tb h)) (half_tag h) h (marked_table new i p0 p1) s' (Suc i) k"
      "room_hr s' (4 * r)" "marks h new s X i s' e0 e1 p0 p1 xs" by blast
  have "R i \<noteq> []" using R(1) by simp
  from init_inv_step [OF inv i(2) this m(3)] m show ?thesis
    by (intro exI [of _ "marked_table new i p0 p1"] exI [of _ s'] exI [of _ "X(i := xs)"] exI [of _ "M0(i := e0)"] exI [of _ "M1(i := e1)"])
      (simp add: marks_def)
qed

lemma init_loop_ok:
  assumes "init_inv h new s R X M0 M1 P i" "0 < tb h" "i + k = 2 ^ kb h" "room_hr s (4 * k)"
    and "\<And>j. j < 2 ^ kb h \<Longrightarrow> R j \<noteq> [] \<Longrightarrow> j * 2 ^ tb h < 2 ^ 31 \<and> (\<exists>ka ta va. P (hd (R j)) = Some (ka, ta, va) \<and> ta \<noteq> 0 \<and> ta \<noteq> half_tag h)"
  shows "\<exists>new' s' X' M0' M1'. rehash_init_loop (int (tb h)) (half_tag h) h new s i k = Some (h, new', s')
     \<and> init_inv h new' s' R X' M0' M1' P (2 ^ kb h) \<and> hs_verbose s' = hs_verbose s
     \<and> hr_n new' = hr_n new \<and> hr_k new' = hr_k new \<and> hr_size new' = hr_size new"
  using assms(1,3,4)
proof (induction k arbitrary: new s X M0 M1 i)
  case 0
  then show ?case by auto
next
  case (Suc k)
  have i: "i < 2 ^ kb h" and k: "Suc i + k = 2 ^ kb h" using Suc.prems(2) by simp_all
  have rep: "hr_rep h s X" and Xi: "X i = R i" using Suc.prems(1) i unfolding init_inv_def by blast+
  show ?case
  proof (cases "R i")
    case Nil
    have "load_slot_hr h (of_nat i) = Some (hr_slots h ! i)"
      using of_nat_slot [OF hr_repD(1) [OF rep] i] hr_repD(1) [OF rep] i by (simp add: load_slot_hr_def geo_def)
    moreover have "hr_slots h ! i = 0" using slot_used_iff [OF rep i] Xi Nil by simp
    moreover have "room_hr s (4 * k)" using Suc.prems(3) by (simp add: room_hr_def)
    ultimately show ?thesis using Suc.IH [OF init_skip [OF Suc.prems(1) i Nil] k] by simp
  next
    case (Cons a qs)
    with assms(5) [OF i] obtain ka ta va where a: "i * 2 ^ tb h < 2 ^ 31" "P a = Some (ka, ta, va)" "ta \<noteq> 0" "ta \<noteq> half_tag h" by auto
    from init_mark [OF Suc.prems(1) assms(2) i a(1) Cons a(2-4) Suc.prems(3)] obtain new1 s1 X1 N0 N1 where
      m: "\<forall>k. rehash_init_loop (int (tb h)) (half_tag h) h new s i (Suc k) = rehash_init_loop (int (tb h)) (half_tag h) h new1 s1 (Suc i) k"
      "init_inv h new1 s1 R X1 N0 N1 P (Suc i)" "room_hr s1 (4 * k)" "hs_verbose s1 = hs_verbose s"
      "hr_n new1 = hr_n new" "hr_k new1 = hr_k new" "hr_size new1 = hr_size new" by blast
    from Suc.IH [OF m(2) k m(3)] m show ?thesis by simp
  qed
qed

section \<open>The loop that splits the rings\<close>

lemma split_done_cong:
  assumes "split_done new s j xs ys" "heads_view s' = heads_view s" "\<And>x. x \<in> set xs \<union> set ys \<Longrightarrow> hs_nodes s' x = hs_nodes s x"
  shows "split_done new s' j xs ys"
proof -
  have "bucket_hr new s' (2 * j) xs \<longleftrightarrow> bucket_hr new s (2 * j) xs" "bucket_hr new s' (2 * j + 1) ys \<longleftrightarrow> bucket_hr new s (2 * j + 1) ys"
    using assms(2,3) by (intro bucket_cong; simp add: lnk_def pay_def)+
  with assms(1,3) show ?thesis unfolding split_done_def by auto
qed

lemma splittable_cong:
  assumes "splittable h new s j xs m0 m1" "\<And>x. x \<in> set xs \<Longrightarrow> hs_nodes s' x = hs_nodes s x"
    "heads_view s' = heads_view s" "pay (hs_nodes s') = pay (hs_nodes s)"
  shows "splittable h new s' j xs m0 m1"
proof -
  have "bucket_hr h s' j xs" using assms(1-3) bucket_cong [of h j h s' s xs] by (simp add: splittable_def lnk_def pay_def)
  moreover have "xs \<noteq> [] \<longrightarrow> marked h new s' j xs m0 m1" using assms(1,3,4) marked_cong unfolding splittable_def by metis
  ultimately show ?thesis using assms(1) pay_eq_funs [OF assms(4)] by (simp add: splittable_def)
qed

text \<open>What the loop leaves when it starts at bucket \<open>i\<close>: the rings from there on are split.\<close>

definition split_from :: "hr_hash \<Rightarrow> nat \<Rightarrow> (nat \<Rightarrow> u64 list) \<Rightarrow> (nat \<Rightarrow> u64) \<Rightarrow> (nat \<Rightarrow> u64) \<Rightarrow> nat \<Rightarrow> hr_state \<Rightarrow> hr_state \<Rightarrow> (nat \<Rightarrow> u64 list) \<Rightarrow> (nat \<Rightarrow> u64 list) \<Rightarrow> bool" where
  "split_from new n X M0 M1 i s s' A B \<longleftrightarrow>
     (\<forall>j. i \<le> j \<longrightarrow> j < n \<longrightarrow> X j \<noteq> [] \<longrightarrow>
        mset (X j) = add_mset (M0 j) (add_mset (M1 j) (mset (A j) + mset (B j))) \<and> split_done new s' j (M0 j # A j) (M1 j # B j))
     \<and> pay (hs_nodes s') = pay (hs_nodes s) \<and> heads_view s' = heads_view s \<and> hs_avail s' = hs_avail s \<and> hs_verbose s' = hs_verbose s
     \<and> (\<forall>x. (\<forall>j. i \<le> j \<longrightarrow> j < n \<longrightarrow> x \<notin> set (X j)) \<longrightarrow> hs_nodes s' x = hs_nodes s x)"

lemma split_from_skip:
  assumes "split_from new n X M0 M1 (Suc i) s s' A B" "X i = []"
  shows "split_from new n X M0 M1 i s s' A B"
proof -
  have "i \<le> j \<Longrightarrow> X j \<noteq> [] \<Longrightarrow> Suc i \<le> j" for j using assms(2) by (cases "j = i") auto
  with assms(1) show ?thesis unfolding split_from_def by (meson Suc_leD)
qed

lemma split_from_step:
  assumes one: "split_one new s i (X i) (M0 i) (M1 i) s1 Ai Bi" and rest: "split_from new n X M0 M1 (Suc i) s1 s' A B"
    and apart: "\<And>b. b < n \<Longrightarrow> i \<noteq> b \<Longrightarrow> set (X i) \<inter> set (X b) = {}" and i: "i < n"
  shows "split_from new n X M0 M1 i s s' (A(i := Ai)) (B(i := Bi))"
proof -
  note a = one [unfolded split_one_def] and r = rest [unfolded split_from_def]
  have "hs_nodes s' x = hs_nodes s1 x" if "x \<in> set (X i)" for x
    using r apart that by (metis disjoint_iff Suc_n_not_le_n)
  moreover have "set (M0 i # Ai) \<union> set (M1 i # Bi) = set (X i)"
    using a by (metis Un_insert_left list.simps(15) set_mset_add_mset_insert set_mset_mset set_mset_union Un_insert_right)
  ultimately have di: "split_done new s' i (M0 i # Ai) (M1 i # Bi)"
    using split_done_cong [of new s1 i "M0 i # Ai" "M1 i # Bi" s'] a r by blast
  have "mset (X j) = add_mset (M0 j) (add_mset (M1 j) (mset ((A(i := Ai)) j) + mset ((B(i := Bi)) j)))
      \<and> split_done new s' j (M0 j # (A(i := Ai)) j) (M1 j # (B(i := Bi)) j)" if "i \<le> j" "j < n" "X j \<noteq> []" for j
  proof (cases "j = i")
    case True
    with a di show ?thesis by simp
  next
    case False
    with that r show ?thesis by simp
  qed
  moreover have "hs_nodes s' x = hs_nodes s x" if "\<forall>j. i \<le> j \<longrightarrow> j < n \<longrightarrow> x \<notin> set (X j)" for x
    using r a that i by (metis Suc_leD order_refl)
  ultimately show ?thesis unfolding split_from_def using a r by simp
qed

lemma split_loop_ok:
  assumes g: "geo h" "0 < tb h" and new: "tb new = tb h - 1"
    and low: "\<And>j. j < 2 ^ kb h \<Longrightarrow> X j \<noteq> [] \<Longrightarrow> j * 2 ^ tb h < 2 ^ 31"
    and apart: "\<And>a b. a < 2 ^ kb h \<Longrightarrow> b < 2 ^ kb h \<Longrightarrow> a \<noteq> b \<Longrightarrow> set (X a) \<inter> set (X b) = {}"
    and "i + k = 2 ^ kb h" "\<And>j. i \<le> j \<Longrightarrow> j < 2 ^ kb h \<Longrightarrow> splittable h new s j (X j) (M0 j) (M1 j)"
  shows "\<exists>s' A B. split_loop (int (tb h)) (half_tag h) h s i k = Some s' \<and> split_from new (2 ^ kb h) X M0 M1 i s s' A B"
  using assms(6,7)
proof (induction k arbitrary: s i)
  case 0
  then show ?case by (auto simp: split_from_def)
next
  case (Suc k)
  have i: "i < 2 ^ kb h" and k: "Suc i + k = 2 ^ kb h" using Suc.prems(1) by simp_all
  have sp: "splittable h new s i (X i) (M0 i) (M1 i)" using Suc.prems(2) i by simp
  have load: "load_slot_hr h (of_nat i) = Some (hr_slots h ! i)"
    using of_nat_slot [OF g(1) i] g(1) i by (simp add: load_slot_hr_def geo_def)
  show ?case
  proof (cases "X i = []")
    case True
    have "hr_slots h ! i = 0" using sp True by (auto simp: splittable_def bucket_hr_def ring_def split: if_splits)
    then have step: "split_loop (int (tb h)) (half_tag h) h s i (Suc k) = split_loop (int (tb h)) (half_tag h) h s (Suc i) k"
      using load by simp
    have "\<exists>s' A B. split_loop (int (tb h)) (half_tag h) h s (Suc i) k = Some s' \<and> split_from new (2 ^ kb h) X M0 M1 (Suc i) s s' A B"
      by (rule Suc.IH [OF k]) (use Suc.prems(2) in simp)
    with step True show ?thesis by (auto intro: split_from_skip)
  next
    case False
    from split_ring_ok [OF g i low [OF i False] new sp False] obtain s1 Ai Bi where
      s1: "split_ring (int (tb h)) (half_tag h) h s i = Some s1" "split_one new s i (X i) (M0 i) (M1 i) s1 Ai Bi" by blast
    have "hr_slots h ! i \<noteq> 0" using sp False by (auto simp: splittable_def bucket_hr_def)
    then have step: "split_loop (int (tb h)) (half_tag h) h s i (Suc k) = split_loop (int (tb h)) (half_tag h) h s1 (Suc i) k"
      using load s1(1) by simp
    have "splittable h new s1 j (X j) (M0 j) (M1 j)" if j: "Suc i \<le> j" "j < 2 ^ kb h" for j
      by (rule splittable_cong [OF Suc.prems(2)]) (use j s1(2) apart [OF i j(2)] in \<open>auto simp: split_one_def\<close>)
    from Suc.IH [OF k this] obtain s' A B where
      r: "split_loop (int (tb h)) (half_tag h) h s1 (Suc i) k = Some s'" "split_from new (2 ^ kb h) X M0 M1 (Suc i) s1 s' A B" by blast
    have "split_from new (2 ^ kb h) X M0 M1 i s s' (A(i := Ai)) (B(i := Bi))"
      using s1(2) r(2) apart [OF i] i by (rule split_from_step)
    with step r(1) show ?thesis by metis
  qed
qed

end
