(* ===== verification/HotRing_Rehash_Ok.thy ===== *)
theory HotRing_Rehash_Ok
  imports HotRing_Double
begin

text \<open>The rehash as a whole: the doubled table is well-formed and holds the same pairs.\<close>

section \<open>The table after the split\<close>

text \<open>The rings of the new table: the two halves of each split ring.\<close>

definition halves :: "(nat \<Rightarrow> u64 list) \<Rightarrow> (nat \<Rightarrow> u64 list) \<Rightarrow> nat \<Rightarrow> u64 list" where
  "halves L U a = (if even a then L (a div 2) else U (a div 2))"

lemma halves_simps [simp]: "halves L U (2 * j) = L j" "halves L U (2 * j + 1) = U j" "halves L U (Suc (2 * j)) = U j"
  by (simp_all add: halves_def)

lemma all_halves: "(\<forall>a < 2 * n. Q a) \<longleftrightarrow> (\<forall>j < n. Q (2 * j) \<and> Q (2 * j + 1))" for n :: nat
proof
  assume "\<forall>a < 2 * n. Q a"
  then show "\<forall>j < n. Q (2 * j) \<and> Q (2 * j + 1)" by auto
next
  assume q: "\<forall>j < n. Q (2 * j) \<and> Q (2 * j + 1)"
  show "\<forall>a < 2 * n. Q a"
  proof (intro allI impI)
    fix a assume "a < 2 * n"
    then have "a div 2 < n" by auto
    with q have "Q (2 * (a div 2))" "Q (2 * (a div 2) + 1)" by blast+
    then show "Q a" by (cases "even a") (auto elim!: evenE oddE)
  qed
qed

lemma sum_halves: "(\<Sum>a < 2 * n. f a) = (\<Sum>j < n. f (2 * j) + f (2 * j + 1))" for f :: "nat \<Rightarrow> 'a :: comm_monoid_add"
  by (induction n) (simp_all add: ac_simps)

lemma rep_after_split:
  assumes geo: "geo new" "kb new = Suc K"
    and bk: "\<And>j. j < 2 ^ K \<Longrightarrow> bucket_hr new s (2 * j) (L j) \<and> bucket_hr new s (2 * j + 1) (U j)"
    and sub: "\<And>j. j < 2 ^ K \<Longrightarrow> set (L j) \<union> set (U j) \<subseteq> set (X j) \<and> set (L j) \<inter> set (U j) = {}"
    and apart: "\<And>a b. a < 2 ^ K \<Longrightarrow> b < 2 ^ K \<Longrightarrow> a \<noteq> b \<Longrightarrow> set (X a) \<inter> set (X b) = {}"
    and slots: "\<And>a b. a < 2 * 2 ^ K \<Longrightarrow> b < 2 * 2 ^ K \<Longrightarrow> a \<noteq> b \<Longrightarrow> hr_slots new ! a \<noteq> 0 \<Longrightarrow> hr_slots new ! a \<noteq> hr_slots new ! b"
    and mem: "distinct (hs_avail s)" "set (hs_avail s) \<inter> (dom (hs_nodes s) \<union> dom (hs_heads s)) = {}"
      "\<forall>a \<in> set (hs_avail s). pk_addr a = a" "0 \<notin> dom (hs_nodes s)"
  shows "hr_rep new s (halves L U)"
proof -
  have n: "(2 :: nat) ^ kb new = 2 * 2 ^ K" using geo(2) by simp
  have "\<forall>a < 2 * 2 ^ K. bucket_hr new s a (halves L U a)" unfolding all_halves using bk by simp
  moreover have "set (halves L U a) \<inter> set (halves L U b) = {}" if ab: "a < 2 * 2 ^ K" "b < 2 * 2 ^ K" "a \<noteq> b" for a b
  proof (cases "a div 2 = b div 2")
    case True
    have "a div 2 < 2 ^ K" using ab(1) by auto
    moreover have "even a \<noteq> even b" using True ab(3) by (metis dvd_mult_div_cancel odd_two_times_div_two_succ)
    ultimately show ?thesis using sub [of "a div 2"] True by (auto simp: halves_def)
  next
    case False
    have d: "a div 2 < 2 ^ K" "b div 2 < 2 ^ K" using ab(1,2) by auto
    have "set (halves L U c) \<subseteq> set (X (c div 2))" if "c div 2 < 2 ^ K" for c using sub [OF that] by (auto simp: halves_def)
    with apart [OF d False] d show ?thesis by blast
  qed
  ultimately show ?thesis using geo(1) slots mem unfolding hr_rep_def n by blast
qed

section \<open>Start of the rehash\<close>

lemma tag_bits: "geo h \<Longrightarrow> sint (ucast (hr_n h - hr_k h) :: u32) = int (tb h)"
proof -
  assume g: "geo h"
  then have "hr_k h \<le> hr_n h" by (simp only: geo_def nb_def kb_def word_le_nat_alt)
  then have u: "unat (hr_n h - hr_k h) = tb h" by (simp only: tb_def nb_def kb_def unat_sub)
  have b: "tb h \<le> 30" using g by (simp add: geo_def)
  then have u32: "unat (ucast (hr_n h - hr_k h) :: u32) = tb h" using unat_ucast_32 [of "hr_n h - hr_k h"] u by simp
  have "uint (ucast (hr_n h - hr_k h) :: u32) = int (tb h)" using u32 by (simp only: uint_nat)
  moreover have "signed_take_bit 31 (int (tb h)) = int (tb h)" using b by (intro signed_take_bit_int_eq_self) auto
  ultimately show ?thesis by (simp add: sint_uint)
qed

lemma half_tag_shl: "0 < tb h \<Longrightarrow> tb h \<le> 30 \<Longrightarrow> shl_ulong 1 (int (tb h) - 1) = Some (half_tag h)"
  by (simp add: shl_ulong_def half_tag_def nat_diff_distrib)

lemma rehash_alloc:
  assumes "hr_rep h s R" "tags_ok h s R" "kb h \<le> 29" "2 \<le> kb h" "room_hr s (Suc (Suc r))" "unat (hr_n h) = 32"
  shows "\<exists>new s1. hash_alloc_hr s NBITS (hr_k h + 1) = Some (Some new, s1)
     \<and> init_inv h new s1 R R M0 M1 (pay (hs_nodes s)) 0 \<and> room_hr s1 r \<and> hs_verbose s1 = hs_verbose s
     \<and> hr_n new = hr_n h \<and> unat (hr_k new) = Suc (kb h) \<and> unat (hr_size new) = 2 * 2 ^ kb h"
proof -
  have g: "geo h" using hr_repD(1) [OF assms(1)] .
  obtain a b as where av: "hs_avail s = a # b # as" "a \<noteq> 0" "b \<noteq> 0"
    using assms(5) by (cases "hs_avail s"; cases "tl (hs_avail s)") (auto simp: room_hr_def)
  have k1: "unat (hr_k h + 1) = Suc (kb h)" using assms(3) by (simp add: kb_def unat_word_ariths)
  have "int (unat (hr_k h + 1)) \<le> 30" unfolding k1 using assms(3) by simp
  from shl_int_1 [OF _ this] have "shl_int 1 (int (unat (hr_k h + 1))) = Some (2 ^ unat (hr_k h + 1))" by (simp only: nat_int of_nat_0_le_iff)
  then have sh: "shl_int 1 (uint (hr_k h + 1)) = Some (2 ^ Suc (kb h))" unfolding k1 by (simp only: uint_nat k1)
  let ?s = "s\<lparr>hs_avail := as\<rparr>"
  let ?new = "\<lparr>hr_n = NBITS, hr_k = hr_k h + 1, hr_size = word_of_int (2 ^ Suc (kb h)), hr_slots = replicate (2 ^ Suc (kb h)) 0\<rparr>"
  have run: "hash_alloc_hr s NBITS (hr_k h + 1) = Some (Some ?new, ?s)"
    using av sh by (simp add: hash_alloc_hr_def calloc_hr_def nat_mult_distrib nat_power_eq)
  have "bucket_hr h ?s j (R j) \<longleftrightarrow> bucket_hr h s j (R j)" for j by (intro bucket_cong) auto
  then have rep1: "hr_rep h ?s R" using assms(1) av(1) by (auto simp: hr_rep_def)
  have "init_inv h ?new ?s R R M0 M1 (pay (hs_nodes s)) 0"
    using rep1 assms(2) by (auto simp: init_inv_def tags_ok_def dom_pay nth_append)
  moreover have "hr_n ?new = hr_n h" using assms(6) by (simp add: NBITS_def word_unat_eq_iff)
  moreover have "unat (hr_size ?new) = 2 * 2 ^ kb h" using unat_pow2_word [of "Suc (kb h)"] assms(3) by simp
  ultimately show ?thesis using run k1 assms(5) av by (intro exI [of _ ?new] exI [of _ ?s]) (auto simp: room_hr_def)
qed

section \<open>The whole rehash\<close>

definition rehash_ready :: "hr_hash \<Rightarrow> hr_state \<Rightarrow> (nat \<Rightarrow> u64 list) \<Rightarrow> bool" where
  "rehash_ready h s R \<longleftrightarrow> unat (hr_n h) = 32 \<and> 2 \<le> kb h \<and> kb h \<le> 29 \<and> hs_verbose s < 3 \<and> room_hr s (Suc (Suc (4 * 2 ^ kb h)))
     \<and> (\<forall>j < 2 ^ kb h. R j \<noteq> [] \<longrightarrow> 2 * j < 2 ^ kb h
          \<and> tag_of (hs_nodes s) (hd (R j)) \<noteq> 0 \<and> tag_of (hs_nodes s) (hd (R j)) \<noteq> half_tag h)"

lemma ready_low:
  assumes "rehash_ready h s R" "j < 2 ^ kb h" "R j \<noteq> []"
  shows "j * 2 ^ tb h < 2 ^ 31"
proof -
  have r: "2 * j < 2 ^ kb h" "unat (hr_n h) = 32" "kb h \<le> 29" using assms by (simp_all add: rehash_ready_def)
  have "2 * j * 2 ^ tb h < 2 ^ kb h * 2 ^ tb h" using r(1) by simp
  also have "\<dots> = (2 :: nat) ^ 32" using r(2,3) by (simp add: tb_def nb_def flip: power_add)
  finally show ?thesis by simp
qed

lemma ready_start:
  assumes rep: "hr_rep h s R" and ready: "rehash_ready h s R" and j: "j < 2 ^ kb h" "R j \<noteq> []"
  shows "j * 2 ^ tb h < 2 ^ 31 \<and> (\<exists>ka ta va. pay (hs_nodes s) (hd (R j)) = Some (ka, ta, va) \<and> ta \<noteq> 0 \<and> ta \<noteq> half_tag h)"
proof -
  have "hd (R j) \<in> dom (hs_nodes s)" using ring_in_dom [OF rep j(1)] hd_in_set [OF j(2)] by blast
  then obtain n where "hs_nodes s (hd (R j)) = Some n" by auto
  with ready j ready_low [OF ready j] show ?thesis by (auto simp: rehash_ready_def pay_def payload_defs)
qed

text \<open>The first phase sets the milestones of every used bucket.\<close>

lemma rehash_init_ok:
  assumes rep: "hr_rep h s R" "tags_ok h s R" and ready: "rehash_ready h s R"
  obtains new s1 X M0 M1 where "hotring_rehash_init h s = Some (h, new, s1)"
    "init_inv h new s1 R X M0 M1 (pay (hs_nodes s)) (2 ^ kb h)" "hs_verbose s1 = hs_verbose s"
    "kb new = Suc (kb h)" "tb new = tb h - 1" "unat (hr_size new) = 2 * 2 ^ kb h" "geo new"
proof -
  let ?K = "2 ^ kb h :: nat" and ?P = "pay (hs_nodes s)"
  have g: "geo h" using hr_repD(1) [OF rep(1)] .
  have rd: "unat (hr_n h) = 32" "2 \<le> kb h" "kb h \<le> 29" "room_hr s (Suc (Suc (4 * ?K)))"
    using ready by (simp_all add: rehash_ready_def)
  have tb: "0 < tb h" "tb h \<le> 30" using rd(1-3) by (simp_all add: tb_def nb_def)
  from rehash_alloc [OF rep rd(3,2,4,1)] obtain new s1 where
    al: "hash_alloc_hr s NBITS (hr_k h + 1) = Some (Some new, s1)" "init_inv h new s1 R R undefined undefined ?P 0" "room_hr s1 (4 * ?K)"
    "hs_verbose s1 = hs_verbose s" "hr_n new = hr_n h" "unat (hr_k new) = Suc (kb h)" "unat (hr_size new) = 2 * ?K" by blast
  from init_loop_ok [OF al(2) tb(1) _ al(3) ready_start [OF rep(1) ready]] obtain new2 s2 X M0 M1 where
    il: "rehash_init_loop (int (tb h)) (half_tag h) h new s1 0 ?K = Some (h, new2, s2)" "init_inv h new2 s2 R X M0 M1 ?P ?K"
    "hs_verbose s2 = hs_verbose s1" "hr_n new2 = hr_n new" "hr_k new2 = hr_k new" "hr_size new2 = hr_size new" by auto
  have size: "unat (hr_size h) = ?K" using g by (simp add: geo_def)
  have init: "hotring_rehash_init h s = Some (h, new2, s2)"
    using al(1) il(1) size tb half_tag_shl [OF tb] tag_bits [OF g]
    by (simp add: hotring_rehash_init_def shl_ulong_def [of 1 "int (tb h)"])
  have kbn: "kb new2 = Suc (kb h)" "nb new2 = nb h" using al(5,6) il(4,5) by (simp_all add: kb_def nb_def)
  then have tbn: "tb new2 = tb h - 1" by (simp add: tb_def)
  have sz: "unat (hr_size new2) = 2 * ?K" using al(7) il(6) by simp
  have "nb h = 32" using rd(1) by (simp add: nb_def)
  with init_invD(3) [OF il(2)] have gn: "geo new2" using kbn rd(2,3) sz by (simp add: geo_def tb_def)
  show thesis by (rule that [OF init il(2) _ kbn(1) tbn sz gn]) (use il(3) al(4) in simp)
qed

text \<open>The second phase splits every ring at its milestones.\<close>

lemma rehash_split_loop:
  assumes g: "geo h" "0 < tb h" "tb new = tb h - 1" and inv: "init_inv h new s R X M0 M1 P (2 ^ kb h)"
    and low: "\<And>j. j < 2 ^ kb h \<Longrightarrow> R j \<noteq> [] \<Longrightarrow> j * 2 ^ tb h < 2 ^ 31"
  shows "\<exists>s' A B. split_loop (int (tb h)) (half_tag h) h s 0 (2 ^ kb h) = Some s' \<and> split_from new (2 ^ kb h) X M0 M1 0 s s' A B"
proof (rule split_loop_ok [OF g])
  note I = init_invD [OF inv]
  show "set (X a) \<inter> set (X b) = {}" if "a < 2 ^ kb h" "b < 2 ^ kb h" "a \<noteq> b" for a b using hr_repD(4) [OF I(1) that] .
  show "j * 2 ^ tb h < 2 ^ 31" if "j < 2 ^ kb h" "X j \<noteq> []" for j using low I(5) that by blast
  show "splittable h new s j (X j) (M0 j) (M1 j)" if "j < 2 ^ kb h" for j
    unfolding splittable_def using hr_repD(2) [OF I(1) that] I(2) I(5,6) [OF that] that by (auto simp: tags_ok_def)
qed simp_all

abbreviation led :: "(nat \<Rightarrow> u64 list) \<Rightarrow> (nat \<Rightarrow> u64) \<Rightarrow> (nat \<Rightarrow> u64 list) \<Rightarrow> nat \<Rightarrow> u64 list" where
  "led R M A \<equiv> \<lambda>j. if R j = [] then [] else M j # A j"

lemma rehash_halves:
  assumes inv: "init_inv h new s R X M0 M1 P (2 ^ kb h)" and sp: "split_from new (2 ^ kb h) X M0 M1 0 s s' A B"
    and j: "j < 2 ^ kb h"
  shows "split_done new s' j (led R M0 A j) (led R M1 B j)"
    and "R j \<noteq> [] \<Longrightarrow> mset (A j) + mset (B j) = mset (R j)"
    and "set (led R M0 A j) \<union> set (led R M1 B j) \<subseteq> set (X j) \<and> set (led R M0 A j) \<inter> set (led R M1 B j) = {}"
proof -
  note I = init_invD [OF inv]
  have X: "X j \<noteq> []" if "R j \<noteq> []" using I(7) [OF j that] by auto
  have sj: "mset (X j) = add_mset (M0 j) (add_mset (M1 j) (mset (A j) + mset (B j)))" "split_done new s' j (M0 j # A j) (M1 j # B j)"
    if "R j \<noteq> []" using sp j X [OF that] unfolding split_from_def by blast+
  show "split_done new s' j (led R M0 A j) (led R M1 B j)"
  proof (cases "R j = []")
    case True
    then show ?thesis using I(5) [OF j] by (simp add: split_done_def bucket_hr_def)
  qed (use sj(2) in simp)
  show "mset (A j) + mset (B j) = mset (R j)" if "R j \<noteq> []" using sj(1) [OF that] I(7) [OF j that] by simp
  show "set (led R M0 A j) \<union> set (led R M1 B j) \<subseteq> set (X j) \<and> set (led R M0 A j) \<inter> set (led R M1 B j) = {}"
  proof (cases "R j = []")
    case False
    have x: "mset (X j) = mset ((M0 j # A j) @ (M1 j # B j))" using sj(1) [OF False] by simp
    have "distinct (X j)" using hr_repD(2) [OF I(1) j] X [OF False] by (auto simp: bucket_hr_def ring_def split: if_splits)
    then have "distinct ((M0 j # A j) @ (M1 j # B j))" using x by (metis mset_eq_imp_distinct_iff)
    moreover have "set (X j) = set ((M0 j # A j) @ (M1 j # B j))" using x by (rule mset_eq_setD)
    ultimately show ?thesis using False by auto
  qed simp
qed

lemma rehash_split_rep:
  assumes geo: "geo new" "kb new = Suc (kb h)" and inv: "init_inv h new s R X M0 M1 P (2 ^ kb h)"
    and sp: "split_from new (2 ^ kb h) X M0 M1 0 s s' A B"
  shows "hr_rep new s' (halves (led R M0 A) (led R M1 B))"
proof (rule rep_after_split [OF geo, where X = X])
  note I = init_invD [OF inv] and S = sp [unfolded split_from_def] and H = rehash_halves [OF inv sp]
  show "bucket_hr new s' (2 * j) (led R M0 A j) \<and> bucket_hr new s' (2 * j + 1) (led R M1 B j)" if "j < 2 ^ kb h" for j
    using H(1) [OF that] by (simp only: split_done_def)
  show "set (led R M0 A j) \<union> set (led R M1 B j) \<subseteq> set (X j) \<and> set (led R M0 A j) \<inter> set (led R M1 B j) = {}"
    if "j < 2 ^ kb h" for j by (rule H(3) [OF that])
  show "set (X a) \<inter> set (X b) = {}" if "a < 2 ^ kb h" "b < 2 ^ kb h" "a \<noteq> b" for a b using hr_repD(4) [OF I(1) that] .
  show "hr_slots new ! a \<noteq> hr_slots new ! b" if "a < 2 * 2 ^ kb h" "b < 2 * 2 ^ kb h" "a \<noteq> b" "hr_slots new ! a \<noteq> 0" for a b
    by (rule I(9) [OF that])
  have "dom (hs_nodes s') = dom (hs_nodes s)" "dom (hs_heads s') = dom (hs_heads s)"
    using S by (metis dom_pay, metis dom_heads_view)
  then show "set (hs_avail s') \<inter> (dom (hs_nodes s') \<union> dom (hs_heads s')) = {}" "0 \<notin> dom (hs_nodes s')"
    "distinct (hs_avail s')" "\<forall>a \<in> set (hs_avail s'). pk_addr a = a"
    using I(1) S by (simp_all add: hr_rep_def)
qed

text \<open>Setting the milestones and splitting the rings gives a well-formed doubled table.\<close>

lemma rehash_split:
  assumes rep: "hr_rep h s R" "tags_ok h s R" and ready: "rehash_ready h s R"
  shows "\<exists>new s1 s2 L U M0 M1. hotring_rehash_init h s = Some (h, new, s1)
     \<and> split_loop (int (tb h)) (half_tag h) h s1 0 (2 ^ kb h) = Some s2
     \<and> hr_rep new s2 (halves L U) \<and> kb new = Suc (kb h) \<and> unat (hr_size new) = 2 * 2 ^ kb h \<and> hs_verbose s2 < 3
     \<and> (\<forall>j < 2 ^ kb h. if R j = [] then L j = [] \<and> U j = []
          else \<exists>A B. L j = M0 j # A \<and> U j = M1 j # B \<and> mset A + mset B = mset (R j))
     \<and> (\<forall>j < 2 ^ kb h. \<forall>x. L j = [x] \<or> U j = [x] \<longrightarrow> rn_list (the (hs_nodes s2 x)) = x)
     \<and> (\<forall>x \<in> dom (hs_nodes s). pay (hs_nodes s2) x = pay (hs_nodes s) x)"
proof -
  have g: "geo h" "0 < tb h" using hr_repD(1) [OF rep(1)] ready by (auto simp: rehash_ready_def tb_def nb_def)
  obtain new s1 X M0 M1 where init: "hotring_rehash_init h s = Some (h, new, s1)"
    "init_inv h new s1 R X M0 M1 (pay (hs_nodes s)) (2 ^ kb h)" "hs_verbose s1 = hs_verbose s"
    "kb new = Suc (kb h)" "tb new = tb h - 1" "unat (hr_size new) = 2 * 2 ^ kb h" "geo new"
    by (rule rehash_init_ok [OF rep ready])
  from rehash_split_loop [OF g init(5,2) ready_low [OF ready]] obtain s2 A B where
    sp: "split_loop (int (tb h)) (half_tag h) h s1 0 (2 ^ kb h) = Some s2" "split_from new (2 ^ kb h) X M0 M1 0 s1 s2 A B" by blast
  note H = rehash_halves [OF init(2) sp(2)] and S = sp(2) [unfolded split_from_def]
  have "\<forall>j < 2 ^ kb h. \<forall>x. led R M0 A j = [x] \<or> led R M1 B j = [x] \<longrightarrow> rn_list (the (hs_nodes s2 x)) = x"
    using H(1) unfolding split_done_def by blast
  moreover have "\<forall>x \<in> dom (hs_nodes s). pay (hs_nodes s2) x = pay (hs_nodes s) x"
    using init_invD(11) [OF init(2)] S by (metis dom_pay)
  moreover have "\<forall>j < 2 ^ kb h. if R j = [] then led R M0 A j = [] \<and> led R M1 B j = []
      else \<exists>A' B'. led R M0 A j = M0 j # A' \<and> led R M1 B j = M1 j # B' \<and> mset A' + mset B' = mset (R j)"
    using H(2) by auto
  moreover have "hs_verbose s2 < 3" using S init(3) ready by (simp add: rehash_ready_def)
  ultimately show ?thesis using init(1,4,6) sp(1) rehash_split_rep [OF init(7,4,2) sp(2)] by blast
qed

text \<open>The third phase takes the milestones, the heads of the rings, out again.\<close>

lemma not_a_head:
  assumes rep: "hr_rep h s H" and ab: "a < 2 ^ kb h" "b < 2 ^ kb h" "H a \<noteq> []" and x: "x \<in> set (tl (H b))"
  shows "x \<noteq> hd (H a)"
proof (cases "a = b")
  case True
  have "distinct (H b)" using hr_repD(2) [OF rep ab(2)] True ab(3) by (auto simp: bucket_hr_def ring_def split: if_splits)
  with True ab(3) x show ?thesis by (cases "H b") auto
next
  case False
  have "x \<in> set (H b)" using x by (metis list.set_sel(2) list.sel(2) empty_iff list.set(1))
  moreover have "set (H a) \<inter> set (H b) = {}" using hr_repD(4) [OF rep ab(1,2) False] .
  ultimately show ?thesis using hd_in_set [OF ab(3)] by blast
qed

lemma items_halved:
  assumes rep: "hr_rep h s R" "hr_rep new s' R'" and k: "kb new = Suc (kb h)"
    and ms: "\<And>j. j < 2 ^ kb h \<Longrightarrow> mset (R' (2 * j)) + mset (R' (2 * j + 1)) = mset (R j)"
    and keep: "\<And>j x. j < 2 ^ kb h \<Longrightarrow> x \<in> set (R j) \<Longrightarrow> pay (hs_nodes s') x = pay (hs_nodes s) x"
  shows "hr_items (new, s') = hr_items (h, s)"
proof -
  have kv: "image_mset (kv_of (hs_nodes s')) (mset (R j)) = image_mset (kv_of (hs_nodes s)) (mset (R j))" if "j < 2 ^ kb h" for j
    using pay_eqD [OF keep [OF that]] by (intro image_mset_cong) (simp add: kv_of_def)
  have "hr_items (new, s') = (\<Sum>a < 2 * 2 ^ kb h. image_mset (kv_of (hs_nodes s')) (mset (R' a)))"
    unfolding hr_items_rep [OF rep(2)] k by simp
  also have "\<dots> = (\<Sum>j < 2 ^ kb h. image_mset (kv_of (hs_nodes s')) (mset (R' (2 * j)) + mset (R' (2 * j + 1))))"
    unfolding sum_halves by simp
  also have "\<dots> = (\<Sum>j < 2 ^ kb h. image_mset (kv_of (hs_nodes s)) (mset (R j)))" using ms kv by (intro sum.cong) auto
  finally show ?thesis unfolding hr_items_rep [OF rep(1)] .
qed

lemma hotring_rehash_ok:
  assumes rep: "hr_rep h s R" "tags_ok h s R" and ready: "rehash_ready h s R"
  shows "\<exists>new s' R'. hotring_rehash h s = Some (new, s') \<and> hr_rep new s' R' \<and> hr_items (new, s') = hr_items (h, s)
     \<and> kb new = Suc (kb h)
     \<and> (\<forall>j < 2 ^ kb h. mset (R' (2 * j)) + mset (R' (2 * j + 1)) = mset (R j))
     \<and> (\<forall>j < 2 ^ kb h. \<forall>x \<in> set (R j). pay (hs_nodes s') x = pay (hs_nodes s) x)"
proof -
  let ?K = "2 ^ kb h :: nat"
  have g: "geo h" using hr_repD(1) [OF rep(1)] .
  from rehash_split [OF rep ready] obtain new s1 s2 L U M0 M1 where
    sp: "hotring_rehash_init h s = Some (h, new, s1)" "split_loop (int (tb h)) (half_tag h) h s1 0 ?K = Some s2"
    "hr_rep new s2 (halves L U)" "kb new = Suc (kb h)" "unat (hr_size new) = 2 * ?K" "hs_verbose s2 < 3"
    "\<forall>j < ?K. if R j = [] then L j = [] \<and> U j = [] else \<exists>A B. L j = M0 j # A \<and> U j = M1 j # B \<and> mset A + mset B = mset (R j)"
    "\<forall>j < ?K. \<forall>x. L j = [x] \<or> U j = [x] \<longrightarrow> rn_list (the (hs_nodes s2 x)) = x"
    "\<forall>x \<in> dom (hs_nodes s). pay (hs_nodes s2) x = pay (hs_nodes s) x" by blast
  have n: "(2 :: nat) ^ kb new = 2 * ?K" using sp(4) by simp
  have alone: "rn_list (the (hs_nodes s2 x)) = x" if "a < 2 * ?K" "halves L U a = [x]" for a x
  proof -
    have "a div 2 < ?K" using that(1) by auto
    with sp(8) that(2) show ?thesis by (auto simp: halves_def split: if_splits)
  qed
  have "0 + 2 * ?K = 2 ^ kb new" using n by simp
  from delete_heads_ok [OF sp(3) this sp(6)] alone n obtain new' s' R' where
    de: "delete_heads_loop new s2 0 (2 * ?K) = Some (new', s')" "hr_rep new' s' R'" "hr_n new' = hr_n new" "hr_k new' = hr_k new"
    "\<forall>a < 2 * ?K. R' a = tl (halves L U a)"
    "\<forall>x. (\<forall>a < 2 * ?K. halves L U a \<noteq> [] \<longrightarrow> x \<noteq> hd (halves L U a)) \<longrightarrow> pay (hs_nodes s') x = pay (hs_nodes s2) x"
    unfolding heads_deleted_def by auto
  have kb': "kb new' = Suc (kb h)" using de(4) sp(4) by (simp add: kb_def)
  have tb: "0 < tb h" "tb h \<le> 30" using ready by (auto simp: rehash_ready_def tb_def nb_def)
  have run: "hotring_rehash h s = Some (new', s')"
    using sp(1,2,5) de(1) display_hr_ok [OF de(2)] tag_bits [OF g] half_tag_shl [OF tb] g
    by (simp add: hotring_rehash_def geo_def)
  have ms: "mset (R' (2 * j)) + mset (R' (2 * j + 1)) = mset (R j)" if j: "j < ?K" for j
    using sp(7) de(5) j by (cases "R j = []") fastforce+
  have keep: "pay (hs_nodes s') x = pay (hs_nodes s) x" if j: "j < ?K" and x: "x \<in> set (R j)" for j x
  proof -
    have "x \<in># mset (R' (2 * j)) + mset (R' (2 * j + 1))" using ms [OF j] x by simp
    then have "x \<in> set (R' (2 * j)) \<or> x \<in> set (R' (2 * j + 1))" by (simp only: union_iff set_mset_mset)
    moreover have "2 * j < 2 * ?K" "2 * j + 1 < 2 * ?K" using j by auto
    ultimately obtain b where b: "b < 2 * ?K" "x \<in> set (tl (halves L U b))" using de(5) by metis
    have "pay (hs_nodes s') x = pay (hs_nodes s2) x" using de(6) not_a_head [OF sp(3)] b n by simp
    moreover have "x \<in> dom (hs_nodes s)" using ring_in_dom [OF rep(1) j] x by blast
    ultimately show ?thesis using sp(9) by simp
  qed
  have "hr_items (new', s') = hr_items (h, s)" using rep(1) de(2) kb' ms keep by (rule items_halved)
  with run de(2) kb' keep ms show ?thesis by blast
qed

end
