(* ===== verification/HotRing_Hot.thy ===== *)
theory HotRing_Hot
  imports HotRing_Store
begin

text \<open>
  The hot-spot shift: it reads and resets the counters of a ring and moves the head pointer along
  it.  The arithmetic of the incomes is arbitrary; it decides only how far the head moves.
\<close>

section \<open>Its walks\<close>

lemma counters_loop_ok:
  assumes "rpath (lnk m) qs head" "head \<notin> set qs" "distinct qs" "nr + int (length qs) < 100000"
  shows "\<exists>m'. counters_loop m head nr (hd (qs @ [head])) = Some (map (\<lambda>x. uint (list_counter (rn_list (the (m x))))) qs, m')
     \<and> lnk m' = lnk m \<and> pay m' = pay m \<and> (\<forall>x \<in> set qs. list_counter (rn_list (the (m' x))) = 0) \<and> (\<forall>x. x \<notin> set qs \<longrightarrow> m' x = m x)"
  using assms
proof (induction qs arbitrary: m nr)
  case Nil
  then show ?case by (subst counters_loop.simps) simp
next
  case (Cons q qs)
  then obtain n where n: "m q = Some n" "pk_addr (rn_list n) = hd (qs @ [head])" by (auto simp: lnk_def)
  obtain m1 where m1: "store_counter m q (\<lambda>_. 0) = Some m1" "lnk m1 = lnk m" "pay m1 = pay m"
    "list_counter (rn_list (the (m1 q))) = 0" "\<forall>x. x \<noteq> q \<longrightarrow> m1 x = m x"
  proof
    let ?m = "m(q \<mapsto> n\<lparr>rn_list := set_list_counter (rn_list n) 0\<rparr>)"
    show "store_counter m q (\<lambda>_. 0) = Some ?m" using n(1) by (simp add: store_counter_def upd_node_hr_def)
    show "lnk ?m = lnk m" "pay ?m = pay m" using n(1) by (auto simp: lnk_def pay_def fun_eq_iff)
  qed simp_all
  have "rpath (lnk m1) qs head" using Cons.prems(1) m1(2) by simp
  from Cons.IH [OF this, of "nr + 1"] Cons.prems obtain m' where
    m': "counters_loop m1 head (nr + 1) (hd (qs @ [head])) = Some (map (\<lambda>x. uint (list_counter (rn_list (the (m1 x))))) qs, m')"
    "lnk m' = lnk m1" "pay m' = pay m1" "\<forall>x \<in> set qs. list_counter (rn_list (the (m' x))) = 0" "\<forall>x. x \<notin> set qs \<longrightarrow> m' x = m1 x" by auto
  have "map (\<lambda>x. uint (list_counter (rn_list (the (m1 x))))) qs = map (\<lambda>x. uint (list_counter (rn_list (the (m x))))) qs"
    using Cons.prems(3) m1(5) by (intro map_cong refl) auto
  then have "counters_loop m head nr (hd ((q # qs) @ [head])) = Some (map (\<lambda>x. uint (list_counter (rn_list (the (m x))))) (q # qs), m')"
    using n m1(1) m'(1) Cons.prems(2,4) by (subst counters_loop.simps) auto
  moreover have "list_counter (rn_list (the (m' q))) = 0" using m'(5) m1(4) Cons.prems(3) by simp
  ultimately show ?case using m'(2-5) m1(2,3,5) by auto
qed

lemma hottest_loop_ok:
  assumes "rpath (lnk m) qs head" "head \<notin> set qs"
  shows "hottest_loop m head (i + d) i (hd (qs @ [head])) = Some (if d < length qs then qs ! d else 0)"
  using assms
proof (induction qs arbitrary: i d)
  case Nil
  then show ?case by (subst hottest_loop.simps) simp
next
  case (Cons q qs)
  then obtain n where n: "m q = Some n" "pk_addr (rn_list n) = hd (qs @ [head])" by (auto simp: lnk_def)
  show ?case
  proof (cases d)
    case 0
    with Cons.prems(2) show ?thesis by (subst hottest_loop.simps) auto
  next
    case (Suc e)
    with Cons.IH [of "i + 1" e] Cons.prems n show ?thesis by (subst hottest_loop.simps) auto
  qed
qed

section \<open>The position it picks\<close>

definition hot_step :: "'d double_ops \<Rightarrow> 'd \<Rightarrow> int list \<Rightarrow> 'd \<times> nat \<times> 'd \<Rightarrow> nat \<Rightarrow> 'd \<times> nat \<times> 'd" where
  "hot_step D tot cs = (\<lambda>(min_income, nr_hottest, head_income) t.
         let income = income_of D tot cs (int t);
             head_income1 = (if t = 0 then income else head_income) in
         if d_less D income min_income then (income, t, head_income1) else (min_income, nr_hottest, head_income1))"

lemma find_hottest_fold: "find_hottest D tot cs = foldl (hot_step D tot cs) (d_of_int D 1000000000, 0, d_of_int D 0) [0..<length cs]"
  by (simp add: find_hottest_def hot_step_def)

lemma find_hottest_ok:
  assumes "cs \<noteq> []" "d_less D (income_of D tot cs 0) (d_of_int D 1000000000)"
  shows "\<exists>nr < length cs. find_hottest D tot cs = (income_of D tot cs (int nr), nr, income_of D tot cs 0)"
proof -
  have "k \<noteq> 0 \<Longrightarrow> \<exists>nr < k. foldl (hot_step D tot cs) (d_of_int D 1000000000, 0, d_of_int D 0) [0..<k]
      = (income_of D tot cs (int nr), nr, income_of D tot cs 0)" for k
  proof (induction k)
    case (Suc k)
    show ?case
    proof (cases "k = 0")
      case True
      with assms(2) show ?thesis by (simp add: hot_step_def Let_def)
    next
      case False
      with Suc.IH obtain nr where nr: "nr < k" "foldl (hot_step D tot cs) (d_of_int D 1000000000, 0, d_of_int D 0) [0..<k]
          = (income_of D tot cs (int nr), nr, income_of D tot cs 0)" by blast
      then have "foldl (hot_step D tot cs) (d_of_int D 1000000000, 0, d_of_int D 0) [0..<Suc k]
          = hot_step D tot cs (income_of D tot cs (int nr), nr, income_of D tot cs 0) k" by simp
      with nr(1) False show ?thesis
        by (cases "d_less D (income_of D tot cs (int k)) (income_of D tot cs (int nr))") (auto simp: hot_step_def Let_def)
    qed
  qed simp
  from this [of "length cs"] assms(1) show ?thesis by (simp add: find_hottest_fold)
qed

section \<open>The head moves along its ring\<close>

lemma rep_move_head:
  assumes rep: "hr_rep h s R" and i: "i < 2 ^ kb h" and R: "R i = us @ vs" "vs \<noteq> []"
    and s': "lnk (hs_nodes s') = lnk (hs_nodes s)" "pay (hs_nodes s') = pay (hs_nodes s)" "hs_avail s' = hs_avail s"
      "heads_view s' = (heads_view s)(hr_slots h ! i \<mapsto> hd vs)"
  shows "hr_rep h s' (R(i := vs @ us))" "hr_items (h, s') = hr_items (h, s)"
proof -
  have used: "hr_slots h ! i \<noteq> 0" using hr_repD(2) [OF rep i] R by (auto simp: bucket_hr_def)
  have b: "bucket_hr h s i (R i)" using hr_repD(2) [OF rep i] .
  have keys: "key_of (hs_nodes s') = key_of (hs_nodes s)" "value_of (hs_nodes s') = value_of (hs_nodes s)" using pay_eq_funs [OF s'(2)] by auto
  have "ring (hs_nodes s') (us @ vs)" using b used R(1) s'(1) ring_cong [of "us @ vs" "hs_nodes s'" "hs_nodes s"] by (simp add: bucket_hr_def)
  then have nb: "bucket_hr h s' i (vs @ us)"
    using b used R s'(4) ring_rotate cyc_sorted_rotate [of "map (key_of (hs_nodes s)) us" "map (key_of (hs_nodes s)) vs"]
    unfolding bucket_hr_def heads_view_def [symmetric] keys by auto
  have "bucket_hr h s' j (R j) \<longleftrightarrow> bucket_hr h s j (R j)" if "j < 2 ^ kb h" "j \<noteq> i" for j
  proof (cases "hr_slots h ! j = 0")
    case False
    with hr_repD(5) [OF rep that(1) i that(2)] s' show ?thesis by (intro bucket_cong) auto
  qed (simp add: bucket_hr_def)
  then have "\<forall>j < 2 ^ kb h. bucket_hr h s' j ((R(i := vs @ us)) j)" using nb hr_repD(2) [OF rep] by simp
  moreover have "set ((R(i := vs @ us)) j) = set (R j)" for j using R(1) by auto
  moreover have "dom (hs_nodes s') = dom (hs_nodes s)" using s'(2) by (metis dom_pay)
  moreover have "dom (hs_heads s') = dom (hs_heads s)"
    using s'(4) b used by (metis (mono_tags, lifting) bucket_hr_def dom_fun_upd dom_heads_view heads_view_def insert_absorb domI option.distinct(1))
  ultimately show rep': "hr_rep h s' (R(i := vs @ us))"
    using rep s'(3) unfolding hr_rep_def by simp
  have "kv_of (hs_nodes s') = kv_of (hs_nodes s)" using keys by (simp add: kv_of_def fun_eq_iff)
  moreover have "mset ((R(i := vs @ us)) j) = mset (R j)" for j using R(1) by simp
  ultimately show "hr_items (h, s') = hr_items (h, s)" unfolding hr_items_rep [OF rep] hr_items_rep [OF rep'] by simp
qed

section \<open>The shift as a whole\<close>

definition ring_counters :: "hr_state \<Rightarrow> u64 list \<Rightarrow> int list" where
  "ring_counters s xs = map (\<lambda>x. uint (list_counter (rn_list (the (hs_nodes s x))))) xs"

definition access_total :: "hr_state \<Rightarrow> u64 \<Rightarrow> int" where
  "access_total s p = uint (head_counter (the (hs_heads s p)))"

text \<open>The walk that collects the counters, from the head node on.\<close>

lemma collect_ok:
  assumes "ring m (a # qs)" "length qs < 100000"
  shows "\<exists>n m1 m2. m a = Some n \<and> store_counter m a (\<lambda>_. 0) = Some m1
     \<and> counters_loop m1 a 0 (pk_addr (rn_list n)) = Some (map (\<lambda>x. uint (list_counter (rn_list (the (m x))))) qs, m2)
     \<and> lnk m2 = lnk m \<and> pay m2 = pay m \<and> (\<forall>x \<in> set (a # qs). list_counter (rn_list (the (m2 x))) = 0)"
proof -
  obtain n where n: "m a = Some n" using ring_dom [OF assms(1), of a] by auto
  have r: "pk_addr (rn_list n) = hd (qs @ [a])" "rpath (lnk m) qs a" "a \<notin> set qs" "distinct qs"
    using assms(1) n by (auto simp: ring_def lnk_def)
  obtain m1 where m1: "store_counter m a (\<lambda>_. 0) = Some m1" "lnk m1 = lnk m" "pay m1 = pay m"
    "list_counter (rn_list (the (m1 a))) = 0" "\<forall>x. x \<noteq> a \<longrightarrow> m1 x = m x"
  proof
    let ?m = "m(a \<mapsto> n\<lparr>rn_list := set_list_counter (rn_list n) 0\<rparr>)"
    show "store_counter m a (\<lambda>_. 0) = Some ?m" using n by (simp add: store_counter_def upd_node_hr_def)
    show "lnk ?m = lnk m" "pay ?m = pay m" using n by (auto simp: lnk_def pay_def fun_eq_iff)
  qed simp_all
  from counters_loop_ok [of m1 qs a 0] r(2-4) m1(2) assms(2) obtain m2 where
    m2: "counters_loop m1 a 0 (hd (qs @ [a])) = Some (map (\<lambda>x. uint (list_counter (rn_list (the (m1 x))))) qs, m2)"
    "lnk m2 = lnk m1" "pay m2 = pay m1" "\<forall>x \<in> set qs. list_counter (rn_list (the (m2 x))) = 0" "\<forall>x. x \<notin> set qs \<longrightarrow> m2 x = m1 x" by auto
  have "map (\<lambda>x. uint (list_counter (rn_list (the (m1 x))))) qs = map (\<lambda>x. uint (list_counter (rn_list (the (m x))))) qs"
    using r(3) m1(5) by (intro map_cong refl) auto
  with n m1 m2 r show ?thesis by auto
qed

lemma upd_head_ok:
  assumes "hs_heads s p = Some w"
  shows "upd_head s p f = Some (s\<lparr>hs_heads := (hs_heads s)(p \<mapsto> f w)\<rparr>)"
  using assms by (simp add: upd_head_def)

lemma stay_hot_ok:
  assumes "hs_heads s p = Some w"
  shows "\<exists>s'. stay_hot s p = Some (SHIFT_SUCCESS, s') \<and> heads_view s' = heads_view s \<and> hs_nodes s' = hs_nodes s
     \<and> hs_avail s' = hs_avail s \<and> access_total s' p = 0"
  using assms by (simp add: stay_hot_def upd_head_def heads_view_def fun_eq_iff access_total_def)

text \<open>
  The first part of a shift: the counters of the ring are collected and cleared, and the hottest
  item is number \<open>nr\<close>.
\<close>

lemma shift_start:
  assumes used: "hs_heads s p = Some w" "pk_addr w = a" and ring: "ring (hs_nodes s) (a # qs)" and len: "length qs < 100000"
    and arith: "d_less D (income_of D (d_of_int D (access_total s p)) (ring_counters s (a # qs)) 0) (d_of_int D 1000000000)"
  obtains m nr where "nr < length (a # qs)" "lnk m = lnk (hs_nodes s)" "pay m = pay (hs_nodes s)"
    "\<forall>x \<in> set (a # qs). list_counter (rn_list (the (m x))) = 0"
    "do_hotspot_shift D s p a = (let inc = income_of D (d_of_int D (access_total s p)) (ring_counters s (a # qs));
        t = s\<lparr>hs_heads := (hs_heads s)(p \<mapsto> set_head_active w True), hs_nodes := m\<rparr> in
      if d_eq D (inc (int nr)) (inc 0) then stay_hot t p
      else do {
        hottest \<leftarrow> hottest_loop m a nr 1 (hd (qs @ [a]));
        s3 \<leftarrow> upd_head t p (\<lambda>_. hottest);
        if d_less D (d_of_int D INCOME_THRESHOLD) (inc (int nr)) then Some (SHIFT_REHASH, s3) else stay_hot s3 p
      })"
proof -
  let ?m = "hs_nodes s"
  from collect_ok [OF ring len] obtain n m1 m2 where c: "?m a = Some n" "store_counter ?m a (\<lambda>_. 0) = Some m1"
    "counters_loop m1 a 0 (pk_addr (rn_list n)) = Some (map (\<lambda>x. uint (list_counter (rn_list (the (?m x))))) qs, m2)"
    "lnk m2 = lnk ?m" "pay m2 = pay ?m" "\<forall>x \<in> set (a # qs). list_counter (rn_list (the (m2 x))) = 0" by blast
  let ?cs = "ring_counters s (a # qs)" and ?tot = "d_of_int D (access_total s p)"
  have cs: "uint (list_counter (rn_list n)) # map (\<lambda>x. uint (list_counter (rn_list (the (?m x))))) qs = ?cs"
    using c(1) by (simp add: ring_counters_def)
  from find_hottest_ok [of ?cs D ?tot] arith obtain nr where nr: "nr < length (a # qs)"
    "find_hottest D ?tot ?cs = (income_of D ?tot ?cs (int nr), nr, income_of D ?tot ?cs 0)" by (auto simp: ring_counters_def)
  have tot: "d_of_int D (uint (head_counter (set_head_active w True))) = ?tot" using used(1) by (simp add: access_total_def)
  have "lnk m2 a = Some (hd (qs @ [a]))" using ring c(4) by (simp add: ring_def)
  then obtain n2 where n2: "m2 a = Some n2" "pk_addr (rn_list n2) = hd (qs @ [a])" by (auto simp: lnk_def)
  show thesis
    by (rule that [OF nr(1) c(4-6)])
      (use used c(1-3) n2 nr(2) tot in \<open>simp add: do_hotspot_shift_def upd_head_def Let_def cs del: tot\<close>)
qed

lemma do_hotspot_shift_ok:
  assumes rep: "hr_rep h s R" and i: "i < 2 ^ kb h" and R: "R i = a # qs" and len: "length qs < 100000"
    and arith: "d_less D (income_of D (d_of_int D (access_total s (hr_slots h ! i))) (ring_counters s (R i)) 0) (d_of_int D 1000000000)"
      "d_eq D (income_of D (d_of_int D (access_total s (hr_slots h ! i))) (ring_counters s (R i)) 0)
              (income_of D (d_of_int D (access_total s (hr_slots h ! i))) (ring_counters s (R i)) 0)"
  shows "\<exists>ret s' us vs. do_hotspot_shift D s (hr_slots h ! i) a = Some (ret, s') \<and> R i = us @ vs
     \<and> hr_rep h s' (R(i := vs @ us)) \<and> hr_items (h, s') = hr_items (h, s)
     \<and> lnk (hs_nodes s') = lnk (hs_nodes s) \<and> pay (hs_nodes s') = pay (hs_nodes s)
     \<and> (\<forall>c \<in> set (ring_counters s' (R i)). c = 0) \<and> (ret = SHIFT_SUCCESS \<longrightarrow> access_total s' (hr_slots h ! i) = 0)"
proof -
  let ?p = "hr_slots h ! i" and ?inc = "income_of D (d_of_int D (access_total s (hr_slots h ! i))) (ring_counters s (a # qs))"
  have used: "?p \<noteq> 0" using hr_repD(2) [OF rep i] R by (auto simp: bucket_hr_def)
  from bucketD(1) [OF hr_repD(2) [OF rep i] used] obtain w where w: "hs_heads s ?p = Some w" "pk_addr w = a" "ring (hs_nodes s) (a # qs)"
    using R by auto
  from shift_start [OF w len arith(1) [unfolded R]] obtain m nr where nr: "nr < length (a # qs)" and
    m: "lnk m = lnk (hs_nodes s)" "pay m = pay (hs_nodes s)" "\<forall>x \<in> set (a # qs). list_counter (rn_list (the (m x))) = 0"
    and run: "do_hotspot_shift D s ?p a = (let inc = ?inc; t = s\<lparr>hs_heads := (hs_heads s)(?p \<mapsto> set_head_active w True), hs_nodes := m\<rparr> in
      if d_eq D (inc (int nr)) (inc 0) then stay_hot t ?p
      else do {
        hottest \<leftarrow> hottest_loop m a nr 1 (hd (qs @ [a]));
        s3 \<leftarrow> upd_head t ?p (\<lambda>_. hottest);
        if d_less D (d_of_int D INCOME_THRESHOLD) (inc (int nr)) then Some (SHIFT_REHASH, s3) else stay_hot s3 ?p
      })" .
  let ?t = "s\<lparr>hs_heads := (hs_heads s)(?p \<mapsto> set_head_active w True), hs_nodes := m\<rparr>"
  have zero: "\<forall>c \<in> set (ring_counters t (R i)). c = 0" if "hs_nodes t = m" for t
    using m(3) that R by (auto simp: ring_counters_def)
  show ?thesis
  proof (cases "d_eq D (?inc (int nr)) (?inc 0)")
    case True
    have hv: "heads_view ?t = (heads_view s)(?p \<mapsto> a)" using w(1,2) by (auto simp: heads_view_def fun_eq_iff)
    from stay_hot_ok [of ?t ?p "set_head_active w True"] obtain s' where s': "stay_hot ?t ?p = Some (SHIFT_SUCCESS, s')"
      "heads_view s' = heads_view ?t" "hs_nodes s' = m" "hs_avail s' = hs_avail s" "access_total s' ?p = 0" by auto
    have "hr_rep h s' (R(i := (a # qs) @ []))" "hr_items (h, s') = hr_items (h, s)"
      using rep_move_head [OF rep i, of "[]" "a # qs" s'] R s'(2-4) hv m(1,2) by simp_all
    with run True s' zero [OF s'(3)] m R show ?thesis by (intro exI [of _ SHIFT_SUCCESS] exI [of _ s'] exI [of _ "[]"] exI [of _ "a # qs"]) simp
  next
    case False
    with arith(2) R have "nr \<noteq> 0" by (cases nr) auto
    then obtain d where d: "nr = 1 + d" "d < length qs" using nr by (cases nr) auto
    let ?b = "qs ! d" and ?s3 = "s\<lparr>hs_heads := (hs_heads s)(?p \<mapsto> qs ! d), hs_nodes := m\<rparr>"
    have "rpath (lnk m) qs a" "a \<notin> set qs" using w(3) m(1) by (simp_all add: ring_def)
    then have hot: "hottest_loop m a nr 1 (hd (qs @ [a])) = Some ?b" using hottest_loop_ok [of m qs a 1 d] d by simp
    have hv: "heads_view ?s3 = (heads_view s)(?p \<mapsto> ?b)" using ring_addr [OF w(3), of ?b] d(2) by (auto simp: heads_view_def fun_eq_iff)
    have split: "R i = (a # take d qs) @ drop d qs" "drop d qs \<noteq> []" "hd (drop d qs) = ?b" using R d(2) by (auto simp: hd_drop_conv_nth)
    have moved: "hr_rep h t (R(i := drop d qs @ a # take d qs))" "hr_items (h, t) = hr_items (h, s)"
      if "heads_view t = heads_view ?s3" "hs_nodes t = m" "hs_avail t = hs_avail s" for t
      using rep_move_head [OF rep i split(1,2), of t] that hv m(1,2) split(3) by simp_all
    from stay_hot_ok [of ?s3 ?p ?b] obtain s' where s': "stay_hot ?s3 ?p = Some (SHIFT_SUCCESS, s')" "heads_view s' = heads_view ?s3"
      "hs_nodes s' = m" "hs_avail s' = hs_avail s" "access_total s' ?p = 0" by auto
    have upd: "upd_head ?t ?p (\<lambda>_. ?b) = Some ?s3" by (simp add: upd_head_def)
    have "do_hotspot_shift D s ?p a = Some (SHIFT_REHASH, ?s3) \<or> do_hotspot_shift D s ?p a = Some (SHIFT_SUCCESS, s')"
      using run False hot upd s'(1) by simp
    then obtain ret t where "do_hotspot_shift D s ?p a = Some (ret, t)" "heads_view t = heads_view ?s3" "hs_nodes t = m"
      "hs_avail t = hs_avail s" "ret = SHIFT_SUCCESS \<longrightarrow> access_total t ?p = 0" using s' by auto
    with moved [of t] zero [of t] m(1,2) split(1) show ?thesis
      by (intro exI [of _ ret] exI [of _ t] exI [of _ "a # take d qs"] exI [of _ "drop d qs"]) simp
  qed
qed

end
