(* ===== verification/HotRing_Props.thy ===== *)
theory HotRing_Props
  imports HotRing_Store
begin

text \<open>Properties of lookup, insertion and deletion in the hot-ring table.\<close>

text \<open>A table of four slots and four tags with a ring of three nodes in slot 1, headed by its middle key.\<close>

definition demo_node :: "u64 \<Rightarrow> u64 \<Rightarrow> u64 \<Rightarrow> hr_node" where
  "demo_node nxt key val = \<lparr>rn_list = nxt, rn_tag = key mod 4, rn_key = key, rn_value = val\<rparr>"

definition demo_hash :: hr_hash where
  "demo_hash = \<lparr>hr_n = 4, hr_k = 2, hr_size = 4, hr_slots = [0, 64, 0, 0]\<rparr>"

definition demo_state :: hr_state where
  "demo_state = \<lparr>hs_nodes = [128 \<mapsto> demo_node 192 5 100, 192 \<mapsto> demo_node 256 7 200, 256 \<mapsto> demo_node 128 4 300],
     hs_heads = [64 \<mapsto> 128], hs_avail = [320, 384], hs_request = 0, hs_verbose = 0\<rparr>"

definition demo_rings :: "nat \<Rightarrow> u64 list" where
  "demo_rings = (\<lambda>_. [])(1 := [128, 192, 256])"

lemma demo_geo: "geo demo_hash" "nb demo_hash = 4" "kb demo_hash = 2" "tb demo_hash = 2"
  by (simp_all add: geo_def nb_def kb_def tb_def demo_hash_def)

lemma demo_keys: "key_of (hs_nodes demo_state) 128 = 5" "key_of (hs_nodes demo_state) 192 = 7" "key_of (hs_nodes demo_state) 256 = 4"
  by (simp_all add: key_of_def demo_state_def demo_node_def)

lemma demo_bucket: "bucket_hr demo_hash demo_state 1 [128, 192, 256]"
proof -
  have "ring (hs_nodes demo_state) [128, 192, 256]"
    by (simp add: ring_def lnk_def demo_state_def demo_node_def pk_addr_def)
  moreover have "cyc_sorted (map (key_of (hs_nodes demo_state)) [128, 192, 256])"
    by (rule cyc_sortedI [of _ "[5, 7]" "[4]"]) (simp_all add: demo_keys)
  moreover have "\<forall>x \<in> set [128, 192, 256]. slot_of demo_hash (key_of (hs_nodes demo_state) x) = 1"
    by (simp add: demo_keys slot_of_def demo_geo)
  ultimately show ?thesis by (simp add: bucket_hr_def demo_hash_def demo_state_def pk_addr_def)
qed

lemma demo_rep: "hr_rep demo_hash demo_state demo_rings"
proof -
  have "bucket_hr demo_hash demo_state i (demo_rings i)" if "i < 4" for i
  proof (cases "i = 1")
    case False
    with that have "i = 0 \<or> i = 2 \<or> i = 3" by auto
    then show ?thesis by (auto simp: bucket_hr_def demo_hash_def demo_rings_def)
  qed (use demo_bucket in \<open>simp add: demo_rings_def\<close>)
  moreover have "hr_slots demo_hash ! i \<noteq> 0 \<longrightarrow> i = 1" if "i < 4" for i
    using that by (auto simp: demo_hash_def nth_Cons split: nat.splits)
  then have "hr_slots demo_hash ! i \<noteq> 0 \<longrightarrow> hr_slots demo_hash ! i \<noteq> hr_slots demo_hash ! j" if "i < 4" "j < 4" "i \<noteq> j" for i j
    using that by metis
  moreover have "set (demo_rings i) \<inter> set (demo_rings j) = {}" if "i \<noteq> j" for i j
    using that by (auto simp: demo_rings_def)
  moreover have "distinct (hs_avail demo_state)" "set (hs_avail demo_state) \<inter> (dom (hs_nodes demo_state) \<union> dom (hs_heads demo_state)) = {}"
    "\<forall>a \<in> set (hs_avail demo_state). pk_addr a = a" "0 \<notin> dom (hs_nodes demo_state)"
    by (simp_all add: demo_state_def pk_addr_def)
  ultimately show ?thesis by (simp add: hr_rep_def demo_geo)
qed

lemma demo_tags: "tags_ok demo_hash demo_state demo_rings"
  by (auto simp: tags_ok_def demo_rings_def demo_geo demo_state_def demo_node_def payload_defs)

section \<open>What a search counts\<close>

text \<open>
  The state after a search that went through the head at \<open>p\<close> and found \<open>np\<close>: the counter of the head
  is raised, and that of the node if there is one.
\<close>

definition raised :: "u64 \<Rightarrow> u64" where "raised w = set_list_counter w (list_counter w + 1)"

definition counted :: "hr_state \<Rightarrow> u64 \<Rightarrow> u64 option \<Rightarrow> hr_state" where
  "counted s p np = s\<lparr>hs_heads := (hs_heads s)(p := map_option (\<lambda>w. set_head_counter w (head_counter w + 1)) (hs_heads s p)),
     hs_nodes := (case np of None \<Rightarrow> hs_nodes s
       | Some x \<Rightarrow> (hs_nodes s)(x := map_option (\<lambda>n. n\<lparr>rn_list := raised (rn_list n)\<rparr>) (hs_nodes s x)))\<rparr>"

lemma store_counter_raised:
  "store_counter m x (\<lambda>c. c + 1) = Some m1 \<Longrightarrow> m1 = m(x := map_option (\<lambda>n. n\<lparr>rn_list := raised (rn_list n)\<rparr>) (m x))"
  by (auto simp: store_counter_def upd_node_hr_def raised_def split: option.splits)

lemmas get_loop_induct = get_loop.raw_induct [rotated, consumes 1, case_names step]

lemma get_loop_raised:
  assumes "get_loop m head key prev pos = Some (Some (x, pv, m1))"
  shows "m1 = m(x := map_option (\<lambda>n. n\<lparr>rn_list := raised (rn_list n)\<rparr>) (m x))"
proof -
  have "case res of None \<Rightarrow> True | Some (x, pv, m1) \<Rightarrow> m1 = m(x := map_option (\<lambda>n. n\<lparr>rn_list := raised (rn_list n)\<rparr>) (m x))"
    if "get_loop m head key prev pos = Some res" for res
    using that
  proof (induction rule: get_loop_induct)
    case (step f m head key prev pos res)
    consider "res = None" | m1 where "store_counter m pos (\<lambda>c. c + 1) = Some m1" "res = Some (pos, prev, m1)"
      | p q where "f m head key p q = Some res"
    proof (cases "pos = head")
      case True
      with step(2) that(1) show thesis by simp
    next
      case False
      with step(2) obtain tmp np where n: "m pos = Some tmp" "m prev = Some np" by (auto simp: bind_eq_Some_conv)
      show thesis
      proof (cases "rn_key tmp = key")
        case True
        with step(2) n False that(2) show thesis by (auto simp: bind_eq_Some_conv)
      next
        case other: False
        show thesis
        proof (cases "rn_key np < key \<and> key < rn_key tmp \<or> key < rn_key tmp \<and> rn_key tmp < rn_key np \<or> rn_key tmp < rn_key np \<and> rn_key np < key")
          case True
          with step(2) n False other that(1) show thesis by (auto split: if_splits)
        next
          case go: False
          with step(2) n False other have "f m head key pos (pk_addr (rn_list tmp)) = Some res" by (auto split: if_splits)
          then show thesis by (rule that(3))
        qed
      qed
    qed
    then show ?case
    proof cases
      case 2
      with store_counter_raised show ?thesis by simp
    next
      case 3
      from step(1) [OF this] show ?thesis .
    qed simp
  qed
  from this [OF assms] show ?thesis by simp
qed

lemma raw_hash_get_counted:
  assumes run: "raw_hash_get h s key = Some (r, np, pv, s')" and g: "geo h" and key: "unat key < 2 ^ nb h"
  shows "s' = (if hr_slots h ! slot_of h key = 0 then s else counted s (hr_slots h ! slot_of h key) np)"
proof -
  obtain ix tg where ix: "hashCode_hr h key = Some (ix, tg)" "unat ix = slot_of h key" using hashCode_hr_ok [OF g, of key] by blast
  have load: "load_slot_hr h ix = Some (hr_slots h ! slot_of h key)"
    using ix(2) slot_bound [OF g key] g by (simp add: load_slot_hr_def geo_def)
  let ?p = "hr_slots h ! slot_of h key"
  show ?thesis
  proof (cases "?p = 0")
    case True
    with run ix load show ?thesis by (simp add: raw_hash_get_def)
  next
    case False
    from run ix(1) load False obtain w where w: "hs_heads s ?p = Some w" by (auto simp: raw_hash_get_def bind_eq_Some_conv)
    from run ix(1) load False w obtain n where n: "hs_nodes s (pk_addr w) = Some n"
      by (auto simp: raw_hash_get_def get_head_node_by_head_pointer_def Let_def bind_eq_Some_conv)
    note r = run [unfolded raw_hash_get_used [OF ix(1) load False w n] Let_def]
    show ?thesis
    proof (cases "rn_key n = key")
      case True
      with r store_counter_raised [of "hs_nodes s" "pk_addr w"] w False show ?thesis by (auto simp: counted_def fun_upd_def)
    next
      case miss: False
      with r w False get_loop_raised show ?thesis
        by (fastforce simp: counted_def split: option.splits)
    qed
  qed
qed

section \<open>Properties\<close>

text \<open>
  C17. \<open>__hash_get\<close> ends and is exact: on every well-formed table it returns the first node with the
  key along the ring of the key's bucket, counted from the head, together with its predecessor and
  the kind of access, or reports that no node has the key; in particular the three tests that leave
  the walk early never miss a key.  It changes nothing for an empty bucket; otherwise it raises the
  counter of the bucket's head by one, found or not, and that of the node it found by one, both
  modulo the widths of their fields, and changes nothing else.
\<close>

theorem hotring_get_exact:
  assumes "hr_rep h s R" "unat key < 2 ^ nb h"
  shows "\<exists>r np pv s'. raw_hash_get h s key = Some (r, np, pv, s')
     \<and> (r, np, pv) = get_out (hs_nodes s) key (R (slot_of h key))
     \<and> (np = None \<longleftrightarrow> key \<notin> fst ` set_mset (hr_items (h, s)))
     \<and> hr_rep h s' R \<and> hr_items (h, s') = hr_items (h, s)
     \<and> (let p = hr_slots h ! slot_of h key in
          if p = 0 then s' = s
          else s' = counted s p np
            \<and> head_counter (the (hs_heads s' p)) = (head_counter (the (hs_heads s p)) + 1) mod 2 ^ 15
            \<and> (\<forall>x. np = Some x \<longrightarrow>
                 list_counter (rn_list (the (hs_nodes s' x))) = (list_counter (rn_list (the (hs_nodes s x))) + 1) mod 2 ^ 14))"
proof -
  from raw_hash_get_ok [OF assms] obtain r np pv s' where get: "raw_hash_get h s key = Some (r, np, pv, s')"
    "(r, np, pv) = get_out (hs_nodes s) key (R (slot_of h key))" "same_view s s'" by blast
  have np: "np = None \<longleftrightarrow> key \<notin> key_of (hs_nodes s) ` set (R (slot_of h key))"
    using get(2) by (cases rule: get_out_cases [of key "hs_nodes s" "R (slot_of h key)"]) auto
  have g: "geo h" using hr_repD(1) [OF assms(1)] .
  let ?p = "hr_slots h ! slot_of h key"
  note c = raw_hash_get_counted [OF get(1) g assms(2)]
  have "let p = ?p in if p = 0 then s' = s
          else s' = counted s p np
            \<and> head_counter (the (hs_heads s' p)) = (head_counter (the (hs_heads s p)) + 1) mod 2 ^ 15
            \<and> (\<forall>x. np = Some x \<longrightarrow>
                 list_counter (rn_list (the (hs_nodes s' x))) = (list_counter (rn_list (the (hs_nodes s x))) + 1) mod 2 ^ 14)"
  proof (cases "?p = 0")
    case False
    have i: "slot_of h key < 2 ^ kb h" using slot_bound [OF g assms(2)] .
    from bucketD [OF hr_repD(2) [OF assms(1) i] False] obtain w where w: "hs_heads s ?p = Some w" by blast
    have "\<exists>n. hs_nodes s x = Some n" if "np = Some x" for x
    proof -
      have "x \<in> set (R (slot_of h key))"
        using get(2) that by (cases rule: get_out_cases [of key "hs_nodes s" "R (slot_of h key)"]) auto
      then show ?thesis using ring_in_dom [OF assms(1) i] by blast
    qed
    with c False w show ?thesis by (auto simp: counted_def raised_def take_bit_eq_mod)
  qed (use c in simp)
  with get np same_view_rep(1) [OF assms(1) get(3)] hr_items_same_view [OF assms(1) get(3)] key_stored_iff [OF assms]
  show ?thesis by simp
qed

theorem hotring_get_exact_witness:
  "(\<exists>s'. raw_hash_get demo_hash demo_state 4 = Some (GET_ACCESS_COLD, Some 256, 192, s')
      \<and> head_counter (the (hs_heads s' 64)) = 1 \<and> list_counter (rn_list (the (hs_nodes s' 256))) = 1)
   \<and> (\<exists>s'. raw_hash_get demo_hash demo_state 6 = Some (GET_NOT_FOUND, None, 0, s') \<and> head_counter (the (hs_heads s' 64)) = 1)"
proof -
  have c: "head_counter 128 = 0" "list_counter 128 = 0" by code_simp+
  have e: "slot_of demo_hash 4 = 1" "slot_of demo_hash 6 = 1" "hr_slots demo_hash ! 1 = 64" "the (hs_heads demo_state 64) = 128"
    "rn_list (the (hs_nodes demo_state 256)) = 128" "nb demo_hash = 4"
    by (simp_all add: slot_of_def demo_geo) (simp_all add: demo_hash_def demo_state_def demo_node_def)
  have g: "get_out (hs_nodes demo_state) 4 (demo_rings 1) = (GET_ACCESS_COLD, Some 256, 192)"
    "get_out (hs_nodes demo_state) 6 (demo_rings 1) = (GET_NOT_FOUND, None, 0)"
    by (simp_all add: get_out_def demo_rings_def demo_keys)
  from hotring_get_exact [OF demo_rep, of 4] hotring_get_exact [OF demo_rep, of 6] show ?thesis
    unfolding e g by (auto simp: Let_def e c)
qed

text \<open>
  C18. \<open>hash_insert\<close> returns 0 on every well-formed table with two addresses left, adds exactly the
  new pair, and keeps the table well-formed: the node is put where the ring stays in cyclic order.
\<close>

theorem hotring_insert_adds:
  assumes "hr_rep h s R" "tags_ok h s R" "room_hr s 2" "unat key < 2 ^ nb h"
  shows "\<exists>h' s' R'. hash_insert_hr h s key val = Some (0, h', s') \<and> hr_rep h' s' R' \<and> tags_ok h' s' R'
     \<and> hr_items (h', s') = add_mset (key, val) (hr_items (h, s))"
proof -
  from hash_insert_ok [OF assms] obtain node h1 s1 tag xs where
    ins: "hash_insert_hr h s key val = Some (0, h1, s1)" "put_done h s R (slot_of h key) node (key, tag, val) xs h1 s1" by blast
  have "slot_of h key < 2 ^ kb h" using slot_bound [OF hr_repD(1) [OF assms(1)] assms(4)] .
  from hr_items_put [OF assms(1) ins(2) this] ins show ?thesis unfolding put_done_def by blast
qed

theorem hotring_insert_adds_witness:
  "\<exists>h' s'. hash_insert_hr demo_hash demo_state 6 400 = Some (0, h', s')
     \<and> hr_items (h', s') = add_mset (6, 400) (hr_items (demo_hash, demo_state))"
  using hotring_insert_adds [OF demo_rep demo_tags, of 6 400] by (auto simp: demo_geo room_hr_def demo_state_def)






text \<open>
  C20. \<open>hotring_delete\<close> reports whether the key was present.  A node that is not the head of its ring
  is removed alone.  If the head node has the key, the head pointer of the bucket goes with it: the
  slot becomes empty and every other pair of the bucket is lost.  The key is below the range of the
  hash values and the verbosity below 3, where the freed node is not read.
\<close>

theorem hotring_delete_effect:
  assumes "hr_rep h s R" "unat key < 2 ^ nb h" "hs_verbose s < 3"
  shows "\<exists>ok h' s' R'. hotring_delete h s key = Some (ok, h', s') \<and> hr_rep h' s' R'
     \<and> (ok \<longleftrightarrow> key \<in> fst ` set_mset (hr_items (h, s)))
     \<and> (\<forall>i. i \<noteq> slot_of h key \<longrightarrow> R' i = R i)
     \<and> (R (slot_of h key) \<noteq> [] \<longrightarrow> R' (slot_of h key) =
          (if key_of (hs_nodes s) (hd (R (slot_of h key))) = key then []
           else takeWhile (\<lambda>x. key_of (hs_nodes s) x \<noteq> key) (R (slot_of h key))
                @ tl (dropWhile (\<lambda>x. key_of (hs_nodes s) x \<noteq> key) (R (slot_of h key)))))"
proof -
  from hotring_delete_ok [OF assms] obtain ok h' s' where d: "hotring_delete h s key = Some (ok, h', s')"
    "ok \<longleftrightarrow> key \<in> key_of (hs_nodes s) ` set (R (slot_of h key))"
    "hr_rep h' s' (R(slot_of h key := ring_after_delete (hs_nodes s) key (R (slot_of h key))))" by blast
  show ?thesis
    by (rule exI [of _ ok], rule exI [of _ h'], rule exI [of _ s'],
        rule exI [of _ "R(slot_of h key := ring_after_delete (hs_nodes s) key (R (slot_of h key)))"])
       (use d key_stored_iff [OF assms(1,2)] in
          \<open>auto simp: ring_after_delete_def simp del: takeWhile.simps dropWhile.simps split: list.split\<close>)
qed

theorem hotring_delete_effect_witness:
  "(\<exists>h' s'. hotring_delete demo_hash demo_state 7 = Some (True, h', s'))
   \<and> (\<exists>h' s' R'. hotring_delete demo_hash demo_state 5 = Some (True, h', s') \<and> hr_rep h' s' R' \<and> R' 1 = [])"
proof -
  have keys: "7 \<in> fst ` set_mset (hr_items (demo_hash, demo_state))" "5 \<in> fst ` set_mset (hr_items (demo_hash, demo_state))"
    using key_stored_iff [OF demo_rep, of 7] key_stored_iff [OF demo_rep, of 5]
    by (simp_all add: demo_geo slot_of_def demo_rings_def demo_keys)
  have v: "hs_verbose demo_state < 3" by (simp add: demo_state_def)
  have "unat (7 :: u64) < 2 ^ nb demo_hash" "unat (5 :: u64) < 2 ^ nb demo_hash" by (simp_all add: demo_geo)
  from hotring_delete_effect [OF demo_rep this(1) v] hotring_delete_effect [OF demo_rep this(2) v] keys
  show ?thesis by (auto simp: slot_of_def demo_geo demo_rings_def demo_keys)
qed

end
