(* ===== verification/HotRing_Shift_Props.thy ===== *)
theory HotRing_Shift_Props
  imports HotRing_Rehash_Ok HotRing_Hot HotRing_Props
begin

text \<open>Properties of the hot-spot shift and of the rehash.\<close>

section \<open>Where the rehash faults\<close>

lemma create_keeps_slots:
  assumes "raw_hash_create h s ix t = Some (r, node, h1, s1)" "hr_slots h ! j \<noteq> 0" "j < length (hr_slots h)"
  shows "hr_slots h1 ! j = hr_slots h ! j \<and> length (hr_slots h1) = length (hr_slots h)"
  using assms
  by (cases "unat ix = j")
     (auto simp: raw_hash_create_def load_slot_hr_def store_slot_hr_def Let_def case_prod_beta' bind_eq_Some_conv split: if_splits)

lemma milestone_keeps_slots:
  assumes "milestone h s i key t = Some (node, h1, s1)" "hr_slots h ! j \<noteq> 0" "j < length (hr_slots h)"
  shows "hr_slots h1 ! j = hr_slots h ! j \<and> length (hr_slots h1) = length (hr_slots h)"
  using assms create_keeps_slots [of h s "of_nat i" t] by (auto simp: milestone_def bind_eq_Some_conv)

lemma init_step_Some:
  assumes "rehash_init_loop bits halfTag h new s i (Suc k) = Some res" "load_slot_hr h (of_nat i) = Some slot"
  shows "rehash_init_loop bits halfTag h new s (Suc i) k = Some res
     \<or> (\<exists>b node h1 s1 s2 node2 h2 s3 new2 s4. milestone h s i (word_of_int b + halfTag) halfTag = Some (node, h1, s1)
          \<and> milestone h1 s2 i (word_of_int b) 0 = Some (node2, h2, s3) \<and> rehash_init_loop bits halfTag h2 new2 s4 (Suc i) k = Some res)"
proof (cases "slot = 0")
  case True
  with assms show ?thesis by simp
next
  case False
  with assms show ?thesis
    unfolding rehash_init_loop.simps by (simp add: bind_eq_Some_conv del: of_int_add) blast
qed

lemma init_loop_undefined:
  assumes "shl_int (int j) bits = None" "hr_slots h ! j \<noteq> 0" "j < length (hr_slots h)" "length (hr_slots h) < 2 ^ 64" "i \<le> j" "j < i + k"
  shows "rehash_init_loop bits halfTag h new s i k = None"
  using assms(2-)
proof (induction k arbitrary: h new s i)
  case (Suc k)
  have load: "load_slot_hr h (of_nat i) = Some (hr_slots h ! i)" using Suc.prems by (simp add: load_slot_hr_def unat_of_nat)
  show ?case
  proof (cases "i = j")
    case True
    with load assms(1) Suc.prems(1) show ?thesis by simp
  next
    case False
    then have ij: "Suc i \<le> j" "j < Suc i + k" using Suc.prems(4,5) by simp_all
    show ?thesis
    proof (rule ccontr)
      assume "rehash_init_loop bits halfTag h new s i (Suc k) \<noteq> None"
      then obtain res where "rehash_init_loop bits halfTag h new s i (Suc k) = Some res" by auto
      from init_step_Some [OF this load] obtain h2 new2 s2 where h2: "hr_slots h2 ! j = hr_slots h ! j" "length (hr_slots h2) = length (hr_slots h)"
        "rehash_init_loop bits halfTag h2 new2 s2 (Suc i) k = Some res"
      proof (elim disjE exE conjE)
        fix b node h1 s1 s2 node2 h2 s3 new2 s4
        assume m: "milestone h s i (word_of_int b + halfTag) halfTag = Some (node, h1, s1)" "milestone h1 s2 i (word_of_int b) 0 = Some (node2, h2, s3)"
          "rehash_init_loop bits halfTag h2 new2 s4 (Suc i) k = Some res"
        from milestone_keeps_slots [OF m(1) Suc.prems(1,2)] milestone_keeps_slots [OF m(2), of j] Suc.prems(1,2) m(3) that show thesis by metis
      qed (use that in blast)
      have "rehash_init_loop bits halfTag h2 new2 s2 (Suc i) k = None" using Suc.IH [of h2 "Suc i" new2 s2] h2(1,2) Suc.prems(1-3) ij by simp
      with h2(3) show False by simp
    qed
  qed
qed simp

lemma rehash_upper_fault:
  assumes rep: "hr_rep h s R" and n: "unat (hr_n h) = 32" "kb h \<le> 29" and j: "j < 2 ^ kb h" "2 ^ kb h \<le> 2 * j" "R j \<noteq> []"
  shows "hotring_rehash h s = None"
proof -
  have g: "geo h" using hr_repD(1) [OF rep] .
  have len: "length (hr_slots h) = 2 ^ kb h" "unat (hr_size h) = 2 ^ kb h" using g by (simp_all add: geo_def)
  have "2 ^ kb h * 2 ^ tb h \<le> 2 * j * 2 ^ tb h" using j(2) by simp
  moreover have "(2 :: nat) ^ kb h * 2 ^ tb h = 2 ^ 32" using n by (simp add: tb_def nb_def flip: power_add)
  ultimately have "(2 :: nat) ^ 31 \<le> j * 2 ^ tb h" by simp
  then have "(2 :: int) ^ 31 \<le> int (j * 2 ^ tb h)" by (metis of_nat_le_iff of_nat_numeral of_nat_power)
  then have shl: "shl_int (int j) (int (tb h)) = None" by (simp add: shl_int_def)
  have "length (hr_slots h) < 2 ^ 64" using len(1) n(2) power_strict_increasing [of "kb h" 64 "2 :: nat"] by simp
  moreover have "hr_slots h ! j \<noteq> 0" using slot_used_iff [OF rep j(1)] j(3) by simp
  ultimately have loop: "rehash_init_loop (int (tb h)) H h new s1 0 (2 ^ kb h) = None" for H new s1
    using init_loop_undefined [OF shl, of h 0 "2 ^ kb h" H new s1] len(1) j(1) by simp
  have "hotring_rehash_init h s = None"
    unfolding hotring_rehash_init_def tag_bits [OF g] len(2) Let_def by (auto simp: bind_eq_None_conv loop split: option.splits)
  then show ?thesis by (simp add: hotring_rehash_def)
qed

section \<open>Concrete states\<close>

text \<open>Exact fractions in place of floating point numbers.\<close>

definition fractions :: "(int \<times> int) double_ops" where
  "fractions = \<lparr>d_of_int = (\<lambda>i. (i, 1)), d_add = (\<lambda>(a, b) (c, d). (a * d + c * b, b * d)), d_mul = (\<lambda>(a, b) (c, d). (a * c, b * d)),
     d_div = (\<lambda>(a, b) (c, d). (a * d, b * c)), d_less = (\<lambda>(a, b) (c, d). a * d < c * b), d_eq = (\<lambda>(a, b) (c, d). a * d = c * b)\<rparr>"

definition demo_hot :: hr_state where
  "demo_hot = demo_state\<lparr>hs_heads := [64 \<mapsto> 0x6000000000080],
     hs_nodes := [128 \<mapsto> demo_node 0x10000000000C0 5 100, 192 \<mapsto> demo_node 0x4000000000100 7 200, 256 \<mapsto> demo_node 0x1000000000080 4 300]\<rparr>"

lemma demo_hot_rep: "hr_rep demo_hash demo_hot demo_rings"
proof (rule same_view_rep(1) [OF demo_rep])
  show "same_view demo_state demo_hot"
    by (auto simp: same_view_def demo_hot_def demo_state_def lnk_def pay_def heads_view_def demo_node_def pk_addr_def fun_eq_iff take_bit_eq_mask mask_eq_exp_minus_1)
qed

text \<open>A table for keys of 32 bits with one node, in a slot of choice.\<close>

definition demo32 :: "nat \<Rightarrow> hr_hash" where
  "demo32 j = \<lparr>hr_n = 32, hr_k = 2, hr_size = 4, hr_slots = [0, 0, 0, 0][j := 64]\<rparr>"

definition demo32_state :: "u64 \<Rightarrow> hr_state" where
  "demo32_state key = \<lparr>hs_nodes = [128 \<mapsto> \<lparr>rn_list = 128, rn_tag = key mod 0x40000000, rn_key = key, rn_value = 100\<rparr>], hs_heads = [64 \<mapsto> 128],
     hs_avail = [192, 256, 320, 384, 448, 512, 576, 640, 704, 768, 832, 896, 960, 1024, 1088, 1152, 1216, 1280], hs_request = 0, hs_verbose = 0\<rparr>"

lemma demo32_rep:
  assumes "j < 4" "unat key div 0x40000000 = j"
  shows "hr_rep (demo32 j) (demo32_state key) ((\<lambda>_. [])(j := [128]))" "tags_ok (demo32 j) (demo32_state key) ((\<lambda>_. [])(j := [128]))"
    "kb (demo32 j) = 2" "nb (demo32 j) = 32" "tb (demo32 j) = 30"
proof -
  show k: "kb (demo32 j) = 2" "nb (demo32 j) = 32" "tb (demo32 j) = 30" by (simp_all add: kb_def nb_def tb_def demo32_def)
  have slot: "hr_slots (demo32 j) ! i = (if i = j then 64 else 0)" if "i < 4" for i
    using that assms(1) by (auto simp: demo32_def nth_list_update nth_Cons split: nat.splits)
  have "bucket_hr (demo32 j) (demo32_state key) i (((\<lambda>_. [])(j := [128])) i)" if "i < 4" for i
    using slot [OF that] assms(2) k(3)
    by (simp add: bucket_hr_def ring_def lnk_def demo32_state_def pk_addr_def key_of_def slot_of_def)
  moreover have "geo (demo32 j)" using k by (simp add: geo_def) (simp add: demo32_def del: list_update.simps)
  ultimately show "hr_rep (demo32 j) (demo32_state key) ((\<lambda>_. [])(j := [128]))"
    using slot unfolding hr_rep_def k by (auto simp: demo32_state_def pk_addr_def)
  show "tags_ok (demo32 j) (demo32_state key) ((\<lambda>_. [])(j := [128]))"
    using k by (simp add: tags_ok_def demo32_state_def payload_defs unat_mod)
qed

section \<open>Properties\<close>

text \<open>
  C21. The hot-spot shift moves the head pointer along its ring and nothing else: for every
  arithmetic in which the income of the present head is below the initial bound and equal to
  itself (so not for the result of a division by a zero counter), \<open>do_hotspot_shift\<close> ends, the ring
  is rotated, no pair is lost, all counters of the ring are reset, and after a successful shift the
  counter of the bucket is zero.
\<close>

theorem hotspot_shift_rotates:
  assumes "hr_rep h s R" "i < 2 ^ kb h" "R i = a # qs" "length qs < 100000"
    and "d_less D (income_of D (d_of_int D (access_total s (hr_slots h ! i))) (ring_counters s (R i)) 0) (d_of_int D 1000000000)"
    and "d_eq D (income_of D (d_of_int D (access_total s (hr_slots h ! i))) (ring_counters s (R i)) 0)
              (income_of D (d_of_int D (access_total s (hr_slots h ! i))) (ring_counters s (R i)) 0)"
  shows "\<exists>ret s' us vs. do_hotspot_shift D s (hr_slots h ! i) a = Some (ret, s') \<and> R i = us @ vs
     \<and> hr_rep h s' (R(i := vs @ us)) \<and> hr_items (h, s') = hr_items (h, s)
     \<and> (\<forall>c \<in> set (ring_counters s' (R i)). c = 0) \<and> (ret = SHIFT_SUCCESS \<longrightarrow> access_total s' (hr_slots h ! i) = 0)"
  using do_hotspot_shift_ok [OF assms] by blast

theorem hotspot_shift_rotates_witness:
  "\<exists>ret s'. do_hotspot_shift fractions demo_hot 64 128 = Some (ret, s') \<and> hr_items (demo_hash, s') = hr_items (demo_hash, demo_hot)"
proof -
  have e: "demo_rings 1 = 128 # [192, 256]" "hr_slots demo_hash ! 1 = 64" by (simp_all add: demo_rings_def demo_hash_def)
  have c: "ring_counters demo_hot (demo_rings 1) = [1, 4, 1]" "access_total demo_hot 64 = 6"
    unfolding e by (simp_all add: ring_counters_def access_total_def demo_hot_def demo_node_def list_counter_def head_counter_def)
  have inc: "income_of fractions (d_of_int fractions 6) [1, 4, 1] 0 = (6 * 36, 216)"
    by code_simp
  have "d_less fractions (income_of fractions (d_of_int fractions 6) [1, 4, 1] 0) (d_of_int fractions 1000000000)"
    "d_eq fractions (income_of fractions (d_of_int fractions 6) [1, 4, 1] 0) (income_of fractions (d_of_int fractions 6) [1, 4, 1] 0)"
    unfolding inc by (simp_all add: fractions_def)
  with hotspot_shift_rotates [OF demo_hot_rep _ e(1), where D = fractions] c e(2) show ?thesis
    by (auto simp: demo_geo)
qed

text \<open>
  C22. \<open>hotring_rehash\<close> doubles the table and keeps every pair: from a well-formed table for 32-bit
  hash values whose used buckets lie in the lower half and whose head nodes do not carry a
  milestone tag, with four addresses per bucket and two for the table, it ends with a well-formed
  table of one more bit, in which the nodes of each old bucket are divided between the two new ones.
\<close>

theorem hotring_rehash_keeps_pairs:
  assumes "hr_rep h s R" "tags_ok h s R" "rehash_ready h s R"
  shows "\<exists>new s' R'. hotring_rehash h s = Some (new, s') \<and> hr_rep new s' R' \<and> hr_items (new, s') = hr_items (h, s)
     \<and> kb new = Suc (kb h) \<and> (\<forall>j < 2 ^ kb h. mset (R' (2 * j)) + mset (R' (2 * j + 1)) = mset (R j))"
  using hotring_rehash_ok [OF assms] by blast

theorem hotring_rehash_keeps_pairs_witness:
  "\<exists>new s'. hotring_rehash (demo32 0) (demo32_state 5) = Some (new, s') \<and> hr_items (new, s') = hr_items (demo32 0, demo32_state 5)"
proof -
  have "half_tag (demo32 0) = 0x20000000" using demo32_rep(5) [of 0 5] by (simp add: half_tag_def push_bit_eq_mult)
  then have "rehash_ready (demo32 0) (demo32_state 5) ((\<lambda>_. [])(0 := [128]))"
    using demo32_rep(3) [of 0 5] by (auto simp: rehash_ready_def room_hr_def payload_defs demo32_state_def) (simp_all add: demo32_def)
  with hotring_rehash_keeps_pairs [OF demo32_rep(1,2) [of 0 5]] show ?thesis by (auto simp: payload_defs)
qed

text \<open>
  C23. In a table for 32-bit hash values \<open>hotring_rehash\<close> has undefined behaviour as soon as one
  bucket of the upper half is used: the key of its milestone, \<open>i << hash_tag_bits\<close>, is a shift of
  an \<open>int\<close> out of its range.
\<close>

theorem hotring_rehash_upper_half_undefined:
  assumes "hr_rep h s R" "unat (hr_n h) = 32" "kb h \<le> 29" "j < 2 ^ kb h" "2 ^ kb h \<le> 2 * j" "R j \<noteq> []"
  shows "hotring_rehash h s = None"
  using rehash_upper_fault [OF assms] .

theorem hotring_rehash_upper_half_undefined_witness:
  "hotring_rehash (demo32 2) (demo32_state 0x80000005) = None"
  by (rule hotring_rehash_upper_half_undefined [OF demo32_rep(1) [of 2 "0x80000005"], of 2])
     (simp_all add: kb_def demo32_def)

text \<open>A run of the table through a rehash.\<close>

definition demo_fresh :: hr_state where
  "demo_fresh = \<lparr>hs_nodes = Map.empty, hs_heads = Map.empty,
     hs_avail = [64, 128, 192, 256, 320, 384, 448, 512, 576, 640, 704, 768, 832, 896], hs_request = 0, hs_verbose = 0\<rparr>"

definition rehash_then_insert :: "(int \<times> hash_get_t) option" where
  "rehash_then_insert = do {
     (hp, s) \<leftarrow> hash_alloc_hr demo_fresh 32 2;
     h \<leftarrow> hp;
     (r1, h1, s1) \<leftarrow> hash_insert_hr h s 0x20000005 100;
     (r2, h2, s2) \<leftarrow> hash_insert_hr h1 s1 0x20000014 200;
     (new, s3) \<leftarrow> hotring_rehash h2 s2;
     (r3, h3, s4) \<leftarrow> hash_insert_hr new s3 0x2000000A 300;
     (ret, np, pv, s5) \<leftarrow> raw_hash_get h3 s4 0x2000000A;
     Some (r3, ret)
   }"

text \<open>
  After a rehash the nodes keep the tags of the smaller table, so that an insertion may put a
  node out of order: in the run below the key \<open>0x2000000A\<close> is inserted into the doubled table,
  \<open>hash_insert\<close> returns success, and a search for it answers that it is not there.
\<close>

theorem hotring_insert_after_rehash_lost:
  "rehash_then_insert = Some (0, GET_NOT_FOUND)"
  by code_simp

text \<open>
  The fields of the packed words are independent: storing an address keeps the counter,
  storing a counter keeps the address, a counter is kept modulo its width (14 bits in a node, 15
  in a head), and the active flag changes neither.
\<close>

theorem packed_fields_roundtrip:
  "pk_addr (set_addr w a) = take_bit 48 a \<and> list_counter (set_addr w a) = list_counter w
   \<and> pk_addr (set_list_counter w c) = pk_addr w \<and> list_counter (set_list_counter w c) = c mod 2 ^ 14
   \<and> pk_addr (set_head_counter w c) = pk_addr w \<and> head_counter (set_head_counter w c) = c mod 2 ^ 15
   \<and> pk_addr (set_head_active w b) = pk_addr w \<and> head_counter (set_head_active w b) = head_counter w"
  by (simp add: take_bit_eq_mod pk_addr_def [of a])

end
