(* ===== verification/HotRing_Bench.thy ===== *)
theory HotRing_Bench
  imports HotRing_Shift Bench_Grid
begin

text \<open>
  The callers of the hot-ring table: the items of \<open>src/hotring/test.c\<close> and the program of
  \<open>src/hotring/benchmark.c\<close>, with the floating-point operations of the table as a parameter.  Messages
  and times are left out.
\<close>

section \<open>test.c\<close>

record item_hr =
  ih_index :: u32
  ih_data :: u32

record hbench =
  hb_hash :: hr_hash
  hb_state :: hr_state
  hb_items :: "u64 \<rightharpoonup> item_hr"
  hb_avail :: "u64 list"

definition item_create_hr :: "hbench \<Rightarrow> u64 \<Rightarrow> u32 \<Rightarrow> (u64 \<times> hbench) option" where
  "item_create_hr b index dat = (case hb_avail b of
     [] \<Rightarrow> None
   | a # as \<Rightarrow> if a = 0 then None
       else Some (a, b\<lparr>hb_avail := as, hb_items := (hb_items b)(a \<mapsto> \<lparr>ih_index = ucast index, ih_data = dat\<rparr>)\<rparr>))"

definition item_free_hr :: "hbench \<Rightarrow> u64 \<Rightarrow> u64 \<Rightarrow> hbench option" where
  "item_free_hr b item index = (if item = 0 then Some b
     else if item \<in> dom (hb_items b) then Some (b\<lparr>hb_items := (hb_items b)(item := None)\<rparr>) else None)"

definition item_insert_hr :: "hbench \<Rightarrow> u64 \<Rightarrow> (int \<times> hbench) option" where
  "item_insert_hr b index = do {
     (item, b1) \<leftarrow> item_create_hr b index 0;
     it \<leftarrow> hb_items b1 item;
     (err, h, s) \<leftarrow> hash_insert_hr (hb_hash b1) (hb_state b1) (scast (ih_index it)) item;
     let b2 = b1\<lparr>hb_hash := h, hb_state := s\<rparr>;
     b3 \<leftarrow> (if err \<noteq> 0 then item_free_hr b2 item index else Some b2);
     Some (err, b3)
   }"

text \<open>The checks do not look into the table; the last one reads a variable that was never set.\<close>

definition item_check_present_hr :: "hbench \<Rightarrow> u64 \<Rightarrow> unit option" where
  "item_check_present_hr b index = Some ()"

definition item_lookup_hr :: "hbench \<Rightarrow> u64 \<Rightarrow> u64" where
  "item_lookup_hr b index = 0"

definition item_check_absent_hr :: "u64 \<Rightarrow> hbench \<Rightarrow> u64 \<Rightarrow> unit option" where
  "item_check_absent_hr unset b index = c_assert (unset = 0)"

section \<open>benchmark.c\<close>

partial_function (option) insert_loop_hr :: "hr_hash \<Rightarrow> hr_state \<Rightarrow> u64 \<Rightarrow> u64 \<Rightarrow> u64 \<Rightarrow> (hr_hash \<times> hr_state) option" where
  "insert_loop_hr h s index sz step = (if index < sz
     then do { (err, h1, s1) \<leftarrow> hash_insert_hr h s index index; insert_loop_hr h1 s1 (index + step) sz step }
     else Some (h, s))"

declare insert_loop_hr.simps [code]

definition benchmark_insert_hr :: "hr_hash \<Rightarrow> hr_state \<Rightarrow> u64 \<Rightarrow> u64 \<Rightarrow> (hr_hash \<times> hr_state) option" where
  "benchmark_insert_hr h s sz step = insert_loop_hr h s 0 sz step"

text \<open>The program: it inserts twelve keys, searches the \<open>i\<close>-th one \<open>i + 1\<close> times, searches one that is absent, and deletes one.\<close>

fun insert_array_hr :: "hr_hash \<Rightarrow> hr_state \<Rightarrow> (u64 \<times> u64) list \<Rightarrow> (hr_hash \<times> hr_state) option" where
  "insert_array_hr h s [] = Some (h, s)"
| "insert_array_hr h s ((index, item) # rest) = do { (err, h1, s1) \<leftarrow> hash_insert_hr h s index item; insert_array_hr h1 s1 rest }"

fun get_times :: "'d double_ops \<Rightarrow> hr_hash \<Rightarrow> hr_state \<Rightarrow> u64 \<Rightarrow> nat \<Rightarrow> (hr_hash \<times> hr_state) option" where
  "get_times D h s key 0 = Some (h, s)"
| "get_times D h s key (Suc n) = do { (r, node, prev, h1, s1) \<leftarrow> hash_get_hr D h s key; get_times D h1 s1 key n }"

fun get_rounds :: "'d double_ops \<Rightarrow> hr_hash \<Rightarrow> hr_state \<Rightarrow> nat \<Rightarrow> u64 list \<Rightarrow> (hr_hash \<times> hr_state) option" where
  "get_rounds D h s i [] = Some (h, s)"
| "get_rounds D h s i (key # keys) = do { (h1, s1) \<leftarrow> get_times D h s key (Suc i); get_rounds D h1 s1 (Suc i) keys }"

definition bench_keys :: "u64 list" where
  "bench_keys = [72, 36, 22, 37, 42, 6, 535822335, 87, 11, 16, 18, 1073741823]"

definition my_benchmark_hr :: "'d double_ops \<Rightarrow> hr_state
    \<Rightarrow> ((u64 \<times> u64 \<times> u64) list list \<times> int \<times> bool \<times> (u64 \<times> u64 \<times> u64) list list) option" where
  "my_benchmark_hr D s = do {
     (hp, s1) \<leftarrow> hash_alloc_hr s NBITS 3;
     h \<leftarrow> hp;
     (h1, s2) \<leftarrow> insert_array_hr h s1 (zip bench_keys bench_keys);
     out1 \<leftarrow> display_hr h1 s2;
     (h2, s3) \<leftarrow> get_rounds D h1 s2 0 bench_keys;
     (r, node, prev, h3, s4) \<leftarrow> hash_get_hr D h2 s3 21;
     (deleted, h4, s5) \<leftarrow> hotring_delete h3 s4 37;
     out2 \<leftarrow> display_hr h4 s5;
     Some (out1, r, deleted, out2)
   }"

definition benchmark_hr :: "'d double_ops \<Rightarrow> hr_state
    \<Rightarrow> ((u64 \<times> u64 \<times> u64) list list \<times> int \<times> bool \<times> (u64 \<times> u64 \<times> u64) list list) option" where
  "benchmark_hr D s = my_benchmark_hr D s"

end
