(* ===== verification/Vfs.thy ===== *)
theory Vfs
  imports Prelude
begin

text \<open>
  What the two file systems of \<open>src/JIFS\<close> use of the kernel.  The objects they write to (inodes,
  directory entries, super blocks, atomic counters) are the memory of the model, with the fields
  that the code touches.  The kernel functions they call are not part of the repository: they are
  the components of two parameter records, \<open>kernel\<close> and \<open>uaccess\<close>, and whatever private state they
  keep is the polymorphic component \<open>v_kern\<close>.  What is relied on is stated by the predicates at the
  end, which paraphrase the kernel's documentation.
\<close>

section \<open>Objects\<close>

type_synonym umode = "16 word"

definition S_IFREG :: umode where [c_consts]: "S_IFREG = 0x8000"
definition S_IFDIR :: umode where [c_consts]: "S_IFDIR = 0x4000"
definition ENOENT :: int where [c_consts]: "ENOENT = 2"
definition ENOMEM_k :: int where [c_consts]: "ENOMEM_k = 12"
definition EFAULT :: int where [c_consts]: "EFAULT = 14"
definition EINVAL :: int where [c_consts]: "EINVAL = 22"
definition ESTALE :: int where [c_consts]: "ESTALE = 116"

text \<open>The operation tables and the static counters are known by their addresses only.\<close>

datatype fops = No_fops | simple_dir_operations | jifs_file_ops | jifs_dir_ops | lfs_file_ops
datatype iops = No_iops | simple_dir_inode_operations | jifs_dir_inode_ops
datatype sops = No_sops | jifs_sops | lfs_s_ops
datatype eops = No_eops | jifs_export_ops
datatype atomic = counter | subcounter

record inode =
  i_mode :: umode
  i_time :: int
  i_fop :: fops
  i_op :: iops
  i_ino :: u64
  i_private :: "atomic option"
  i_size :: int
  i_nlink :: u32
  i_sb :: u64

record dentry =
  d_name :: string
  d_parent :: u64
  d_inode :: u64

record super_block =
  s_fs_info :: u64
  s_magic :: u64
  s_op :: sops
  s_maxbytes :: int
  s_time_gran :: u32
  s_export_op :: eops
  s_xattr :: u64
  s_root :: u64
  s_blocksize :: u64
  s_blocksize_bits :: u64

record 'k vfs =
  v_inodes :: "u64 \<rightharpoonup> inode"
  v_dentries :: "u64 \<rightharpoonup> dentry"
  v_sbs :: "u64 \<rightharpoonup> super_block"
  v_atomics :: "atomic \<Rightarrow> u32"
  v_kern :: 'k

definition upd_inode :: "'k vfs \<Rightarrow> u64 \<Rightarrow> (inode \<Rightarrow> inode) \<Rightarrow> 'k vfs option" where
  "upd_inode s p f = (case v_inodes s p of None \<Rightarrow> None | Some i \<Rightarrow> Some (s\<lparr>v_inodes := (v_inodes s)(p \<mapsto> f i)\<rparr>))"

definition upd_sb :: "'k vfs \<Rightarrow> u64 \<Rightarrow> (super_block \<Rightarrow> super_block) \<Rightarrow> 'k vfs option" where
  "upd_sb s p f = (case v_sbs s p of None \<Rightarrow> None | Some b \<Rightarrow> Some (s\<lparr>v_sbs := (v_sbs s)(p \<mapsto> f b)\<rparr>))"

definition atomic_set :: "'k vfs \<Rightarrow> atomic \<Rightarrow> u32 \<Rightarrow> 'k vfs" where
  "atomic_set s a v = s\<lparr>v_atomics := (v_atomics s)(a := v)\<rparr>"

section \<open>The kernel functions\<close>

record 'k kernel =
  new_inode :: "'k vfs \<Rightarrow> u64 \<Rightarrow> u64 \<times> 'k vfs"
  iget_locked :: "'k vfs \<Rightarrow> u64 \<Rightarrow> u64 \<Rightarrow> u64 \<times> 'k vfs"
  unlock_new_inode :: "'k vfs \<Rightarrow> u64 \<Rightarrow> 'k vfs"
  iput :: "'k vfs \<Rightarrow> u64 \<Rightarrow> 'k vfs"
  inode_init_owner :: "'k vfs \<Rightarrow> u64 \<Rightarrow> umode \<Rightarrow> 'k vfs option"
  current_time :: "'k vfs \<Rightarrow> u64 \<Rightarrow> int"
  get_next_ino :: "'k vfs \<Rightarrow> u32 \<times> 'k vfs"
  d_alloc_name :: "'k vfs \<Rightarrow> u64 \<Rightarrow> string \<Rightarrow> u64 \<times> 'k vfs"
  d_add :: "'k vfs \<Rightarrow> u64 \<Rightarrow> u64 \<Rightarrow> 'k vfs"
  dput :: "'k vfs \<Rightarrow> u64 \<Rightarrow> 'k vfs"
  d_make_root :: "'k vfs \<Rightarrow> u64 \<Rightarrow> u64 \<times> 'k vfs"

record 'u uaccess =
  copy_to_user :: "'u \<Rightarrow> u64 \<Rightarrow> string \<Rightarrow> u64 \<times> 'u"
  copy_from_user :: "'u \<Rightarrow> u64 \<Rightarrow> nat \<Rightarrow> u64 \<times> string"

section \<open>What is relied on\<close>

text \<open>
  Allocation of an inode: NULL and no effect, or a new object that belongs to the super block.
\<close>

definition new_inode_spec :: "'k kernel \<Rightarrow> bool" where
  "new_inode_spec K \<longleftrightarrow> (\<forall>s sb. case new_inode K s sb of (p, s') \<Rightarrow>
     v_dentries s' = v_dentries s \<and> v_sbs s' = v_sbs s \<and> v_atomics s' = v_atomics s
     \<and> (if p = 0 then v_inodes s' = v_inodes s
        else v_inodes s p = None \<and> (\<exists>i. i_sb i = sb \<and> v_inodes s' = (v_inodes s)(p \<mapsto> i))))"

text \<open>
  Allocation of a directory entry: NULL and no effect, or a new entry with no inode.  \<open>d_add\<close> gives an
  entry its inode; \<open>dput\<close> of an entry that was never given one, and to which there is no other
  reference, releases it; \<open>d_make_root\<close> makes the entry of a root inode, or releases the inode.
\<close>

definition dentry_spec :: "'k kernel \<Rightarrow> bool" where
  "dentry_spec K \<longleftrightarrow>
     (\<forall>s dir name. case d_alloc_name K s dir name of (d, s') \<Rightarrow>
        v_inodes s' = v_inodes s \<and> v_sbs s' = v_sbs s \<and> v_atomics s' = v_atomics s
        \<and> (if d = 0 then v_dentries s' = v_dentries s
           else v_dentries s d = None \<and> v_dentries s' = (v_dentries s)(d \<mapsto> \<lparr>d_name = name, d_parent = dir, d_inode = 0\<rparr>)))
   \<and> (\<forall>s d i e. v_dentries s d = Some e \<longrightarrow> (let s' = d_add K s d i in
        v_inodes s' = v_inodes s \<and> v_sbs s' = v_sbs s \<and> v_atomics s' = v_atomics s \<and> v_dentries s' = (v_dentries s)(d \<mapsto> e\<lparr>d_inode := i\<rparr>)))
   \<and> (\<forall>s d e. v_dentries s d = Some e \<and> d_inode e = 0 \<longrightarrow> (let s' = dput K s d in
        v_inodes s' = v_inodes s \<and> v_sbs s' = v_sbs s \<and> v_atomics s' = v_atomics s \<and> v_dentries s' = (v_dentries s)(d := None)))
   \<and> (\<forall>s i. i \<noteq> 0 \<longrightarrow> (case d_make_root K s i of (d, s') \<Rightarrow>
        v_sbs s' = v_sbs s \<and> v_atomics s' = v_atomics s
        \<and> (if d = 0 then v_inodes s' = (v_inodes s)(i := None) \<and> v_dentries s' = v_dentries s
           else v_inodes s' = v_inodes s \<and> v_dentries s d = None
             \<and> v_dentries s' = (v_dentries s)(d \<mapsto> \<lparr>d_name = ''/'', d_parent = d, d_inode = i\<rparr>))))"

text \<open>
  The remaining calls: an inode number has no effect on the objects; \<open>inode_init_owner\<close> sets the mode
  of an inode and faults on NULL.
\<close>

definition inode_spec :: "'k kernel \<Rightarrow> bool" where
  "inode_spec K \<longleftrightarrow>
     (\<forall>s. case get_next_ino K s of (n, s') \<Rightarrow>
        v_inodes s' = v_inodes s \<and> v_dentries s' = v_dentries s \<and> v_sbs s' = v_sbs s \<and> v_atomics s' = v_atomics s)
   \<and> (\<forall>s p mode. case v_inodes s p of
        None \<Rightarrow> inode_init_owner K s p mode = None
      | Some i \<Rightarrow> \<exists>s'. inode_init_owner K s p mode = Some s' \<and> v_inodes s' = (v_inodes s)(p \<mapsto> i\<lparr>i_mode := mode\<rparr>)
           \<and> v_dentries s' = v_dentries s \<and> v_sbs s' = v_sbs s \<and> v_atomics s' = v_atomics s)"

text \<open>What a complete \<open>copy_to_user\<close> has written is what \<open>copy_from_user\<close> reads.\<close>

definition uaccess_spec :: "'u uaccess \<Rightarrow> bool" where
  "uaccess_spec U \<longleftrightarrow> (\<forall>u buf xs. fst (copy_to_user U u buf xs) = 0 \<longrightarrow>
     copy_from_user U (snd (copy_to_user U u buf xs)) buf (length xs) = (0, xs))"

end
