(* ===== verification/JIFS.thy ===== *)
theory JIFS
  imports Vfs
begin

text \<open>
  The file system JIFS: \<open>src/JIFS/super.c\<close>, \<open>file.c\<close>, \<open>dir.c\<close>, \<open>namei.c\<close> and \<open>jifs.h\<close>.  Messages to
  the kernel log are left out, and so are the parts of the files between \<open>#if 0\<close> and \<open>#endif\<close>.
\<close>

section \<open>Decimal text of a counter\<close>

text \<open>\<open>snprintf(tmp, 20, "%d\n", v)\<close>: the text before it is cut to the size of the array.\<close>

definition digit :: "nat \<Rightarrow> char" where "digit d = char_of (48 + d)"

fun dec_digits :: "nat \<Rightarrow> string" where
  "dec_digits n = (if n < 10 then [digit n] else dec_digits (n div 10) @ [digit (n mod 10)])"

declare dec_digits.simps [simp del]

definition print_int :: "int \<Rightarrow> string" where
  "print_int v = (if v < 0 then CHR ''-'' # dec_digits (nat (- v)) else dec_digits (nat v))"

definition line_of :: "u32 \<Rightarrow> string" where "line_of v = print_int (sint v) @ [CHR 0x0A]"

section \<open>file.c\<close>

record file_obj =
  private_data :: "atomic option"

definition jifs_open :: "inode \<Rightarrow> file_obj \<Rightarrow> int \<times> file_obj" where
  "jifs_open i filp = (0, filp\<lparr>private_data := i_private i\<rparr>)"

text \<open>
  A read: the result, the new user memory, the new state and the new \<open>*offset\<close>.  A negative offset
  leads outside \<open>tmp\<close>.
\<close>

definition jifs_read_file ::
  "'u uaccess \<Rightarrow> 'k vfs \<Rightarrow> file_obj \<Rightarrow> 'u \<Rightarrow> u64 \<Rightarrow> u64 \<Rightarrow> int \<Rightarrow> (int \<times> 'u \<times> 'k vfs \<times> int) option" where
  "jifs_read_file U s filp user buf cnt offset = do {
     a \<leftarrow> private_data filp;
     let v0 = v_atomics s a;
     let (v, s1) = (if offset > 0 then (v0 - 1, s) else (v0, atomic_set s a (v_atomics s a + 1)));
     let text = line_of v;
     let tmp = take 19 text @ [CHR 0x00];
     let len = int (length text);
     if offset > len then Some (0, user, s1, offset)
     else if offset < 0 then None
     else do {
       let cnt1 = (if int (unat cnt) > len - offset then len - offset else int (unat cnt));
       let (left, user1) = copy_to_user U user buf (take (nat cnt1) (drop (nat offset) tmp));
       if left \<noteq> 0 then Some (- EFAULT, user1, s1, offset)
       else Some (cnt1, user1, s1, offset + cnt1)
     }
   }"

text \<open>
  A write; \<open>simple_strtol\<close> is the kernel's conversion of a string to a \<open>long\<close>, which \<open>atomic_set\<close>
  cuts to an \<open>int\<close>.  The array holds 20 bytes, zero where nothing was copied.
\<close>

definition c_string :: "string \<Rightarrow> string" where "c_string bs = takeWhile (\<lambda>c. c \<noteq> CHR 0x00) bs"

definition jifs_write_file ::
  "'u uaccess \<Rightarrow> (string \<Rightarrow> u64) \<Rightarrow> 'k vfs \<Rightarrow> file_obj \<Rightarrow> 'u \<Rightarrow> u64 \<Rightarrow> u64 \<Rightarrow> int \<Rightarrow> (int \<times> 'k vfs) option" where
  "jifs_write_file U simple_strtol s filp user buf cnt offset =
     (if offset \<noteq> 0 then Some (- EINVAL, s)
      else if 20 \<le> unat cnt then Some (- EINVAL, s)
      else do {
        let (left, bytes) = copy_from_user U user buf (unat cnt);
        if left \<noteq> 0 then Some (- EFAULT, s)
        else do {
          a \<leftarrow> private_data filp;
          let tmp = take 20 (bytes @ replicate 20 (CHR 0x00));
          Some (int (unat cnt), atomic_set s a (ucast (simple_strtol (c_string tmp))))
        }
      })"

section \<open>dir.c and namei.c\<close>

definition JIFS_MAGIC :: u64 where [c_consts]: "JIFS_MAGIC = 0xbadcab"
definition JIFS_ROOT_INO :: u64 where [c_consts]: "JIFS_ROOT_INO = 0"
definition FILE_INO :: u64 where [c_consts]: "FILE_INO = 1"

text \<open>
  \<open>jifs_readdir\<close> with the function \<open>dir_emit\<close> of the kernel, which keeps its own state and whose
  result the code ignores: the new position and the new state.
\<close>

datatype d_type = DT_DIR | DT_REG

definition jifs_readdir ::
  "('c \<Rightarrow> string \<Rightarrow> nat \<Rightarrow> u64 \<Rightarrow> d_type \<Rightarrow> bool \<times> 'c) \<Rightarrow> 'k vfs \<Rightarrow> u64 \<Rightarrow> int \<Rightarrow> 'c \<Rightarrow> (int \<times> int \<times> 'c) option" where
  "jifs_readdir dir_emit s de pos ctx =
     (if pos > 0 then Some (0, pos, ctx)
      else do {
        e \<leftarrow> v_dentries s de;
        i \<leftarrow> v_inodes s (d_inode e);
        let ctx1 = snd (dir_emit ctx ''.'' 1 (i_ino i) DT_DIR);
        pe \<leftarrow> v_dentries s (d_parent e);
        pin \<leftarrow> v_inodes s (d_inode pe);
        let ctx2 = snd (dir_emit ctx1 ''..'' 2 (i_ino pin) DT_DIR);
        let ctx3 = snd (dir_emit ctx2 ''hello.txt'' 9 FILE_INO DT_REG);
        Some (0, pos + 14, ctx3)
      })"

text \<open>The result is \<open>ERR_PTR\<close> of an error (\<open>Inl\<close>) or NULL (\<open>Inr 0\<close>).\<close>

definition jifs_lookup :: "'k kernel \<Rightarrow> 'k vfs \<Rightarrow> u64 \<Rightarrow> u64 \<Rightarrow> ((int + u64) \<times> 'k vfs) option" where
  "jifs_lookup K s dir dentry = do {
     d \<leftarrow> v_inodes s dir;
     e \<leftarrow> v_dentries s dentry;
     if i_ino d \<noteq> JIFS_ROOT_INO \<or> length ''hello.txt'' \<noteq> length (d_name e) \<or> d_name e \<noteq> ''hello.txt''
     then Some (Inl (- ENOENT), s)
     else do {
       let (file_inode, s1) = iget_locked K s (i_sb d) FILE_INO;
       if file_inode = 0 then Some (Inl (- ENOMEM_k), s1)
       else do {
         s2 \<leftarrow> upd_inode s1 file_inode (\<lambda>i. i\<lparr>i_size := 0\<rparr>);
         s3 \<leftarrow> upd_inode s2 file_inode (\<lambda>i. i\<lparr>i_mode := S_IFREG OR 0x1A4\<rparr>);
         s4 \<leftarrow> upd_inode s3 file_inode (\<lambda>i. i\<lparr>i_fop := jifs_file_ops\<rparr>);
         Some (Inr 0, d_add K s4 dentry file_inode)
       }
     }
   }"

section \<open>super.c: inodes and files\<close>

text \<open>The largest file size; the kernel's own limit is a parameter.\<close>

definition jifs_max_size :: "int \<Rightarrow> int \<Rightarrow> int" where
  "jifs_max_size MAX_LFS_FILESIZE bits =
     (let res = 2 ^ 63 - 1 in if res > MAX_LFS_FILESIZE then MAX_LFS_FILESIZE else res)"

definition jifs_make_inode :: "'k kernel \<Rightarrow> 'k vfs \<Rightarrow> u64 \<Rightarrow> umode \<Rightarrow> fops \<Rightarrow> (u64 \<times> 'k vfs) option" where
  "jifs_make_inode K s sb mode fop = do {
     let (inode, s1) = new_inode K s sb;
     if inode = 0 then Some (0, s1)
     else do {
       s2 \<leftarrow> upd_inode s1 inode (\<lambda>i. i\<lparr>i_mode := mode\<rparr>);
       s3 \<leftarrow> upd_inode s2 inode (\<lambda>i. i\<lparr>i_time := current_time K s2 inode\<rparr>);
       s4 \<leftarrow> upd_inode s3 inode (\<lambda>i. i\<lparr>i_fop := fop\<rparr>);
       let (n, s5) = get_next_ino K s4;
       s6 \<leftarrow> upd_inode s5 inode (\<lambda>i. i\<lparr>i_ino := ucast n\<rparr>);
       Some (inode, s6)
     }
   }"

definition jifs_create_file :: "'k kernel \<Rightarrow> 'k vfs \<Rightarrow> u64 \<Rightarrow> u64 \<Rightarrow> string \<Rightarrow> atomic \<Rightarrow> (u64 \<times> 'k vfs) option" where
  "jifs_create_file K s sb dir name cnt = do {
     let (dentry, s1) = d_alloc_name K s dir name;
     if dentry = 0 then Some (0, s1)
     else do {
       (inode, s2) \<leftarrow> jifs_make_inode K s1 sb (S_IFREG OR 0x1A4) jifs_file_ops;
       if inode = 0 then Some (0, dput K s2 dentry)
       else do {
         s3 \<leftarrow> upd_inode s2 inode (\<lambda>i. i\<lparr>i_private := Some cnt\<rparr>);
         Some (dentry, d_add K s3 dentry inode)
       }
     }
   }"

definition jifs_create_dir :: "'k kernel \<Rightarrow> 'k vfs \<Rightarrow> u64 \<Rightarrow> u64 \<Rightarrow> string \<Rightarrow> (u64 \<times> 'k vfs) option" where
  "jifs_create_dir K s sb parent name = do {
     let (dentry, s1) = d_alloc_name K s parent name;
     if dentry = 0 then Some (0, s1)
     else do {
       (inode, s2) \<leftarrow> jifs_make_inode K s1 sb (S_IFDIR OR 0x1ED) simple_dir_operations;
       if inode = 0 then Some (0, dput K s2 dentry)
       else do {
         s3 \<leftarrow> upd_inode s2 inode (\<lambda>i. i\<lparr>i_op := simple_dir_inode_operations\<rparr>);
         Some (dentry, d_add K s3 dentry inode)
       }
     }
   }"

definition jifs_create_files :: "'k kernel \<Rightarrow> 'k vfs \<Rightarrow> u64 \<Rightarrow> u64 \<Rightarrow> 'k vfs option" where
  "jifs_create_files K s sb root = do {
     let s1 = atomic_set s counter 0;
     (d1, s2) \<leftarrow> jifs_create_file K s1 sb root ''counter'' counter;
     let s3 = atomic_set s2 subcounter 0;
     (subdir, s4) \<leftarrow> jifs_create_dir K s3 sb root ''subdir'';
     if subdir \<noteq> 0 then do {
       (d2, s5) \<leftarrow> jifs_create_file K s4 sb subdir ''subcounter'' subcounter;
       Some s5
     }
     else Some s4
   }"

section \<open>super.c: inodes by number\<close>

text \<open>\<open>iget_locked\<close> may return NULL, which the code does not test.\<close>

definition jifs_iget :: "'k kernel \<Rightarrow> 'k vfs \<Rightarrow> u64 \<Rightarrow> u64 \<Rightarrow> ((int + u64) \<times> 'k vfs) option" where
  "jifs_iget K s sb ino = do {
     let (inode, s1) = iget_locked K s sb ino;
     s2 \<leftarrow> upd_inode s1 inode (\<lambda>i. i\<lparr>i_ino := ino\<rparr>);
     Some (Inr inode, unlock_new_inode K s2 inode)
   }"

definition jifs_nfs_get_inode :: "'k kernel \<Rightarrow> 'k vfs \<Rightarrow> u64 \<Rightarrow> u64 \<Rightarrow> u32 \<Rightarrow> ((int + u64) \<times> 'k vfs) option" where
  "jifs_nfs_get_inode K s sb ino generation =
     (if ino < JIFS_ROOT_INO then Some (Inl (- ESTALE), s)
      else if ino < 0x7FFFFFFFFFFFFFFF then Some (Inl (- ESTALE), s)
      else do {
        (inode, s1) \<leftarrow> jifs_iget K s sb ino;
        case inode of Inl e \<Rightarrow> Some (Inl e, s1) | Inr p \<Rightarrow> Some (Inr p, s1)
      })"

definition jifs_find_dentry :: "'k vfs \<Rightarrow> u64 \<Rightarrow> u64 \<Rightarrow> string \<Rightarrow> u64 \<Rightarrow> u64" where
  "jifs_find_dentry s pi inode name name_len = 0"

end
