(* ===== verification/JIFS_Super.thy ===== *)
theory JIFS_Super
  imports JIFS
begin

text \<open>
  Mounting JIFS: the option parser, \<open>jifs_fill_super\<close> and what undoes it, from \<open>src/JIFS/super.c\<close>.
\<close>

section \<open>State and environment\<close>

record jifs_mount_opts =
  mo_mode :: umode

record jifs_sb_info =
  si_sb :: u64
  si_mount_opts :: jifs_mount_opts
  si_next_generation :: u32
  si_mode :: umode
  si_uid :: u32
  si_gid :: u32

record 'k jifs =
  js_vfs :: "'k vfs"
  js_sbis :: "u64 \<rightharpoonup> jifs_sb_info"
  js_dbgmask :: u32

datatype opt_token = Opt_mode | Opt_err | Opt_dbgmask

definition tokens :: "(opt_token \<times> string option) list" where
  "tokens = [(Opt_mode, Some ''mode=%o''), (Opt_dbgmask, Some ''dbgmask=%u''), (Opt_err, None)]"

text \<open>
  Kernel functions besides those of \<^typ>\<open>'k kernel\<close>.  \<open>match_token\<close> gives the token of the first
  pattern that matches and the text of its argument; \<open>match_octal\<close> and \<open>match_int\<close> give no value where
  they report an error; the random number and the credentials are those of the mount.
\<close>

record 'k jifs_env =
  kzalloc :: "'k \<Rightarrow> u64 \<times> 'k"
  match_token :: "string \<Rightarrow> (opt_token \<times> string option) list \<Rightarrow> opt_token \<times> string"
  match_octal :: "string \<Rightarrow> int option"
  match_int :: "string \<Rightarrow> int option"
  random_u32 :: u32
  current_fsuid :: u32
  current_fsgid :: u32
  MAX_LFS_FILESIZE :: int

section \<open>Options\<close>

text \<open>\<open>strsep(&data, ",")\<close>: the next piece (or NULL) and what \<open>data\<close> points to afterwards.\<close>

definition strsep :: "string option \<Rightarrow> string option \<times> string option" where
  "strsep data = (case data of
     None \<Rightarrow> (None, None)
   | Some s \<Rightarrow> (case dropWhile (\<lambda>c. c \<noteq> CHR '','') s of
        [] \<Rightarrow> (Some s, None)
      | c # rest \<Rightarrow> (Some (takeWhile (\<lambda>c. c \<noteq> CHR '','') s), Some rest)))"

definition S_IALLUGO :: umode where [c_consts]: "S_IALLUGO = 0xFFF"

text \<open>One option: \<open>Inl\<close> is the early return, \<open>Inr\<close> the new options and debug mask.\<close>

definition parse_option :: "'k jifs_env \<Rightarrow> string \<Rightarrow> umode \<times> u32 \<Rightarrow> (int \<times> umode \<times> u32) + (umode \<times> u32)" where
  "parse_option E p = (\<lambda>(mode, dbg). case match_token E p tokens of (token, arg) \<Rightarrow>
     (case token of
        Opt_mode \<Rightarrow> (case match_octal E arg of None \<Rightarrow> Inl (- EINVAL, mode, dbg) | Some option \<Rightarrow> Inr (word_of_int option AND S_IALLUGO, dbg))
      | Opt_dbgmask \<Rightarrow> (case match_int E arg of None \<Rightarrow> Inl (- EINVAL, mode, dbg) | Some option \<Rightarrow> Inr (mode, word_of_int option))
      | Opt_err \<Rightarrow> Inr (mode, dbg)))"

lemma strsep_shorter:
  "strsep data = (Some p, rest) \<Longrightarrow>
     (case rest of None \<Rightarrow> 0 | Some s \<Rightarrow> Suc (length s)) < (case data of None \<Rightarrow> 0 | Some s \<Rightarrow> Suc (length s))"
  using length_dropWhile_le [of "\<lambda>c. c \<noteq> CHR '',''"]
  by (auto simp: strsep_def split: option.splits list.splits) (metis Suc_le_lessD length_Cons)

function parse_loop :: "'k jifs_env \<Rightarrow> string option \<Rightarrow> umode \<times> u32 \<Rightarrow> int \<times> umode \<times> u32" where
  "parse_loop E data st = (case strsep data of
     (None, rest) \<Rightarrow> (0, st)
   | (Some p, rest) \<Rightarrow>
       if p = [] then parse_loop E rest st
       else (case parse_option E p st of Inl r \<Rightarrow> r | Inr st1 \<Rightarrow> parse_loop E rest st1))"
  by pat_completeness auto
termination
  by (relation "measure (\<lambda>(E, data, st). case data of None \<Rightarrow> 0 | Some s \<Rightarrow> Suc (length s))")
     (auto dest: strsep_shorter [OF sym])

declare parse_loop.simps [simp del]

text \<open>The result, the options and the debug mask, a global variable of the module.\<close>

definition jifs_parse_options :: "'k jifs_env \<Rightarrow> string option \<Rightarrow> u32 \<Rightarrow> int \<times> umode \<times> u32" where
  "jifs_parse_options E data dbgmask = parse_loop E data (0x1ED, dbgmask)"

text \<open>
  \<open>get_phys_addr\<close>, with \<open>simple_strtoull\<close> of the kernel (base 0) giving the number and the rest of the
  string: the address and the string that \<open>*data\<close> points to afterwards.
\<close>

definition PAGE_SIZE :: u64 where [c_consts]: "PAGE_SIZE = 4096"
definition ULLONG_MAX :: u64 where [c_consts]: "ULLONG_MAX = 0xFFFFFFFFFFFFFFFF"

definition get_phys_addr :: "(string \<Rightarrow> u64 \<times> string) \<Rightarrow> string option \<Rightarrow> u64 \<times> string option" where
  "get_phys_addr simple_strtoull data = (case data of
     None \<Rightarrow> (ULLONG_MAX, data)
   | Some options \<Rightarrow>
       if take 9 options \<noteq> ''physaddr='' then (ULLONG_MAX, data)
       else (case simple_strtoull (drop 9 options) of (phys_addr, options1) \<Rightarrow>
         if options1 \<noteq> [] \<and> hd options1 \<noteq> CHR '','' then (ULLONG_MAX, data)
         else if phys_addr AND (PAGE_SIZE - 1) \<noteq> 0 then (ULLONG_MAX, data)
         else (phys_addr, Some (if options1 \<noteq> [] \<and> hd options1 = CHR '','' then tl options1 else options1))))"

section \<open>Mounting\<close>

definition upd_sbi :: "'k jifs \<Rightarrow> u64 \<Rightarrow> (jifs_sb_info \<Rightarrow> jifs_sb_info) \<Rightarrow> 'k jifs option" where
  "upd_sbi s p f = (case js_sbis s p of None \<Rightarrow> None | Some i \<Rightarrow> Some (s\<lparr>js_sbis := (js_sbis s)(p \<mapsto> f i)\<rparr>))"

definition kzalloc_sbi :: "'k jifs_env \<Rightarrow> 'k jifs \<Rightarrow> u64 \<times> 'k jifs" where
  "kzalloc_sbi E s = (case kzalloc E (v_kern (js_vfs s)) of (p, k1) \<Rightarrow>
     let s1 = s\<lparr>js_vfs := (js_vfs s)\<lparr>v_kern := k1\<rparr>\<rparr> in
     if p = 0 then (0, s1)
     else (p, s1\<lparr>js_sbis := (js_sbis s1)(p \<mapsto> \<lparr>si_sb = 0, si_mount_opts = \<lparr>mo_mode = 0\<rparr>, si_next_generation = 0, si_mode = 0, si_uid = 0, si_gid = 0\<rparr>)\<rparr>))"

text \<open>From the label \<open>setup_sb\<close>: the super block, the root inode and its entry, the files.\<close>

definition setup_sb :: "'k kernel \<Rightarrow> 'k jifs_env \<Rightarrow> 'k vfs \<Rightarrow> u64 \<Rightarrow> (int \<times> 'k vfs) option" where
  "setup_sb K E v sb = do {
     v1 \<leftarrow> upd_sb v sb (\<lambda>b. b\<lparr>s_magic := JIFS_MAGIC, s_op := jifs_sops,
            s_maxbytes := jifs_max_size (MAX_LFS_FILESIZE E) (uint (s_blocksize_bits b)), s_time_gran := 1, s_export_op := jifs_export_ops, s_xattr := 0\<rparr>);
     (root_i, v2) \<leftarrow> jifs_make_inode K v1 sb (S_IFDIR OR 0x1ED) simple_dir_operations;
     if root_i = 0 then Some (- ENOMEM_k, v2)
     else do {
       v3 \<leftarrow> inode_init_owner K v2 root_i S_IFDIR;
       v4 \<leftarrow> upd_inode v3 root_i (\<lambda>i. i\<lparr>i_sb := sb, i_op := simple_dir_inode_operations, i_nlink := 2\<rparr>);
       let (root, v5) = d_make_root K v4 root_i;
       v6 \<leftarrow> upd_sb v5 sb (\<lambda>b. b\<lparr>s_root := root\<rparr>);
       if root = 0 then Some (- ENOMEM_k, v6)
       else do { v7 \<leftarrow> jifs_create_files K v6 sb root; Some (0, v7) }
     }
   }"

definition jifs_fill_super :: "'k kernel \<Rightarrow> 'k jifs_env \<Rightarrow> 'k jifs \<Rightarrow> u64 \<Rightarrow> string option \<Rightarrow> (int \<times> 'k jifs) option" where
  "jifs_fill_super K E s sb data = do {
     let (sbi, s1) = kzalloc_sbi E s;
     if sbi = 0 then Some (- ENOMEM_k, s1)
     else do {
       v1 \<leftarrow> upd_sb (js_vfs s1) sb (\<lambda>b. b\<lparr>s_fs_info := sbi\<rparr>);
       s2 \<leftarrow> upd_sbi (s1\<lparr>js_vfs := v1\<rparr>) sbi (\<lambda>i. i\<lparr>si_sb := sb\<rparr>);
       let (err, mode, dbg) = jifs_parse_options E data (js_dbgmask s2);
       s3 \<leftarrow> upd_sbi (s2\<lparr>js_dbgmask := dbg\<rparr>) sbi (\<lambda>i. i\<lparr>si_mount_opts := \<lparr>mo_mode = mode\<rparr>\<rparr>);
       if err \<noteq> 0 then Some (- ENOMEM_k, s3)
       else do {
         s4 \<leftarrow> upd_sbi s3 sbi (\<lambda>i. i\<lparr>si_next_generation := random_u32 E, si_mode := 0x1ED,
                 si_uid := current_fsuid E, si_gid := current_fsgid E\<rparr>);
         (ret, v2) \<leftarrow> setup_sb K E (js_vfs s4) sb;
         Some (ret, s4\<lparr>js_vfs := v2\<rparr>)
       }
     }
   }"

text \<open>At unmount time; \<open>kfree\<close> accepts NULL.\<close>

definition jifs_put_super :: "'k jifs \<Rightarrow> u64 \<Rightarrow> 'k jifs option" where
  "jifs_put_super s sb = do {
     b \<leftarrow> v_sbs (js_vfs s) sb;
     let sbi = s_fs_info b;
     let s1 = s\<lparr>js_dbgmask := 0\<rparr>;
     s2 \<leftarrow> (if sbi = 0 then Some s1
            else if sbi \<in> dom (js_sbis s1) then Some (s1\<lparr>js_sbis := (js_sbis s1)(sbi := None)\<rparr>) else None);
     v1 \<leftarrow> upd_sb (js_vfs s2) sb (\<lambda>b. b\<lparr>s_fs_info := 0\<rparr>);
     Some (s2\<lparr>js_vfs := v1\<rparr>)
   }"

section \<open>The module\<close>

text \<open>
  The entry points that hand a function of the file system to one of the kernel: \<open>mount_bdev\<close> calls
  \<open>jifs_fill_super\<close> on the super block it has made, \<open>generic_fh_to_dentry\<close> and \<open>generic_fh_to_parent\<close> call
  \<open>jifs_nfs_get_inode\<close> on the number in a file handle, and \<open>call_rcu\<close> calls \<open>jifs_i_callback\<close> later, in
  which the object around the inode goes back to the cache.
\<close>

definition jifs_mount :: "(u64 \<Rightarrow> string \<Rightarrow> string option \<Rightarrow> ('k jifs \<Rightarrow> u64 \<Rightarrow> string option \<Rightarrow> (int \<times> 'k jifs) option) \<Rightarrow> 'k jifs \<Rightarrow> ((int + u64) \<times> 'k jifs) option)
    \<Rightarrow> 'k kernel \<Rightarrow> 'k jifs_env \<Rightarrow> 'k jifs \<Rightarrow> u64 \<Rightarrow> string \<Rightarrow> string option \<Rightarrow> ((int + u64) \<times> 'k jifs) option" where
  "jifs_mount mount_bdev K E s flags dev_name data = mount_bdev flags dev_name data (jifs_fill_super K E) s"

definition jifs_fh_to_dentry :: "('k vfs \<Rightarrow> u64 \<Rightarrow> 'f \<Rightarrow> int \<Rightarrow> int \<Rightarrow> ('k vfs \<Rightarrow> u64 \<Rightarrow> u64 \<Rightarrow> u32 \<Rightarrow> ((int + u64) \<times> 'k vfs) option) \<Rightarrow> ((int + u64) \<times> 'k vfs) option)
    \<Rightarrow> 'k kernel \<Rightarrow> 'k vfs \<Rightarrow> u64 \<Rightarrow> 'f \<Rightarrow> int \<Rightarrow> int \<Rightarrow> ((int + u64) \<times> 'k vfs) option" where
  "jifs_fh_to_dentry generic_fh_to_dentry K s sb fid fh_len fh_type = generic_fh_to_dentry s sb fid fh_len fh_type (jifs_nfs_get_inode K)"

definition jifs_fh_to_parent :: "('k vfs \<Rightarrow> u64 \<Rightarrow> 'f \<Rightarrow> int \<Rightarrow> int \<Rightarrow> ('k vfs \<Rightarrow> u64 \<Rightarrow> u64 \<Rightarrow> u32 \<Rightarrow> ((int + u64) \<times> 'k vfs) option) \<Rightarrow> ((int + u64) \<times> 'k vfs) option)
    \<Rightarrow> 'k kernel \<Rightarrow> 'k vfs \<Rightarrow> u64 \<Rightarrow> 'f \<Rightarrow> int \<Rightarrow> int \<Rightarrow> ((int + u64) \<times> 'k vfs) option" where
  "jifs_fh_to_parent generic_fh_to_parent K s sb fid fh_len fh_type = generic_fh_to_parent s sb fid fh_len fh_type (jifs_nfs_get_inode K)"

definition jifs_i_callback :: "('k \<Rightarrow> u64 \<Rightarrow> u64 \<Rightarrow> 'k) \<Rightarrow> (u64 \<Rightarrow> u64) \<Rightarrow> u64 \<Rightarrow> u64 \<Rightarrow> 'k \<Rightarrow> 'k" where
  "jifs_i_callback kmem_cache_free JIFS_I cachep inode k = kmem_cache_free k cachep (JIFS_I inode)"

definition jifs_destroy_inode :: "(u64 \<Rightarrow> (u64 \<Rightarrow> 'k \<Rightarrow> 'k) \<Rightarrow> 'k \<Rightarrow> 'k) \<Rightarrow> ('k \<Rightarrow> u64 \<Rightarrow> u64 \<Rightarrow> 'k) \<Rightarrow> (u64 \<Rightarrow> u64) \<Rightarrow> u64 \<Rightarrow> u64 \<Rightarrow> 'k \<Rightarrow> 'k" where
  "jifs_destroy_inode call_rcu kmem_cache_free JIFS_I cachep inode k = call_rcu inode (jifs_i_callback kmem_cache_free JIFS_I cachep) k"

text \<open>
  The inode cache and the registration, over a state of the kernel; \<open>jifs_inode_cachep\<close> is a global
  variable of the module, zero until \<open>init_inodecache\<close> has run.
\<close>

definition init_once :: "('k \<Rightarrow> u64 \<Rightarrow> 'k) \<Rightarrow> (u64 \<Rightarrow> u64) \<Rightarrow> u64 \<Rightarrow> 'k \<Rightarrow> 'k" where
  "init_once inode_init_once vfs_inode foo k = inode_init_once k (vfs_inode foo)"

definition init_inodecache :: "('k \<Rightarrow> u64 \<times> 'k) \<Rightarrow> 'k \<Rightarrow> int \<times> u64 \<times> 'k" where
  "init_inodecache kmem_cache_create k = (case kmem_cache_create k of (cachep, k1) \<Rightarrow>
     if cachep = 0 then (- ENOMEM_k, cachep, k1) else (0, cachep, k1))"

definition destroy_inodecache :: "('k \<Rightarrow> 'k) \<Rightarrow> ('k \<Rightarrow> u64 \<Rightarrow> 'k) \<Rightarrow> u64 \<Rightarrow> 'k \<Rightarrow> 'k" where
  "destroy_inodecache rcu_barrier kmem_cache_destroy cachep k = kmem_cache_destroy (rcu_barrier k) cachep"

definition init_jifs :: "('k \<Rightarrow> int \<times> 'k) \<Rightarrow> ('k \<Rightarrow> 'k) \<Rightarrow> ('k \<Rightarrow> u64 \<Rightarrow> 'k) \<Rightarrow> u64 \<Rightarrow> 'k \<Rightarrow> int \<times> 'k" where
  "init_jifs register_filesystem rcu_barrier kmem_cache_destroy cachep k = (case register_filesystem k of (err, k1) \<Rightarrow>
     if err \<noteq> 0 then (err, destroy_inodecache rcu_barrier kmem_cache_destroy cachep k1) else (0, k1))"

definition exit_jifs :: "('k \<Rightarrow> int \<times> 'k) \<Rightarrow> 'k \<Rightarrow> 'k" where
  "exit_jifs unregister_filesystem k = snd (unregister_filesystem k)"

end
