(* ===== verification/Lwnfs.thy ===== *)
theory Lwnfs
  imports JIFS
begin

text \<open>
  The file system \<open>src/JIFS/lwnfs/lwnfs.c\<close>, on which JIFS was modelled.  Its counters are static
  variables of its own module; they are named as in JIFS and live in the state of this file system.
\<close>

definition TMPSIZE :: nat where [c_consts]: "TMPSIZE = 20"
definition LFS_MAGIC :: u64 where [c_consts]: "LFS_MAGIC = 0x19920342"

section \<open>Inodes and files\<close>

definition lfs_make_inode :: "'k kernel \<Rightarrow> 'k vfs \<Rightarrow> u64 \<Rightarrow> umode \<Rightarrow> fops \<Rightarrow> (u64 \<times> 'k vfs) option" where
  "lfs_make_inode K s sb mode fop = do {
     let (inode, s1) = new_inode K s sb;
     if inode = 0 then Some (0, s1)
     else do {
       s2 \<leftarrow> upd_inode s1 inode (\<lambda>i. i\<lparr>i_mode := mode\<rparr>);
       s3 \<leftarrow> upd_inode s2 inode (\<lambda>i. i\<lparr>i_time := current_time K s2 inode\<rparr>);
       s4 \<leftarrow> upd_inode s3 inode (\<lambda>i. i\<lparr>i_fop := fop\<rparr>);
       let (n, s5) = get_next_ino K s4;
       s6 \<leftarrow> upd_inode s5 inode (\<lambda>i. i\<lparr>i_ino := ucast n\<rparr>);
       Some (inode, s6)
     }
   }"

definition lfs_open :: "inode \<Rightarrow> file_obj \<Rightarrow> int \<times> file_obj" where
  "lfs_open i filp = (0, filp\<lparr>private_data := i_private i\<rparr>)"

definition lfs_read_file ::
  "'u uaccess \<Rightarrow> 'k vfs \<Rightarrow> file_obj \<Rightarrow> 'u \<Rightarrow> u64 \<Rightarrow> u64 \<Rightarrow> int \<Rightarrow> (int \<times> 'u \<times> 'k vfs \<times> int) option" where
  "lfs_read_file U s filp user buf cnt offset = do {
     a \<leftarrow> private_data filp;
     let v0 = v_atomics s a;
     let (v, s1) = (if offset > 0 then (v0 - 1, s) else (v0, atomic_set s a (v_atomics s a + 1)));
     let text = line_of v;
     let tmp = take (TMPSIZE - 1) text @ [CHR 0x00];
     let len = int (length text);
     if offset > len then Some (0, user, s1, offset)
     else if offset < 0 then None
     else do {
       let cnt1 = (if int (unat cnt) > len - offset then len - offset else int (unat cnt));
       let (left, user1) = copy_to_user U user buf (take (nat cnt1) (drop (nat offset) tmp));
       if left \<noteq> 0 then Some (- EFAULT, user1, s1, offset)
       else Some (cnt1, user1, s1, offset + cnt1)
     }
   }"

definition lfs_write_file ::
  "'u uaccess \<Rightarrow> (string \<Rightarrow> u64) \<Rightarrow> 'k vfs \<Rightarrow> file_obj \<Rightarrow> 'u \<Rightarrow> u64 \<Rightarrow> u64 \<Rightarrow> int \<Rightarrow> (int \<times> 'k vfs) option" where
  "lfs_write_file U simple_strtol s filp user buf cnt offset =
     (if offset \<noteq> 0 then Some (- EINVAL, s)
      else if TMPSIZE \<le> unat cnt then Some (- EINVAL, s)
      else do {
        let (left, bytes) = copy_from_user U user buf (unat cnt);
        if left \<noteq> 0 then Some (- EFAULT, s)
        else do {
          a \<leftarrow> private_data filp;
          let tmp = take TMPSIZE (bytes @ replicate TMPSIZE (CHR 0x00));
          Some (int (unat cnt), atomic_set s a (ucast (simple_strtol (c_string tmp))))
        }
      })"

definition lfs_create_file :: "'k kernel \<Rightarrow> 'k vfs \<Rightarrow> u64 \<Rightarrow> u64 \<Rightarrow> string \<Rightarrow> atomic \<Rightarrow> (u64 \<times> 'k vfs) option" where
  "lfs_create_file K s sb dir name cnt = do {
     let (dentry, s1) = d_alloc_name K s dir name;
     if dentry = 0 then Some (0, s1)
     else do {
       (inode, s2) \<leftarrow> lfs_make_inode K s1 sb (S_IFREG OR 0x1A4) lfs_file_ops;
       if inode = 0 then Some (0, dput K s2 dentry)
       else do {
         s3 \<leftarrow> upd_inode s2 inode (\<lambda>i. i\<lparr>i_private := Some cnt\<rparr>);
         Some (dentry, d_add K s3 dentry inode)
       }
     }
   }"

definition lfs_create_dir :: "'k kernel \<Rightarrow> 'k vfs \<Rightarrow> u64 \<Rightarrow> u64 \<Rightarrow> string \<Rightarrow> (u64 \<times> 'k vfs) option" where
  "lfs_create_dir K s sb parent name = do {
     let (dentry, s1) = d_alloc_name K s parent name;
     if dentry = 0 then Some (0, s1)
     else do {
       (inode, s2) \<leftarrow> lfs_make_inode K s1 sb (S_IFDIR OR 0x1ED) simple_dir_operations;
       if inode = 0 then Some (0, dput K s2 dentry)
       else do {
         s3 \<leftarrow> upd_inode s2 inode (\<lambda>i. i\<lparr>i_op := simple_dir_inode_operations\<rparr>);
         Some (dentry, d_add K s3 dentry inode)
       }
     }
   }"

definition lfs_create_files :: "'k kernel \<Rightarrow> 'k vfs \<Rightarrow> u64 \<Rightarrow> u64 \<Rightarrow> 'k vfs option" where
  "lfs_create_files K s sb root = do {
     let s1 = atomic_set s counter 0;
     (d1, s2) \<leftarrow> lfs_create_file K s1 sb root ''counter'' counter;
     let s3 = atomic_set s2 subcounter 0;
     (subdir, s4) \<leftarrow> lfs_create_dir K s3 sb root ''subdir'';
     if subdir \<noteq> 0 then do {
       (d2, s5) \<leftarrow> lfs_create_file K s4 sb subdir ''subcounter'' subcounter;
       Some s5
     }
     else Some s4
   }"

section \<open>Mounting\<close>

text \<open>
  \<open>inode_init_owner\<close> is called before the test whether there is a root inode.  \<open>VMACACHE_SIZE\<close> is a
  constant of the kernel headers.
\<close>

definition lfs_fill_super :: "'k kernel \<Rightarrow> u64 \<Rightarrow> 'k vfs \<Rightarrow> u64 \<Rightarrow> (int \<times> 'k vfs) option" where
  "lfs_fill_super K VMACACHE_SIZE v sb = do {
     v1 \<leftarrow> upd_sb v sb (\<lambda>b. b\<lparr>s_blocksize := VMACACHE_SIZE, s_blocksize_bits := VMACACHE_SIZE, s_magic := LFS_MAGIC, s_op := lfs_s_ops\<rparr>);
     (root, v2) \<leftarrow> lfs_make_inode K v1 sb (S_IFDIR OR 0x1ED) simple_dir_operations;
     v3 \<leftarrow> inode_init_owner K v2 root (S_IFDIR OR 0x1ED);
     if root = 0 then Some (- ENOMEM_k, v3)
     else do {
       v4 \<leftarrow> upd_inode v3 root (\<lambda>i. i\<lparr>i_op := simple_dir_inode_operations, i_nlink := 2\<rparr>);
       let (root_dentry, v5) = d_make_root K v4 root;
       if root_dentry = 0 then Some (- ENOMEM_k, iput K v5 root)
       else do {
         v6 \<leftarrow> lfs_create_files K v5 sb root_dentry;
         v7 \<leftarrow> upd_sb v6 sb (\<lambda>b. b\<lparr>s_root := root_dentry\<rparr>);
         Some (0, v7)
       }
     }
   }"

definition lfs_get_super :: "(u64 \<Rightarrow> 'd \<Rightarrow> ('k vfs \<Rightarrow> u64 \<Rightarrow> (int \<times> 'k vfs) option) \<Rightarrow> 'k vfs \<Rightarrow> ((int + u64) \<times> 'k vfs) option)
    \<Rightarrow> 'k kernel \<Rightarrow> u64 \<Rightarrow> 'k vfs \<Rightarrow> u64 \<Rightarrow> string \<Rightarrow> 'd \<Rightarrow> ((int + u64) \<times> 'k vfs) option" where
  "lfs_get_super mount_nodev K VMACACHE_SIZE v flags devname data = mount_nodev flags data (lfs_fill_super K VMACACHE_SIZE) v"

definition lfs_init :: "('k \<Rightarrow> int \<times> 'k) \<Rightarrow> 'k \<Rightarrow> int \<times> 'k" where
  "lfs_init register_filesystem k = register_filesystem k"

definition lfs_exit :: "('k \<Rightarrow> int \<times> 'k) \<Rightarrow> 'k \<Rightarrow> 'k" where
  "lfs_exit unregister_filesystem k = snd (unregister_filesystem k)"

end
