(* ===== verification/Counter_File.thy ===== *)
theory Counter_File
  imports JIFS Lwnfs
begin

text \<open>
  The files of the two file systems: each holds the decimal text of a counter.  The contract of
  their read and write operations is a locale, with the two consequences a user sees (a file is read
  in pieces; what was read can be written back), and both file systems are instances of it.
\<close>

section \<open>Decimal text\<close>

definition is_digit :: "char \<Rightarrow> bool" where "is_digit c \<longleftrightarrow> 48 \<le> (of_char c :: nat) \<and> (of_char c :: nat) \<le> 57"

definition dec_value :: "string \<Rightarrow> nat" where "dec_value ds = foldl (\<lambda>n c. 10 * n + (of_char c - 48)) 0 ds"

lemma of_char_digit: "d < 10 \<Longrightarrow> (of_char (digit d) :: nat) = 48 + d"
  by (simp add: digit_def)

lemma digit_digits:
  assumes "d < 10"
  shows "is_digit (digit d)" "digit d \<noteq> CHR 0x00"
proof -
  show "is_digit (digit d)" using of_char_digit [OF assms] assms by (simp add: is_digit_def)
  have "(of_char (digit d) :: nat) \<noteq> of_char (CHR 0x00)" using of_char_digit [OF assms] by simp
  then show "digit d \<noteq> CHR 0x00" by (metis)
qed

lemma dec_digits_ok: "dec_digits n \<noteq> [] \<and> dec_value (dec_digits n) = n \<and> (\<forall>c \<in> set (dec_digits n). is_digit c \<and> c \<noteq> CHR 0x00)"
proof (induction n rule: dec_digits.induct)
  case (1 n)
  show ?case
  proof (cases "n < 10")
    case True
    then show ?thesis using digit_digits [of n] of_char_digit [of n] by (subst (1 2 3) dec_digits.simps) (simp add: dec_value_def)
  next
    case False
    with 1 digit_digits [of "n mod 10"] of_char_digit [of "n mod 10"] show ?thesis
      by (subst (1 2 3) dec_digits.simps) (auto simp: dec_value_def)
  qed
qed

lemma dec_digits_length: "n < 10 ^ Suc k \<Longrightarrow> length (dec_digits n) \<le> Suc k"
proof (induction k arbitrary: n)
  case 0
  then show ?case by (subst dec_digits.simps) simp
next
  case (Suc k)
  then have "n div 10 < 10 ^ Suc k" by (simp add: less_mult_imp_div_less)
  with Suc.IH [of "n div 10"] show ?case by (subst dec_digits.simps) simp
qed

lemma sint_u32_bounds: "- (2 ^ 31) \<le> sint (v :: u32)" "sint (v :: u32) < 2 ^ 31"
  using sint_ge [of v] sint_lt [of v] by simp_all

lemma line_of_length: "2 \<le> length (line_of v)" "length (line_of v) \<le> 12"
proof -
  have "length (dec_digits (nat \<bar>sint v\<bar>)) \<le> Suc 9"
    by (rule dec_digits_length) (use sint_u32_bounds [of v] in simp)
  moreover have "0 < length (dec_digits (nat \<bar>sint v\<bar>))" using dec_digits_ok by simp
  ultimately show "2 \<le> length (line_of v)" "length (line_of v) \<le> 12"
    by (auto simp: line_of_def print_int_def Suc_le_eq)
qed

text \<open>
  \<open>simple_strtol(s, NULL, 10)\<close>: an optional minus sign and digits up to the first other character.
\<close>

definition strtol_spec :: "(string \<Rightarrow> u64) \<Rightarrow> bool" where
  "strtol_spec f \<longleftrightarrow> (\<forall>ds rest. ds \<noteq> [] \<and> (\<forall>c \<in> set ds. is_digit c) \<and> (rest \<noteq> [] \<longrightarrow> \<not> is_digit (hd rest)) \<and> dec_value ds < 2 ^ 63 \<longrightarrow>
     f (ds @ rest) = of_nat (dec_value ds) \<and> f (CHR ''-'' # ds @ rest) = - of_nat (dec_value ds))"

lemma strtol_line:
  assumes "strtol_spec f"
  shows "ucast (f (line_of v)) = v" "\<forall>c \<in> set (line_of v). c \<noteq> CHR 0x00"
proof -
  let ?n = "nat \<bar>sint v\<bar>"
  have n: "?n \<le> 2 ^ 31" using sint_u32_bounds [of v] by auto
  have f: "f (dec_digits ?n @ [CHR 0x0A]) = of_nat ?n \<and> f (CHR ''-'' # dec_digits ?n @ [CHR 0x0A]) = - of_nat ?n"
    using assms [unfolded strtol_spec_def, rule_format, of "dec_digits ?n" "[CHR 0x0A]"] dec_digits_ok [of ?n] n
    by (simp add: is_digit_def)
  have "f (line_of v) = word_of_int (sint v)"
  proof (cases "sint v < 0")
    case True
    with f have "f (line_of v) = - of_nat ?n" by (simp add: line_of_def print_int_def)
    also have "\<dots> = word_of_int (- int ?n)" by simp
    finally show ?thesis using True by simp
  next
    case False
    with f have "f (line_of v) = of_nat ?n" by (simp add: line_of_def print_int_def)
    also have "\<dots> = word_of_int (int ?n)" by simp
    finally show ?thesis using False by simp
  qed
  moreover have "ucast (word_of_int (sint v) :: u64) = (word_of_int (sint v) :: u32)" by (rule bit_word_eqI) (simp add: bit_simps)
  ultimately show "ucast (f (line_of v)) = v" by simp
  show "\<forall>c \<in> set (line_of v). c \<noteq> CHR 0x00"
    using dec_digits_ok by (auto simp: line_of_def print_int_def)
qed

section \<open>The contract\<close>

definition copies_ok :: "'u uaccess \<Rightarrow> bool" where
  "copies_ok U \<longleftrightarrow> uaccess_spec U \<and> (\<forall>u buf xs. fst (copy_to_user U u buf xs) = 0)"

text \<open>A user that reads a file piece by piece into one buffer and collects what it finds there.\<close>

type_synonym ('u, 'k) read_fn = "'u uaccess \<Rightarrow> 'k vfs \<Rightarrow> file_obj \<Rightarrow> 'u \<Rightarrow> u64 \<Rightarrow> u64 \<Rightarrow> int \<Rightarrow> (int \<times> 'u \<times> 'k vfs \<times> int) option"
type_synonym ('u, 'k) write_fn = "'u uaccess \<Rightarrow> (string \<Rightarrow> u64) \<Rightarrow> 'k vfs \<Rightarrow> file_obj \<Rightarrow> 'u \<Rightarrow> u64 \<Rightarrow> u64 \<Rightarrow> int \<Rightarrow> (int \<times> 'k vfs) option"

fun read_pieces :: "('u, 'k) read_fn \<Rightarrow> 'u uaccess \<Rightarrow> 'k vfs \<Rightarrow> file_obj \<Rightarrow> 'u \<Rightarrow> u64 \<Rightarrow> int \<Rightarrow> u64 list \<Rightarrow> (string \<times> 'k vfs \<times> int) option" where
  "read_pieces rd U s f u buf off [] = Some ([], s, off)"
| "read_pieces rd U s f u buf off (n # ns) = do {
     (ret, u1, s1, off1) \<leftarrow> rd U s f u buf n off;
     (rest, s2, off2) \<leftarrow> read_pieces rd U s1 f u1 buf off1 ns;
     Some (snd (copy_from_user U u1 buf (nat ret)) @ rest, s2, off2)
   }"

locale counter_file =
  fixes rd :: "('u, 'k) read_fn" and wr :: "('u, 'k) write_fn"
  assumes rd_start: "copies_ok U \<Longrightarrow> private_data f = Some a \<Longrightarrow> xs = take (unat n) (line_of (v_atomics s a)) \<Longrightarrow>
      rd U s f u buf n 0 = Some (int (length xs), snd (copy_to_user U u buf xs), atomic_set s a (v_atomics s a + 1), int (length xs))"
    and rd_later: "copies_ok U \<Longrightarrow> private_data f = Some a \<Longrightarrow> 0 < off \<Longrightarrow> off \<le> length (line_of (v_atomics s a - 1)) \<Longrightarrow>
      xs = take (unat n) (drop off (line_of (v_atomics s a - 1))) \<Longrightarrow>
      rd U s f u buf n (int off) = Some (int (length xs), snd (copy_to_user U u buf xs), s, int (off + length xs))"
    and wr_start: "private_data f = Some a \<Longrightarrow> copy_from_user U u buf (unat n) = (0, xs) \<Longrightarrow> length xs = unat n \<Longrightarrow> unat n < 20 \<Longrightarrow>
      wr U strtol s f u buf n 0 = Some (int (unat n), atomic_set s a (ucast (strtol (c_string xs))))"
begin

lemma copied: "copies_ok U \<Longrightarrow> snd (copy_from_user U (snd (copy_to_user U u buf xs)) buf (length xs)) = xs"
  by (simp add: copies_ok_def uaccess_spec_def)

lemma later_pieces:
  assumes "copies_ok U" "private_data f = Some a" "text = line_of (v_atomics s a - 1)" "0 < off" "off \<le> length text"
  shows "read_pieces rd U s f u buf (int off) ns =
    Some (take (sum_list (map unat ns)) (drop off text), s, int (min (length text) (off + sum_list (map unat ns))))"
  using assms(4,5)
proof (induction ns arbitrary: off u)
  case Nil
  then show ?case by simp
next
  case (Cons n ns)
  let ?xs = "take (unat n) (drop off text)"
  have off: "off + length ?xs \<le> length text" using Cons.prems by simp
  have "rd U s f u buf n (int off) = Some (int (length ?xs), snd (copy_to_user U u buf ?xs), s, int (off + length ?xs))"
    using rd_later [OF assms(1,2) Cons.prems(1)] assms(3) Cons.prems(2) by simp
  moreover have "drop (off + length ?xs) text = drop (unat n) (drop off text)"
    by (simp add: min_def add.commute)
  moreover have "min (length text) (off + length ?xs + k) = min (length text) (off + (unat n + k))" for k by simp
  ultimately show ?case
    using Cons.IH [OF _ off, of "snd (copy_to_user U u buf ?xs)"] Cons.prems(1) copied [OF assms(1)]
    by (simp add: take_add del: length_take length_drop)
qed

lemma all_pieces:
  assumes "copies_ok U" "private_data f = Some a" "n \<noteq> 0"
  shows "read_pieces rd U s f u buf 0 (n # ns) =
    Some (take (sum_list (map unat (n # ns))) (line_of (v_atomics s a)), atomic_set s a (v_atomics s a + 1),
      int (min (length (line_of (v_atomics s a))) (sum_list (map unat (n # ns)))))"
proof -
  let ?t = "line_of (v_atomics s a)" let ?xs = "take (unat n) ?t" let ?s = "atomic_set s a (v_atomics s a + 1)"
  have "0 < unat n" using assms(3) by (simp add: unat_gt_0)
  then have pos: "0 < length ?xs" using line_of_length(1) [of "v_atomics s a"] by auto
  have v: "v_atomics ?s a - 1 = v_atomics s a" by (simp add: atomic_set_def)
  have "drop (length ?xs) ?t = drop (unat n) ?t" by (simp add: min_def)
  moreover have "min (length ?t) (length ?xs + k) = min (length ?t) (unat n + k)" for k by simp
  moreover have "read_pieces rd U ?s f (snd (copy_to_user U u buf ?xs)) buf (int (length ?xs)) ns =
      Some (take (sum_list (map unat ns)) (drop (length ?xs) ?t), ?s, int (min (length ?t) (length ?xs + sum_list (map unat ns))))"
    by (rule later_pieces [OF assms(1,2) _ pos]) (simp_all add: v)
  ultimately show ?thesis
    using rd_start [OF assms(1,2) refl, where n = n and s = s and u = u and buf = buf] copied [OF assms(1)]
    by (simp add: take_add del: length_take)
qed

lemma write_back:
  assumes "copies_ok U" "private_data f = Some a" "strtol_spec strtol" "20 \<le> unat n"
  shows "\<exists>m u1 s1. rd U s f u buf n 0 = Some (m, u1, s1, m) \<and> v_atomics s1 a = v_atomics s a + 1
     \<and> wr U strtol s1 f u1 buf (word_of_int m) 0 = Some (m, atomic_set s a (v_atomics s a))"
proof -
  let ?t = "line_of (v_atomics s a)" let ?u = "snd (copy_to_user U u buf ?t)" let ?s = "atomic_set s a (v_atomics s a + 1)"
  have len: "length ?t \<le> 12" using line_of_length(2) .
  then have t: "take (unat n) ?t = ?t" using assms(4) by simp
  have m: "unat (of_nat (length ?t) :: u64) = length ?t" using len by (simp add: unat_of_nat)
  have c: "c_string ?t = ?t" using strtol_line(2) [OF assms(3)] by (simp add: c_string_def takeWhile_eq_all_conv)
  have "copy_from_user U ?u buf (length ?t) = (0, ?t)" using assms(1) by (simp add: copies_ok_def uaccess_spec_def)
  then have "wr U strtol ?s f ?u buf (of_nat (length ?t)) 0 = Some (int (length ?t), atomic_set ?s a (ucast (strtol (c_string ?t))))"
    using wr_start [OF assms(2), of U ?u buf "of_nat (length ?t)" ?t strtol ?s] m len by simp
  moreover have "atomic_set ?s a (ucast (strtol (c_string ?t))) = atomic_set s a (v_atomics s a)"
    unfolding c strtol_line(1) [OF assms(3)] by (simp add: atomic_set_def)
  ultimately show ?thesis
    using rd_start [OF assms(1,2) t [symmetric], of u buf] by (auto simp: atomic_set_def)
qed

end

section \<open>The two instances\<close>

lemma c_string_append_nul: "c_string (xs @ replicate k (CHR 0x00)) = c_string xs"
  by (induction xs) (simp_all add: c_string_def takeWhile_eq_Nil_iff)

lemma c_string_padded: "length xs < 20 \<Longrightarrow> c_string (take 20 (xs @ replicate 20 (CHR 0x00))) = c_string xs"
  by (simp only: take_append take_replicate c_string_append_nul) simp

text \<open>The two read functions differ in the way the size of the array is written, and so do the write functions.\<close>

lemma lfs_file_same: "lfs_read_file = jifs_read_file" "lfs_write_file = jifs_write_file"
  unfolding lfs_read_file_def jifs_read_file_def lfs_write_file_def jifs_write_file_def TMPSIZE_def by simp_all

lemma tmp_piece: "take k (drop j (take 19 (line_of v) @ [CHR 0x00])) = take k (drop j (line_of v))"
  if "j + k \<le> length (line_of v)"
  using line_of_length(2) [of v] that by simp

lemma jifs_read_piece:
  assumes "copies_ok U" "private_data f = Some a" "0 \<le> off"
    and "(v, s1) = (if off > 0 then (v_atomics s a - 1, s) else (v_atomics s a, atomic_set s a (v_atomics s a + 1)))"
    and "off \<le> int (length (line_of v))" "xs = take (unat n) (drop (nat off) (line_of v))"
  shows "jifs_read_file U s f u buf n off = Some (int (length xs), snd (copy_to_user U u buf xs), s1, off + int (length xs))"
proof -
  let ?k = "if int (unat n) > int (length (line_of v)) - off then int (length (line_of v)) - off else int (unat n)"
  have "int (length xs) = min (int (length (line_of v)) - off) (int (unat n))"
    using assms(3,5,6) by (simp only: length_take length_drop of_nat_min of_nat_diff nat_le_iff int_nat_eq if_True)
  then have k: "?k = int (length xs)" by (simp only: min_def) auto
  have slice: "take (nat (int (length xs))) (drop (nat off) (take 19 (line_of v) @ [CHR 0x00])) = xs"
  proof -
    have "nat off + length xs \<le> length (line_of v)" using assms(3,5,6) by auto
    then have "take (length xs) (drop (nat off) (take 19 (line_of v) @ [CHR 0x00])) = take (length xs) (drop (nat off) (line_of v))" by (rule tmp_piece)
    also have "\<dots> = xs" unfolding assms(6) by (metis length_take take_take min.commute take_all_iff length_drop min.cobounded1 min_def take_all)
    finally show ?thesis by simp
  qed
  obtain u1 where u1: "copy_to_user U u buf xs = (0, u1)"
    using assms(1) unfolding copies_ok_def by (metis prod.collapse)
  have off: "\<not> off > int (length (line_of v))" "\<not> off < 0" using assms(3,5) by simp_all
  show ?thesis
    unfolding jifs_read_file_def assms(2)
    by (simp only: bind.bind_lunit Let_def assms(4) [symmetric] case_prod_conv off if_False k slice u1 snd_conv) simp
qed

lemma jifs_counter_file: "counter_file jifs_read_file jifs_write_file"
proof
  fix U :: "'a uaccess" and f :: file_obj and a xs and n :: u64 and s :: "'b vfs" and u buf
  assume "copies_ok U" "private_data f = Some a" "xs = take (unat n) (line_of (v_atomics s a))"
  then show "jifs_read_file U s f u buf n 0 = Some (int (length xs), snd (copy_to_user U u buf xs), atomic_set s a (v_atomics s a + 1), int (length xs))"
    using jifs_read_piece [of U f a 0 "v_atomics s a" "atomic_set s a (v_atomics s a + 1)" s xs n u buf] by simp
next
  fix U :: "'a uaccess" and f :: file_obj and a off and s :: "'b vfs" and xs and n :: u64 and u buf
  assume "copies_ok U" "private_data f = Some a" "0 < off" "off \<le> length (line_of (v_atomics s a - 1))"
    "xs = take (unat n) (drop off (line_of (v_atomics s a - 1)))"
  then show "jifs_read_file U s f u buf n (int off) = Some (int (length xs), snd (copy_to_user U u buf xs), s, int (off + length xs))"
    using jifs_read_piece [of U f a "int off" "v_atomics s a - 1" s s xs n u buf] by simp
next
  fix f :: file_obj and a and U :: "'a uaccess" and u buf and n :: u64 and xs strtol and s :: "'b vfs"
  assume "private_data f = Some a" "copy_from_user U u buf (unat n) = (0, xs)" "length xs = unat n" "unat n < 20"
  then show "jifs_write_file U strtol s f u buf n 0 = Some (int (unat n), atomic_set s a (ucast (strtol (c_string xs))))"
    using c_string_padded [of xs] by (simp add: jifs_write_file_def)
qed

interpretation jf: counter_file jifs_read_file jifs_write_file
  by (rule jifs_counter_file)

interpretation lf: counter_file lfs_read_file lfs_write_file
  unfolding lfs_file_same by (rule jifs_counter_file)

end
