(* ===== verification/JIFS_Mount.thy ===== *)
theory JIFS_Mount
  imports JIFS_Super Counter_File
begin

text \<open>
  What mounting JIFS does to the memory of the kernel: each creation step either adds one directory
  entry with its inode or leaves everything as it was, and \<open>jifs_fill_super\<close> is a chain of them.
\<close>

section \<open>Contracts of the kernel\<close>

definition kernel_ok :: "'k kernel \<Rightarrow> bool" where
  "kernel_ok K \<longleftrightarrow> new_inode_spec K \<and> dentry_spec K \<and> inode_spec K"

text \<open>Allocation succeeds as long as there are fewer than \<open>N\<close> objects.\<close>

definition objs :: "'k vfs \<Rightarrow> nat" where "objs s = card (dom (v_inodes s)) + card (dom (v_dentries s))"

definition allocs :: "'k kernel \<Rightarrow> nat \<Rightarrow> bool" where
  "allocs K N \<longleftrightarrow> (\<forall>s. objs s < N \<longrightarrow> (\<forall>sb. fst (new_inode K s sb) \<noteq> 0) \<and> (\<forall>dir name. fst (d_alloc_name K s dir name) \<noteq> 0)
     \<and> (\<forall>i. i \<noteq> 0 \<longrightarrow> fst (d_make_root K s i) \<noteq> 0))"

lemma card_dom_upd [simp]: "m p = None \<Longrightarrow> card (insert p (dom m)) = Suc (card (dom m))" for m :: "u64 \<rightharpoonup> 'b"
  by (simp add: domIff)

text \<open>A step that adds the entry \<open>d\<close> with an inode that satisfies \<open>P\<close>, or, where \<open>d\<close> is NULL, nothing.\<close>

definition grown :: "'k vfs \<Rightarrow> 'k vfs \<Rightarrow> u64 \<Rightarrow> string \<Rightarrow> u64 \<Rightarrow> (inode \<Rightarrow> bool) \<Rightarrow> bool" where
  "grown s s' d name dir P \<longleftrightarrow> v_sbs s' = v_sbs s \<and> v_atomics s' = v_atomics s
     \<and> (if d = 0 then v_dentries s' = v_dentries s \<and> v_inodes s' = v_inodes s
        else v_dentries s d = None \<and> (\<exists>p i. p \<noteq> 0 \<and> v_inodes s p = None \<and> P i \<and> v_inodes s' = (v_inodes s)(p \<mapsto> i)
              \<and> v_dentries s' = (v_dentries s)(d \<mapsto> \<lparr>d_name = name, d_parent = dir, d_inode = p\<rparr>)))"

definition file_inode :: "u64 \<Rightarrow> atomic \<Rightarrow> inode \<Rightarrow> bool" where
  "file_inode sb a i \<longleftrightarrow> i_mode i = S_IFREG OR 0x1A4 \<and> i_fop i = jifs_file_ops \<and> i_private i = Some a \<and> i_sb i = sb"

definition dir_inode :: "u64 \<Rightarrow> inode \<Rightarrow> bool" where
  "dir_inode sb i \<longleftrightarrow> i_mode i = S_IFDIR OR 0x1ED \<and> i_fop i = simple_dir_operations \<and> i_op i = simple_dir_inode_operations \<and> i_sb i = sb"

section \<open>Creation steps\<close>

lemma make_inode_ok:
  assumes "kernel_ok K"
  shows "\<exists>p s'. jifs_make_inode K s sb mode fop = Some (p, s') \<and> (allocs K N \<longrightarrow> objs s < N \<longrightarrow> p \<noteq> 0)
     \<and> v_dentries s' = v_dentries s \<and> v_sbs s' = v_sbs s \<and> v_atomics s' = v_atomics s
     \<and> (if p = 0 then v_inodes s' = v_inodes s
        else v_inodes s p = None \<and> (\<exists>i. i_mode i = mode \<and> i_fop i = fop \<and> i_sb i = sb \<and> v_inodes s' = (v_inodes s)(p \<mapsto> i)))"
proof -
  obtain p s1 where n: "new_inode K s sb = (p, s1)" by fastforce
  have sp: "v_dentries s1 = v_dentries s" "v_sbs s1 = v_sbs s" "v_atomics s1 = v_atomics s"
    "if p = 0 then v_inodes s1 = v_inodes s else v_inodes s p = None \<and> (\<exists>i. i_sb i = sb \<and> v_inodes s1 = (v_inodes s)(p \<mapsto> i))"
    using assms [unfolded kernel_ok_def new_inode_spec_def, THEN conjunct1, THEN spec, of s, THEN spec, of sb, unfolded n case_prod_conv] by blast+
  have a: "allocs K N \<longrightarrow> objs s < N \<longrightarrow> p \<noteq> 0" using n unfolding allocs_def by (metis fst_conv)
  show ?thesis
  proof (cases "p = 0")
    case True
    with n sp a show ?thesis by (auto simp: jifs_make_inode_def)
  next
    case False
    then obtain i where i: "i_sb i = sb" "v_inodes s p = None" "v_inodes s1 = (v_inodes s)(p \<mapsto> i)" using sp(4) by auto
    define t where "t = current_time K (s1\<lparr>v_inodes := (v_inodes s1)(p \<mapsto> i\<lparr>i_mode := mode\<rparr>)\<rparr>) p"
    define s4 where "s4 = s1\<lparr>v_inodes := (v_inodes s)(p \<mapsto> i\<lparr>i_mode := mode, i_time := t, i_fop := fop\<rparr>)\<rparr>"
    obtain m s5 where g: "get_next_ino K s4 = (m, s5)" by fastforce
    have s5: "v_inodes s5 = v_inodes s4" "v_dentries s5 = v_dentries s4" "v_sbs s5 = v_sbs s4" "v_atomics s5 = v_atomics s4"
      using assms [unfolded kernel_ok_def inode_spec_def, THEN conjunct2, THEN conjunct2, THEN conjunct1, THEN spec, of s4, unfolded g case_prod_conv] by blast+
    let ?i = "i\<lparr>i_mode := mode, i_time := t, i_fop := fop, i_ino := ucast m\<rparr>"
    have "jifs_make_inode K s sb mode fop = Some (p, s5\<lparr>v_inodes := (v_inodes s)(p \<mapsto> ?i)\<rparr>)"
      using n False i(3) g s5(1) by (simp add: jifs_make_inode_def upd_inode_def t_def s4_def)
    moreover have "\<exists>j. i_mode j = mode \<and> i_fop j = fop \<and> i_sb j = sb \<and> (v_inodes s)(p \<mapsto> ?i) = (v_inodes s)(p \<mapsto> j)"
      by (rule exI [of _ ?i]) (simp add: i(1))
    ultimately show ?thesis using False i(2) sp(1-3) s5 by (simp add: s4_def)
  qed
qed

lemma d_alloc_ok:
  assumes "kernel_ok K" "d_alloc_name K s dir name = (d, s1)"
  shows "v_inodes s1 = v_inodes s" "v_sbs s1 = v_sbs s" "v_atomics s1 = v_atomics s" "allocs K N \<longrightarrow> objs s < N \<longrightarrow> d \<noteq> 0"
    "if d = 0 then v_dentries s1 = v_dentries s
     else v_dentries s d = None \<and> v_dentries s1 = (v_dentries s)(d \<mapsto> \<lparr>d_name = name, d_parent = dir, d_inode = 0\<rparr>)"
  using assms(1) [unfolded kernel_ok_def dentry_spec_def, THEN conjunct2, THEN conjunct1, THEN conjunct1, THEN spec, of s, THEN spec, of dir,
      THEN spec, of name, unfolded assms(2) case_prod_conv] assms(2)
  by (blast, blast, blast, metis allocs_def fst_conv, blast)

lemma d_add_ok:
  assumes "kernel_ok K" "v_dentries s d = Some e"
  shows "v_inodes (d_add K s d i) = v_inodes s" "v_sbs (d_add K s d i) = v_sbs s" "v_atomics (d_add K s d i) = v_atomics s"
    "v_dentries (d_add K s d i) = (v_dentries s)(d \<mapsto> e\<lparr>d_inode := i\<rparr>)"
  using assms unfolding kernel_ok_def dentry_spec_def Let_def by blast+

lemma dput_ok:
  assumes "kernel_ok K" "v_dentries s d = Some e" "d_inode e = 0"
  shows "v_inodes (dput K s d) = v_inodes s" "v_sbs (dput K s d) = v_sbs s" "v_atomics (dput K s d) = v_atomics s"
    "v_dentries (dput K s d) = (v_dentries s)(d := None)"
  using assms unfolding kernel_ok_def dentry_spec_def Let_def by blast+

text \<open>The common shape of \<open>jifs_create_file\<close> and \<open>jifs_create_dir\<close>.\<close>

definition create_entry :: "'k kernel \<Rightarrow> 'k vfs \<Rightarrow> u64 \<Rightarrow> u64 \<Rightarrow> string \<Rightarrow> umode \<Rightarrow> fops \<Rightarrow> (inode \<Rightarrow> inode) \<Rightarrow> (u64 \<times> 'k vfs) option" where
  "create_entry K s sb dir name mode fop f = do {
     let (dentry, s1) = d_alloc_name K s dir name;
     if dentry = 0 then Some (0, s1)
     else do {
       (inode, s2) \<leftarrow> jifs_make_inode K s1 sb mode fop;
       if inode = 0 then Some (0, dput K s2 dentry)
       else do { s3 \<leftarrow> upd_inode s2 inode f; Some (dentry, d_add K s3 dentry inode) }
     }
   }"

lemma create_entry_ok:
  assumes "kernel_ok K" "\<And>i. i_mode i = mode \<Longrightarrow> i_fop i = fop \<Longrightarrow> i_sb i = sb \<Longrightarrow> P (f i)"
  shows "\<exists>d s'. create_entry K s sb dir name mode fop f = Some (d, s') \<and> (allocs K N \<longrightarrow> objs s + 1 < N \<longrightarrow> d \<noteq> 0) \<and> grown s s' d name dir P"
proof -
  obtain d s1 where d: "d_alloc_name K s dir name = (d, s1)" by fastforce
  note sp = d_alloc_ok(1-3) [OF assms(1) d] d_alloc_ok(4) [OF assms(1) d, of N] d_alloc_ok(5) [OF assms(1) d]
  show ?thesis
  proof (cases "d = 0")
    case True
    with d sp show ?thesis by (auto simp: create_entry_def grown_def)
  next
    case False
    obtain p s2 where p: "jifs_make_inode K s1 sb mode fop = Some (p, s2)" "allocs K N \<longrightarrow> objs s1 < N \<longrightarrow> p \<noteq> 0"
      "v_dentries s2 = v_dentries s1" "v_sbs s2 = v_sbs s1" "v_atomics s2 = v_atomics s1"
      "if p = 0 then v_inodes s2 = v_inodes s1
       else v_inodes s1 p = None \<and> (\<exists>i. i_mode i = mode \<and> i_fop i = fop \<and> i_sb i = sb \<and> v_inodes s2 = (v_inodes s1)(p \<mapsto> i))"
      using make_inode_ok [OF assms(1)] by blast
    have e: "v_dentries s2 d = Some \<lparr>d_name = name, d_parent = dir, d_inode = 0\<rparr>" "v_dentries s d = None" using sp(5) False p(3) by simp_all
    have o: "objs s1 = objs s + 1" using sp(1,5) False by (simp add: objs_def)
    show ?thesis
    proof (cases "p = 0")
      case True
      have "(v_dentries s2)(d := None) = v_dentries s" using sp(5) False p(3) by (simp add: fun_eq_iff)
      with True False d p sp dput_ok [OF assms(1) e(1)] show ?thesis
        by (auto simp: create_entry_def grown_def o intro!: exI [of _ "0 :: u64"])
    next
      case p0: False
      then obtain i where i: "P (f i)" "v_inodes s1 p = None" "v_inodes s2 = (v_inodes s1)(p \<mapsto> i)" using p(6) assms(2) by auto
      let ?s = "s2\<lparr>v_inodes := (v_inodes s1)(p \<mapsto> f i)\<rparr>"
      have "create_entry K s sb dir name mode fop f = Some (d, d_add K ?s d p)"
        using False p0 d p(1) i(3) by (simp add: create_entry_def upd_inode_def)
      moreover have "v_dentries ?s d = Some \<lparr>d_name = name, d_parent = dir, d_inode = 0\<rparr>" using e(1) by simp
      note d_add_ok [OF assms(1) this, of p]
      moreover have "v_dentries s2 = (v_dentries s)(d \<mapsto> \<lparr>d_name = name, d_parent = dir, d_inode = 0\<rparr>)" using sp(5) False p(3) by simp
      ultimately show ?thesis using False p0 i e(2) sp p(4,5) unfolding grown_def by auto
    qed
  qed
qed

lemma create_file_ok:
  assumes "kernel_ok K"
  shows "\<exists>d s'. jifs_create_file K s sb dir name a = Some (d, s') \<and> (allocs K N \<longrightarrow> objs s + 1 < N \<longrightarrow> d \<noteq> 0) \<and> grown s s' d name dir (file_inode sb a)"
  using create_entry_ok [OF assms, of "S_IFREG OR 0x1A4" jifs_file_ops sb "file_inode sb a" "i_private_update (\<lambda>_. Some a)"]
  by (simp add: jifs_create_file_def create_entry_def file_inode_def)

lemma create_dir_ok:
  assumes "kernel_ok K"
  shows "\<exists>d s'. jifs_create_dir K s sb dir name = Some (d, s') \<and> (allocs K N \<longrightarrow> objs s + 1 < N \<longrightarrow> d \<noteq> 0) \<and> grown s s' d name dir (dir_inode sb)"
  using create_entry_ok [OF assms, of "S_IFDIR OR 0x1ED" simple_dir_operations sb "dir_inode sb" "i_op_update (\<lambda>_. simple_dir_inode_operations)"]
  by (simp add: jifs_create_dir_def create_entry_def dir_inode_def)

section \<open>Filling the super block\<close>

definition root_inode :: "u64 \<Rightarrow> inode \<Rightarrow> bool" where
  "root_inode sb i \<longleftrightarrow> i_mode i = S_IFDIR \<and> i_fop i = simple_dir_operations \<and> i_op i = simple_dir_inode_operations \<and> i_sb i = sb"

text \<open>The files below a root entry: three steps, of which the last depends on the second.\<close>

definition populated :: "'k vfs \<Rightarrow> 'k vfs \<Rightarrow> u64 \<Rightarrow> u64 \<Rightarrow> u64 \<Rightarrow> u64 \<Rightarrow> u64 \<Rightarrow> bool" where
  "populated s s' sb root d1 d2 d3 \<longleftrightarrow> (\<exists>s2 s4.
     grown (atomic_set s counter 0) s2 d1 ''counter'' root (file_inode sb counter)
     \<and> grown (atomic_set s2 subcounter 0) s4 d2 ''subdir'' root (dir_inode sb)
     \<and> (if d2 = 0 then s' = s4 \<and> d3 = 0 else grown s4 s' d3 ''subcounter'' d2 (file_inode sb subcounter)))"

lemma objs_atomic [simp]: "objs (atomic_set s a v) = objs s"
  by (simp add: objs_def atomic_set_def)

lemma objs_grown: "grown s s' d name dir P \<Longrightarrow> objs s' \<le> objs s + 2"
  by (auto simp: grown_def objs_def split: if_splits)

lemma create_files_ok:
  assumes "kernel_ok K"
  shows "\<exists>s' d1 d2 d3. jifs_create_files K s sb root = Some s' \<and> populated s s' sb root d1 d2 d3
     \<and> (allocs K N \<longrightarrow> objs s + 6 \<le> N \<longrightarrow> d1 \<noteq> 0 \<and> d2 \<noteq> 0 \<and> d3 \<noteq> 0)"
proof -
  obtain d1 s2 where 1: "jifs_create_file K (atomic_set s counter 0) sb root ''counter'' counter = Some (d1, s2)" "allocs K N \<longrightarrow> objs (atomic_set s counter 0) + 1 < N \<longrightarrow> d1 \<noteq> 0"
    "grown (atomic_set s counter 0) s2 d1 ''counter'' root (file_inode sb counter)" using create_file_ok [OF assms] by blast
  obtain d2 s4 where 2: "jifs_create_dir K (atomic_set s2 subcounter 0) sb root ''subdir'' = Some (d2, s4)" "allocs K N \<longrightarrow> objs (atomic_set s2 subcounter 0) + 1 < N \<longrightarrow> d2 \<noteq> 0"
    "grown (atomic_set s2 subcounter 0) s4 d2 ''subdir'' root (dir_inode sb)" using create_dir_ok [OF assms] by blast
  obtain d3 s5 where 3: "jifs_create_file K s4 sb d2 ''subcounter'' subcounter = Some (d3, s5)" "allocs K N \<longrightarrow> objs s4 + 1 < N \<longrightarrow> d3 \<noteq> 0"
    "grown s4 s5 d3 ''subcounter'' d2 (file_inode sb subcounter)" using create_file_ok [OF assms] by blast
  have o: "objs s2 \<le> objs s + 2" "objs s4 \<le> objs s + 4" using objs_grown [OF 1(3)] objs_grown [OF 2(3)] by simp_all
  show ?thesis
  proof (cases "d2 = 0")
    case True
    with 1 2 have "jifs_create_files K s sb root = Some s4" "populated s s4 sb root d1 d2 0" by (auto simp: jifs_create_files_def populated_def)
    with 1(2) 2(2) o True show ?thesis by (intro exI conjI) (assumption+, auto)
  next
    case False
    with 1 2 3 have "jifs_create_files K s sb root = Some s5" "populated s s5 sb root d1 d2 d3" by (auto simp: jifs_create_files_def populated_def)
    with 1(2) 2(2) 3(2) o show ?thesis by (intro exI conjI) (assumption+, auto)
  qed
qed

text \<open>The state with the root entry, from which the files are created.\<close>

definition rooted :: "'k vfs \<Rightarrow> 'k vfs \<Rightarrow> u64 \<Rightarrow> u64 \<Rightarrow> bool" where
  "rooted s s' sb root \<longleftrightarrow> root \<noteq> 0 \<and> v_dentries s root = None \<and> v_atomics s' = v_atomics s
     \<and> (\<exists>b. v_sbs s' sb = Some b \<and> s_root b = root \<and> s_magic b = JIFS_MAGIC \<and> s_op b = jifs_sops)
     \<and> (\<exists>p i. p \<noteq> 0 \<and> v_inodes s p = None \<and> root_inode sb i \<and> v_inodes s' = (v_inodes s)(p \<mapsto> i)
           \<and> v_dentries s' = (v_dentries s)(root \<mapsto> \<lparr>d_name = ''/'', d_parent = root, d_inode = p\<rparr>))"

definition mount_out :: "'k kernel \<Rightarrow> nat \<Rightarrow> 'k vfs \<Rightarrow> u64 \<Rightarrow> int \<Rightarrow> 'k vfs \<Rightarrow> bool" where
  "mount_out K N s sb ret s' \<longleftrightarrow>
     (ret = - ENOMEM_k \<and> \<not> (allocs K N \<and> objs s + 8 \<le> N) \<and> v_dentries s' = v_dentries s \<and> v_inodes s' = v_inodes s)
   \<or> (ret = 0 \<and> (\<exists>s1 root d1 d2 d3. rooted s s1 sb root \<and> populated s1 s' sb root d1 d2 d3
        \<and> (allocs K N \<longrightarrow> objs s + 8 \<le> N \<longrightarrow> d1 \<noteq> 0 \<and> d2 \<noteq> 0 \<and> d3 \<noteq> 0)))"

lemma d_make_root_ok:
  assumes "kernel_ok K" "i \<noteq> 0" "d_make_root K s i = (d, s')"
  shows "v_sbs s' = v_sbs s" "v_atomics s' = v_atomics s" "allocs K N \<longrightarrow> objs s < N \<longrightarrow> d \<noteq> 0"
    "if d = 0 then v_inodes s' = (v_inodes s)(i := None) \<and> v_dentries s' = v_dentries s
     else v_inodes s' = v_inodes s \<and> v_dentries s d = None \<and> v_dentries s' = (v_dentries s)(d \<mapsto> \<lparr>d_name = ''/'', d_parent = d, d_inode = i\<rparr>)"
  using assms(1) [unfolded kernel_ok_def dentry_spec_def, THEN conjunct2, THEN conjunct1, THEN conjunct2, THEN conjunct2, THEN conjunct2,
      THEN spec, of s, THEN spec, of i, THEN mp, OF assms(2), unfolded assms(3) case_prod_conv] assms(2,3)
  by (blast, blast, metis allocs_def fst_conv, blast)

lemma init_owner_ok:
  assumes "kernel_ok K" "v_inodes s p = Some i"
  shows "\<exists>s'. inode_init_owner K s p mode = Some s' \<and> v_inodes s' = (v_inodes s)(p \<mapsto> i\<lparr>i_mode := mode\<rparr>)
     \<and> v_dentries s' = v_dentries s \<and> v_sbs s' = v_sbs s \<and> v_atomics s' = v_atomics s"
  using assms(1) [unfolded kernel_ok_def inode_spec_def, THEN conjunct2, THEN conjunct2, THEN conjunct2,
      THEN spec, of s, THEN spec, of p, THEN spec, of mode, unfolded assms(2) option.case] .

lemma root_inode_ok:
  assumes "kernel_ok K" "v_inodes s p = Some i" "i_fop i = simple_dir_operations"
  obtains s1 s2 i' where "inode_init_owner K s p S_IFDIR = Some s1"
    "upd_inode s1 p (\<lambda>i. i\<lparr>i_sb := sb, i_op := simple_dir_inode_operations, i_nlink := 2\<rparr>) = Some s2" "root_inode sb i'"
    "v_inodes s2 = (v_inodes s)(p \<mapsto> i')" "v_dentries s2 = v_dentries s" "v_sbs s2 = v_sbs s" "v_atomics s2 = v_atomics s"
proof -
  obtain s1 where s1: "inode_init_owner K s p S_IFDIR = Some s1" "v_inodes s1 = (v_inodes s)(p \<mapsto> i\<lparr>i_mode := S_IFDIR\<rparr>)"
    "v_dentries s1 = v_dentries s" "v_sbs s1 = v_sbs s" "v_atomics s1 = v_atomics s"
    using init_owner_ok [OF assms(1,2), of S_IFDIR] by auto
  let ?i = "i\<lparr>i_mode := S_IFDIR, i_sb := sb, i_op := simple_dir_inode_operations, i_nlink := 2\<rparr>"
  have u: "upd_inode s1 p (\<lambda>i. i\<lparr>i_sb := sb, i_op := simple_dir_inode_operations, i_nlink := 2\<rparr>) =
      Some (s1\<lparr>v_inodes := (v_inodes s)(p \<mapsto> ?i)\<rparr>)" using s1(2) by (simp add: upd_inode_def)
  have i: "root_inode sb ?i" using assms(3) by (simp add: root_inode_def)
  show thesis by (rule that [OF s1(1) u i]) (use s1(3-5) in simp_all)
qed

lemma rooted_mount:
  assumes "kernel_ok K" "rooted s s1 sb root" "objs s1 = objs s + 2"
  shows "\<exists>s'. jifs_create_files K s1 sb root = Some s' \<and> mount_out K N s sb 0 s'"
proof -
  from create_files_ok [OF assms(1), of s1 sb root] obtain s' d1 d2 d3 where
    c: "jifs_create_files K s1 sb root = Some s'" "populated s1 s' sb root d1 d2 d3"
    "allocs K N \<longrightarrow> objs s1 + 6 \<le> N \<longrightarrow> d1 \<noteq> 0 \<and> d2 \<noteq> 0 \<and> d3 \<noteq> 0" by blast
  have "allocs K N \<longrightarrow> objs s + 8 \<le> N \<longrightarrow> d1 \<noteq> 0 \<and> d2 \<noteq> 0 \<and> d3 \<noteq> 0" using c(3) assms(3) by simp
  with c(1,2) assms(2) show ?thesis unfolding mount_out_def by blast
qed

lemma setup_sb_ok:
  assumes "kernel_ok K" "v_sbs v sb = Some b"
  shows "\<exists>ret v'. setup_sb K E v sb = Some (ret, v') \<and> mount_out K N v sb ret v'"
proof -
  define b1 where "b1 = b\<lparr>s_magic := JIFS_MAGIC, s_op := jifs_sops,
      s_maxbytes := jifs_max_size (MAX_LFS_FILESIZE E) (uint (s_blocksize_bits b)), s_time_gran := 1, s_export_op := jifs_export_ops, s_xattr := 0\<rparr>"
  define v1 where "v1 = v\<lparr>v_sbs := (v_sbs v)(sb \<mapsto> b1)\<rparr>"
  have u1: "upd_sb v sb (\<lambda>b. b\<lparr>s_magic := JIFS_MAGIC, s_op := jifs_sops,
      s_maxbytes := jifs_max_size (MAX_LFS_FILESIZE E) (uint (s_blocksize_bits b)), s_time_gran := 1, s_export_op := jifs_export_ops, s_xattr := 0\<rparr>) = Some v1"
    using assms(2) by (simp add: upd_sb_def v1_def b1_def)
  obtain p v2 where p: "jifs_make_inode K v1 sb (S_IFDIR OR 0x1ED) simple_dir_operations = Some (p, v2)" "allocs K N \<longrightarrow> objs v1 < N \<longrightarrow> p \<noteq> 0"
    "v_dentries v2 = v_dentries v1" "v_sbs v2 = v_sbs v1" "v_atomics v2 = v_atomics v1"
    "if p = 0 then v_inodes v2 = v_inodes v1
     else v_inodes v1 p = None \<and> (\<exists>i. i_mode i = S_IFDIR OR 0x1ED \<and> i_fop i = simple_dir_operations \<and> i_sb i = sb \<and> v_inodes v2 = (v_inodes v1)(p \<mapsto> i))"
    using make_inode_ok [OF assms(1)] by blast
  show ?thesis
  proof (cases "p = 0")
    case True
    with u1 p show ?thesis by (auto simp: setup_sb_def mount_out_def v1_def objs_def)
  next
    case False
    then obtain i where i: "v_inodes v p = None" "i_fop i = simple_dir_operations" "v_inodes v2 = (v_inodes v)(p \<mapsto> i)" using p(6) by (auto simp: v1_def)
    then have "v_inodes v2 p = Some i" by simp
    from root_inode_ok [OF assms(1) this i(2), of sb] obtain v3 v4 i2 where v4: "inode_init_owner K v2 p S_IFDIR = Some v3"
      "upd_inode v3 p (\<lambda>i. i\<lparr>i_sb := sb, i_op := simple_dir_inode_operations, i_nlink := 2\<rparr>) = Some v4" "root_inode sb i2"
      "v_inodes v4 = (v_inodes v2)(p \<mapsto> i2)" "v_dentries v4 = v_dentries v2" "v_sbs v4 = v_sbs v2" "v_atomics v4 = v_atomics v2" by blast
    have at4: "v_inodes v4 = (v_inodes v)(p \<mapsto> i2)" "v_dentries v4 = v_dentries v" using v4 i(3) p(3) by (simp_all add: v1_def)
    obtain root v5 where r: "d_make_root K v4 p = (root, v5)" by fastforce
    note rk = d_make_root_ok [OF assms(1) False r]
    define v6 where "v6 = v5\<lparr>v_sbs := (v_sbs v5)(sb \<mapsto> b1\<lparr>s_root := root\<rparr>)\<rparr>"
    have "v_sbs v5 sb = Some b1" using rk(1) v4(6) p(4) by (simp add: v1_def)
    then have u6: "upd_sb v5 sb (\<lambda>b. b\<lparr>s_root := root\<rparr>) = Some v6" by (simp add: upd_sb_def v6_def)
    show ?thesis
    proof (cases "root = 0")
      case True
      have "v_inodes v6 = v_inodes v" "v_dentries v6 = v_dentries v" using rk(4) True i(1) at4 by (simp_all add: v6_def fun_eq_iff)
      moreover have "objs v4 = objs v + 1" using at4 i(1) by (simp add: objs_def)
      ultimately show ?thesis
        using True False u1 p(1) v4(1,2) r u6 rk(3) [of N] by (auto simp: setup_sb_def mount_out_def)
    next
      case rt: False
      have v6: "v_inodes v6 = (v_inodes v)(p \<mapsto> i2)" "v_dentries v root = None" "v_atomics v6 = v_atomics v"
        "v_dentries v6 = (v_dentries v)(root \<mapsto> \<lparr>d_name = ''/'', d_parent = root, d_inode = p\<rparr>)"
        using rt rk at4 v4(7) p(5) by (simp_all add: v6_def v1_def)
      moreover have "\<exists>b. v_sbs v6 sb = Some b \<and> s_root b = root \<and> s_magic b = JIFS_MAGIC \<and> s_op b = jifs_sops" by (simp add: v6_def b1_def)
      ultimately have "rooted v v6 sb root" using rt False i(1) v4(3) unfolding rooted_def by blast
      moreover have "objs v6 = objs v + 2" using v6 i(1) by (simp add: objs_def)
      ultimately obtain v7 where "jifs_create_files K v6 sb root = Some v7" "mount_out K N v sb 0 v7" using rooted_mount [OF assms(1)] by blast
      then show ?thesis using rt False u1 p(1) v4(1,2) r u6 by (simp add: setup_sb_def)
    qed
  qed
qed

end
