(* ===== verification/JIFS_Props.thy ===== *)
theory JIFS_Props
  imports JIFS_Mount
begin

text \<open>Properties of JIFS and of lwnfs.\<close>

section \<open>From the steps to the tree\<close>

definition entry_at :: "'k vfs \<Rightarrow> u64 \<Rightarrow> string \<Rightarrow> u64 \<Rightarrow> inode \<Rightarrow> bool" where
  "entry_at s dir name d i \<longleftrightarrow> (\<exists>e. v_dentries s d = Some e \<and> d_name e = name \<and> d_parent e = dir \<and> v_inodes s (d_inode e) = Some i)"

lemma grown_entry:
  assumes "grown s s' d name dir P" "d \<noteq> 0"
  shows "\<exists>i. P i \<and> entry_at s' dir name d i" "dom (v_dentries s') = insert d (dom (v_dentries s))"
  using assms by (auto simp: grown_def entry_at_def)

lemma grown_keeps:
  assumes "grown s s' d name dir P" "entry_at s dir' name' d' i"
  shows "entry_at s' dir' name' d' i"
  using assms by (auto simp: grown_def entry_at_def split: if_splits)

lemma entry_at_atomic [simp]: "entry_at (atomic_set s a v) = entry_at s" "v_dentries (atomic_set s a v) = v_dentries s"
  "v_sbs (atomic_set s a v) = v_sbs s"
  by (simp_all add: entry_at_def fun_eq_iff atomic_set_def)

lemma grown_same: "grown s s' d name dir P \<Longrightarrow> v_sbs s' = v_sbs s \<and> v_atomics s' = v_atomics s"
  by (simp add: grown_def)

lemma populated_same:
  assumes "populated s s' sb root d1 d2 d3"
  shows "v_sbs s' = v_sbs s" "v_atomics s' counter = 0" "v_atomics s' subcounter = 0"
  using assms by (auto simp: populated_def atomic_set_def dest!: grown_same split: if_splits)

lemma grown_dom: "grown s s' d name dir P \<Longrightarrow> x \<in> dom (v_dentries s) \<Longrightarrow> x \<in> dom (v_dentries s')"
  by (auto simp: grown_def split: if_splits)

lemma populated_keeps:
  assumes "populated s s' sb root d1 d2 d3" "d \<in> dom (v_dentries s)"
  shows "d \<in> dom (v_dentries s')"
  using assms unfolding populated_def by (metis grown_dom entry_at_atomic(2))

text \<open>All entries have an inode if they had one before; a step keeps that.\<close>

definition positive :: "'k vfs \<Rightarrow> bool" where
  "positive s \<longleftrightarrow> (\<forall>d e. v_dentries s d = Some e \<longrightarrow> v_inodes s (d_inode e) \<noteq> None)"

lemma grown_positive: "grown s s' d name dir P \<Longrightarrow> positive s \<Longrightarrow> positive s'"
  by (auto simp: grown_def positive_def split: if_splits)

lemma positive_atomic [simp]: "positive (atomic_set s a v) = positive s"
  by (simp add: positive_def atomic_set_def)

lemma populated_positive: "populated s s' sb root d1 d2 d3 \<Longrightarrow> positive s \<Longrightarrow> positive s'"
  unfolding populated_def by (metis grown_positive positive_atomic)

lemma rooted_positive: "rooted s s' sb root \<Longrightarrow> positive s \<Longrightarrow> positive s'"
  by (auto simp: rooted_def positive_def split: if_splits)

lemma mount_positive: "mount_out K N s sb ret s' \<Longrightarrow> positive s \<Longrightarrow> positive s'"
  unfolding mount_out_def by (metis rooted_positive populated_positive positive_def)

section \<open>The whole mount\<close>

definition same_objects :: "'k vfs \<Rightarrow> 'k vfs \<Rightarrow> bool" where
  "same_objects s s' \<longleftrightarrow> v_inodes s' = v_inodes s \<and> v_dentries s' = v_dentries s"

definition fill_out :: "'k kernel \<Rightarrow> 'k jifs_env \<Rightarrow> nat \<Rightarrow> 'k jifs \<Rightarrow> u64 \<Rightarrow> string option \<Rightarrow> int \<Rightarrow> 'k jifs \<Rightarrow> bool" where
  "fill_out K E N s sb data ret s' \<longleftrightarrow>
     (if fst (kzalloc E (v_kern (js_vfs s))) = 0 then ret = - ENOMEM_k \<and> same_objects (js_vfs s) (js_vfs s') \<and> js_sbis s' = js_sbis s
      else fst (kzalloc E (v_kern (js_vfs s))) \<in> dom (js_sbis s') \<and>
        (if fst (jifs_parse_options E data (js_dbgmask s)) \<noteq> 0 then ret = - ENOMEM_k \<and> same_objects (js_vfs s) (js_vfs s')
         else mount_out K N (js_vfs s) sb ret (js_vfs s')))"

lemma fill_super_ok:
  assumes "kernel_ok K" "v_sbs (js_vfs s) sb = Some b"
  shows "\<exists>ret s'. jifs_fill_super K E s sb data = Some (ret, s') \<and> fill_out K E N s sb data ret s'"
proof -
  obtain sbi k where k: "kzalloc E (v_kern (js_vfs s)) = (sbi, k)" by fastforce
  show ?thesis
  proof (cases "sbi = 0")
    case True
    with k show ?thesis by (simp add: jifs_fill_super_def kzalloc_sbi_def fill_out_def same_objects_def)
  next
    case False
    obtain err mode dbg where pr: "jifs_parse_options E data (js_dbgmask s) = (err, mode, dbg)" by (metis prod_cases3)
    define v where "v = (js_vfs s)\<lparr>v_kern := k, v_sbs := (v_sbs (js_vfs s))(sb \<mapsto> b\<lparr>s_fs_info := sbi\<rparr>)\<rparr>"
    obtain ret v' where su: "setup_sb K E v sb = Some (ret, v')" "mount_out K N v sb ret v'"
      using setup_sb_ok [OF assms(1), of v sb "b\<lparr>s_fs_info := sbi\<rparr>" E N] by (auto simp: v_def)
    have same: "mount_out K N v sb ret v' = mount_out K N (js_vfs s) sb ret v'" 
      by (simp add: mount_out_def rooted_def objs_def v_def)
    show ?thesis
    proof (cases "err = 0")
      case True
      with False k pr su assms(2) show ?thesis
        by (simp add: jifs_fill_super_def kzalloc_sbi_def upd_sb_def upd_sbi_def Let_def fill_out_def same flip: v_def)
    next
      case err: False
      with False k pr assms(2) show ?thesis
        by (simp add: jifs_fill_super_def kzalloc_sbi_def upd_sb_def upd_sbi_def Let_def fill_out_def same_objects_def)
    qed
  qed
qed

section \<open>The options by position\<close>

text \<open>
  A reference for the parser: the text is cut at the commas, the empty pieces are dropped, the
  pieces up to the first bad one count, and of several settings the last one holds.
\<close>

fun comma_pieces :: "string \<Rightarrow> string list" where
  "comma_pieces [] = [[]]"
| "comma_pieces (c # cs) = (if c = CHR '','' then [] # comma_pieces cs
     else (case comma_pieces cs of p # ps \<Rightarrow> (c # p) # ps | [] \<Rightarrow> [[c]]))"

definition option_pieces :: "string option \<Rightarrow> string list" where
  "option_pieces data = (case data of None \<Rightarrow> [] | Some s \<Rightarrow> filter (\<lambda>p. p \<noteq> []) (comma_pieces s))"

definition mode_of :: "'k jifs_env \<Rightarrow> string \<Rightarrow> umode option" where
  "mode_of E p = (case match_token E p tokens of (Opt_mode, arg) \<Rightarrow> map_option (\<lambda>m. word_of_int m AND S_IALLUGO) (match_octal E arg) | _ \<Rightarrow> None)"

definition dbg_of :: "'k jifs_env \<Rightarrow> string \<Rightarrow> u32 option" where
  "dbg_of E p = (case match_token E p tokens of (Opt_dbgmask, arg) \<Rightarrow> map_option word_of_int (match_int E arg) | _ \<Rightarrow> None)"

definition option_ok :: "'k jifs_env \<Rightarrow> string \<Rightarrow> bool" where
  "option_ok E p \<longleftrightarrow> (case match_token E p tokens of
     (Opt_mode, arg) \<Rightarrow> match_octal E arg \<noteq> None | (Opt_dbgmask, arg) \<Rightarrow> match_int E arg \<noteq> None | _ \<Rightarrow> True)"

lemma parse_option_eq:
  "parse_option E p (mode, dbg) = (if option_ok E p
     then Inr (case mode_of E p of Some m \<Rightarrow> m | None \<Rightarrow> mode, case dbg_of E p of Some d \<Rightarrow> d | None \<Rightarrow> dbg)
     else Inl (- EINVAL, mode, dbg))"
  by (auto simp: parse_option_def option_ok_def mode_of_def dbg_of_def split: prod.splits opt_token.splits option.splits)

lemma comma_pieces_none: "CHR '','' \<notin> set s \<Longrightarrow> comma_pieces s = [s]"
  by (induction s) auto

lemma comma_pieces_first: "CHR '','' \<notin> set p \<Longrightarrow> comma_pieces (p @ CHR '','' # rest) = p # comma_pieces rest"
  by (induction p) auto

lemma strsep_none: "CHR '','' \<notin> set s \<Longrightarrow> strsep (Some s) = (Some s, None)"
proof -
  assume "CHR '','' \<notin> set s"
  then have "dropWhile (\<lambda>c. c \<noteq> CHR '','') s = []" by (induction s) auto
  then show ?thesis by (simp only: strsep_def option.case list.case)
qed

lemma strsep_first: "CHR '','' \<notin> set p \<Longrightarrow> strsep (Some (p @ CHR '','' # rest)) = (Some p, Some rest)"
proof -
  assume "CHR '','' \<notin> set p"
  then have "dropWhile (\<lambda>c. c \<noteq> CHR '','') (p @ CHR '','' # rest) = CHR '','' # rest"
    "takeWhile (\<lambda>c. c \<noteq> CHR '','') (p @ CHR '','' # rest) = p"
    by (induction p) auto
  then show ?thesis by (simp only: strsep_def option.case list.case)
qed

lemma strsep_pieces:
  "option_pieces data = (case strsep data of (None, rest) \<Rightarrow> [] | (Some p, rest) \<Rightarrow> if p = [] then option_pieces rest else p # option_pieces rest)"
proof (cases data)
  case None
  then show ?thesis by (simp add: strsep_def option_pieces_def)
next
  case (Some s)
  show ?thesis
  proof (cases "CHR '','' \<in> set s")
    case False
    with Some show ?thesis by (simp add: strsep_none comma_pieces_none option_pieces_def)
  next
    case True
    then obtain p rest where "s = p @ CHR '','' # rest" "CHR '','' \<notin> set p" by (metis split_list_first)
    with Some show ?thesis by (simp add: strsep_first comma_pieces_first option_pieces_def)
  qed
qed

definition parse_result :: "'k jifs_env \<Rightarrow> string list \<Rightarrow> umode \<Rightarrow> u32 \<Rightarrow> int \<times> umode \<times> u32" where
  "parse_result E ps mode dbg = (let good = takeWhile (option_ok E) ps in
     (if good = ps then 0 else - EINVAL, last (mode # List.map_filter (mode_of E) good), last (dbg # List.map_filter (dbg_of E) good)))"

lemma parse_result_simps:
  "parse_result E [] mode dbg = (0, mode, dbg)"
  "\<not> option_ok E p \<Longrightarrow> parse_result E (p # ps) mode dbg = (- EINVAL, mode, dbg)"
  "option_ok E p \<Longrightarrow> parse_result E (p # ps) mode dbg =
     parse_result E ps (case mode_of E p of Some m \<Rightarrow> m | None \<Rightarrow> mode) (case dbg_of E p of Some d \<Rightarrow> d | None \<Rightarrow> dbg)"
  by (simp_all add: parse_result_def Let_def List.map_filter_simps split: option.splits)

lemma parse_loop_eq: "parse_loop E data (mode, dbg) = parse_result E (option_pieces data) mode dbg"
proof (induction E data "(mode, dbg)" arbitrary: mode dbg rule: parse_loop.induct)
  case (1 E data)
  obtain tok rest where st: "strsep data = (tok, rest)" by fastforce
  show ?case
  proof (cases tok)
    case None
    with st show ?thesis by (subst parse_loop.simps, subst strsep_pieces) (simp add: parse_result_simps)
  next
    case (Some p)
    note IH = "1.hyps" [OF st [symmetric] Some]
    show ?thesis
      using st Some IH(1) IH(2)
      by (subst parse_loop.simps, subst strsep_pieces) (simp add: parse_option_eq parse_result_simps)
  qed
qed

section \<open>A concrete kernel\<close>

text \<open>Eight addresses for inodes and eight for directory entries, taken where they are free.\<close>

definition pool :: "u64 list" where "pool = [64, 128, 192, 256, 320, 384, 448, 512]"

definition fresh :: "(u64 \<rightharpoonup> 'a) \<Rightarrow> u64" where
  "fresh m = (case find (\<lambda>p. m p = None) pool of None \<Rightarrow> 0 | Some p \<Rightarrow> p)"

definition blank_inode :: "u64 \<Rightarrow> inode" where
  "blank_inode sb = \<lparr>i_mode = 0, i_time = 0, i_fop = No_fops, i_op = No_iops, i_ino = 0, i_private = None, i_size = 0, i_nlink = 1, i_sb = sb\<rparr>"

definition demo_kernel :: "unit kernel" where
  "demo_kernel = \<lparr>
     new_inode = (\<lambda>s sb. let p = fresh (v_inodes s) in if p = 0 then (0, s) else (p, s\<lparr>v_inodes := (v_inodes s)(p \<mapsto> blank_inode sb)\<rparr>)),
     iget_locked = (\<lambda>s sb ino. (0, s)),
     unlock_new_inode = (\<lambda>s p. s),
     iput = (\<lambda>s p. s\<lparr>v_inodes := (v_inodes s)(p := None)\<rparr>),
     inode_init_owner = (\<lambda>s p mode. upd_inode s p (\<lambda>i. i\<lparr>i_mode := mode\<rparr>)),
     current_time = (\<lambda>s p. 0),
     get_next_ino = (\<lambda>s. (1, s)),
     d_alloc_name = (\<lambda>s dir name. let d = fresh (v_dentries s) in if d = 0 then (0, s)
        else (d, s\<lparr>v_dentries := (v_dentries s)(d \<mapsto> \<lparr>d_name = name, d_parent = dir, d_inode = 0\<rparr>)\<rparr>)),
     d_add = (\<lambda>s d i. case v_dentries s d of None \<Rightarrow> s | Some e \<Rightarrow> s\<lparr>v_dentries := (v_dentries s)(d \<mapsto> e\<lparr>d_inode := i\<rparr>)\<rparr>),
     dput = (\<lambda>s d. s\<lparr>v_dentries := (v_dentries s)(d := None)\<rparr>),
     d_make_root = (\<lambda>s i. let d = fresh (v_dentries s) in if d = 0 then (0, s\<lparr>v_inodes := (v_inodes s)(i := None)\<rparr>)
        else (d, s\<lparr>v_dentries := (v_dentries s)(d \<mapsto> \<lparr>d_name = ''/'', d_parent = d, d_inode = i\<rparr>)\<rparr>))\<rparr>"

lemma pool_facts: "0 \<notin> set pool" "card (set pool) = 8"
  by (simp_all add: pool_def)

lemma fresh_cases: "fresh m \<noteq> 0 \<and> m (fresh m) = None \<or> fresh m = 0 \<and> set pool \<subseteq> dom m"
proof (cases "find (\<lambda>p. m p = None) pool")
  case None
  then have "fresh m = 0" by (simp add: fresh_def)
  with None show ?thesis by (auto simp: find_None_iff)
next
  case (Some p)
  then have "p \<in> set pool" "m p = None" by (auto simp: find_Some_iff)
  with Some pool_facts(1) show ?thesis by (auto simp: fresh_def)
qed

lemma fresh_free: "fresh m \<noteq> 0 \<Longrightarrow> m (fresh m) = None"
  using fresh_cases by blast

lemma fresh_some: "card (dom m) < 8 \<Longrightarrow> fresh m \<noteq> 0"
  using fresh_cases [of m] card_mono [of "dom m" "set pool"] pool_facts(2) by auto

lemma demo_kernel_ok: "kernel_ok demo_kernel" "allocs demo_kernel 8"
proof -
  have "new_inode_spec demo_kernel"
    unfolding new_inode_spec_def demo_kernel_def by (auto simp: Let_def fresh_free intro!: exI [of _ "blank_inode _"]) (simp add: blank_inode_def)
  moreover have "dentry_spec demo_kernel"
    unfolding dentry_spec_def demo_kernel_def by (auto simp: Let_def fresh_free)
  moreover have "inode_spec demo_kernel"
    unfolding inode_spec_def demo_kernel_def by (auto simp: upd_inode_def split: option.splits)
  ultimately show "kernel_ok demo_kernel" by (simp add: kernel_ok_def)
  show "allocs demo_kernel 8"
    unfolding allocs_def demo_kernel_def objs_def by (auto simp: Let_def fresh_some)
qed

definition demo_sb :: super_block where
  "demo_sb = \<lparr>s_fs_info = 0, s_magic = 0, s_op = No_sops, s_maxbytes = 0, s_time_gran = 0, s_export_op = No_eops, s_xattr = 0, s_root = 0, s_blocksize = 0, s_blocksize_bits = 0\<rparr>"

definition demo_vfs :: "unit vfs" where
  "demo_vfs = \<lparr>v_inodes = Map.empty, v_dentries = Map.empty, v_sbs = [64 \<mapsto> demo_sb], v_atomics = (\<lambda>_. 7), v_kern = ()\<rparr>"

definition demo_jifs :: "unit jifs" where
  "demo_jifs = \<lparr>js_vfs = demo_vfs, js_sbis = Map.empty, js_dbgmask = 0\<rparr>"

text \<open>An environment whose matcher knows one word for each option.\<close>

definition demo_env :: "unit jifs_env" where
  "demo_env = \<lparr>kzalloc = (\<lambda>k. (1024, k)),
     match_token = (\<lambda>p t. if take 5 p = ''mode='' then (Opt_mode, drop 5 p) else if take 8 p = ''dbgmask='' then (Opt_dbgmask, drop 8 p) else (Opt_err, [])),
     match_octal = (\<lambda>a. if a = ''700'' then Some 448 else None), match_int = (\<lambda>a. if a = ''1'' then Some 1 else None),
     random_u32 = 5, current_fsuid = 0, current_fsgid = 0, MAX_LFS_FILESIZE = 2 ^ 63 - 1\<rparr>"

definition demo_uaccess :: "(u64 \<rightharpoonup> string) uaccess" where
  "demo_uaccess = \<lparr>copy_to_user = (\<lambda>u buf xs. (0, u(buf \<mapsto> xs))),
     copy_from_user = (\<lambda>u buf n. case u buf of None \<Rightarrow> (1, []) | Some xs \<Rightarrow> if length xs = n then (0, xs) else (1, []))\<rparr>"

lemma demo_copies: "copies_ok demo_uaccess"
  by (simp add: copies_ok_def uaccess_spec_def demo_uaccess_def)

section \<open>Properties\<close>

text \<open>
  C25. Mounting JIFS with enough memory and well-formed options builds the tree the source names:
  \<open>jifs_fill_super\<close> returns 0, the super block has its magic number and a root entry, the root holds
  the file \<open>counter\<close> and the directory \<open>subdir\<close>, which holds the file \<open>subcounter\<close>, there is no other new
  entry, the files carry the file operations and their counter, and both counters are zero.
\<close>

theorem jifs_mount_builds_tree:
  assumes "kernel_ok K" "allocs K N" "objs (js_vfs s) + 8 \<le> N" "v_sbs (js_vfs s) sb = Some b"
    and "fst (kzalloc E (v_kern (js_vfs s))) \<noteq> 0" "fst (jifs_parse_options E data (js_dbgmask s)) = 0"
  shows "\<exists>s' root d1 d2 d3 i1 i2 i3. jifs_fill_super K E s sb data = Some (0, s')
     \<and> map_option s_root (v_sbs (js_vfs s') sb) = Some root \<and> map_option s_magic (v_sbs (js_vfs s') sb) = Some JIFS_MAGIC
     \<and> entry_at (js_vfs s') root ''counter'' d1 i1 \<and> file_inode sb counter i1
     \<and> entry_at (js_vfs s') root ''subdir'' d2 i2 \<and> dir_inode sb i2
     \<and> entry_at (js_vfs s') d2 ''subcounter'' d3 i3 \<and> file_inode sb subcounter i3
     \<and> dom (v_dentries (js_vfs s')) = dom (v_dentries (js_vfs s)) \<union> {root, d1, d2, d3}
     \<and> v_atomics (js_vfs s') counter = 0 \<and> v_atomics (js_vfs s') subcounter = 0"
proof -
  from fill_super_ok [OF assms(1,4), of E data N] assms(5,6) obtain ret s' where
    f: "jifs_fill_super K E s sb data = Some (ret, s')" "mount_out K N (js_vfs s) sb ret (js_vfs s')" by (auto simp: fill_out_def)
  then obtain s1 root d1 d2 d3 where r: "ret = 0" "rooted (js_vfs s) s1 sb root" "populated s1 (js_vfs s') sb root d1 d2 d3"
    and d: "d1 \<noteq> 0" "d2 \<noteq> 0" "d3 \<noteq> 0" using assms(2,3) unfolding mount_out_def by blast
  from r(3) d obtain s2 s4 where g: "grown (atomic_set s1 counter 0) s2 d1 ''counter'' root (file_inode sb counter)"
    "grown (atomic_set s2 subcounter 0) s4 d2 ''subdir'' root (dir_inode sb)"
    "grown s4 (js_vfs s') d3 ''subcounter'' d2 (file_inode sb subcounter)" by (auto simp: populated_def)
  obtain i1 i2 i3 where i: "file_inode sb counter i1" "entry_at s2 root ''counter'' d1 i1" "dir_inode sb i2" "entry_at s4 root ''subdir'' d2 i2"
    "file_inode sb subcounter i3" "entry_at (js_vfs s') d2 ''subcounter'' d3 i3"
    using grown_entry(1) [OF g(1) d(1)] grown_entry(1) [OF g(2) d(2)] grown_entry(1) [OF g(3) d(3)] by blast
  have "entry_at s4 root ''counter'' d1 i1" using grown_keeps [OF g(2)] i(2) by simp
  then have e: "entry_at (js_vfs s') root ''counter'' d1 i1" "entry_at (js_vfs s') root ''subdir'' d2 i2"
    using grown_keeps [OF g(3)] i(4) by blast+
  have "dom (v_dentries s1) = insert root (dom (v_dentries (js_vfs s)))" using r(2) by (auto simp: rooted_def)
  then have "dom (v_dentries (js_vfs s')) = dom (v_dentries (js_vfs s)) \<union> {root, d1, d2, d3}"
    using grown_entry(2) [OF g(1) d(1)] grown_entry(2) [OF g(2) d(2)] grown_entry(2) [OF g(3) d(3)] by auto
  moreover have "map_option s_root (v_sbs (js_vfs s') sb) = Some root" "map_option s_magic (v_sbs (js_vfs s') sb) = Some JIFS_MAGIC"
    using r(2) populated_same(1) [OF r(3)] by (auto simp: rooted_def)
  ultimately show ?thesis using f(1) r(1) i(1,3,5,6) e populated_same(2,3) [OF r(3)] by blast
qed

theorem jifs_mount_builds_tree_witness:
  "\<exists>s' root d1 i1. jifs_fill_super demo_kernel demo_env demo_jifs 64 (Some ''mode=700'') = Some (0, s')
     \<and> entry_at (js_vfs s') root ''counter'' d1 i1 \<and> file_inode 64 counter i1"
proof -
  have "fst (jifs_parse_options demo_env (Some ''mode=700'') (js_dbgmask demo_jifs)) = 0"
    by (simp add: jifs_parse_options_def parse_loop_eq option_pieces_def parse_result_def Let_def option_ok_def demo_env_def)
  then show ?thesis
    using jifs_mount_builds_tree [OF demo_kernel_ok, of demo_jifs 64 demo_sb demo_env "Some ''mode=700''"]
    by (auto simp: demo_jifs_def demo_vfs_def demo_env_def objs_def)
qed

text \<open>Where the root inode or its entry cannot be allocated, \<open>jifs_fill_super\<close> does not return 0.\<close>

lemma setup_sb_no_root:
  assumes "setup_sb K E v sb = Some (ret, v')" "(\<forall>u. fst (new_inode K u sb) = 0) \<or> (\<forall>u i. fst (d_make_root K u i) = 0)"
  shows "ret = - ENOMEM_k"
  using assms(2)
proof
  assume "\<forall>u. fst (new_inode K u sb) = 0"
  then have "root_i = 0" if "jifs_make_inode K v1 sb m f = Some (root_i, v2)" for v1 m f root_i v2
    using that by (auto simp: jifs_make_inode_def bind_eq_Some_conv split: prod.splits if_splits) (metis fst_conv)
  with assms(1) show ?thesis by (auto simp: setup_sb_def bind_eq_Some_conv split: if_splits)
next
  assume r: "\<forall>u i. fst (d_make_root K u i) = 0"
  from assms(1) show ?thesis
    by (auto simp: setup_sb_def case_prod_unfold Let_def r bind_eq_Some_conv split: if_splits)
qed

lemma fill_super_no_root:
  assumes "jifs_fill_super K E s sb data = Some (ret, s')" "(\<forall>u. fst (new_inode K u sb) = 0) \<or> (\<forall>u i. fst (d_make_root K u i) = 0)"
  shows "ret = - ENOMEM_k"
  using assms(1) setup_sb_no_root [OF _ assms(2), of E]
  by (auto simp: jifs_fill_super_def case_prod_unfold Let_def bind_eq_Some_conv split: if_splits)

text \<open>
  C26. Mounting JIFS never faults, whatever allocation fails and whatever the options are, and it
  returns 0 or -ENOMEM.  It returns -ENOMEM if the \<open>jifs_sb_info\<close>, the root inode or the root entry
  cannot be allocated, and also if an option is bad.  Where it fails, no inode and no directory entry
  is left that was not there before; but the \<open>jifs_sb_info\<close>, once allocated, stays in memory whatever
  happens afterwards.  A directory entry without an inode never stays behind.  Where it returns 0 the
  super block has its magic number and a root entry, which is new.
\<close>

theorem jifs_mount_outcomes:
  assumes "kernel_ok K" "v_sbs (js_vfs s) sb = Some b" "positive (js_vfs s)"
  shows "\<exists>ret s'. jifs_fill_super K E s sb data = Some (ret, s') \<and> ret \<in> {0, - ENOMEM_k} \<and> positive (js_vfs s')
     \<and> (fst (kzalloc E (v_kern (js_vfs s))) = 0 \<longrightarrow> ret = - ENOMEM_k \<and> js_sbis s' = js_sbis s)
     \<and> (fst (kzalloc E (v_kern (js_vfs s))) \<noteq> 0 \<longrightarrow> fst (kzalloc E (v_kern (js_vfs s))) \<in> dom (js_sbis s'))
     \<and> ((\<forall>v. fst (new_inode K v sb) = 0) \<or> (\<forall>v i. fst (d_make_root K v i) = 0) \<longrightarrow> ret = - ENOMEM_k)
     \<and> (fst (jifs_parse_options E data (js_dbgmask s)) \<noteq> 0 \<longrightarrow> ret = - ENOMEM_k)
     \<and> (ret \<noteq> 0 \<longrightarrow> same_objects (js_vfs s) (js_vfs s'))
     \<and> (ret = 0 \<longrightarrow> (\<exists>sb' root. v_sbs (js_vfs s') sb = Some sb' \<and> s_magic sb' = JIFS_MAGIC \<and> s_root sb' = root \<and> root \<noteq> 0
          \<and> v_dentries (js_vfs s) root = None \<and> root \<in> dom (v_dentries (js_vfs s'))))"
proof -
  from fill_super_ok [OF assms(1,2), of E data 0] obtain ret s' where
    f: "jifs_fill_super K E s sb data = Some (ret, s')" "fill_out K E 0 s sb data ret s'" by blast
  have pos: "positive (js_vfs s')" if "same_objects (js_vfs s) (js_vfs s')"
    using assms(3) that by (simp add: positive_def same_objects_def)
  have m: "ret \<in> {0, - ENOMEM_k} \<and> positive (js_vfs s') \<and> (ret \<noteq> 0 \<longrightarrow> same_objects (js_vfs s) (js_vfs s'))"
    if "mount_out K 0 (js_vfs s) sb ret (js_vfs s')"
    using mount_positive [OF that assms(3)] that unfolding mount_out_def same_objects_def by blast
  have r: "\<exists>sb' root. v_sbs (js_vfs s') sb = Some sb' \<and> s_magic sb' = JIFS_MAGIC \<and> s_root sb' = root \<and> root \<noteq> 0
      \<and> v_dentries (js_vfs s) root = None \<and> root \<in> dom (v_dentries (js_vfs s'))" if "mount_out K 0 (js_vfs s) sb 0 (js_vfs s')"
  proof -
    from that obtain s1 root d1 d2 d3 where p: "rooted (js_vfs s) s1 sb root" "populated s1 (js_vfs s') sb root d1 d2 d3"
      by (auto simp: mount_out_def ENOMEM_k_def)
    have "root \<in> dom (v_dentries s1)" using p(1) by (auto simp: rooted_def)
    then have "root \<in> dom (v_dentries (js_vfs s'))" by (rule populated_keeps [OF p(2)])
    with p(1) populated_same(1) [OF p(2)] show ?thesis by (auto simp: rooted_def)
  qed
  have fill: "ret \<in> {0, - ENOMEM_k} \<and> positive (js_vfs s')"
    "fst (kzalloc E (v_kern (js_vfs s))) = 0 \<longrightarrow> ret = - ENOMEM_k \<and> js_sbis s' = js_sbis s"
    "fst (kzalloc E (v_kern (js_vfs s))) \<noteq> 0 \<longrightarrow> fst (kzalloc E (v_kern (js_vfs s))) \<in> dom (js_sbis s')"
    "fst (jifs_parse_options E data (js_dbgmask s)) \<noteq> 0 \<longrightarrow> ret = - ENOMEM_k"
    "ret \<noteq> 0 \<longrightarrow> same_objects (js_vfs s) (js_vfs s')"
    using f(2) pos m by (auto simp: fill_out_def split: if_splits)
  have "ret = 0 \<longrightarrow> mount_out K 0 (js_vfs s) sb 0 (js_vfs s')"
    using f(2) by (auto simp: fill_out_def ENOMEM_k_def split: if_splits)
  with r f(1) fill fill_super_no_root [OF f(1)] show ?thesis by blast
qed

theorem jifs_mount_outcomes_witness:
  "(\<exists>s'. jifs_fill_super demo_kernel demo_env demo_jifs 64 (Some ''mode=9'') = Some (- ENOMEM_k, s') \<and> 1024 \<in> dom (js_sbis s'))
   \<and> (\<exists>s'. jifs_fill_super demo_kernel (demo_env\<lparr>kzalloc := \<lambda>k. (0, k)\<rparr>) demo_jifs 64 None = Some (- ENOMEM_k, s') \<and> js_sbis s' = Map.empty)"
proof -
  have "fst (jifs_parse_options demo_env (Some ''mode=9'') (js_dbgmask demo_jifs)) \<noteq> 0"
    by (simp add: jifs_parse_options_def parse_loop_eq option_pieces_def parse_result_def Let_def option_ok_def demo_env_def EINVAL_def)
  then show ?thesis
    using jifs_mount_outcomes [OF demo_kernel_ok(1), of demo_jifs 64 demo_sb demo_env "Some ''mode=9''"]
      jifs_mount_outcomes [OF demo_kernel_ok(1), of demo_jifs 64 demo_sb "demo_env\<lparr>kzalloc := \<lambda>k. (0, k)\<rparr>" None]
    by (auto simp: demo_jifs_def demo_vfs_def demo_env_def positive_def)
qed

text \<open>
  C27. A counter file of JIFS or lwnfs is a stream: reading it from the start in pieces of any sizes,
  the first of which is not empty, delivers the decimal text of the counter and a newline, cut at
  the sum of the sizes, and raises the counter once, however many pieces there are and also where
  the counter wraps around.
\<close>

theorem counter_file_in_pieces:
  assumes "copies_ok U" "private_data f = Some a" "n \<noteq> 0" "rd \<in> {jifs_read_file, lfs_read_file}"
  shows "read_pieces rd U s f u buf 0 (n # ns) =
    Some (take (sum_list (map unat (n # ns))) (line_of (v_atomics s a)), atomic_set s a (v_atomics s a + 1),
      int (min (length (line_of (v_atomics s a))) (sum_list (map unat (n # ns)))))"
  using assms(4) jf.all_pieces [OF assms(1-3)] lf.all_pieces [OF assms(1-3)] by blast

theorem counter_file_in_pieces_witness:
  "read_pieces jifs_read_file demo_uaccess (atomic_set demo_vfs counter 0x7FFFFFFF) \<lparr>private_data = Some counter\<rparr> Map.empty 4096 0 [3, 20]
     = Some (''2147483647'' @ [CHR 0x0A], atomic_set demo_vfs counter 0x80000000, 11)"
proof -
  have "line_of 0x7FFFFFFF = ''2147483647'' @ [CHR 0x0A]"
    by (simp add: line_of_def print_int_def digit_def dec_digits.simps) code_simp
  then show ?thesis
    using counter_file_in_pieces [OF demo_copies, of "\<lparr>private_data = Some counter\<rparr>" counter 3 jifs_read_file
        "atomic_set demo_vfs counter 0x7FFFFFFF" Map.empty 4096 "[20]"]
    by (simp add: atomic_set_def)
qed

text \<open>
  C28. What is read from a counter file can be written back: after a read from the start into a buffer
  of at least 20 bytes, writing the bytes that were returned at offset 0 restores the counter to the
  value before the read, for every value of the counter, negative ones included.
\<close>

theorem counter_file_write_back:
  assumes "copies_ok U" "private_data f = Some a" "strtol_spec strtol" "20 \<le> unat n"
    and "(rd, wr) \<in> {(jifs_read_file, jifs_write_file), (lfs_read_file, lfs_write_file)}"
  shows "\<exists>m u1 s1. rd U s f u buf n 0 = Some (m, u1, s1, m) \<and> v_atomics s1 a = v_atomics s a + 1
     \<and> wr U strtol s1 f u1 buf (word_of_int m) 0 = Some (m, atomic_set s a (v_atomics s a))"
  using assms(5) jf.write_back [OF assms(1-4)] lf.write_back [OF assms(1-4)] by blast

definition demo_strtol :: "string \<Rightarrow> u64" where
  "demo_strtol s = (case s of [] \<Rightarrow> 0 | c # cs \<Rightarrow>
     if c = CHR ''-'' then - of_nat (dec_value (takeWhile is_digit cs)) else of_nat (dec_value (takeWhile is_digit s)))"

lemma demo_strtol_ok: "strtol_spec demo_strtol"
proof -
  have t: "takeWhile is_digit (ds @ rest) = ds" if "\<forall>c \<in> set ds. is_digit c" "rest \<noteq> [] \<longrightarrow> \<not> is_digit (hd rest)" for ds rest
    using that by (cases rest) (simp_all add: takeWhile_append2)
  have "demo_strtol (ds @ rest) = of_nat (dec_value ds)"
    if "ds \<noteq> []" "\<forall>c \<in> set ds. is_digit c" "rest \<noteq> [] \<longrightarrow> \<not> is_digit (hd rest)" for ds rest
  proof -
    obtain c cs where ds: "ds = c # cs" using \<open>ds \<noteq> []\<close> by (cases ds) auto
    then have "c \<noteq> CHR ''-''" using that(2) by (auto simp: is_digit_def)
    with t [OF that(2,3)] ds show ?thesis unfolding demo_strtol_def by simp
  qed
  moreover have "demo_strtol (CHR ''-'' # ds @ rest) = - of_nat (dec_value ds)"
    if "\<forall>c \<in> set ds. is_digit c" "rest \<noteq> [] \<longrightarrow> \<not> is_digit (hd rest)" for ds rest
    using t [OF that] unfolding demo_strtol_def by simp
  ultimately show ?thesis unfolding strtol_spec_def by blast
qed

theorem counter_file_write_back_witness:
  "\<exists>m u1 s1. lfs_read_file demo_uaccess demo_vfs \<lparr>private_data = Some subcounter\<rparr> Map.empty 4096 64 0 = Some (m, u1, s1, m)
     \<and> v_atomics s1 subcounter = 8
     \<and> lfs_write_file demo_uaccess demo_strtol s1 \<lparr>private_data = Some subcounter\<rparr> u1 4096 (word_of_int m) 0 = Some (m, atomic_set demo_vfs subcounter 7)"
  using counter_file_write_back [OF demo_copies, of "\<lparr>private_data = Some subcounter\<rparr>" subcounter demo_strtol 64 lfs_read_file lfs_write_file demo_vfs Map.empty 4096]
    demo_strtol_ok
  by (simp add: demo_vfs_def)

text \<open>
  \<open>jifs_parse_options\<close> computes what a reading of the option string by position says: the pieces
  between commas, without the empty ones, count up to the first whose argument does not parse;
  the result is 0 if there is none and -EINVAL otherwise; the mode is that of the last piece that
  sets it (cut to the permission bits), or 0755, and the debug mask likewise.
\<close>

theorem jifs_parse_options_by_position:
  "jifs_parse_options E data dbg = parse_result E (option_pieces data) 0x1ED dbg"
  by (simp add: jifs_parse_options_def parse_loop_eq)

text \<open>
  Where the root inode cannot be allocated JIFS reports -ENOMEM, while lwnfs hands the null
  pointer to \<open>inode_init_owner\<close> before it tests it, and faults.
\<close>

theorem lwnfs_mount_null_root:
  assumes "kernel_ok K" "v_sbs v sb = Some b" "\<And>s. fst (new_inode K s sb) = 0" "v_inodes v 0 = None"
  shows "lfs_fill_super K vs v sb = None \<and> (\<exists>v'. setup_sb K E v sb = Some (- ENOMEM_k, v'))"
proof -
  have j: "\<exists>s'. jifs_make_inode K s sb mode fop = Some (0, s') \<and> v_inodes s' = v_inodes s"
    "lfs_make_inode K s sb mode fop = jifs_make_inode K s sb mode fop" for s mode fop
    using make_inode_ok [OF assms(1), of s sb mode fop 0] assms(3) [of s]
    by (auto simp: jifs_make_inode_def lfs_make_inode_def split: prod.splits)
  have "inode_init_owner K s 0 mode = None" if "v_inodes s 0 = None" for s mode
    using assms(1) [unfolded kernel_ok_def inode_spec_def, THEN conjunct2, THEN conjunct2, THEN conjunct2,
      THEN spec, of s, THEN spec, of 0, THEN spec, of mode] that by simp
  note owner = this
  have "lfs_fill_super K vs v sb = None"
  proof -
    define v1 where "v1 = v\<lparr>v_sbs := (v_sbs v)(sb \<mapsto> b\<lparr>s_blocksize := vs, s_blocksize_bits := vs, s_magic := LFS_MAGIC, s_op := lfs_s_ops\<rparr>)\<rparr>"
    obtain v2 where "jifs_make_inode K v1 sb (S_IFDIR OR 0x1ED) simple_dir_operations = Some (0, v2)" "v_inodes v2 = v_inodes v1" using j(1) by blast
    moreover from this(2) have "v_inodes v2 0 = None" using assms(4) by (simp add: v1_def)
    ultimately show ?thesis using assms(2) owner [of v2] by (simp add: lfs_fill_super_def upd_sb_def j(2) flip: v1_def)
  qed
  moreover have "\<exists>v'. setup_sb K E v sb = Some (- ENOMEM_k, v')"
  proof -
    define v1 where "v1 = v\<lparr>v_sbs := (v_sbs v)(sb \<mapsto> b\<lparr>s_magic := JIFS_MAGIC, s_op := jifs_sops,
      s_maxbytes := jifs_max_size (MAX_LFS_FILESIZE E) (uint (s_blocksize_bits b)), s_time_gran := 1, s_export_op := jifs_export_ops, s_xattr := 0\<rparr>)\<rparr>"
    obtain v2 where "jifs_make_inode K v1 sb (S_IFDIR OR 0x1ED) simple_dir_operations = Some (0, v2)" using j(1) by blast
    then show ?thesis using assms(2) by (simp add: setup_sb_def upd_sb_def flip: v1_def)
  qed
  ultimately show ?thesis ..
qed

definition full_kernel :: "unit kernel" where
  "full_kernel = demo_kernel\<lparr>new_inode := (\<lambda>s sb. (0, s))\<rparr>"

theorem lwnfs_mount_null_root_witness:
  "lfs_fill_super full_kernel 4 demo_vfs 64 = None \<and> (\<exists>v'. setup_sb full_kernel demo_env demo_vfs 64 = Some (- ENOMEM_k, v'))"
proof (rule lwnfs_mount_null_root)
  show "kernel_ok full_kernel"
  proof -
    have "dentry_spec full_kernel = dentry_spec demo_kernel" "inode_spec full_kernel = inode_spec demo_kernel"
      unfolding dentry_spec_def inode_spec_def full_kernel_def by (simp_all cong: option.case_cong)
    moreover have "new_inode_spec full_kernel" by (simp add: new_inode_spec_def full_kernel_def)
    ultimately show ?thesis using demo_kernel_ok(1) by (simp add: kernel_ok_def)
  qed
  show "v_sbs demo_vfs 64 = Some demo_sb" "v_inodes demo_vfs 0 = None" by (simp_all add: demo_vfs_def)
  show "fst (new_inode full_kernel s 64) = 0" for s by (simp add: full_kernel_def)
qed

end
