(* ===== verification/Radix_Bench.thy ===== *)
theory Radix_Bench
  imports Radix_Iter Bench_Grid
begin

text \<open>
  The callers of the radix tree: the items of \<open>src/radix_tree/test.c\<close> and the benchmark of
  \<open>src/radix_tree/benchmark.c\<close>.  The state joins the tree with the live items.  A failed assertion
  ends the program and is \<^term>\<open>None\<close>, as a fault is; times come from a clock that is a parameter, and
  the messages are left out.
\<close>

section \<open>test.c\<close>

record item =
  it_index :: u64
  it_order :: u32

record bench =
  be_tree :: rt
  be_items :: "u64 \<rightharpoonup> item"
  be_avail :: "u64 list"

definition BITS_PER_LONG :: u32 where [c_consts]: "BITS_PER_LONG = 64"

text \<open>The result of \<open>malloc\<close> is used without a test.\<close>

definition item_create :: "bench \<Rightarrow> u64 \<Rightarrow> u32 \<Rightarrow> (u64 \<times> bench) option" where
  "item_create b index order = (case be_avail b of
     [] \<Rightarrow> None
   | a # as \<Rightarrow> if a = 0 then None
       else Some (a, b\<lparr>be_avail := as, be_items := (be_items b)(a \<mapsto> \<lparr>it_index = index, it_order = order\<rparr>)\<rparr>))"

definition free_item :: "bench \<Rightarrow> u64 \<Rightarrow> bench option" where
  "free_item b p = (if p = 0 then Some b
     else if p \<in> dom (be_items b) then Some (b\<lparr>be_items := (be_items b)(p := None)\<rparr>) else None)"

definition item_insert :: "bench \<Rightarrow> u64 \<Rightarrow> (int \<times> bench) option" where
  "item_insert b index = do {
     (item, b1) \<leftarrow> item_create b index 0;
     it \<leftarrow> be_items b1 item;
     (err, t) \<leftarrow> radix_tree_insert (be_tree b1) (it_index it) item;
     let b2 = b1\<lparr>be_tree := t\<rparr>;
     b3 \<leftarrow> (if err \<noteq> 0 then free_item b2 item else Some b2);
     Some (err, b3)
   }"

definition item_sanity :: "bench \<Rightarrow> u64 \<Rightarrow> u64 \<Rightarrow> unit option" where
  "item_sanity b item index = do {
     c_assert (\<not> radix_tree_is_internal_node item);
     it \<leftarrow> be_items b item;
     c_assert (it_order it < BITS_PER_LONG);
     let m = push_bit (unat (it_order it)) 1 - 1;
     c_assert ((it_index it OR m) = (index OR m))
   }"

definition item_free :: "bench \<Rightarrow> u64 \<Rightarrow> u64 \<Rightarrow> bench option" where
  "item_free b item index = free_item b item"

definition item_delete :: "bench \<Rightarrow> u64 \<Rightarrow> (int \<times> bench) option" where
  "item_delete b index = do {
     (item, t) \<leftarrow> radix_tree_delete (be_tree b) index;
     let b1 = b\<lparr>be_tree := t\<rparr>;
     if item = 0 then Some (0, b1)
     else do { b2 \<leftarrow> item_free b1 item index; Some (1, b2) }
   }"

definition item_check_present :: "bench \<Rightarrow> u64 \<Rightarrow> unit option" where
  "item_check_present b index = do {
     item \<leftarrow> radix_tree_lookup (be_tree b) index;
     c_assert (item \<noteq> 0);
     item_sanity b item index
   }"

definition item_lookup :: "bench \<Rightarrow> u64 \<Rightarrow> u64 option" where
  "item_lookup b index = radix_tree_lookup (be_tree b) index"

definition item_check_absent :: "bench \<Rightarrow> u64 \<Rightarrow> unit option" where
  "item_check_absent b index = do {
     item \<leftarrow> radix_tree_lookup (be_tree b) index;
     c_assert (item = 0)
   }"

text \<open>
  The loop of \<open>item_kill_tree\<close>.  Its test \<open>xa_is_value(slot)\<close> looks at the address of the slot, which is
  aligned, so that the entry is always freed.  The state of the body is the part of the memory that
  is not the tree.
\<close>

definition kill_body :: "bench \<Rightarrow> rt \<Rightarrow> radix_tree_iter \<Rightarrow> slot_ptr \<Rightarrow> (bench \<times> rt) option" where
  "kill_body b t iter slot = do {
     entry \<leftarrow> load_slot t slot;
     b1 \<leftarrow> free_item b entry;
     t1 \<leftarrow> radix_tree_replace_slot t slot 0;
     Some (b1, t1)
   }"

definition item_kill_tree :: "bench \<Rightarrow> radix_tree_iter \<Rightarrow> bench option" where
  "item_kill_tree b iter = do {
     (b1, t) \<leftarrow> radix_tree_for_each_slot kill_body b (be_tree b) iter 0;
     c_assert (radix_tree_empty t);
     Some (b1\<lparr>be_tree := t\<rparr>)
   }"

section \<open>benchmark.c\<close>

definition NSEC_PER_SEC :: int where [c_consts]: "NSEC_PER_SEC = 1000000000"

record timespec =
  tv_sec :: int
  tv_nsec :: int

definition elapsed :: "timespec \<Rightarrow> timespec \<Rightarrow> int" where
  "elapsed start finish = (tv_sec finish - tv_sec start) * NSEC_PER_SEC + (tv_nsec finish - tv_nsec start)"

text \<open>
  \<open>benchmark_iter\<close>: the address of each slot, which the layout of the memory decides, is folded into
  a sum that nobody reads; the result is the time of one round.
\<close>

definition sink_body :: "(slot_ptr \<Rightarrow> u64) \<Rightarrow> u64 \<Rightarrow> rt \<Rightarrow> radix_tree_iter \<Rightarrow> slot_ptr \<Rightarrow> (u64 \<times> rt) option" where
  "sink_body address sink t iter slot = Some (sink XOR address slot, t)"

definition benchmark_iter :: "(slot_ptr \<Rightarrow> u64) \<Rightarrow> timespec \<Rightarrow> timespec \<Rightarrow> bench \<Rightarrow> radix_tree_iter \<Rightarrow> int option" where
  "benchmark_iter address start finish b iter = do {
     (sink, t) \<leftarrow> radix_tree_for_each_slot (sink_body address) 0 (be_tree b) iter 0;
     Some (elapsed start finish)
   }"

partial_function (option) insert_loop :: "bench \<Rightarrow> u64 \<Rightarrow> u64 \<Rightarrow> u64 \<Rightarrow> bench option" where
  "insert_loop b index sz step = (if index < sz
     then do { (err, b1) \<leftarrow> item_insert b index; insert_loop b1 (index + step) sz step }
     else Some b)"

definition benchmark_insert :: "bench \<Rightarrow> u64 \<Rightarrow> u64 \<Rightarrow> bench option" where
  "benchmark_insert b sz step = insert_loop b 0 sz step"

partial_function (option) delete_loop :: "bench \<Rightarrow> u64 \<Rightarrow> u64 \<Rightarrow> u64 \<Rightarrow> bench option" where
  "delete_loop b index sz step = (if index < sz
     then do { (ret, b1) \<leftarrow> item_delete b index; delete_loop b1 (index + step) sz step }
     else Some b)"

definition benchmark_delete :: "bench \<Rightarrow> u64 \<Rightarrow> u64 \<Rightarrow> bench option" where
  "benchmark_delete b sz step = delete_loop b 0 sz step"

declare insert_loop.simps [code] delete_loop.simps [code]

text \<open>\<open>benchmark_size\<close> on a heap for the nodes and one for the items.\<close>

definition benchmark_size ::
  "(slot_ptr \<Rightarrow> u64) \<Rightarrow> timespec \<Rightarrow> timespec \<Rightarrow> radix_tree_iter \<Rightarrow> u64 list \<Rightarrow> u64 list \<Rightarrow> u64 \<Rightarrow> u64 \<Rightarrow> bench option" where
  "benchmark_size address start finish iter nodes items sz step = do {
     t \<leftarrow> radix_tree_root_alloc nodes;
     b1 \<leftarrow> benchmark_insert \<lparr>be_tree = t, be_items = Map.empty, be_avail = items\<rparr> sz step;
     normal \<leftarrow> benchmark_iter address start finish b1 iter;
     b2 \<leftarrow> benchmark_delete b1 sz step;
     item_kill_tree b2 iter
   }"

text \<open>
  \<open>my_benchmark\<close>: the values it prints, \<open>Some None\<close> where a deletion succeeded and there is no slot
  afterwards.  The items are the small numbers 2, 6 and 65, cast to pointers.
\<close>

definition print_slot :: "rt \<Rightarrow> u64 \<Rightarrow> u64 option" where
  "print_slot t index = do {
     slot \<leftarrow> radix_tree_lookup_slot t index;
     sl \<leftarrow> slot;
     load_slot t sl
   }"

definition delete_and_print :: "rt \<Rightarrow> u64 \<Rightarrow> (u64 option option \<times> rt) option" where
  "delete_and_print t index = do {
     (e, t1) \<leftarrow> radix_tree_delete t index;
     if e \<noteq> 0 then do {
       slot \<leftarrow> radix_tree_lookup_slot t1 index;
       case slot of None \<Rightarrow> Some (Some None, t1) | Some sl \<Rightarrow> do { v \<leftarrow> load_slot t1 sl; Some (Some (Some v), t1) }
     }
     else Some (None, t1)
   }"

definition my_benchmark :: "u64 list \<Rightarrow> (u64 \<times> u64 \<times> u64 option option \<times> u64 option option) option" where
  "my_benchmark nodes = do {
     t \<leftarrow> radix_tree_root_alloc nodes;
     (r1, t1) \<leftarrow> radix_tree_insert t 2 2;
     (r2, t2) \<leftarrow> radix_tree_insert t1 6 6;
     (r3, t3) \<leftarrow> radix_tree_insert t2 65 65;
     v1 \<leftarrow> print_slot t3 2;
     v2 \<leftarrow> print_slot t3 65;
     (v3, t4) \<leftarrow> delete_and_print t3 6;
     (v4, t5) \<leftarrow> delete_and_print t4 65;
     Some (v1, v2, v3, v4)
   }"

text \<open>
  The program, on the addresses that are left after each round.  The clock readings and the values
  that an iterator holds before its first use are the same for every round.
\<close>

definition benchmark_rt :: "(slot_ptr \<Rightarrow> u64) \<Rightarrow> timespec \<Rightarrow> timespec \<Rightarrow> radix_tree_iter \<Rightarrow> u64 list \<times> u64 list \<Rightarrow> (u64 list \<times> u64 list) option" where
  "benchmark_rt address start finish iter heap =
     for_nonzero (\<lambda>hp sz. for_nonzero (\<lambda>(nodes, items) step. do {
         b \<leftarrow> benchmark_size address start finish iter nodes items sz step;
         Some (rt_avail (be_tree b), be_avail b)
       }) hp [1, 2, 7, 15, 63, 64, 65, 128, 256, 512, 12345, 0]) heap [push_bit 10 1, push_bit 20 1, 0]"

end
