(* ===== verification/Radix_Bench_Props.thy ===== *)
theory Radix_Bench_Props
  imports Radix_Bench Radix_Iter_Props
begin

text \<open>
  The benchmark of the radix tree runs to its end: the items it allocates are exactly those in the
  tree, and the deletion phase gives all of them back.
\<close>

section \<open>Items and tree together\<close>

definition holds :: "bench \<Rightarrow> u64 set \<Rightarrow> (u64 \<Rightarrow> u64) \<Rightarrow> bool" where
  "holds b D f \<longleftrightarrow> rt_inv (be_tree b) \<and> (\<forall>j. radix_tree_lookup (be_tree b) j = Some (if j \<in> D then f j else 0))
     \<and> inj_on f D \<and> dom (be_items b) = f ` D \<and> (\<forall>j \<in> D. f j \<noteq> 0 \<and> be_items b (f j) = Some \<lparr>it_index = j, it_order = 0\<rparr>)"

text \<open>The next \<open>n\<close> results of \<open>malloc\<close> are new addresses.\<close>

definition item_room :: "bench \<Rightarrow> nat \<Rightarrow> bool" where
  "item_room b n \<longleftrightarrow> n \<le> length (be_avail b) \<and> distinct (take n (be_avail b)) \<and> 0 \<notin> set (take n (be_avail b))
     \<and> set (take n (be_avail b)) \<inter> dom (be_items b) = {}"

lemma item_insert_ok:
  assumes h: "holds b D f" and j: "j \<notin> D" and start: "rnode (be_tree b) \<noteq> 0"
    and room: "item_room b (Suc n)" and en: "enough (be_tree b) (20 + x)"
  shows "\<exists>b' a. item_insert b j = Some (0, b') \<and> holds b' (insert j D) (f(j := a)) \<and> rnode (be_tree b') \<noteq> 0
     \<and> item_room b' n \<and> enough (be_tree b') x \<and> (ready (be_tree b) j \<longrightarrow> full_but (be_tree b') {})"
proof -
  obtain a as where av: "be_avail b = a # as" using room by (cases "be_avail b") (auto simp: item_room_def)
  have a: "a \<noteq> 0" "be_items b a = None" "a \<notin> set (take n as)" using room av by (auto simp: item_room_def domIff)
  have inv: "rt_inv (be_tree b)" and look: "\<And>k. radix_tree_lookup (be_tree b) k = Some (if k \<in> D then f k else 0)"
    and items: "inj_on f D" "dom (be_items b) = f ` D" "\<forall>k \<in> D. f k \<noteq> 0 \<and> be_items b (f k) = Some \<lparr>it_index = k, it_order = 0\<rparr>"
    using h by (auto simp: holds_def)
  have "radix_tree_lookup (be_tree b) j = Some 0" using look j by simp
  with insert_lookup [OF inv _ a(1), of j] start en obtain t where t: "radix_tree_insert (be_tree b) j a = Some (0, t)" "rt_inv t"
    "\<forall>k. radix_tree_lookup t k = (if k = j then Some a else radix_tree_lookup (be_tree b) k)" "enough t x"
    by (auto simp: EEXIST_def)
  define b' where "b' = b\<lparr>be_avail := as, be_items := (be_items b)(a \<mapsto> \<lparr>it_index = j, it_order = 0\<rparr>), be_tree := t\<rparr>"
  have fresh: "a \<notin> f ` D" using a(2) items(2) by (auto simp: domIff)
  have "item_insert b j = Some (0, b')" using av a(1) t(1) by (simp add: item_insert_def item_create_def b'_def)
  moreover have "holds b' (insert j D) (f(j := a))"
    unfolding holds_def using t(2,3) look j items a fresh by (auto simp: b'_def inj_on_def)
  moreover have "rnode (be_tree b') \<noteq> 0" using present_root [OF t(2), of j] t(3) a(1) by (simp add: b'_def)
  moreover have "item_room b' n" using room av a(3) by (auto simp: item_room_def b'_def)
  moreover have "ready (be_tree b) j \<longrightarrow> full_but (be_tree b') {}" using insert_full [OF inv start a(1) t(1)] by (simp add: b'_def)
  ultimately show ?thesis using t(4) by (auto simp: b'_def)
qed

lemma item_delete_ok:
  assumes h: "holds b D f" and j: "j \<in> D"
  shows "\<exists>b'. item_delete b j = Some (1, b') \<and> holds b' (D - {j}) f \<and> (full_but (be_tree b) {} \<longrightarrow> full_but (be_tree b') {})"
proof -
  have inv: "rt_inv (be_tree b)" and look: "\<And>k. radix_tree_lookup (be_tree b) k = Some (if k \<in> D then f k else 0)"
    and items: "inj_on f D" "dom (be_items b) = f ` D" "\<forall>k \<in> D. f k \<noteq> 0 \<and> be_items b (f k) = Some \<lparr>it_index = k, it_order = 0\<rparr>"
    using h by (auto simp: holds_def)
  from delete_lookup [OF inv, of j "f j"] look j items(3) obtain t where t: "radix_tree_delete (be_tree b) j = Some (f j, t)" "rt_inv t"
    "\<forall>k. radix_tree_lookup t k = (if k = j then Some 0 else radix_tree_lookup (be_tree b) k)" by auto
  define b' where "b' = b\<lparr>be_tree := t, be_items := (be_items b)(f j := None)\<rparr>"
  have "item_delete b j = Some (1, b')"
    using t(1) items(2,3) j by (auto simp: item_delete_def item_free_def free_item_def b'_def)
  moreover have "holds b' (D - {j}) f"
    unfolding holds_def using t(2,3) look j items by (auto simp: b'_def inj_on_def)
  moreover have "full_but (be_tree b) {} \<longrightarrow> full_but (be_tree b') {}" using delete_full [OF t(1)] by (simp add: b'_def)
  ultimately show ?thesis by blast
qed

section \<open>The loops over the indices\<close>

lemma insert_loop_ok:
  assumes "step \<noteq> 0" "unat sz + unat step \<le> 2 ^ 64" and "holds b D f" "\<forall>j \<in> D. j < start" "rnode (be_tree b) \<noteq> 0"
    and "item_room b (card (grid start sz step))" "enough (be_tree b) (20 * card (grid start sz step))"
  shows "\<exists>b' f'. insert_loop b start sz step = Some b' \<and> holds b' (D \<union> grid start sz step) f'
     \<and> (ready (be_tree b) start \<and> (start < sz \<or> full_but (be_tree b) {}) \<longrightarrow> full_but (be_tree b') {})"
  using assms(3-)
proof (induction "unat sz - unat start" arbitrary: b D f start rule: less_induct)
  case less
  show ?case
  proof (cases "start < sz")
    case False
    then show ?thesis using less.prems(1) grid_empty [OF False] by (subst insert_loop.simps) auto
  next
    case True
    note g = grid_step [OF True assms(1,2)] grid_card [OF True assms(1,2)]
    have "start \<notin> D" using less.prems(2) by auto
    moreover have "enough (be_tree b) (20 + 20 * card (grid (start + step) sz step))" using less.prems(5) g(6) by simp
    ultimately obtain b1 a where b1: "item_insert b start = Some (0, b1)" "holds b1 (insert start D) (f(start := a))" "rnode (be_tree b1) \<noteq> 0"
      "item_room b1 (card (grid (start + step) sz step))" "enough (be_tree b1) (20 * card (grid (start + step) sz step))"
      "ready (be_tree b) start \<longrightarrow> full_but (be_tree b1) {}"
      using item_insert_ok [OF less.prems(1) _ less.prems(3)] less.prems(4) g(6) by metis
    have "\<forall>j \<in> insert start D. j < start + step" using less.prems(2) g(5) by auto
    from less.hyps [OF g(4) b1(2) this b1(3-5)] obtain b' f' where
      "insert_loop b1 (start + step) sz step = Some b'" "holds b' (insert start D \<union> grid (start + step) sz step) f'"
      "full_but (be_tree b1) {} \<longrightarrow> full_but (be_tree b') {}" by (auto simp: ready_def)
    with True b1(1,6) g(1) show ?thesis by (subst insert_loop.simps) auto
  qed
qed

lemma delete_loop_ok:
  assumes "step \<noteq> 0" "unat sz + unat step \<le> 2 ^ 64" and "holds b D f" "grid start sz step \<subseteq> D"
  shows "\<exists>b'. delete_loop b start sz step = Some b' \<and> holds b' (D - grid start sz step) f
     \<and> (full_but (be_tree b) {} \<longrightarrow> full_but (be_tree b') {})"
  using assms(3-)
proof (induction "unat sz - unat start" arbitrary: b D start rule: less_induct)
  case less
  show ?case
  proof (cases "start < sz")
    case False
    then show ?thesis using less.prems(1) grid_empty [OF False] by (subst delete_loop.simps) auto
  next
    case True
    note g = grid_step [OF True assms(1,2)]
    obtain b1 where b1: "item_delete b start = Some (1, b1)" "holds b1 (D - {start}) f"
      "full_but (be_tree b) {} \<longrightarrow> full_but (be_tree b1) {}"
      using item_delete_ok [OF less.prems(1), of start] less.prems(2) g(1) by blast
    have "grid (start + step) sz step \<subseteq> D - {start}" using less.prems(2) g(1,2) by auto
    from less.hyps [OF g(4) b1(2) this] obtain b' where
      "delete_loop b1 (start + step) sz step = Some b'" "holds b' (D - {start} - grid (start + step) sz step) f"
      "full_but (be_tree b1) {} \<longrightarrow> full_but (be_tree b') {}" by blast
    moreover have "D - {start} - grid (start + step) sz step = D - grid start sz step" using g(1) by auto
    ultimately show ?thesis using True b1(1,3) by (subst delete_loop.simps) simp
  qed
qed

section \<open>The iteration\<close>

text \<open>A loop whose body leaves the tree alone ends wherever the loop that collects the entries does.\<close>

lemma for_each_read_only:
  assumes "for_each_loop visit acc s slot iter = Some res" "\<And>x t i sl. body x t i sl = Some (g x i sl, t)"
  shows "\<exists>y. for_each_loop body x s slot iter = Some (y, s)"
proof -
  let ?P = "\<lambda>b acc s slot iter (res :: (u64 \<times> u64) list \<times> rt). b = visit \<longrightarrow> (\<forall>x. \<exists>y. for_each_loop body x s slot iter = Some (y, s))"
  have "?P visit acc s slot iter res"
  proof (rule for_each_loop.raw_induct [of ?P "((((visit, acc), s), slot), iter)" res, unfolded split_conv, OF _ assms(1)], intro impI allI)
    fix fe b acc s slot iter res x
    assume IH: "\<And>b acc s slot iter res. fe b acc s slot iter = Some res \<Longrightarrow> ?P b acc s slot iter res"
      and step: "(if slot \<noteq> None then Some (slot, iter) else radix_tree_next_chunk s iter 0) \<bind>
         (\<lambda>(slot1, iter1). case slot1 of None \<Rightarrow> Some (acc, s)
          | Some sl \<Rightarrow> b acc s iter1 sl \<bind> (\<lambda>(x1, s1). radix_tree_next_slot s1 slot1 iter1 0 \<bind>
              (\<lambda>(slot2, iter2). fe b x1 s1 slot2 iter2))) = Some res"
      and b: "b = visit"
    from step obtain slot1 iter1 where c: "(if slot \<noteq> None then Some (slot, iter) else radix_tree_next_chunk s iter 0) = Some (slot1, iter1)"
      by (auto simp: bind_eq_Some_conv)
    show "\<exists>y. for_each_loop body x s slot iter = Some (y, s)"
    proof (cases slot1)
      case None
      with c show ?thesis by (subst for_each_loop.simps) simp
    next
      case (Some sl)
      with step c b obtain x1 slot2 iter2 where "radix_tree_next_slot s slot1 iter1 0 = Some (slot2, iter2)" "fe visit x1 s slot2 iter2 = Some res"
        by (auto simp: bind_eq_Some_conv visit_def)
      with c Some IH show ?thesis by (subst for_each_loop.simps) (simp add: assms(2))
    qed
  qed
  then show ?thesis by blast
qed

lemma benchmark_iter_ok:
  assumes "rt_inv (be_tree b)"
  shows "benchmark_iter address start finish b iter = Some (elapsed start finish)"
proof -
  obtain xs where "for_each_loop visit [] (be_tree b) None (iter\<lparr>iter_index := 0, iter_next_index := 0\<rparr>) = Some (xs, be_tree b)"
    using for_each_ok [OF assms, of 0 iter] by (auto simp: visits_def radix_tree_for_each_slot_def radix_tree_iter_init_def)
  from for_each_read_only [OF this, of "sink_body address" "\<lambda>sink it sl. sink XOR address sl" 0] obtain y where
    "for_each_loop (sink_body address) 0 (be_tree b) None (iter\<lparr>iter_index := 0, iter_next_index := 0\<rparr>) = Some (y, be_tree b)"
    by (auto simp: sink_body_def)
  then show ?thesis by (simp add: benchmark_iter_def radix_tree_for_each_slot_def radix_tree_iter_init_def)
qed

lemma for_each_none:
  assumes "rt_inv s" "\<And>i. radix_tree_lookup s i = Some 0"
  shows "radix_tree_for_each_slot body x s iter 0 = Some (x, s)"
proof -
  let ?i = "iter\<lparr>iter_index := 0, iter_next_index := 0\<rparr>"
  have none: "\<not> content s j e" if "j < 2 ^ 64" for j e
    using absent_iff [OF assms(1), of "of_nat j"] assms(2) that by (simp add: unat_of_nat)
  from next_chunk_ok [OF assms(1), of ?i] consider "radix_tree_next_chunk s ?i 0 = Some (None, ?i)"
    | p d j it where "at_entry s it p d j" unfolding chunk_post_def by auto
  then show ?thesis
  proof cases
    case 1
    then show ?thesis
      using for_each_chunk [of s ?i None ?i body x] by (simp add: radix_tree_for_each_slot_def radix_tree_iter_init_def)
  next
    case 2
    then have "j < 2 ^ 64" "\<exists>e. content s j e" using unat_lt_2p64 [of "iter_index it"] by (auto simp: at_entry_def content_def)
    with none show ?thesis by blast
  qed
qed

lemma item_kill_tree_empty:
  assumes "holds b {} f"
  shows "item_kill_tree b iter = (if radix_tree_empty (be_tree b) then Some b else None)"
    and "full_but (be_tree b) {} \<Longrightarrow> radix_tree_empty (be_tree b)"
proof -
  have e: "rt_inv (be_tree b)" "\<And>i. radix_tree_lookup (be_tree b) i = Some 0" using assms by (auto simp: holds_def)
  then have "radix_tree_for_each_slot kill_body b (be_tree b) iter 0 = Some (b, be_tree b)" by (rule for_each_none)
  then show "item_kill_tree b iter = (if radix_tree_empty (be_tree b) then Some b else None)"
    by (simp add: item_kill_tree_def c_assert_def)
  show "full_but (be_tree b) {} \<Longrightarrow> radix_tree_empty (be_tree b)" using full_empty [OF e(1) _ e(2)] .
qed

section \<open>Property\<close>

text \<open>
  C39. The benchmark runs to its end, for every size and every step, neither of them 0, whose sum does
  not wrap around, with twenty node allocations per item: after the insertion phase the tree holds one item
  under each multiple of the step below the size, and these items are all that is allocated; the
  iteration ends; the deletion phase frees every item, empties the tree and leaves no node that is
  not queued for release, so that \<open>item_kill_tree\<close> has nothing to do and its assertion that the tree
  is empty holds.  With size 0 that assertion fails: the first node was never used and is still
  the root.
\<close>

theorem radix_benchmark_phases:
  assumes "heap_ok nodes" "0 \<notin> set nodes" "2 + 20 * card (grid 0 sz step) \<le> length nodes"
    and "step \<noteq> 0" "unat sz + unat step \<le> 2 ^ 64"
    and "distinct items" "0 \<notin> set items" "card (grid 0 sz step) \<le> length items"
  shows "if sz = 0 then benchmark_size address start finish iter nodes items sz step = None
     else \<exists>t b1 f b2. radix_tree_root_alloc nodes = Some t
     \<and> benchmark_insert \<lparr>be_tree = t, be_items = Map.empty, be_avail = items\<rparr> sz step = Some b1 \<and> holds b1 {j. j < sz \<and> unat step dvd unat j} f
     \<and> benchmark_iter address start finish b1 iter = Some (elapsed start finish)
     \<and> benchmark_delete b1 sz step = Some b2 \<and> be_items b2 = Map.empty \<and> radix_tree_empty (be_tree b2)
     \<and> dom (rt_nodes (be_tree b2)) = set (rt_rcu (be_tree b2))
     \<and> benchmark_size address start finish iter nodes items sz step = Some b2"
proof -
  from root_alloc_heap [OF assms(1)] obtain t where t: "radix_tree_root_alloc nodes = Some t" "rt_inv t" "rnode t \<noteq> 0" "rt_avail t = drop 2 nodes"
    "\<And>i. radix_tree_lookup t i = Some 0" by blast
  let ?b = "\<lparr>be_tree = t, be_items = Map.empty, be_avail = items\<rparr>"
  have g: "grid 0 sz step = {j. j < sz \<and> unat step dvd unat j}" by (simp add: grid_def)
  have h: "holds ?b {} id" using t by (simp add: holds_def)
  show ?thesis
  proof (cases "sz = 0")
    case True
    have "insert_loop ?b 0 0 step = Some ?b" "delete_loop ?b 0 0 step = Some ?b"
      by (subst insert_loop.simps delete_loop.simps; simp)+
    moreover have "benchmark_iter address start finish ?b iter = Some (elapsed start finish)"
      using t(2) by (intro benchmark_iter_ok) simp
    moreover have "item_kill_tree ?b iter = None"
      using item_kill_tree_empty(1) [OF h] t(3) by (simp add: radix_tree_empty_def)
    ultimately show ?thesis using t(1) True
      by (simp add: benchmark_size_def benchmark_insert_def benchmark_delete_def)
  next
    case False
    then have pos: "0 < sz" by (simp add: word_gt_0)
    have "item_room ?b (card (grid 0 sz step))" using assms(6-8) by (auto simp: item_room_def dest: in_set_takeD)
    moreover have "enough t (20 * card (grid 0 sz step))"
      using t(4) assms(2,3) by (auto simp: enough_def dest!: in_set_takeD in_set_dropD)
    ultimately obtain b1 f where b1: "insert_loop ?b 0 sz step = Some b1" "holds b1 (grid 0 sz step) f" "full_but (be_tree b1) {}"
      using insert_loop_ok [OF assms(4,5) h, of 0] t(3) root_alloc_ready [OF assms(1) t(1)] pos by auto
    from delete_loop_ok [OF assms(4,5) b1(2) order_refl] b1(3) obtain b2 where
      b2: "delete_loop b1 0 sz step = Some b2" "holds b2 {} f" "full_but (be_tree b2) {}" by auto
    have it: "benchmark_iter address start finish b1 iter = Some (elapsed start finish)"
      using b1(2) by (intro benchmark_iter_ok) (simp add: holds_def)
    have em: "radix_tree_empty (be_tree b2)" by (rule item_kill_tree_empty(2) [OF b2(2,3)])
    then have "benchmark_size address start finish iter nodes items sz step = Some b2"
      using t(1) b1(1) it b2(1) item_kill_tree_empty(1) [OF b2(2)] by (simp add: benchmark_size_def benchmark_insert_def benchmark_delete_def)
    moreover have "be_items b2 = Map.empty" "rt_inv (be_tree b2)" using b2(2) by (simp_all add: holds_def)
    ultimately show ?thesis
      using t(1) b1(1,2) it b2(1) em empty_released [of "be_tree b2"] False
      unfolding g benchmark_insert_def benchmark_delete_def by auto
  qed
qed

definition demo_clock :: "int \<Rightarrow> timespec" where "demo_clock n = \<lparr>tv_sec = n, tv_nsec = 0\<rparr>"

theorem radix_benchmark_phases_witness:
  "\<exists>t b1 b2. radix_tree_root_alloc demo_heap = Some t
     \<and> benchmark_insert \<lparr>be_tree = t, be_items = Map.empty, be_avail = [16, 32]\<rparr> 130 65 = Some b1 \<and> radix_tree_lookup (be_tree b1) 65 \<noteq> Some 0
     \<and> benchmark_iter (\<lambda>_. 0) (demo_clock 1) (demo_clock 2) b1 demo_iter = Some 1000000000
     \<and> benchmark_delete b1 130 65 = Some b2 \<and> be_items b2 = Map.empty \<and> radix_tree_empty (be_tree b2)
     \<and> dom (rt_nodes (be_tree b2)) = set (rt_rcu (be_tree b2))"
proof -
  have "card (grid 0 130 65) = 2" using grid_card [of 0 130 65] grid_card [of 65 130 65] grid_empty [of 130 130 65] by simp
  moreover have "0 \<notin> set demo_heap" "length demo_heap = 64" by (simp_all add: demo_heap_def)
  ultimately obtain t b1 f b2 where b: "radix_tree_root_alloc demo_heap = Some t"
    "benchmark_insert \<lparr>be_tree = t, be_items = Map.empty, be_avail = [16, 32]\<rparr> 130 65 = Some b1" "holds b1 {j. j < 130 \<and> unat (65 :: u64) dvd unat j} f"
    "benchmark_iter (\<lambda>_. 0) (demo_clock 1) (demo_clock 2) b1 demo_iter = Some (elapsed (demo_clock 1) (demo_clock 2))"
    "benchmark_delete b1 130 65 = Some b2" "be_items b2 = Map.empty" "radix_tree_empty (be_tree b2)"
    "dom (rt_nodes (be_tree b2)) = set (rt_rcu (be_tree b2))"
    using radix_benchmark_phases [OF demo_heap_ok, of 130 65 "[16, 32]" "\<lambda>_. 0" "demo_clock 1" "demo_clock 2" demo_iter] by auto
  moreover have "radix_tree_lookup (be_tree b1) 65 \<noteq> Some 0" using b(3) by (auto simp: holds_def)
  ultimately show ?thesis by (auto simp: elapsed_def demo_clock_def NSEC_PER_SEC_def)
qed

end
