(* ===== verification/Page_Flags.thy ===== *)
theory Page_Flags
  imports Prelude "HOL-Library.Signed_Division"
begin

text \<open>
  \<open>src/tools/page_flags_interpreter.c\<close>: prints the names of the page flags that are set in a
  number given on the command line.
\<close>

definition PG_flag_string :: "string list" where
  "PG_flag_string = [''PG_locked'', ''PG_referenced'', ''PG_uptodate'', ''PG_dirty'', ''PG_lru'', ''PG_active'', ''PG_workingset'',
     ''PG_waiters'', ''PG_error'', ''PG_slab'', ''PG_owner_priv_1'', ''PG_arch_1'', ''PG_reserved'', ''PG_private'', ''PG_private_2'',
     ''PG_writeback'', ''PG_head'', ''PG_mappedtodisk'', ''PG_reclaim'', ''PG_swapbacked'', ''PG_unevictable'']"

datatype pageflags = PG_locked | PG_referenced | PG_uptodate | PG_dirty | PG_lru | PG_active | PG_workingset | PG_waiters | PG_error
  | PG_slab | PG_owner_priv_1 | PG_arch_1 | PG_reserved | PG_private | PG_private_2 | PG_writeback | PG_head | PG_mappedtodisk
  | PG_reclaim | PG_swapbacked | PG_unevictable

text \<open>The value of an enumerator, without the optional ones that only follow it.\<close>

definition all_pageflags :: "pageflags list" where
  "all_pageflags = [PG_locked, PG_referenced, PG_uptodate, PG_dirty, PG_lru, PG_active, PG_workingset, PG_waiters, PG_error, PG_slab,
     PG_owner_priv_1, PG_arch_1, PG_reserved, PG_private, PG_private_2, PG_writeback, PG_head, PG_mappedtodisk, PG_reclaim, PG_swapbacked, PG_unevictable]"

text \<open>
  The loop of \<open>main\<close> from step \<open>i\<close> on: the lines printed.  The remainder and the quotient of an \<open>int\<close>
  truncate towards zero.
\<close>

function flag_loop :: "nat \<Rightarrow> int \<Rightarrow> string list" where
  "flag_loop i flags = (if i < 21
     then (if flags smod 2 \<noteq> 0 then [PG_flag_string ! i] else []) @ flag_loop (Suc i) (flags sdiv 2)
     else [])"
  by pat_completeness auto
termination by (relation "measure (\<lambda>(i, _). 21 - i)") auto

declare flag_loop.simps [simp del]

text \<open>The program, with the number that \<open>atoi\<close> makes of its argument; \<open>None\<close> where there is no argument.\<close>

definition main_page_flags :: "(string \<Rightarrow> int) \<Rightarrow> string list \<Rightarrow> string list option" where
  "main_page_flags atoi argv = (if 1 < length argv then Some (flag_loop 0 (atoi (argv ! 1))) else None)"

section \<open>Properties\<close>

lemma flag_loop_nonneg:
  assumes "0 \<le> flags" "i + k = 21"
  shows "flag_loop i flags = map (\<lambda>j. PG_flag_string ! j) (filter (\<lambda>j. bit flags (j - i)) [i..<21])"
  using assms
proof (induction k arbitrary: i flags)
  case 0
  then show ?case by (subst flag_loop.simps) simp
next
  case (Suc k)
  then have i: "i < 21" and up: "[i..<21] = i # [Suc i..<21]" by (simp_all add: upt_conv_Cons)
  have d: "flags sdiv 2 = flags div 2" "flags smod 2 = flags mod 2"
    using Suc.prems(1) by (simp_all add: signed_divide_int_def signed_modulo_int_def sgn_if)
  have "bit (flags div 2) (j - Suc i) = bit flags (j - i)" if "j \<in> set [Suc i..<21]" for j
    using that by (simp add: Suc_diff_Suc flip: bit_Suc)
  then have "filter (\<lambda>j. bit (flags div 2) (j - Suc i)) [Suc i..<21] = filter (\<lambda>j. bit flags (j - i)) [Suc i..<21]"
    by (rule filter_cong [OF refl])
  moreover have "flags mod 2 \<noteq> 0 \<longleftrightarrow> bit flags 0" by (simp add: bit_0 odd_iff_mod_2_eq_one)
  ultimately show ?case
    using Suc.IH [of "flags div 2" "Suc i"] Suc.prems i up by (subst flag_loop.simps) (simp add: d)
qed

text \<open>The name of each enumerator, which the table of strings is to give at its position.\<close>

fun flag_name :: "pageflags \<Rightarrow> string" where
  "flag_name PG_locked = ''PG_locked''"
| "flag_name PG_referenced = ''PG_referenced''"
| "flag_name PG_uptodate = ''PG_uptodate''"
| "flag_name PG_dirty = ''PG_dirty''"
| "flag_name PG_lru = ''PG_lru''"
| "flag_name PG_active = ''PG_active''"
| "flag_name PG_workingset = ''PG_workingset''"
| "flag_name PG_waiters = ''PG_waiters''"
| "flag_name PG_error = ''PG_error''"
| "flag_name PG_slab = ''PG_slab''"
| "flag_name PG_owner_priv_1 = ''PG_owner_priv_1''"
| "flag_name PG_arch_1 = ''PG_arch_1''"
| "flag_name PG_reserved = ''PG_reserved''"
| "flag_name PG_private = ''PG_private''"
| "flag_name PG_private_2 = ''PG_private_2''"
| "flag_name PG_writeback = ''PG_writeback''"
| "flag_name PG_head = ''PG_head''"
| "flag_name PG_mappedtodisk = ''PG_mappedtodisk''"
| "flag_name PG_reclaim = ''PG_reclaim''"
| "flag_name PG_swapbacked = ''PG_swapbacked''"
| "flag_name PG_unevictable = ''PG_unevictable''"

text \<open>
  C36. For a flag word that is not negative the program prints exactly the names of the flags whose
  bit is set, in the order of their positions in the enumeration, each once: the division loop is
  equivalent to a test of the bits.  The table of names has at each position the name of the
  enumerator of that value.
\<close>

theorem page_flags_are_bits:
  assumes "0 \<le> atoi arg"
  shows "main_page_flags atoi [prog, arg] = Some (map (\<lambda>j. PG_flag_string ! j) (filter (bit (atoi arg)) [0..<length all_pageflags]))
     \<and> PG_flag_string = map flag_name all_pageflags"
proof -
  have "length all_pageflags = 21" by (simp add: all_pageflags_def)
  then have "flag_loop 0 (atoi arg) = map (\<lambda>j. PG_flag_string ! j) (filter (bit (atoi arg)) [0..<length all_pageflags])"
    using flag_loop_nonneg [OF assms, of 0 21] by (simp only: diff_zero add_0)
  moreover have "PG_flag_string = map flag_name all_pageflags" by (simp add: PG_flag_string_def all_pageflags_def)
  ultimately show ?thesis unfolding main_page_flags_def by simp
qed

theorem page_flags_are_bits_witness:
  "main_page_flags (\<lambda>_. 0x21) [''p'', ''33''] = Some [''PG_locked'', ''PG_active'']"
proof -
  have "filter (bit (0x21 :: int)) [0..<length all_pageflags] = [0, 5]" by code_simp
  then show ?thesis using page_flags_are_bits [of "\<lambda>_. 0x21" "''33''" "''p''"] by (simp add: PG_flag_string_def)
qed

end
