(* ===== verification/Virtual_Device.thy ===== *)
theory Virtual_Device
  imports Vfs
begin

text \<open>
  The character device of \<open>src/device/virtual_device/virtual_device.c\<close>: one buffer of 1024 bytes that
  a write fills and a read copies out.  The registration of the driver and \<open>kmalloc\<close> belong to the
  kernel and are parameters, as are the copies from and to user space; messages are left out.
\<close>

section \<open>The driver\<close>

record 'k vdev =
  vd_buffer :: u64
  vd_mem :: "u64 \<rightharpoonup> string"
  vd_kern :: 'k

record 'k vd_kernel =
  register_chrdev :: "'k \<Rightarrow> nat \<Rightarrow> string \<Rightarrow> int \<times> 'k"
  unregister_chrdev :: "'k \<Rightarrow> nat \<Rightarrow> string \<Rightarrow> 'k"
  vd_kmalloc :: "'k \<Rightarrow> nat \<Rightarrow> u64 \<times> 'k"

definition VD_SIZE :: nat where [c_consts]: "VD_SIZE = 1024"

definition virtual_device_open :: "'k vdev \<Rightarrow> int \<times> 'k vdev" where
  "virtual_device_open s = (0, s)"

definition virtual_device_release :: "'k vdev \<Rightarrow> int \<times> 'k vdev" where
  "virtual_device_release s = (0, s)"

text \<open>
  A write copies \<open>count\<close> bytes into the buffer whatever its size, ignores whether the copy was
  complete and returns the count: a copy of more bytes than there are in the buffer leaves it.
\<close>

definition virtual_device_write :: "'u uaccess \<Rightarrow> 'k vdev \<Rightarrow> 'u \<Rightarrow> u64 \<Rightarrow> u64 \<Rightarrow> (int \<times> 'k vdev) option" where
  "virtual_device_write U s user buf cnt = do {
     old \<leftarrow> vd_mem s (vd_buffer s);
     if unat cnt > length old then None
     else do {
       let (left, bytes) = copy_from_user U user buf (unat cnt);
       let copied = take (unat cnt) bytes;
       Some (sint cnt, s\<lparr>vd_mem := (vd_mem s)(vd_buffer s \<mapsto> copied @ drop (length copied) old)\<rparr>)
     }
   }"

text \<open>A read copies all 1024 bytes whatever the count, and returns the count.\<close>

definition virtual_device_read :: "'u uaccess \<Rightarrow> 'k vdev \<Rightarrow> 'u \<Rightarrow> u64 \<Rightarrow> u64 \<Rightarrow> (int \<times> 'u \<times> 'k vdev) option" where
  "virtual_device_read U s user buf cnt = do {
     bytes \<leftarrow> vd_mem s (vd_buffer s);
     if VD_SIZE > length bytes then None
     else do {
       let (left, user1) = copy_to_user U user buf (take VD_SIZE bytes);
       Some (sint cnt, user1, s)
     }
   }"

text \<open>The result of the registration is only reported; a failed allocation leaves the buffer NULL.\<close>

definition virtual_device_init :: "'k vd_kernel \<Rightarrow> 'k vdev \<Rightarrow> int \<times> 'k vdev" where
  "virtual_device_init K s = (case register_chrdev K (vd_kern s) 255 ''virtual_device'' of (r, k1) \<Rightarrow>
     (case vd_kmalloc K k1 VD_SIZE of (p, k2) \<Rightarrow>
        let s1 = s\<lparr>vd_buffer := p, vd_kern := k2\<rparr> in
        if p \<noteq> 0 then (0, s1\<lparr>vd_mem := (vd_mem s1)(p \<mapsto> replicate VD_SIZE (CHR 0x00))\<rparr>)
        else (0, s1)))"

definition virtual_device_exit :: "'k vd_kernel \<Rightarrow> 'k vdev \<Rightarrow> 'k vdev option" where
  "virtual_device_exit K s = (let s1 = s\<lparr>vd_kern := unregister_chrdev K (vd_kern s) 255 ''virtual_device''\<rparr> in
     if vd_buffer s1 = 0 then Some s1
     else if vd_buffer s1 \<in> dom (vd_mem s1) then Some (s1\<lparr>vd_mem := (vd_mem s1)(vd_buffer s1 := None)\<rparr>) else None)"

section \<open>Sequences of writes\<close>

text \<open>The states of user memory, addresses and counts of the writes; and the abstract content of the buffer.\<close>

fun write_all :: "'u uaccess \<Rightarrow> 'k vdev \<Rightarrow> ('u \<times> u64 \<times> u64) list \<Rightarrow> 'k vdev option" where
  "write_all U s [] = Some s"
| "write_all U s ((user, buf, cnt) # ws) = do { (n, s1) \<leftarrow> virtual_device_write U s user buf cnt; write_all U s1 ws }"

definition overlay :: "string \<Rightarrow> string \<Rightarrow> string" where
  "overlay old new = new @ drop (length new) old"

definition complete :: "'u uaccess \<Rightarrow> 'u \<times> u64 \<times> u64 \<Rightarrow> bool" where
  "complete U = (\<lambda>(user, buf, cnt). fst (copy_from_user U user buf (unat cnt)) = 0
     \<and> length (snd (copy_from_user U user buf (unat cnt))) = unat cnt)"

definition bytes_of :: "'u uaccess \<Rightarrow> 'u \<times> u64 \<times> u64 \<Rightarrow> string" where
  "bytes_of U = (\<lambda>(user, buf, cnt). snd (copy_from_user U user buf (unat cnt)))"

lemma overlay_length: "length new \<le> length old \<Longrightarrow> length (overlay old new) = length old"
  by (simp add: overlay_def)

lemma write_all_ok:
  assumes "vd_mem s (vd_buffer s) = Some old" "\<forall>w \<in> set ws. complete U w \<and> unat (snd (snd w)) \<le> length old"
  shows "write_all U s ws = Some (s\<lparr>vd_mem := (vd_mem s)(vd_buffer s \<mapsto> foldl overlay old (map (bytes_of U) ws))\<rparr>)"
  using assms
proof (induction ws arbitrary: s old)
  case Nil
  then show ?case by (simp add: fun_upd_idem)
next
  case (Cons w ws)
  obtain user buf cnt where w: "w = (user, buf, cnt)" by (cases w)
  let ?b = "bytes_of U w"
  have len: "length ?b = unat cnt" "unat cnt \<le> length old" using Cons.prems(2) w by (auto simp: complete_def bytes_of_def)
  let ?s = "s\<lparr>vd_mem := (vd_mem s)(vd_buffer s \<mapsto> overlay old ?b)\<rparr>"
  have "virtual_device_write U s user buf cnt = Some (sint cnt, ?s)"
    using Cons.prems(1) w len by (auto simp: virtual_device_write_def bytes_of_def overlay_def split: prod.split)
  moreover have "write_all U ?s ws = Some (?s\<lparr>vd_mem := (vd_mem ?s)(vd_buffer ?s \<mapsto> foldl overlay (overlay old ?b) (map (bytes_of U) ws))\<rparr>)"
    by (rule Cons.IH) (use Cons.prems(2) len overlay_length [of ?b old] in auto)
  ultimately show ?case by (simp add: w) (simp add: fun_upd_def)
qed

lemma foldl_overlay_length:
  "\<forall>b \<in> set bs. length b \<le> length old \<Longrightarrow> length (foldl overlay old bs) = length old"
  by (induction bs arbitrary: old) (simp_all add: overlay_length)

section \<open>Property\<close>

text \<open>
  C37. After a successful initialisation, any sequence of writes of at most 1024 bytes runs, and a
  read then hands out the 1024 zeros overlaid by the writes in their order: a later, shorter write
  keeps the tail of an earlier one.  A write of more than 1024 bytes leaves the buffer, whatever
  was written before.  Unloading gives the buffer back.
\<close>

theorem virtual_device_echo:
  assumes "uaccess_spec U" "\<forall>w \<in> set ws. complete U w \<and> unat (snd (snd w)) \<le> 1024"
    and "vd_buffer (snd (virtual_device_init K s)) \<noteq> 0" "fst (copy_to_user U user buf (foldl overlay (replicate 1024 (CHR 0x00)) (map (bytes_of U) ws))) = 0"
    and "1024 < unat big"
  shows "\<exists>s1 user1 s2. write_all U (snd (virtual_device_init K s)) ws = Some s1
     \<and> virtual_device_read U s1 user buf cnt = Some (sint cnt, user1, s1)
     \<and> copy_from_user U user1 buf 1024 = (0, foldl overlay (replicate 1024 (CHR 0x00)) (map (bytes_of U) ws))
     \<and> virtual_device_write U s1 user2 buf2 big = None
     \<and> virtual_device_exit K s1 = Some s2 \<and> vd_mem s2 = (vd_mem s)(vd_buffer s1 := None)"
proof -
  let ?s = "snd (virtual_device_init K s)" and ?z = "replicate 1024 (CHR 0x00)"
  let ?c = "foldl overlay ?z (map (bytes_of U) ws)"
  have i: "vd_mem ?s = (vd_mem s)(vd_buffer ?s \<mapsto> ?z)"
    using assms(3) by (auto simp: virtual_device_init_def VD_SIZE_def Let_def split: prod.splits if_splits)
  then have w: "write_all U ?s ws = Some (?s\<lparr>vd_mem := (vd_mem ?s)(vd_buffer ?s \<mapsto> ?c)\<rparr>)"
    using assms(2) by (intro write_all_ok) auto
  have len: "length ?c = 1024"
    using assms(2) foldl_overlay_length [of "map (bytes_of U) ws" ?z] by (fastforce simp: complete_def bytes_of_def)
  let ?s1 = "?s\<lparr>vd_mem := (vd_mem ?s)(vd_buffer ?s \<mapsto> ?c)\<rparr>"
  obtain user1 where u: "copy_to_user U user buf ?c = (0, user1)" using assms(4) by (metis prod.collapse)
  then have "copy_from_user U user1 buf 1024 = (0, ?c)" using assms(1) len unfolding uaccess_spec_def by (metis fst_conv snd_conv)
  moreover have "virtual_device_read U ?s1 user buf cnt = Some (sint cnt, user1, ?s1)"
    using u len by (simp add: virtual_device_read_def VD_SIZE_def)
  moreover have "virtual_device_write U ?s1 user2 buf2 big = None" using assms(5) len by (simp add: virtual_device_write_def)
  moreover have "\<exists>s2. virtual_device_exit K ?s1 = Some s2 \<and> vd_mem s2 = (vd_mem s)(vd_buffer ?s1 := None)"
    using assms(3) i by (simp add: virtual_device_exit_def Let_def)
  ultimately show ?thesis using w by blast
qed

text \<open>A kernel with one free object, and a user space that is one array.\<close>

definition demo_vd :: "unit vd_kernel" where
  "demo_vd = \<lparr>register_chrdev = (\<lambda>k _ _. (0, k)), unregister_chrdev = (\<lambda>k _ _. k), vd_kmalloc = (\<lambda>k _. (64, k))\<rparr>"

definition demo_user :: "string uaccess" where
  "demo_user = \<lparr>copy_to_user = (\<lambda>u _ xs. (0, xs @ drop (length xs) u)), copy_from_user = (\<lambda>u _ n. (0, take n u))\<rparr>"

definition demo_vdev :: "unit vdev" where "demo_vdev = \<lparr>vd_buffer = 0, vd_mem = Map.empty, vd_kern = ()\<rparr>"

theorem virtual_device_echo_witness:
  "\<exists>s1 user1. write_all demo_user (snd (virtual_device_init demo_vd demo_vdev)) [(''hello'', 0, 5), (''J'', 0, 1)] = Some s1
     \<and> virtual_device_read demo_user s1 [] 0 5 = Some (5, user1, s1) \<and> copy_from_user demo_user user1 0 1024 = (0, ''Jello'' @ replicate 1019 (CHR 0x00))
     \<and> virtual_device_write demo_user s1 [] 0 2000 = None"
proof -
  have "uaccess_spec demo_user" by (simp add: uaccess_spec_def demo_user_def)
  moreover have "vd_buffer (snd (virtual_device_init demo_vd demo_vdev)) \<noteq> 0"
    by (simp add: virtual_device_init_def demo_vd_def demo_vdev_def)
  moreover have b: "map (bytes_of demo_user) [(''hello'', 0, 5), (''J'', 0, 1)] = [''hello'', ''J'']"
    by (simp add: bytes_of_def demo_user_def)
  moreover have "foldl overlay (replicate 1024 (CHR 0x00)) [''hello'', ''J''] = ''Jello'' @ replicate 1019 (CHR 0x00)"
    by (simp add: overlay_def drop_replicate)
  ultimately show ?thesis
    using virtual_device_echo [of demo_user "[(''hello'', 0, 5), (''J'', 0, 1)]" demo_vd demo_vdev "[]" 0 2000 5 "[]" 0]
    by (auto simp: complete_def demo_user_def)
qed

end
