(* ===== verification/Crypto_Filter.thy ===== *)
theory Crypto_Filter
  imports Vfs
begin

text \<open>
  The module \<open>src/kernel_modules/crypto/my_crypto.c\<close>: a digest of four bytes of text is folded into a
  bitmap.  The kernel's allocator and its crypto interface are parameters; what the module prints is
  the result.
\<close>

section \<open>The module\<close>

type_synonym u8 = "8 word"

record 'k crypto =
  cr_kmalloc :: "'k \<Rightarrow> nat \<Rightarrow> u64 \<times> 'k"
  cr_kfree :: "'k \<Rightarrow> u64 \<Rightarrow> 'k"
  cr_kzalloc :: "'k \<Rightarrow> nat \<Rightarrow> u64 \<times> 'k"
  crypto_alloc_shash :: "'k \<Rightarrow> string \<Rightarrow> (int + u64) \<times> 'k"
  crypto_free_shash :: "'k \<Rightarrow> u64 \<Rightarrow> 'k"
  crypto_shash_descsize :: "u64 \<Rightarrow> nat"
  crypto_shash_digestsize :: "u64 \<Rightarrow> nat"
  crypto_shash_digest :: "'k \<Rightarrow> u64 \<Rightarrow> string \<Rightarrow> int \<times> u8 list \<times> 'k"
  sizeof_shash_desc :: nat

text \<open>The live \<open>sdesc\<close> objects, by address, with the algorithm in their \<open>shash.tfm\<close>.\<close>

record 'k cstate =
  cs_sdescs :: "u64 \<rightharpoonup> u64"
  cs_kern :: 'k

definition init_sdesc :: "'k crypto \<Rightarrow> 'k cstate \<Rightarrow> u64 \<Rightarrow> (int + u64) \<times> 'k cstate" where
  "init_sdesc C s alg = (case cr_kmalloc C (cs_kern s) (sizeof_shash_desc C + crypto_shash_descsize C alg) of (sdesc, k1) \<Rightarrow>
     if sdesc = 0 then (Inl (- ENOMEM_k), s\<lparr>cs_kern := k1\<rparr>)
     else (Inr sdesc, s\<lparr>cs_kern := k1, cs_sdescs := (cs_sdescs s)(sdesc \<mapsto> alg)\<rparr>))"

text \<open>The digest is written over the front of the caller's array.\<close>

definition calc_hash :: "'k crypto \<Rightarrow> 'k cstate \<Rightarrow> u64 \<Rightarrow> string \<Rightarrow> u8 list \<Rightarrow> (int \<times> u8 list \<times> 'k cstate) option" where
  "calc_hash C s alg data digest = (case init_sdesc C s alg of
     (Inl err, s1) \<Rightarrow> Some (err, digest, s1)
   | (Inr sdesc, s1) \<Rightarrow> do {
       tfm \<leftarrow> cs_sdescs s1 sdesc;
       let (ret, out, k2) = crypto_shash_digest C (cs_kern s1) tfm data;
       if length out > length digest then None
       else Some (ret, out @ drop (length out) digest, s1\<lparr>cs_sdescs := (cs_sdescs s1)(sdesc := None), cs_kern := cr_kfree C k2 sdesc\<rparr>)
     })"

definition test_hash :: "'k crypto \<Rightarrow> 'k cstate \<Rightarrow> string \<Rightarrow> u8 list \<Rightarrow> (int \<times> u8 list \<times> 'k cstate) option" where
  "test_hash C s data digest = (case crypto_alloc_shash C (cs_kern s) ''sha1'' of
     (Inl err, k1) \<Rightarrow> Some (err, digest, s\<lparr>cs_kern := k1\<rparr>)
   | (Inr alg, k1) \<Rightarrow> do {
       (ret, digest1, s1) \<leftarrow> calc_hash C (s\<lparr>cs_kern := k1\<rparr>) alg data digest;
       Some (ret, digest1, s1\<lparr>cs_kern := crypto_free_shash C (cs_kern s1) alg\<rparr>)
     })"

text \<open>
  A byte shifted left is shifted as an \<open>int\<close>, with no value where the result leaves its range, and
  converted to an \<open>unsigned long\<close> afterwards.
\<close>

definition shl_byte :: "u8 \<Rightarrow> nat \<Rightarrow> u64 option" where
  "shl_byte b n = (if uint b * 2 ^ n < 2 ^ 31 then Some (word_of_int (uint b * 2 ^ n)) else None)"

definition fold_digest :: "u64 \<Rightarrow> u8 list \<Rightarrow> u64 option" where
  "fold_digest w digest = do {
     let w1 = w + ucast (digest ! 0);
     b1 \<leftarrow> shl_byte (digest ! 1) 8;
     b2 \<leftarrow> shl_byte (digest ! 2) 16;
     b3 \<leftarrow> shl_byte (digest ! 3) 24;
     Some (((w1 OR b1) OR b2) OR b3)
   }"

definition BITS_TO_LONGS :: "nat \<Rightarrow> nat" where "BITS_TO_LONGS n = (n + 64 - 1) div 64"

text \<open>
  The initialisation: \<open>stack\<close> is what the array of 25 bytes holds before anything is stored in it.  The
  result of \<open>kzalloc\<close> is not tested, and the result of \<open>test_hash\<close> is ignored.  Returned are the
  words of the bitmap before and after, and the digits printed in between.
\<close>

definition init_crypto :: "'k crypto \<Rightarrow> 'k cstate \<Rightarrow> u8 list \<Rightarrow> (int \<times> u64 list \<times> u8 list list \<times> u64 list \<times> 'k cstate) option" where
  "init_crypto C s stack = do {
     let bitmap_size = BITS_TO_LONGS 65 * 8;
     let (filtr, k1) = cr_kzalloc C (cs_kern s) (8 + bitmap_size);
     if filtr = 0 then None
     else do {
       let bitmap = replicate (bitmap_size div 8) 0;
       (ret, digest, s1) \<leftarrow> test_hash C (s\<lparr>cs_kern := k1\<rparr>) ''hihi'' stack;
       w \<leftarrow> fold_digest (bitmap ! 0) digest;
       Some (0, bitmap, map (\<lambda>i. map (\<lambda>j. digest ! (i + j)) [0..<5]) [0..<5], bitmap[0 := w], s1)
     }
   }"

section \<open>What is relied on, and the digest that is folded\<close>

text \<open>An allocated object is not one that is in use; a digest has at most 25 bytes.\<close>

definition crypto_spec :: "'k crypto \<Rightarrow> 'k cstate \<Rightarrow> bool" where
  "crypto_spec C s \<longleftrightarrow> (\<forall>k n. fst (cr_kmalloc C k n) \<notin> dom (cs_sdescs s)) \<and> (\<forall>k tfm data. length (fst (snd (crypto_shash_digest C k tfm data))) \<le> 25)"

lemma test_hash_ok:
  assumes "crypto_spec C s" "length digest = 25"
  shows "\<exists>ret out s1. test_hash C s data digest = Some (ret, out, s1) \<and> length out = 25 \<and> cs_sdescs s1 = cs_sdescs s"
proof (cases "crypto_alloc_shash C (cs_kern s) ''sha1''")
  case (Pair r k1)
  let ?s = "s\<lparr>cs_kern := k1\<rparr>"
  have "\<exists>ret out s1. calc_hash C ?s alg data digest = Some (ret, out, s1) \<and> length out = 25 \<and> cs_sdescs s1 = cs_sdescs s" for alg
  proof (cases "cr_kmalloc C k1 (sizeof_shash_desc C + crypto_shash_descsize C alg)")
    case (Pair p k2)
    then have "p \<notin> dom (cs_sdescs s)" using assms(1) by (metis crypto_spec_def fst_conv)
    moreover obtain ret out k3 where d: "crypto_shash_digest C k2 alg data = (ret, out, k3)" by (metis surj_pair)
    then have "length out \<le> 25" using assms(1) by (metis crypto_spec_def fst_conv snd_conv)
    ultimately show ?thesis using Pair assms(2) d by (auto simp: calc_hash_def init_sdesc_def domIff fun_upd_idem)
  qed
  then obtain ret out s1 where "\<And>alg. calc_hash C ?s alg data digest = Some (ret alg, out alg, s1 alg)" "\<And>alg. length (out alg) = 25"
    "\<And>alg. cs_sdescs (s1 alg) = cs_sdescs s" by metis
  with Pair assms(2) show ?thesis by (cases r) (simp_all add: test_hash_def)
qed

lemma uint_or_disjoint:
  assumes "uint (a :: u64) < 2 ^ n" "0 \<le> c" "c * 2 ^ n < 2 ^ 64"
  shows "uint (a OR word_of_int (c * 2 ^ n)) = uint a + c * 2 ^ n"
proof -
  have "uint (word_of_int (c * 2 ^ n) :: u64) = c * 2 ^ n" using assms(2,3) unfolding uint_word_of_int by (intro mod_pos_pos_trivial) simp_all
  then have "uint (a OR word_of_int (c * 2 ^ n)) = uint a OR push_bit n c" by (simp add: uint_or push_bit_eq_mult)
  also have "uint a AND push_bit n c = 0"
  proof (rule bit_eqI)
    fix m
    have "take_bit n (uint a) = uint a" using assms(1) by (simp add: take_bit_int_eq_self)
    then have "bit (uint a) m \<Longrightarrow> m < n" by (metis bit_take_bit_iff)
    then show "bit (uint a AND push_bit n c) m \<longleftrightarrow> bit 0 m" by (auto simp: bit_and_iff bit_push_bit_iff)
  qed
  then have "uint a OR push_bit n c = uint a + push_bit n c" by (simp add: disjunctive_add_eq_or)
  finally show ?thesis by (simp add: push_bit_eq_mult)
qed

lemma fold_digest_ok:
  "fold_digest 0 d = (if uint (d ! 3) < 128
     then Some (word_of_int (uint (d ! 0) + uint (d ! 1) * 2 ^ 8 + uint (d ! 2) * 2 ^ 16 + uint (d ! 3) * 2 ^ 24)) else None)"
proof -
  let ?b = "\<lambda>i. uint (d ! i)"
  have b: "0 \<le> ?b i" "?b i < 256" for i using uint_bounded [of "d ! i"] by simp_all
  have u0: "uint (ucast (d ! 0) :: u64) = ?b 0" by (simp add: unsigned_ucast_eq take_bit_int_eq_self b less_trans [OF b(2)])
  let ?w1 = "ucast (d ! 0) OR word_of_int (?b 1 * 2 ^ 8) :: u64"
  have u1: "uint ?w1 = ?b 0 + ?b 1 * 2 ^ 8" using uint_or_disjoint [of "ucast (d ! 0)" 8 "?b 1"] u0 b [of 0] b [of 1] by simp
  let ?w2 = "?w1 OR word_of_int (?b 2 * 2 ^ 16)"
  have u2: "uint ?w2 = ?b 0 + ?b 1 * 2 ^ 8 + ?b 2 * 2 ^ 16"
    using uint_or_disjoint [of ?w1 16 "?b 2"] u1 b [of 0] b [of 1] b [of 2] by simp
  let ?w3 = "?w2 OR word_of_int (?b 3 * 2 ^ 24)"
  have u3: "uint ?w3 = ?b 0 + ?b 1 * 2 ^ 8 + ?b 2 * 2 ^ 16 + ?b 3 * 2 ^ 24"
    using uint_or_disjoint [of ?w2 24 "?b 3"] u2 b [of 0] b [of 1] b [of 2] b [of 3] by simp
  have "shl_byte (d ! 1) 8 = Some (word_of_int (?b 1 * 2 ^ 8))" "shl_byte (d ! 2) 16 = Some (word_of_int (?b 2 * 2 ^ 16))"
    "shl_byte (d ! 3) 24 = (if ?b 3 < 128 then Some (word_of_int (?b 3 * 2 ^ 24)) else None)"
    using b [of 1] b [of 2] b [of 3] by (auto simp: shl_byte_def)
  then have "fold_digest 0 d = (if ?b 3 < 128 then Some ?w3 else None)" by (simp add: fold_digest_def)
  also have "?w3 = word_of_int (?b 0 + ?b 1 * 2 ^ 8 + ?b 2 * 2 ^ 16 + ?b 3 * 2 ^ 24)" by (metis u3 word_of_int_uint)
  finally show ?thesis .
qed

section \<open>Property\<close>

text \<open>
  C38. The initialisation leaves no descriptor allocated, whichever call failed, and stores in the
  first word of the bitmap the first four bytes of the digest array as a number with the lowest
  byte first, the second word staying zero -- exactly if the fourth byte is below 128: otherwise the
  shift of that byte by 24 leaves the range of an \<open>int\<close>.
\<close>

theorem crypto_filter_bitmap:
  assumes "crypto_spec C s" "length stack = 25" "fst (cr_kzalloc C (cs_kern s) 24) \<noteq> 0"
  shows "\<exists>ret d s1. test_hash C (s\<lparr>cs_kern := snd (cr_kzalloc C (cs_kern s) 24)\<rparr>) ''hihi'' stack = Some (ret, d, s1)
     \<and> length d = 25 \<and> cs_sdescs s1 = cs_sdescs s
     \<and> init_crypto C s stack = (if uint (d ! 3) < 128
         then Some (0, [0, 0], map (\<lambda>i. take 5 (drop i d)) [0..<5],
                [word_of_int (uint (d ! 0) + uint (d ! 1) * 2 ^ 8 + uint (d ! 2) * 2 ^ 16 + uint (d ! 3) * 2 ^ 24), 0], s1)
         else None)"
proof -
  let ?s = "s\<lparr>cs_kern := snd (cr_kzalloc C (cs_kern s) 24)\<rparr>"
  have "crypto_spec C ?s" using assms(1) by (simp add: crypto_spec_def)
  from test_hash_ok [OF this assms(2), of "''hihi''"] obtain ret d s1 where
    t: "test_hash C ?s ''hihi'' stack = Some (ret, d, s1)" "length d = 25" "cs_sdescs s1 = cs_sdescs s" by auto
  have m: "map (\<lambda>i. map (\<lambda>j. d ! (i + j)) [0..<5]) [0..<5] = map (\<lambda>i. take 5 (drop i d)) [0..<5]"
    using t(2) by (intro map_cong refl nth_equalityI) auto
  have "init_crypto C s stack = do { w \<leftarrow> fold_digest 0 d; Some (0, [0, 0], map (\<lambda>i. take 5 (drop i d)) [0..<5], [w, 0], s1) }"
    using assms(3) t(1) unfolding init_crypto_def m [symmetric]
    by (simp add: BITS_TO_LONGS_def numeral_2_eq_2 split_beta del: upt_rec_numeral)
  with t show ?thesis unfolding fold_digest_ok by (intro exI [of _ ret] exI [of _ d] exI [of _ s1]) (simp del: upt_rec_numeral)
qed

definition demo_crypto :: "u8 \<Rightarrow> unit crypto" where
  "demo_crypto b = \<lparr>cr_kmalloc = (\<lambda>k _. (64, k)), cr_kfree = (\<lambda>k _. k), cr_kzalloc = (\<lambda>k _. (128, k)),
     crypto_alloc_shash = (\<lambda>k _. (Inr 32, k)), crypto_free_shash = (\<lambda>k _. k), crypto_shash_descsize = (\<lambda>_. 96), crypto_shash_digestsize = (\<lambda>_. 20),
     crypto_shash_digest = (\<lambda>k _ _. (0, [1, 2, 3, b] @ replicate 16 0, k)), sizeof_shash_desc = 8\<rparr>"

theorem crypto_filter_bitmap_witness:
  "(\<exists>ds s1. init_crypto (demo_crypto 4) \<lparr>cs_sdescs = Map.empty, cs_kern = ()\<rparr> (replicate 25 0) = Some (0, [0, 0], ds, [0x04030201, 0], s1))
   \<and> init_crypto (demo_crypto 200) \<lparr>cs_sdescs = Map.empty, cs_kern = ()\<rparr> (replicate 25 0) = None"
proof -
  let ?s = "\<lparr>cs_sdescs = Map.empty, cs_kern = ()\<rparr>"
  have sp: "crypto_spec (demo_crypto b) ?s" for b by (simp add: crypto_spec_def demo_crypto_def)
  have z: "fst (cr_kzalloc (demo_crypto b) (cs_kern ?s) 24) \<noteq> 0" for b by (simp add: demo_crypto_def)
  have t: "\<exists>ret s1. test_hash (demo_crypto b) (?s\<lparr>cs_kern := snd (cr_kzalloc (demo_crypto b) (cs_kern ?s) 24)\<rparr>) ''hihi'' (replicate 25 0)
      = Some (ret, [1, 2, 3, b] @ replicate 21 0, s1)" for b
    by (simp add: test_hash_def calc_hash_def init_sdesc_def demo_crypto_def flip: replicate_add)
  show ?thesis
    using crypto_filter_bitmap [OF sp _ z, of "replicate 25 0" 4] crypto_filter_bitmap [OF sp _ z, of "replicate 25 0" 200] t [of 4] t [of 200]
    by (auto simp del: upt_rec_numeral)
qed

end
