(* ===== verification/Work_Queue.thy ===== *)
theory Work_Queue
  imports Prelude "HOL-Library.Multiset"
begin

text \<open>
  The work queue module of \<open>src/kernel_modules/workqueue/my_workqueue.c\<close>.  Its initialisation queues two
  work items while workers of the kernel already run them, and every item releases itself, so the
  statements of \<open>init_workqueue\<close>, of each call of \<open>my_wq_function\<close> and of \<open>exit_workqueue\<close> are steps
  that interleave.  The work queues of the kernel and its allocator are a parameter, and \<open>wq_spec\<close>
  says what is relied on.  A step without a result state is a fault of the kernel: the use of an
  item that is not allocated, of one without its function, or of a queue that is NULL.
\<close>

section \<open>State\<close>

datatype work_func = No_func | Func_my_wq_function

record my_work_t =
  my_work :: work_func
  work_x :: u32

text \<open>The globals \<open>work\<close> and \<open>work2\<close>, and the position of the module's own thread.\<close>

datatype wq_var = Work | Work2

datatype wq_pc = Create | Alloc wq_var | Init wq_var | Set_x wq_var | Queue wq_var
  | Loaded | Flush | Destroy | Unloaded

text \<open>The position of a worker inside \<open>my_wq_function\<close>.\<close>

datatype wq_task = To_print | To_free | To_return

record 'k wq_state =
  wq_pc :: wq_pc
  my_wq :: u64
  wq_ptr :: "wq_var \<Rightarrow> u64"
  wq_items :: "u64 \<rightharpoonup> my_work_t"
  wq_tasks :: "u64 \<rightharpoonup> wq_task"
  wq_log :: "u32 list"
  wq_kern :: 'k

section \<open>The kernel\<close>

text \<open>
  The relations say which results are possible: \<open>create_workqueue\<close> and \<open>wq_kmalloc\<close> may give NULL,
  \<open>wq_start\<close> gives an item that a worker takes from the queue, \<open>wq_done\<close> is what happens when the
  function of an item has returned, and \<open>flush_returns\<close> says that \<open>flush_workqueue\<close> has ended its wait.
\<close>

record 'k wq_kernel =
  create_workqueue :: "'k \<Rightarrow> string \<Rightarrow> u64 \<Rightarrow> 'k \<Rightarrow> bool"
  wq_kmalloc :: "u64 set \<Rightarrow> u64 \<Rightarrow> bool"
  queue_work :: "'k \<Rightarrow> u64 \<Rightarrow> u64 \<Rightarrow> bool \<times> 'k"
  wq_start :: "'k \<Rightarrow> u64 \<Rightarrow> 'k \<Rightarrow> bool"
  wq_done :: "'k \<Rightarrow> u64 \<Rightarrow> 'k"
  flush_returns :: "'k \<Rightarrow> u64 \<Rightarrow> bool"
  destroy_workqueue :: "'k \<Rightarrow> u64 \<Rightarrow> 'k"
  wq_pending :: "'k \<Rightarrow> u64 set"
  wq_running :: "'k \<Rightarrow> u64 set"

text \<open>
  A new queue has no items; a queued item is pending until a worker takes it; an item is not run by
  two workers at once; a flush waits until nothing is pending or running; destroying a queue adds no
  work; memory that is handed out is not in use.
\<close>

definition wq_spec :: "'k wq_kernel \<Rightarrow> bool" where
  "wq_spec K \<longleftrightarrow>
     (\<forall>k n q k'. create_workqueue K k n q k' \<longrightarrow>
        wq_pending K k' = wq_pending K k \<and> wq_running K k' = wq_running K k)
     \<and> (\<forall>A p. wq_kmalloc K A p \<longrightarrow> p \<notin> A)
     \<and> (\<forall>k q w. wq_pending K (snd (queue_work K k q w)) = insert w (wq_pending K k)
        \<and> wq_running K (snd (queue_work K k q w)) = wq_running K k)
     \<and> (\<forall>k w k'. wq_start K k w k' \<longrightarrow> w \<in> wq_pending K k \<and> w \<notin> wq_running K k
        \<and> wq_pending K k' = wq_pending K k - {w} \<and> wq_running K k' = insert w (wq_running K k))
     \<and> (\<forall>k w. wq_pending K (wq_done K k w) = wq_pending K k \<and> wq_running K (wq_done K k w) = wq_running K k - {w})
     \<and> (\<forall>k q. flush_returns K k q \<longrightarrow> wq_pending K k = {} \<and> wq_running K k = {})
     \<and> (\<forall>k q. wq_pending K (destroy_workqueue K k q) \<subseteq> wq_pending K k
        \<and> wq_running K (destroy_workqueue K k q) \<subseteq> wq_running K k)"

text \<open>The calls return, and an item that waits alone is taken by a worker.\<close>

definition wq_progress :: "'k wq_kernel \<Rightarrow> bool" where
  "wq_progress K \<longleftrightarrow>
     (\<forall>k n. \<exists>q k'. create_workqueue K k n q k')
     \<and> (\<forall>A. 0 \<notin> A \<longrightarrow> (\<exists>p. wq_kmalloc K A p))
     \<and> (\<forall>k. wq_pending K k \<noteq> {} \<and> wq_running K k = {} \<longrightarrow> (\<exists>w k'. wq_start K k w k'))
     \<and> (\<forall>k q. wq_pending K k = {} \<and> wq_running K k = {} \<longrightarrow> flush_returns K k q)"

section \<open>Steps\<close>

fun wq_value :: "wq_var \<Rightarrow> u32" where
  "wq_value Work = 1"
| "wq_value Work2 = 2"

fun wq_next :: "wq_var \<Rightarrow> wq_pc" where
  "wq_next Work = Alloc Work2"
| "wq_next Work2 = Loaded"

definition upd_item :: "'k wq_state \<Rightarrow> u64 \<Rightarrow> (my_work_t \<Rightarrow> my_work_t) \<Rightarrow> 'k wq_state option" where
  "upd_item s w f = (case wq_items s w of None \<Rightarrow> None | Some it \<Rightarrow> Some (s\<lparr>wq_items := (wq_items s)(w \<mapsto> f it)\<rparr>))"

text \<open>The kernel reads the item that is queued, so it has to be allocated and initialised.\<close>

definition queue_item :: "'k wq_kernel \<Rightarrow> 'k wq_state \<Rightarrow> u64 \<Rightarrow> 'k wq_state option" where
  "queue_item K s w = (case wq_items s w of
     None \<Rightarrow> None
   | Some it \<Rightarrow> if my_work it = No_func then None
       else Some (s\<lparr>wq_kern := snd (queue_work K (wq_kern s) (my_wq s) w)\<rparr>))"

text \<open>
  The statements of \<open>init_workqueue\<close>; the two blocks differ in the variable and in the number.  The
  contents of new memory are arbitrary, and the result of \<open>queue_work\<close> is not looked at.
\<close>

inductive init_workqueue :: "'k wq_kernel \<Rightarrow> 'k wq_state \<Rightarrow> 'k wq_state option \<Rightarrow> bool" for K where
  create: "wq_pc s = Create \<Longrightarrow> create_workqueue K (wq_kern s) ''my_queue'' q k \<Longrightarrow>
    init_workqueue K s (Some (s\<lparr>my_wq := q, wq_kern := k, wq_pc := if q \<noteq> 0 then Alloc Work else Loaded\<rparr>))"
| alloc: "wq_pc s = Alloc v \<Longrightarrow> wq_kmalloc K (dom (wq_items s)) p \<Longrightarrow> p \<noteq> 0 \<Longrightarrow>
    init_workqueue K s (Some (s\<lparr>wq_ptr := (wq_ptr s)(v := p), wq_items := (wq_items s)(p \<mapsto> it), wq_pc := Init v\<rparr>))"
| no_memory: "wq_pc s = Alloc v \<Longrightarrow> wq_kmalloc K (dom (wq_items s)) 0 \<Longrightarrow>
    init_workqueue K s (Some (s\<lparr>wq_ptr := (wq_ptr s)(v := 0), wq_pc := wq_next v\<rparr>))"
| INIT_WORK: "wq_pc s = Init v \<Longrightarrow>
    init_workqueue K s (upd_item (s\<lparr>wq_pc := Set_x v\<rparr>) (wq_ptr s v) (\<lambda>it. it\<lparr>my_work := Func_my_wq_function\<rparr>))"
| set_x: "wq_pc s = Set_x v \<Longrightarrow>
    init_workqueue K s (upd_item (s\<lparr>wq_pc := Queue v\<rparr>) (wq_ptr s v) (\<lambda>it. it\<lparr>work_x := wq_value v\<rparr>))"
| queue: "wq_pc s = Queue v \<Longrightarrow>
    init_workqueue K s (queue_item K (s\<lparr>wq_pc := wq_next v\<rparr>) (wq_ptr s v))"

text \<open>A worker takes an item and runs its function: the number is printed, then the item released.\<close>

definition start_item :: "'k wq_state \<Rightarrow> u64 \<Rightarrow> 'k wq_state option" where
  "start_item s w = (case wq_items s w of
     None \<Rightarrow> None
   | Some it \<Rightarrow> if my_work it = Func_my_wq_function then Some (s\<lparr>wq_tasks := (wq_tasks s)(w \<mapsto> To_print)\<rparr>) else None)"

definition print_item :: "'k wq_state \<Rightarrow> u64 \<Rightarrow> 'k wq_state option" where
  "print_item s w = (case wq_items s w of
     None \<Rightarrow> None
   | Some it \<Rightarrow> Some (s\<lparr>wq_log := wq_log s @ [work_x it], wq_tasks := (wq_tasks s)(w \<mapsto> To_free)\<rparr>))"

definition kfree_item :: "'k wq_state \<Rightarrow> u64 \<Rightarrow> 'k wq_state option" where
  "kfree_item s w = (if wq_items s w = None then None
     else Some (s\<lparr>wq_items := (wq_items s)(w := None), wq_tasks := (wq_tasks s)(w \<mapsto> To_return)\<rparr>))"

inductive my_wq_function :: "'k wq_kernel \<Rightarrow> 'k wq_state \<Rightarrow> 'k wq_state option \<Rightarrow> bool" for K where
  start: "wq_start K (wq_kern s) w k \<Longrightarrow> my_wq_function K s (start_item (s\<lparr>wq_kern := k\<rparr>) w)"
| printk: "wq_tasks s w = Some To_print \<Longrightarrow> my_wq_function K s (print_item s w)"
| kfree: "wq_tasks s w = Some To_free \<Longrightarrow> my_wq_function K s (kfree_item s w)"
| return: "wq_tasks s w = Some To_return \<Longrightarrow>
    my_wq_function K s (Some (s\<lparr>wq_tasks := (wq_tasks s)(w := None), wq_kern := wq_done K (wq_kern s) w\<rparr>))"

text \<open>The module is removed: the queue is used whether or not it was created.\<close>

inductive exit_workqueue :: "'k wq_kernel \<Rightarrow> 'k wq_state \<Rightarrow> 'k wq_state option \<Rightarrow> bool" for K where
  enter: "wq_pc s = Loaded \<Longrightarrow> exit_workqueue K s (Some (s\<lparr>wq_pc := Flush\<rparr>))"
| flush_null: "wq_pc s = Flush \<Longrightarrow> my_wq s = 0 \<Longrightarrow> exit_workqueue K s None"
| flush: "wq_pc s = Flush \<Longrightarrow> my_wq s \<noteq> 0 \<Longrightarrow> flush_returns K (wq_kern s) (my_wq s) \<Longrightarrow>
    exit_workqueue K s (Some (s\<lparr>wq_pc := Destroy\<rparr>))"
| destroy: "wq_pc s = Destroy \<Longrightarrow>
    exit_workqueue K s (Some (s\<lparr>wq_kern := destroy_workqueue K (wq_kern s) (my_wq s), wq_pc := Unloaded\<rparr>))"

definition wq_step :: "'k wq_kernel \<Rightarrow> 'k wq_state \<Rightarrow> 'k wq_state option \<Rightarrow> bool" where
  "wq_step K s r \<longleftrightarrow> init_workqueue K s r \<or> my_wq_function K s r \<or> exit_workqueue K s r"

text \<open>The module is loaded on a kernel without items in this queue; its globals are zero.\<close>

definition wq_initial :: "'k wq_kernel \<Rightarrow> 'k \<Rightarrow> 'k wq_state \<Rightarrow> bool" where
  "wq_initial K k s \<longleftrightarrow> wq_pending K k = {} \<and> wq_running K k = {} \<and>
     s = \<lparr>wq_pc = Create, my_wq = 0, wq_ptr = (\<lambda>v. 0), wq_items = Map.empty, wq_tasks = Map.empty, wq_log = [], wq_kern = k\<rparr>"

inductive wq_reachable :: "'k wq_kernel \<Rightarrow> 'k wq_state \<Rightarrow> bool" for K where
  loaded: "wq_initial K k s \<Longrightarrow> wq_reachable K s"
| stepped: "wq_reachable K s \<Longrightarrow> wq_step K s (Some s') \<Longrightarrow> wq_reachable K s'"

end
