(* ===== verification/Work_Queue_Inv.thy ===== *)
theory Work_Queue_Inv
  imports Work_Queue
begin

text \<open>
  The invariant of the work queue module over all interleavings of its thread with the workers: every
  allocated item has one owner, which is the queue, a worker that has not released it, or the
  initialisation; and every number queued is printed once or still to be printed.
\<close>

section \<open>Invariant\<close>

definition busy :: "wq_task option \<Rightarrow> bool" where
  "busy t \<longleftrightarrow> t = Some To_print \<or> t = Some To_free"

fun held_at :: "wq_pc \<Rightarrow> (wq_var \<Rightarrow> u64) \<Rightarrow> u64 set" where
  "held_at (Init v) ptr = {ptr v}"
| "held_at (Set_x v) ptr = {ptr v}"
| "held_at (Queue v) ptr = {ptr v}"
| "held_at _ ptr = {}"

fun past :: "wq_pc \<Rightarrow> wq_var \<Rightarrow> bool" where
  "past Create v = False"
| "past (Alloc u) v = (u = Work2 \<and> v = Work)"
| "past (Init u) v = (u = Work2 \<and> v = Work)"
| "past (Set_x u) v = (u = Work2 \<and> v = Work)"
| "past (Queue u) v = (u = Work2 \<and> v = Work)"
| "past _ v = True"

definition queued :: "'k wq_state \<Rightarrow> wq_var \<Rightarrow> bool" where
  "queued s v \<longleftrightarrow> wq_ptr s v \<noteq> 0 \<and> past (wq_pc s) v"

definition numbered :: "'k wq_state \<Rightarrow> u64 \<Rightarrow> wq_var \<Rightarrow> bool" where
  "numbered s w v \<longleftrightarrow> (\<exists>it. wq_items s w = Some it \<and> work_x it = wq_value v)"

definition awaits :: "'k wq_kernel \<Rightarrow> 'k wq_state \<Rightarrow> u64 set" where
  "awaits K s = wq_pending K (wq_kern s) \<union> {w. wq_tasks s w = Some To_print}"

definition waiting :: "'k wq_kernel \<Rightarrow> 'k wq_state \<Rightarrow> wq_var \<Rightarrow> u64 set" where
  "waiting K s v = {w \<in> awaits K s. numbered s w v}"

definition item_ready :: "my_work_t option \<Rightarrow> bool" where
  "item_ready i \<longleftrightarrow> (\<exists>it v. i = Some it \<and> my_work it = Func_my_wq_function \<and> work_x it = wq_value v)"

fun held_ok :: "wq_pc \<Rightarrow> (wq_var \<Rightarrow> u64) \<Rightarrow> (u64 \<rightharpoonup> my_work_t) \<Rightarrow> bool" where
  "held_ok (Set_x v) ptr items = (\<exists>it. items (ptr v) = Some it \<and> my_work it = Func_my_wq_function)"
| "held_ok (Queue v) ptr items = (\<exists>it. items (ptr v) = Some it \<and> my_work it = Func_my_wq_function \<and> work_x it = wq_value v)"
| "held_ok _ ptr items = True"

definition one_owner :: "bool \<Rightarrow> bool \<Rightarrow> bool \<Rightarrow> my_work_t option \<Rightarrow> wq_task option \<Rightarrow> bool" where
  "one_owner pending running held i t \<longleftrightarrow>
     (i \<noteq> None \<longleftrightarrow> pending \<or> busy t \<or> held) \<and> \<not> (pending \<and> busy t) \<and> \<not> (pending \<and> held) \<and> \<not> (busy t \<and> held)
     \<and> (t \<noteq> None \<longleftrightarrow> running) \<and> (pending \<or> busy t \<longrightarrow> item_ready i)"

definition wq_owners :: "'k wq_kernel \<Rightarrow> 'k wq_state \<Rightarrow> bool" where
  "wq_owners K s \<longleftrightarrow>
     (\<forall>w. one_owner (w \<in> wq_pending K (wq_kern s)) (w \<in> wq_running K (wq_kern s)) (w \<in> held_at (wq_pc s) (wq_ptr s))
        (wq_items s w) (wq_tasks s w))
     \<and> wq_items s 0 = None \<and> finite (dom (wq_items s)) \<and> held_ok (wq_pc s) (wq_ptr s) (wq_items s)"

definition wq_counts :: "'k wq_kernel \<Rightarrow> 'k wq_state \<Rightarrow> bool" where
  "wq_counts K s \<longleftrightarrow> set (wq_log s) \<subseteq> range wq_value
     \<and> (\<forall>v. count_list (wq_log s) (wq_value v) + card (waiting K s v) = of_bool (queued s v))"

definition wq_control :: "'k wq_kernel \<Rightarrow> 'k wq_state \<Rightarrow> bool" where
  "wq_control K s \<longleftrightarrow> (wq_pc s = Create \<longrightarrow> (\<forall>v. wq_ptr s v = 0)) \<and> (wq_pc s \<notin> {Create, Loaded, Flush} \<longrightarrow> my_wq s \<noteq> 0)
     \<and> (wq_pc s \<in> {Destroy, Unloaded} \<longrightarrow> wq_pending K (wq_kern s) = {} \<and> wq_running K (wq_kern s) = {})
     \<and> finite (wq_running K (wq_kern s))"

definition wq_inv :: "'k wq_kernel \<Rightarrow> 'k wq_state \<Rightarrow> bool" where
  "wq_inv K s \<longleftrightarrow> wq_owners K s \<and> wq_counts K s \<and> wq_control K s"

lemma wq_specD:
  assumes "wq_spec K"
  shows "create_workqueue K k n q k' \<Longrightarrow> wq_pending K k' = wq_pending K k \<and> wq_running K k' = wq_running K k"
    and "wq_kmalloc K A p \<Longrightarrow> p \<notin> A"
    and "wq_pending K (snd (queue_work K k q w)) = insert w (wq_pending K k)"
    and "wq_running K (snd (queue_work K k q w)) = wq_running K k"
    and "wq_start K k w k' \<Longrightarrow> w \<in> wq_pending K k \<and> w \<notin> wq_running K k
        \<and> wq_pending K k' = wq_pending K k - {w} \<and> wq_running K k' = insert w (wq_running K k)"
    and "wq_pending K (wq_done K k w) = wq_pending K k" "wq_running K (wq_done K k w) = wq_running K k - {w}"
    and "flush_returns K k q \<Longrightarrow> wq_pending K k = {} \<and> wq_running K k = {}"
    and "wq_pending K (destroy_workqueue K k q) \<subseteq> wq_pending K k"
    and "wq_running K (destroy_workqueue K k q) \<subseteq> wq_running K k"
  using assms by (simp_all add: wq_spec_def) blast

lemma wq_value_inj [simp]: "wq_value u = wq_value v \<longleftrightarrow> u = v"
  by (cases u; cases v) simp_all

lemma past_next [simp]: "past (wq_next u) v = (past (Queue u) v \<or> u = v)"
  by (cases u; cases v) simp_all

lemma held_next [simp]: "held_at (wq_next u) ptr = {}" "held_ok (wq_next u) ptr items"
  "wq_next u \<noteq> Create" "wq_next u \<noteq> Destroy" "wq_next u \<noteq> Unloaded"
  by (cases u; simp)+

lemma wq_inv_initial: "wq_initial K k s \<Longrightarrow> wq_inv K s"
  by (auto simp: wq_initial_def wq_inv_def wq_owners_def wq_counts_def wq_control_def one_owner_def busy_def queued_def waiting_def awaits_def)

section \<open>Preservation\<close>

lemma upd_item_some:
  "Some s' = upd_item s w f \<longleftrightarrow> (\<exists>it. wq_items s w = Some it \<and> s' = s\<lparr>wq_items := (wq_items s)(w \<mapsto> f it)\<rparr>)"
  by (auto simp: upd_item_def split: option.splits)

lemma queue_item_some:
  "Some s' = queue_item K s w \<longleftrightarrow> (\<exists>it. wq_items s w = Some it \<and> my_work it \<noteq> No_func \<and>
     s' = s\<lparr>wq_kern := snd (queue_work K (wq_kern s) (my_wq s) w)\<rparr>)"
  by (auto simp: queue_item_def split: option.splits)

lemma task_some:
  "Some s' = start_item s w \<longleftrightarrow> (\<exists>it. wq_items s w = Some it \<and> my_work it = Func_my_wq_function \<and>
     s' = s\<lparr>wq_tasks := (wq_tasks s)(w \<mapsto> To_print)\<rparr>)"
  "Some s' = print_item s w \<longleftrightarrow> (\<exists>it. wq_items s w = Some it \<and>
     s' = s\<lparr>wq_log := wq_log s @ [work_x it], wq_tasks := (wq_tasks s)(w \<mapsto> To_free)\<rparr>)"
  "Some s' = kfree_item s w \<longleftrightarrow> (\<exists>it. wq_items s w = Some it \<and>
     s' = s\<lparr>wq_items := (wq_items s)(w := None), wq_tasks := (wq_tasks s)(w \<mapsto> To_return)\<rparr>)"
  by (auto simp: start_item_def print_item_def kfree_item_def split: option.splits if_splits)

lemma owner_moves:
  "one_owner P R H None t \<Longrightarrow> one_owner P R True (Some it) t"
  "one_owner P R True (Some it) t \<Longrightarrow> one_owner P R True (Some it') t"
  "one_owner P R True i t \<Longrightarrow> item_ready i \<Longrightarrow> one_owner True R False i t"
  "one_owner True False H i t \<Longrightarrow> one_owner False True H i (Some To_print)"
  "one_owner P R H i (Some To_print) \<Longrightarrow> one_owner P R H i (Some To_free)"
  "one_owner P R H i (Some To_free) \<Longrightarrow> one_owner P R H None (Some To_return)"
  "one_owner P R H i (Some To_return) \<Longrightarrow> one_owner P False H i None"
  by (auto simp: one_owner_def busy_def)

text \<open>A step that concerns one address only: the other addresses keep their owners.\<close>

lemma owners_at:
  assumes "wq_owners K s"
    and "\<forall>w. w \<noteq> a \<longrightarrow> (w \<in> wq_pending K (wq_kern s') \<longleftrightarrow> w \<in> wq_pending K (wq_kern s))
      \<and> (w \<in> wq_running K (wq_kern s') \<longleftrightarrow> w \<in> wq_running K (wq_kern s))
      \<and> (w \<in> held_at (wq_pc s') (wq_ptr s') \<longleftrightarrow> w \<in> held_at (wq_pc s) (wq_ptr s))
      \<and> wq_items s' w = wq_items s w \<and> wq_tasks s' w = wq_tasks s w"
    and "one_owner (a \<in> wq_pending K (wq_kern s')) (a \<in> wq_running K (wq_kern s')) (a \<in> held_at (wq_pc s') (wq_ptr s'))
      (wq_items s' a) (wq_tasks s' a)"
    and "wq_items s' 0 = None" "finite (dom (wq_items s'))" "held_ok (wq_pc s') (wq_ptr s') (wq_items s')"
  shows "wq_owners K s'"
proof -
  have "one_owner (w \<in> wq_pending K (wq_kern s')) (w \<in> wq_running K (wq_kern s')) (w \<in> held_at (wq_pc s') (wq_ptr s'))
      (wq_items s' w) (wq_tasks s' w)" for w
    using assms(1-3) by (cases "w = a") (simp_all add: wq_owners_def)
  then show ?thesis using assms(4-6) by (simp add: wq_owners_def)
qed

lemma held_ok_upd: "w \<notin> held_at pc ptr \<Longrightarrow> held_ok pc ptr (items(w := i)) = held_ok pc ptr items"
  by (cases pc) auto

lemma owner_of:
  "wq_owners K s \<Longrightarrow> one_owner (w \<in> wq_pending K (wq_kern s)) (w \<in> wq_running K (wq_kern s))
     (w \<in> held_at (wq_pc s) (wq_ptr s)) (wq_items s w) (wq_tasks s w)"
  by (simp add: wq_owners_def)

lemma owners_facts:
  "wq_owners K s \<Longrightarrow> wq_items s 0 = None" "wq_owners K s \<Longrightarrow> finite (dom (wq_items s))"
  "wq_owners K s \<Longrightarrow> held_ok (wq_pc s) (wq_ptr s) (wq_items s)"
  by (simp_all add: wq_owners_def)

lemmas wq_some = upd_item_some queue_item_some task_some

lemma init_owners:
  assumes "wq_spec K" "wq_owners K s" "init_workqueue K s (Some s')"
  shows "wq_owners K s'"
  using assms(3)
proof (cases rule: init_workqueue.cases)
  case (create q k)
  then show ?thesis using assms(2) wq_specD(1) [OF assms(1) create(3)] by (simp add: wq_owners_def)
next
  case (alloc v p it)
  have "wq_items s p = None" using wq_specD(2) [OF assms(1) alloc(3)] by auto
  with alloc owner_of [OF assms(2), of p] owners_facts [OF assms(2)] show ?thesis
    by (intro owners_at [OF assms(2), of p]) (simp_all add: owner_moves(1))
next
  case (no_memory v)
  then show ?thesis using assms(2) by (simp add: wq_owners_def)
next
  case (INIT_WORK v)
  with owner_of [OF assms(2), of "wq_ptr s v"] owners_facts [OF assms(2)] show ?thesis
    by (intro owners_at [OF assms(2), of "wq_ptr s v"]) (auto simp: wq_some intro: owner_moves(2))
next
  case (set_x v)
  with owner_of [OF assms(2), of "wq_ptr s v"] owners_facts [OF assms(2)] show ?thesis
    by (intro owners_at [OF assms(2), of "wq_ptr s v"]) (auto simp: wq_some intro: owner_moves(2))
next
  case (queue v)
  have "item_ready (wq_items s (wq_ptr s v))" using queue(2) owners_facts(3) [OF assms(2)] by (auto simp: item_ready_def)
  with queue owner_of [OF assms(2), of "wq_ptr s v"] owners_facts [OF assms(2)] wq_specD(3,4) [OF assms(1)] show ?thesis
    by (intro owners_at [OF assms(2), of "wq_ptr s v"]) (auto simp: wq_some intro: owner_moves(3))
qed

lemma work_owners:
  assumes "wq_spec K" "wq_owners K s" "my_wq_function K s (Some s')"
  shows "wq_owners K s'"
  using assms(3)
proof (cases rule: my_wq_function.cases)
  case (start w k)
  note law = wq_specD(5) [OF assms(1) start(2)]
  obtain it where s': "wq_items s w = Some it" "s' = s\<lparr>wq_kern := k, wq_tasks := (wq_tasks s)(w \<mapsto> To_print)\<rparr>"
    using start(1) by (auto simp: wq_some)
  have "one_owner False True (w \<in> held_at (wq_pc s) (wq_ptr s)) (wq_items s w) (Some To_print)"
    using owner_of [OF assms(2), of w] law by (intro owner_moves(4)) simp
  then show ?thesis using s' law owners_facts [OF assms(2)]
    by (intro owners_at [OF assms(2), of w]) simp_all
next
  case (printk w)
  with owner_of [OF assms(2), of w] owners_facts [OF assms(2)] show ?thesis
    by (intro owners_at [OF assms(2), of w]) (auto simp: wq_some intro: owner_moves(5))
next
  case (kfree w)
  have "w \<notin> held_at (wq_pc s) (wq_ptr s)" using owner_of [OF assms(2), of w] kfree(2) by (simp add: one_owner_def busy_def)
  with kfree owner_of [OF assms(2), of w] owners_facts [OF assms(2)] show ?thesis
    by (intro owners_at [OF assms(2), of w]) (auto simp: wq_some held_ok_upd intro: owner_moves(6))
next
  case (return w)
  with owner_of [OF assms(2), of w] owners_facts [OF assms(2)] wq_specD(6,7) [OF assms(1)] show ?thesis
    by (intro owners_at [OF assms(2), of w]) (auto simp: wq_some intro: owner_moves(7))
qed

text \<open>Numbers: queueing makes an item wait, printing ends its wait, the other steps keep who waits.\<close>

lemma awaits_ready:
  assumes "wq_owners K s" "w \<in> awaits K s"
  shows "item_ready (wq_items s w)" "w \<notin> held_at (wq_pc s) (wq_ptr s)" "wq_tasks s w \<noteq> Some To_free"
  using owner_of [OF assms(1), of w] assms(2) by (auto simp: one_owner_def busy_def awaits_def)

lemma waiting_finite: "wq_owners K s \<Longrightarrow> finite (waiting K s v)"
  using owners_facts(2) by (rule rev_finite_subset) (auto simp: waiting_def numbered_def)

lemma waiting_cong:
  assumes "awaits K s' = awaits K s" "\<forall>w \<in> awaits K s. wq_items s' w = wq_items s w"
  shows "waiting K s' v = waiting K s v"
  using assms by (auto simp: waiting_def numbered_def)

lemma counts_kept:
  assumes "wq_counts K s" "wq_log s' = wq_log s" "awaits K s' = awaits K s"
    and "\<forall>w \<in> awaits K s. wq_items s' w = wq_items s w" "\<forall>v. queued s' v = queued s v"
  shows "wq_counts K s'"
  using assms waiting_cong [OF assms(3,4)] by (simp add: wq_counts_def)

lemma counts_queue:
  assumes "wq_owners K s" "wq_counts K s" "w \<notin> awaits K s" "numbered s w v" "\<not> queued s v"
    and "wq_log s' = wq_log s" "wq_items s' = wq_items s" "awaits K s' = insert w (awaits K s)"
    and "\<forall>u. queued s' u \<longleftrightarrow> u = v \<or> queued s u"
  shows "wq_counts K s'"
proof -
  have "waiting K s' u = (if u = v then insert w (waiting K s u) else waiting K s u)" for u
    using assms(4,7,8) by (auto simp: waiting_def numbered_def)
  moreover have "w \<notin> waiting K s v" using assms(3) by (simp add: waiting_def)
  ultimately show ?thesis using assms(2,5,6,9) waiting_finite [OF assms(1)] by (auto simp: wq_counts_def)
qed

lemma counts_print:
  assumes "wq_owners K s" "wq_counts K s" "w \<in> awaits K s" "wq_items s w = Some it"
    and "wq_log s' = wq_log s @ [work_x it]" "wq_items s' = wq_items s" "awaits K s' = awaits K s - {w}"
    and "\<forall>u. queued s' u = queued s u"
  shows "wq_counts K s'"
proof -
  obtain v where v: "work_x it = wq_value v" using awaits_ready(1) [OF assms(1,3)] assms(4) by (auto simp: item_ready_def)
  have "numbered s' = numbered s" by (intro ext) (simp add: numbered_def assms(6))
  moreover have "numbered s w u \<longleftrightarrow> u = v" for u using assms(4) v by (auto simp: numbered_def)
  ultimately have "waiting K s' u = (if u = v then waiting K s u - {w} else waiting K s u)" for u
    unfolding waiting_def assms(7) by (cases "u = v") auto
  moreover have "w \<in> waiting K s v" using assms(3,4) v by (simp add: waiting_def numbered_def)
  then have "card (waiting K s v) = Suc (card (waiting K s v - {w}))"
    by (rule card.remove [OF waiting_finite [OF assms(1)]])
  ultimately have "count_list (wq_log s') (wq_value u) + card (waiting K s' u)
      = count_list (wq_log s) (wq_value u) + card (waiting K s u)" for u
    using assms(5) v by (cases "u = v") simp_all
  with assms(2,5,8) v show ?thesis by (auto simp: wq_counts_def)
qed

lemma init_counts:
  assumes "wq_spec K" "wq_owners K s" "wq_counts K s" "wq_control K s" "init_workqueue K s (Some s')"
  shows "wq_counts K s'"
  using assms(5)
proof (cases rule: init_workqueue.cases)
  case (create q k)
  show ?thesis using create assms(4) wq_specD(1) [OF assms(1) create(3)]
    by (intro counts_kept [OF assms(3)]) (auto simp: awaits_def queued_def wq_control_def)
next
  case (alloc v p it)
  have "p \<notin> awaits K s" using wq_specD(2) [OF assms(1) alloc(3)] awaits_ready(1) [OF assms(2)] by (auto simp: item_ready_def)
  then show ?thesis using alloc by (intro counts_kept [OF assms(3)]) (auto simp: awaits_def queued_def)
next
  case (no_memory v)
  then show ?thesis by (intro counts_kept [OF assms(3)]) (auto simp: awaits_def queued_def)
next
  case (INIT_WORK v)
  have "wq_ptr s v \<notin> awaits K s" using awaits_ready(2) [OF assms(2)] INIT_WORK(2) by auto
  then show ?thesis using INIT_WORK by (intro counts_kept [OF assms(3)]) (auto simp: wq_some awaits_def queued_def)
next
  case (set_x v)
  have "wq_ptr s v \<notin> awaits K s" using awaits_ready(2) [OF assms(2)] set_x(2) by auto
  then show ?thesis using set_x by (intro counts_kept [OF assms(3)]) (auto simp: wq_some awaits_def queued_def)
next
  case (queue v)
  have "wq_ptr s v \<notin> awaits K s" using awaits_ready(2) [OF assms(2)] queue(2) by auto
  moreover have "numbered s (wq_ptr s v) v" using owners_facts(3) [OF assms(2)] queue(2) by (auto simp: numbered_def)
  moreover from this have "wq_ptr s v \<noteq> 0" using owners_facts(1) [OF assms(2)] by (auto simp: numbered_def)
  ultimately show ?thesis using queue wq_specD(3) [OF assms(1)]
    by (intro counts_queue [OF assms(2,3)]) (auto simp: wq_some awaits_def queued_def)
qed

lemma work_counts:
  assumes "wq_spec K" "wq_owners K s" "wq_counts K s" "my_wq_function K s (Some s')"
  shows "wq_counts K s'"
  using assms(4)
proof (cases rule: my_wq_function.cases)
  case (start w k)
  have s': "s' = s\<lparr>wq_kern := k, wq_tasks := (wq_tasks s)(w \<mapsto> To_print)\<rparr>" using start(1) by (auto simp: wq_some)
  have "awaits K s' = awaits K s" unfolding awaits_def s' using wq_specD(5) [OF assms(1) start(2)] by auto
  then show ?thesis by (intro counts_kept [OF assms(3)]) (simp_all add: s' queued_def)
next
  case (printk w)
  have "w \<in> awaits K s" using printk(2) by (simp add: awaits_def)
  moreover have "w \<notin> wq_pending K (wq_kern s)" using owner_of [OF assms(2), of w] printk(2) by (simp add: one_owner_def busy_def)
  moreover obtain it where "wq_items s w = Some it" using printk(1) by (auto simp: wq_some)
  ultimately show ?thesis using printk
    by (intro counts_print [OF assms(2,3)]) (auto simp: wq_some awaits_def queued_def)
next
  case (kfree w)
  have "w \<notin> awaits K s" using awaits_ready(3) [OF assms(2)] kfree(2) by auto
  then show ?thesis using kfree by (intro counts_kept [OF assms(3)]) (auto simp: wq_some awaits_def queued_def)
next
  case (return w)
  then show ?thesis using wq_specD(6) [OF assms(1)]
    by (intro counts_kept [OF assms(3)]) (auto simp: awaits_def queued_def)
qed

lemma init_control:
  assumes "wq_spec K" "wq_control K s" "init_workqueue K s (Some s')"
  shows "wq_control K s'"
  using assms(3)
proof (cases rule: init_workqueue.cases)
  case (create q k)
  then show ?thesis using assms(2) wq_specD(1) [OF assms(1) create(3)] by (simp add: wq_control_def)
qed (use assms(2) wq_specD(4) [OF assms(1)] in \<open>auto simp: wq_control_def wq_some\<close>)

lemma work_control:
  assumes "wq_spec K" "wq_control K s" "my_wq_function K s (Some s')"
  shows "wq_control K s'"
  using assms(3)
proof (cases rule: my_wq_function.cases)
  case (start w k)
  then show ?thesis using assms(2) wq_specD(5) [OF assms(1) start(2)] by (auto simp: wq_control_def wq_some)
qed (use assms(2) wq_specD(6,7) [OF assms(1)] in \<open>auto simp: wq_control_def wq_some\<close>)

lemma exit_inv:
  assumes "wq_spec K" "wq_inv K s" "exit_workqueue K s (Some s')"
  shows "wq_inv K s'"
  using assms(3)
proof (cases rule: exit_workqueue.cases)
  case enter
  then show ?thesis using assms(2)
    by (auto simp: wq_inv_def wq_owners_def wq_control_def awaits_def queued_def intro!: counts_kept [of K s])
next
  case flush
  then show ?thesis using assms(2) wq_specD(8) [OF assms(1) flush(4)]
    by (auto simp: wq_inv_def wq_owners_def wq_control_def awaits_def queued_def intro!: counts_kept [of K s])
next
  case destroy
  let ?k = "destroy_workqueue K (wq_kern s) (my_wq s)"
  have none: "wq_pending K (wq_kern s) = {}" "wq_running K (wq_kern s) = {}" "wq_pending K ?k = {}" "wq_running K ?k = {}"
    using assms(2) destroy(2) wq_specD(9,10) [OF assms(1), of "wq_kern s" "my_wq s"] by (auto simp: wq_inv_def wq_control_def)
  with destroy assms(2) show ?thesis
    by (auto simp: wq_inv_def wq_owners_def wq_control_def awaits_def queued_def intro!: counts_kept [of K s])
qed

lemma wq_step_inv:
  assumes "wq_spec K" "wq_inv K s" "wq_step K s (Some s')"
  shows "wq_inv K s'"
  using assms init_owners init_counts init_control work_owners work_counts work_control exit_inv
  unfolding wq_step_def wq_inv_def by metis

lemma wq_reachable_inv:
  assumes "wq_spec K" "wq_reachable K s"
  shows "wq_inv K s"
  using assms(2) by induction (auto intro: wq_inv_initial wq_step_inv [OF assms(1)])

end
