(* ===== verification/Work_Queue_Props.thy ===== *)
theory Work_Queue_Props
  imports Work_Queue_Inv
begin

text \<open>
  The properties of the work queue module: which fault it can have, what it has printed and released
  when it is unloaded, and that every run ends.
\<close>

section \<open>Faults\<close>

lemma init_no_fault:
  assumes "wq_inv K s"
  shows "\<not> init_workqueue K s None"
proof
  assume "init_workqueue K s None"
  then show False
  proof (cases rule: init_workqueue.cases)
    case (INIT_WORK v)
    then show False using assms owner_of [of K s "wq_ptr s v"]
      by (auto simp: wq_inv_def upd_item_def one_owner_def split: option.splits)
  next
    case (set_x v)
    then show False using assms owners_facts(3) [of K s] by (auto simp: wq_inv_def upd_item_def split: option.splits)
  next
    case (queue v)
    then show False using assms owners_facts(3) [of K s]
      by (auto simp: wq_inv_def queue_item_def split: option.splits if_splits)
  qed
qed

lemma work_no_fault:
  assumes "wq_spec K" "wq_inv K s"
  shows "\<not> my_wq_function K s None"
proof
  have own: "wq_owners K s" using assms(2) by (simp add: wq_inv_def)
  assume "my_wq_function K s None"
  then show False
  proof (cases rule: my_wq_function.cases)
    case (start w k)
    then have "item_ready (wq_items s w)"
      using owner_of [OF own, of w] wq_specD(5) [OF assms(1)] by (auto simp: one_owner_def)
    with start show False by (auto simp: start_item_def item_ready_def)
  next
    case (printk w)
    then show False using owner_of [OF own, of w] by (auto simp: print_item_def one_owner_def busy_def split: option.splits)
  next
    case (kfree w)
    then show False using owner_of [OF own, of w] by (auto simp: kfree_item_def one_owner_def busy_def split: if_splits)
  qed
qed

lemma exit_fault: "exit_workqueue K s None \<longleftrightarrow> wq_pc s = Flush \<and> my_wq s = 0"
  by (auto simp: exit_workqueue.simps)

section \<open>What has been printed\<close>

lemma log_distinct: "wq_counts K s \<Longrightarrow> distinct (wq_log s)"
proof -
  assume c: "wq_counts K s"
  have "count (mset (wq_log s)) x \<le> 1" for x
  proof (cases "x \<in> range wq_value")
    case True
    then obtain v where v: "x = wq_value v" by auto
    have "count_list (wq_log s) x + card (waiting K s v) = of_bool (queued s v)" using c v by (simp add: wq_counts_def)
    then show ?thesis by (cases "queued s v") (simp_all add: count_mset)
  next
    case False
    then have "x \<notin> set (wq_log s)" using c by (auto simp: wq_counts_def)
    then show ?thesis by (simp add: count_mset)
  qed
  then have "count (mset (wq_log s)) x = (if x \<in> set (wq_log s) then 1 else 0)" for x
    by (metis count_greater_eq_one_iff count_mset_0_iff le_antisym set_mset_mset)
  then show "distinct (wq_log s)" by (simp add: distinct_count_atmost_1)
qed

lemma log_complete:
  assumes "wq_counts K s" "wq_owners K s" "wq_pc s = Unloaded"
    and "wq_pending K (wq_kern s) = {}" "wq_running K (wq_kern s) = {}"
  shows "mset (wq_log s) = mset (map wq_value (filter (\<lambda>v. wq_ptr s v \<noteq> 0) [Work, Work2]))"
proof (rule multiset_eqI)
  fix x
  have "awaits K s = {}" using assms(4,5) owner_of [OF assms(2)] by (auto simp: awaits_def one_owner_def)
  then have n: "count_list (wq_log s) (wq_value v) = of_bool (wq_ptr s v \<noteq> 0)" for v
    using assms(1,3) by (simp add: wq_counts_def waiting_def queued_def)
  show "count (mset (wq_log s)) x = count (mset (map wq_value (filter (\<lambda>v. wq_ptr s v \<noteq> 0) [Work, Work2]))) x"
  proof (cases "x \<in> range wq_value")
    case True
    then obtain v where "x = wq_value v" by auto
    then show ?thesis using n [of v] by (cases v) (simp_all add: count_mset)
  next
    case False
    then have "x \<notin> set (wq_log s)" using assms(1) by (auto simp: wq_counts_def)
    moreover have "x \<noteq> wq_value v" for v using False by auto
    from this [of Work] this [of Work2] have "x \<noteq> 1" "x \<noteq> 2" by simp_all
    ultimately show ?thesis by (simp add: count_mset)
  qed
qed

section \<open>Progress\<close>

fun pc_rank :: "wq_pc \<Rightarrow> nat" where
  "pc_rank Create = 13"
| "pc_rank (Alloc Work) = 12"
| "pc_rank (Init Work) = 11"
| "pc_rank (Set_x Work) = 10"
| "pc_rank (Queue Work) = 9"
| "pc_rank (Alloc Work2) = 8"
| "pc_rank (Init Work2) = 7"
| "pc_rank (Set_x Work2) = 6"
| "pc_rank (Queue Work2) = 5"
| "pc_rank Loaded = 4"
| "pc_rank Flush = 3"
| "pc_rank Destroy = 2"
| "pc_rank Unloaded = 1"

fun task_rank :: "wq_task option \<Rightarrow> nat" where
  "task_rank None = 0"
| "task_rank (Some To_return) = 1"
| "task_rank (Some To_free) = 2"
| "task_rank (Some To_print) = 3"

definition work_left :: "'k wq_kernel \<Rightarrow> 'k wq_state \<Rightarrow> nat" where
  "work_left K s = 4 * card (wq_pending K (wq_kern s)) + (\<Sum>w \<in> wq_running K (wq_kern s). task_rank (wq_tasks s w))"

lemma init_rank: "init_workqueue K s (Some s') \<Longrightarrow> pc_rank (wq_pc s') < pc_rank (wq_pc s)"
proof (induction rule: init_workqueue.cases)
  case (alloc s v p it)
  then show ?case by (cases v) auto
next
  case (no_memory s v)
  then show ?case by (cases v) auto
next
  case (INIT_WORK s v)
  then show ?case by (cases v) (auto simp: wq_some)
next
  case (set_x s v)
  then show ?case by (cases v) (auto simp: wq_some)
next
  case (queue s v)
  then show ?case by (cases v) (auto simp: wq_some)
qed auto

lemma exit_rank: "exit_workqueue K s (Some s') \<Longrightarrow> pc_rank (wq_pc s') < pc_rank (wq_pc s)"
  by (induction rule: exit_workqueue.cases) auto

lemma sum_task:
  assumes "finite R" "w \<in> R" "task_rank (t' w) < task_rank (t w)" "\<forall>x. x \<noteq> w \<longrightarrow> t' x = t x"
  shows "(\<Sum>x \<in> R. task_rank (t' x)) < (\<Sum>x \<in> R. task_rank (t x))"
proof (rule sum_strict_mono_ex1)
  show "\<forall>x \<in> R. task_rank (t' x) \<le> task_rank (t x)" using assms(3,4) by (metis less_imp_le order_refl)
qed (use assms in auto)

lemma work_decreases:
  assumes "wq_spec K" "wq_inv K s" "my_wq_function K s (Some s')"
  shows "wq_pc s' = wq_pc s \<and> work_left K s' < work_left K s"
proof -
  have own: "wq_owners K s" and fin: "finite (wq_running K (wq_kern s))"
    using assms(2) by (simp_all add: wq_inv_def wq_control_def)
  have run: "w \<in> wq_running K (wq_kern s)" if "wq_tasks s w = Some t" for w t
    using owner_of [OF own, of w] that by (simp add: one_owner_def)
  show ?thesis
    using assms(3)
  proof (cases rule: my_wq_function.cases)
    case (start w k)
    note law = wq_specD(5) [OF assms(1) start(2)]
    have "finite (wq_pending K (wq_kern s))"
      using owner_of [OF own] by (intro finite_subset [OF _ owners_facts(2) [OF own]]) (auto simp: one_owner_def)
    then have c: "card (wq_pending K (wq_kern s)) = Suc (card (wq_pending K (wq_kern s) - {w}))"
      using law card.remove by metis
    have "(\<Sum>x \<in> wq_running K (wq_kern s). task_rank (((wq_tasks s)(w \<mapsto> To_print)) x))
        = (\<Sum>x \<in> wq_running K (wq_kern s). task_rank (wq_tasks s x))" using law by (intro sum.cong) auto
    with start(1) law fin c show ?thesis by (auto simp: work_left_def wq_some)
  next
    case (printk w)
    then show ?thesis using run [of w] fin
      by (auto simp: work_left_def wq_some intro!: sum_task [of _ w])
  next
    case (kfree w)
    then show ?thesis using run [of w] fin
      by (auto simp: work_left_def wq_some intro!: sum_task [of _ w])
  next
    case (return w)
    have "(\<Sum>x \<in> wq_running K (wq_kern s). task_rank (wq_tasks s x))
        = task_rank (wq_tasks s w) + (\<Sum>x \<in> wq_running K (wq_kern s) - {w}. task_rank (wq_tasks s x))"
      using run return(2) fin by (intro sum.remove) auto
    moreover have "(\<Sum>x \<in> wq_running K (wq_kern s) - {w}. task_rank (((wq_tasks s)(w := None)) x))
        = (\<Sum>x \<in> wq_running K (wq_kern s) - {w}. task_rank (wq_tasks s x))" by (intro sum.cong) auto
    ultimately show ?thesis using return wq_specD(6,7) [OF assms(1)] by (simp add: work_left_def)
  qed
qed

lemma wq_progressD:
  assumes "wq_progress K"
  shows "\<exists>q k'. create_workqueue K k n q k'"
    and "0 \<notin> A \<Longrightarrow> \<exists>p. wq_kmalloc K A p"
    and "wq_pending K k \<noteq> {} \<Longrightarrow> wq_running K k = {} \<Longrightarrow> \<exists>w k'. wq_start K k w k'"
    and "wq_pending K k = {} \<Longrightarrow> wq_running K k = {} \<Longrightarrow> flush_returns K k q"
  using assms by (simp_all add: wq_progress_def)

lemma flush_or_work:
  assumes "wq_progress K" "wq_inv K s" "wq_pc s = Flush" "my_wq s \<noteq> 0"
  shows "\<exists>r. wq_step K s r"
proof (cases "wq_running K (wq_kern s) = {}")
  case True
  then show ?thesis
    using assms(3,4) wq_progressD(3,4) [OF assms(1) _ True] unfolding wq_step_def
    by (metis my_wq_function.start exit_workqueue.flush)
next
  case False
  then obtain w t where "wq_tasks s w = Some t"
    using assms(2) owner_of [of K s] by (fastforce simp: wq_inv_def one_owner_def)
  then show ?thesis unfolding wq_step_def
    by (cases t) (blast intro: my_wq_function.intros)+
qed

lemma never_stuck:
  assumes "wq_progress K" "wq_inv K s" "wq_pc s \<noteq> Unloaded"
  shows "\<exists>r. wq_step K s r"
proof (cases "wq_pc s")
  case Create
  then show ?thesis using wq_progressD(1) [OF assms(1)] unfolding wq_step_def by (blast intro: init_workqueue.create)
next
  case (Alloc v)
  have free: "0 \<notin> dom (wq_items s)" using assms(2) owners_facts(1) [of K s] by (simp add: wq_inv_def domIff)
  obtain p where p: "wq_kmalloc K (dom (wq_items s)) p" using wq_progressD(2) [OF assms(1) free] by (rule exE)
  show ?thesis
  proof (cases "p = 0")
    case True
    with p have "wq_kmalloc K (dom (wq_items s)) 0" by simp
    from init_workqueue.no_memory [OF Alloc this] show ?thesis unfolding wq_step_def by blast
  next
    case False
    from init_workqueue.alloc [OF Alloc p False] show ?thesis unfolding wq_step_def by blast
  qed
next
  case Flush
  then show ?thesis using flush_or_work [OF assms(1,2)] exit_workqueue.flush_null unfolding wq_step_def by blast
next
  case (Init v)
  then show ?thesis unfolding wq_step_def by (blast intro: init_workqueue.INIT_WORK)
next
  case (Set_x v)
  then show ?thesis unfolding wq_step_def by (blast intro: init_workqueue.set_x)
next
  case (Queue v)
  then show ?thesis unfolding wq_step_def by (blast intro: init_workqueue.queue)
next
  case Loaded
  then show ?thesis unfolding wq_step_def by (blast intro: exit_workqueue.enter)
next
  case Destroy
  then show ?thesis unfolding wq_step_def by (blast intro: exit_workqueue.destroy)
qed (use assms(3) in simp)

section \<open>A kernel and its runs\<close>

text \<open>The pending and the running items are the state of this kernel; items start in any order.\<close>

definition demo_wq :: "(u64 set \<times> u64 set) wq_kernel" where
  "demo_wq = \<lparr>create_workqueue = (\<lambda>k n q k'. k' = k), wq_kmalloc = (\<lambda>A p. p \<notin> A),
     queue_work = (\<lambda>k q w. (w \<notin> fst k, (insert w (fst k), snd k))),
     wq_start = (\<lambda>k w k'. w \<in> fst k \<and> w \<notin> snd k \<and> k' = (fst k - {w}, insert w (snd k))),
     wq_done = (\<lambda>k w. (fst k, snd k - {w})),
     flush_returns = (\<lambda>k q. k = ({}, {})), destroy_workqueue = (\<lambda>k q. k), wq_pending = fst, wq_running = snd\<rparr>"

lemma demo_wq_ok: "wq_spec demo_wq" "wq_progress demo_wq"
  by (auto simp: wq_spec_def wq_progress_def demo_wq_def prod_eq_iff)

definition demo_load :: "(u64 set \<times> u64 set) wq_state" where
  "demo_load = \<lparr>wq_pc = Create, my_wq = 0, wq_ptr = (\<lambda>v. 0), wq_items = Map.empty, wq_tasks = Map.empty, wq_log = [],
     wq_kern = ({}, {})\<rparr>"

lemma demo_loaded: "wq_reachable demo_wq demo_load"
  by (rule wq_reachable.loaded [of _ "({}, {})"]) (simp add: wq_initial_def demo_load_def demo_wq_def)

lemma demo_no_queue: "wq_reachable demo_wq (demo_load\<lparr>wq_pc := Flush\<rparr>)"
proof -
  have "wq_step demo_wq demo_load (Some (demo_load\<lparr>wq_pc := Loaded\<rparr>))"
    using init_workqueue.create [of demo_load demo_wq 0 "({}, {})"] by (simp add: wq_step_def demo_load_def demo_wq_def)
  then have "wq_reachable demo_wq (demo_load\<lparr>wq_pc := Loaded\<rparr>)" by (rule wq_reachable.stepped [OF demo_loaded])
  moreover have "wq_step demo_wq (demo_load\<lparr>wq_pc := Loaded\<rparr>) (Some (demo_load\<lparr>wq_pc := Flush\<rparr>))"
    using exit_workqueue.enter [of "demo_load\<lparr>wq_pc := Loaded\<rparr>" demo_wq] by (simp add: wq_step_def)
  ultimately show ?thesis by (rule wq_reachable.stepped)
qed

text \<open>A run in which the first item is not allocated and the second is printed and released.\<close>

definition demo_at :: "wq_pc \<Rightarrow> my_work_t option \<Rightarrow> wq_task option \<Rightarrow> u32 list \<Rightarrow> u64 set \<times> u64 set \<Rightarrow> (u64 set \<times> u64 set) wq_state" where
  "demo_at pc i t l k = \<lparr>wq_pc = pc, my_wq = 8, wq_ptr = (\<lambda>v. 0)(Work := 0, Work2 := 16), wq_items = Map.empty(16 := i),
     wq_tasks = Map.empty(16 := t), wq_log = l, wq_kern = k\<rparr>"

lemmas demo_simps = demo_at_def demo_load_def demo_wq_def

lemma demo_first: "wq_reachable demo_wq (demo_at (Init Work2) (Some \<lparr>my_work = No_func, work_x = 0\<rparr>) None [] ({}, {}))"
proof -
  let ?s1 = "demo_load\<lparr>my_wq := 8, wq_pc := Alloc Work\<rparr>"
  let ?s2 = "demo_load\<lparr>my_wq := 8, wq_ptr := (\<lambda>v. 0)(Work := 0), wq_pc := Alloc Work2\<rparr>"
  have "wq_step demo_wq demo_load (Some ?s1)"
    using init_workqueue.create [of demo_load demo_wq 8 "({}, {})"] by (simp add: wq_step_def demo_simps)
  moreover have "wq_step demo_wq ?s1 (Some ?s2)"
    using init_workqueue.no_memory [of ?s1 Work demo_wq] by (simp add: wq_step_def demo_simps)
  moreover have "wq_step demo_wq ?s2 (Some (demo_at (Init Work2) (Some \<lparr>my_work = No_func, work_x = 0\<rparr>) None [] ({}, {})))"
    using init_workqueue.alloc [of ?s2 Work2 demo_wq 16 "\<lparr>my_work = No_func, work_x = 0\<rparr>"]
    by (simp add: wq_step_def demo_simps)
  ultimately show ?thesis using demo_loaded wq_reachable.stepped by metis
qed

lemma demo_queued: "wq_reachable demo_wq (demo_at Loaded (Some \<lparr>my_work = Func_my_wq_function, work_x = 2\<rparr>) None [] ({16}, {}))"
proof -
  let ?s1 = "demo_at (Init Work2) (Some \<lparr>my_work = No_func, work_x = 0\<rparr>) None [] ({}, {})"
  let ?s2 = "demo_at (Set_x Work2) (Some \<lparr>my_work = Func_my_wq_function, work_x = 0\<rparr>) None [] ({}, {})"
  let ?s3 = "demo_at (Queue Work2) (Some \<lparr>my_work = Func_my_wq_function, work_x = 2\<rparr>) None [] ({}, {})"
  have "wq_step demo_wq ?s1 (Some ?s2)"
    using init_workqueue.INIT_WORK [of ?s1 Work2 demo_wq] by (simp add: wq_step_def demo_simps upd_item_def)
  moreover have "wq_step demo_wq ?s2 (Some ?s3)"
    using init_workqueue.set_x [of ?s2 Work2 demo_wq] by (simp add: wq_step_def demo_simps upd_item_def)
  moreover have "wq_step demo_wq ?s3 (Some (demo_at Loaded (Some \<lparr>my_work = Func_my_wq_function, work_x = 2\<rparr>) None [] ({16}, {})))"
    using init_workqueue.queue [of ?s3 Work2 demo_wq] by (simp add: wq_step_def demo_simps queue_item_def)
  ultimately show ?thesis using demo_first wq_reachable.stepped by metis
qed

lemma demo_worked: "wq_reachable demo_wq (demo_at Loaded None None [2] ({}, {}))"
proof -
  let ?i = "\<lparr>my_work = Func_my_wq_function, work_x = 2\<rparr>"
  let ?s1 = "demo_at Loaded (Some ?i) None [] ({16}, {})"
  let ?s2 = "demo_at Loaded (Some ?i) (Some To_print) [] ({}, {16})"
  let ?s3 = "demo_at Loaded (Some ?i) (Some To_free) [2] ({}, {16})"
  let ?s4 = "demo_at Loaded None (Some To_return) [2] ({}, {16})"
  have "wq_step demo_wq ?s1 (Some ?s2)"
    using my_wq_function.start [of demo_wq ?s1 16 "({}, {16})"] by (simp add: wq_step_def demo_simps start_item_def)
  moreover have "wq_step demo_wq ?s2 (Some ?s3)"
    using my_wq_function.printk [of ?s2 16 demo_wq] by (simp add: wq_step_def demo_simps print_item_def)
  moreover have "wq_step demo_wq ?s3 (Some ?s4)"
    using my_wq_function.kfree [of ?s3 16 demo_wq] by (simp add: wq_step_def demo_simps kfree_item_def)
  moreover have "wq_step demo_wq ?s4 (Some (demo_at Loaded None None [2] ({}, {})))"
    using my_wq_function.return [of ?s4 16 demo_wq] by (simp add: wq_step_def demo_simps)
  ultimately show ?thesis using demo_queued wq_reachable.stepped by metis
qed

lemma demo_unloaded: "wq_reachable demo_wq (demo_at Unloaded None None [2] ({}, {}))"
proof -
  have "wq_step demo_wq (demo_at Loaded None None [2] ({}, {})) (Some (demo_at Flush None None [2] ({}, {})))"
    using exit_workqueue.enter [of "demo_at Loaded None None [2] ({}, {})" demo_wq] by (simp add: wq_step_def demo_simps)
  moreover have "wq_step demo_wq (demo_at Flush None None [2] ({}, {})) (Some (demo_at Destroy None None [2] ({}, {})))"
    using exit_workqueue.flush [of "demo_at Flush None None [2] ({}, {})" demo_wq] by (simp add: wq_step_def demo_simps)
  moreover have "wq_step demo_wq (demo_at Destroy None None [2] ({}, {})) (Some (demo_at Unloaded None None [2] ({}, {})))"
    using exit_workqueue.destroy [of "demo_at Destroy None None [2] ({}, {})" demo_wq] by (simp add: wq_step_def demo_simps)
  ultimately show ?thesis using demo_worked wq_reachable.stepped by metis
qed

section \<open>Properties\<close>

text \<open>
  C29. However the workers run between the statements of the module, no item is used after it was
  released, released twice, or run before its function is set: the only fault is that of
  \<open>exit_workqueue\<close> when the queue could not be created, and then it is certain.
\<close>

theorem wq_only_fault:
  assumes "wq_spec K" "wq_reachable K s"
  shows "wq_step K s None \<longleftrightarrow> wq_pc s = Flush \<and> my_wq s = 0"
  using init_no_fault work_no_fault [OF assms(1)] wq_reachable_inv [OF assms] exit_fault
  unfolding wq_step_def by blast

theorem wq_only_fault_witness: "wq_step demo_wq (demo_load\<lparr>wq_pc := Flush\<rparr>) None"
  using wq_only_fault [OF demo_wq_ok(1) demo_no_queue] by (simp add: demo_load_def)

text \<open>
  C30. No number is printed twice; and when the module is unloaded, every item has been released, no
  worker is left, and exactly the numbers of the items that could be allocated have been printed.
\<close>

theorem wq_unloaded_all_done:
  assumes "wq_spec K" "wq_reachable K s"
  shows "distinct (wq_log s) \<and> (wq_pc s = Unloaded \<longrightarrow> wq_items s = Map.empty \<and> wq_tasks s = Map.empty
    \<and> mset (wq_log s) = mset (map wq_value (filter (\<lambda>v. wq_ptr s v \<noteq> 0) [Work, Work2])))"
proof -
  note inv = wq_reachable_inv [OF assms]
  have "distinct (wq_log s)"
    using inv log_distinct [of K s] by (simp add: wq_inv_def)
  moreover have "wq_items s w = None \<and> wq_tasks s w = None" if "wq_pc s = Unloaded" for w
    using inv that owner_of [of K s w] by (auto simp: wq_inv_def wq_control_def one_owner_def busy_def)
  moreover have "mset (wq_log s) = mset (map wq_value (filter (\<lambda>v. wq_ptr s v \<noteq> 0) [Work, Work2]))" if "wq_pc s = Unloaded"
    using inv that by (intro log_complete [of K]) (auto simp: wq_inv_def wq_control_def)
  ultimately show ?thesis by auto
qed

theorem wq_unloaded_all_done_witness:
  "distinct [2 :: u32] \<and> mset [2] = mset (map wq_value (filter (\<lambda>v. wq_ptr (demo_at Unloaded None None [2] ({}, {})) v \<noteq> 0) [Work, Work2]))"
  using wq_unloaded_all_done [OF demo_wq_ok(1) demo_unloaded] by (simp add: demo_at_def)

text \<open>
  C31. Every run ends: no infinite sequence of steps starts in a reachable state, and a state in which
  nothing can happen is the one in which the module is unloaded.
\<close>

theorem wq_every_run_ends:
  assumes "wq_spec K" "wq_progress K"
  shows "wf {(s', s). wq_reachable K s \<and> wq_step K s (Some s')}
    \<and> (\<forall>s. wq_reachable K s \<longrightarrow> wq_pc s = Unloaded \<or> (\<exists>r. wq_step K s r))"
proof
  have "{(s', s). wq_reachable K s \<and> wq_step K s (Some s')} \<subseteq> measures [\<lambda>s. pc_rank (wq_pc s), work_left K]"
    using init_rank exit_rank work_decreases [OF assms(1)] wq_reachable_inv [OF assms(1)]
    unfolding wq_step_def by fastforce
  then show "wf {(s', s). wq_reachable K s \<and> wq_step K s (Some s')}" by (rule wf_subset [OF wf_measures])
  show "\<forall>s. wq_reachable K s \<longrightarrow> wq_pc s = Unloaded \<or> (\<exists>r. wq_step K s r)"
    using never_stuck [OF assms(2)] wq_reachable_inv [OF assms(1)] by blast
qed

theorem wq_every_run_ends_witness:
  "wf {(s', s). wq_reachable demo_wq s \<and> wq_step demo_wq s (Some s')}
    \<and> (wq_reachable demo_wq demo_load \<and> (\<exists>r. wq_step demo_wq demo_load r))"
  using wq_every_run_ends [OF demo_wq_ok] demo_loaded by (fastforce simp: demo_load_def)

end
