(* ===== verification/Monitor.thy ===== *)
theory Monitor
  imports Prelude
begin

text \<open>
  Threads that share a mutex and a condition variable, as the C++ programs use them: the position of
  every thread and the thread that holds the mutex.  A state of a program extends the record by its
  data; threads that wait for the condition variable are those at a waiting position.
\<close>

record 'pc monitor =
  mon_mutex :: "nat option"
  mon_pcs :: "nat \<Rightarrow> 'pc"

definition goto :: "('pc, 'z) monitor_scheme \<Rightarrow> nat \<Rightarrow> 'pc \<Rightarrow> ('pc, 'z) monitor_scheme" where
  "goto s t pc = s\<lparr>mon_pcs := (mon_pcs s)(t := pc)\<rparr>"

definition acquire :: "('pc, 'z) monitor_scheme \<Rightarrow> nat \<Rightarrow> 'pc \<Rightarrow> ('pc, 'z) monitor_scheme option" where
  "acquire s t pc = (if mon_mutex s = None then Some (goto (s\<lparr>mon_mutex := Some t\<rparr>) t pc) else None)"

definition release :: "('pc, 'z) monitor_scheme \<Rightarrow> nat \<Rightarrow> 'pc \<Rightarrow> ('pc, 'z) monitor_scheme" where
  "release s t pc = goto (s\<lparr>mon_mutex := None\<rparr>) t pc"

text \<open>The threads at the positions of \<open>holding\<close> are those that have the mutex.\<close>

definition exclusive :: "('pc \<Rightarrow> bool) \<Rightarrow> ('pc, 'z) monitor_scheme \<Rightarrow> bool" where
  "exclusive holding s \<longleftrightarrow> (\<forall>t. holding (mon_pcs s t) \<longleftrightarrow> mon_mutex s = Some t)"

lemma goto_simps [simp]:
  "mon_mutex (goto s t pc) = mon_mutex s" "mon_pcs (goto s t pc) = (mon_pcs s)(t := pc)"
  by (simp_all add: goto_def)

lemma release_simps [simp]:
  "mon_mutex (release s t pc) = None" "mon_pcs (release s t pc) = (mon_pcs s)(t := pc)"
  by (simp_all add: release_def)

lemma acquireD:
  "acquire s t pc = Some s' \<Longrightarrow> mon_mutex s = None \<and> s' = goto (s\<lparr>mon_mutex := Some t\<rparr>) t pc"
  by (simp add: acquire_def split: if_splits)

lemma exclusive_goto:
  "exclusive holding s \<Longrightarrow> holding pc \<longleftrightarrow> holding (mon_pcs s t) \<Longrightarrow> exclusive holding (goto s t pc)"
  by (simp add: exclusive_def)

lemma exclusive_acquire:
  "exclusive holding s \<Longrightarrow> holding pc \<Longrightarrow> acquire s t pc = Some s' \<Longrightarrow> exclusive holding s'"
  by (auto simp: exclusive_def dest!: acquireD split: if_splits)

lemma exclusive_release:
  "exclusive holding s \<Longrightarrow> holding (mon_pcs s t) \<Longrightarrow> \<not> holding pc \<Longrightarrow> exclusive holding (release s t pc)"
  by (auto simp: exclusive_def)

lemma exclusive_one:
  "exclusive holding s \<Longrightarrow> holding (mon_pcs s t) \<Longrightarrow> holding (mon_pcs s u) \<Longrightarrow> t = u"
  by (simp add: exclusive_def)

lemma exclusive_cong:
  "exclusive holding s \<Longrightarrow> mon_mutex s' = mon_mutex s \<Longrightarrow> mon_pcs s' = mon_pcs s \<Longrightarrow> exclusive holding s'"
  by (simp add: exclusive_def)

end
