(* ===== verification/Sync_Queue.thy ===== *)
theory Sync_Queue
  imports Monitor
begin

text \<open>
  The synchronised queue of \<open>src/producer_consumer/syncQueue.cpp\<close>, used by any number of threads.  Each
  statement of \<open>push\<close> and \<open>pop\<close> is a step of one thread; the mutex is the thread that holds it, and the
  threads that wait for the condition variable are those at \<open>Pop_wait\<close>, which leave it when they are
  notified or spuriously.  The histories of the pushed and popped values are kept beside the queue.
\<close>

section \<open>State and steps\<close>

datatype 'a sq_pc =
    Idle
  | Push_lock 'a | Push_test 'a | Push_put 'a bool | Push_notify bool | Push_unlock
  | Pop_lock | Pop_test | Pop_wait | Pop_relock | Pop_front | Pop_unlock 'a | Pop_returned 'a

record 'a sq_state = "'a sq_pc monitor" +
  sq_queue :: "'a list"
  sq_pushed :: "'a list"
  sq_popped :: "'a list"

text \<open>
  An event is a call, the next statement of a thread, or a wake-up of a waiting one.  An event that
  cannot happen, because the mutex is taken or the thread waits, gives no state.  A notification names
  the thread it wakes, which is any of the waiting ones, and none only if no thread waits: the second
  component of \<open>Run\<close>.
\<close>

datatype 'a sq_event = Call_push nat 'a | Call_pop nat | Run nat "nat option" | Spurious nat

definition notify_one :: "'a sq_state \<Rightarrow> nat option \<Rightarrow> nat set \<Rightarrow> 'a sq_state option" where
  "notify_one s u threads = (case u of
     None \<Rightarrow> if \<exists>w \<in> threads. mon_pcs s w = Pop_wait then None else Some s
   | Some w \<Rightarrow> if mon_pcs s w = Pop_wait then Some (goto s w Pop_relock) else None)"

fun push_step :: "nat set \<Rightarrow> 'a sq_state \<Rightarrow> nat \<Rightarrow> nat option \<Rightarrow> 'a sq_state option" where
  "push_step threads s t u = (case mon_pcs s t of
     Push_lock v \<Rightarrow> acquire s t (Push_test v)
   | Push_test v \<Rightarrow> Some (goto s t (Push_put v (sq_queue s = [])))
   | Push_put v wake \<Rightarrow> Some (goto (s\<lparr>sq_queue := sq_queue s @ [v], sq_pushed := sq_pushed s @ [v]\<rparr>) t (Push_notify wake))
   | Push_notify wake \<Rightarrow> if wake then notify_one (goto s t Push_unlock) u threads else Some (goto s t Push_unlock)
   | Push_unlock \<Rightarrow> Some (release s t Idle)
   | _ \<Rightarrow> None)"

text \<open>\<open>wait\<close> releases the mutex and blocks in one step; the loop tests the queue again when it is back.\<close>

fun pop_step :: "'a sq_state \<Rightarrow> nat \<Rightarrow> 'a sq_state option" where
  "pop_step s t = (case mon_pcs s t of
     Pop_lock \<Rightarrow> acquire s t Pop_test
   | Pop_test \<Rightarrow> Some (if sq_queue s = [] then release s t Pop_wait else goto s t Pop_front)
   | Pop_relock \<Rightarrow> acquire s t Pop_test
   | Pop_front \<Rightarrow> (case sq_queue s of
       [] \<Rightarrow> None
     | v # q \<Rightarrow> Some (goto (s\<lparr>sq_queue := q, sq_popped := sq_popped s @ [v]\<rparr>) t (Pop_unlock v)))
   | Pop_unlock v \<Rightarrow> Some (release s t (Pop_returned v))
   | Pop_returned v \<Rightarrow> Some (goto s t Idle)
   | _ \<Rightarrow> None)"

fun sq_step :: "nat set \<Rightarrow> 'a sq_event \<Rightarrow> 'a sq_state \<Rightarrow> 'a sq_state option" where
  "sq_step threads (Call_push t v) s = (if t \<in> threads \<and> mon_pcs s t = Idle then Some (goto s t (Push_lock v)) else None)"
| "sq_step threads (Call_pop t) s = (if t \<in> threads \<and> mon_pcs s t = Idle then Some (goto s t Pop_lock) else None)"
| "sq_step threads (Run t u) s = (if push_step threads s t u = None then pop_step s t else push_step threads s t u)"
| "sq_step threads (Spurious t) s = (if mon_pcs s t = Pop_wait then Some (goto s t Pop_relock) else None)"

fun sq_run :: "nat set \<Rightarrow> 'a sq_event list \<Rightarrow> 'a sq_state \<Rightarrow> 'a sq_state option" where
  "sq_run threads [] s = Some s"
| "sq_run threads (e # es) s = do { s1 \<leftarrow> sq_step threads e s; sq_run threads es s1 }"

definition sq_start :: "'a sq_state" where
  "sq_start = \<lparr>mon_mutex = None, mon_pcs = (\<lambda>t. Idle), sq_queue = [], sq_pushed = [], sq_popped = []\<rparr>"

end
