(* ===== verification/Sync_Queue_Props.thy ===== *)
theory Sync_Queue_Props
  imports Sync_Queue
begin

text \<open>
  The invariants of the synchronised queue over all interleavings: mutual exclusion, first in first
  out, and with one consumer no lost wake-up; with two consumers a wake-up can be lost.
\<close>

section \<open>Invariant\<close>

fun holding :: "'a sq_pc \<Rightarrow> bool" where
  "holding (Push_test v) = True"
| "holding (Push_put v w) = True"
| "holding (Push_notify w) = True"
| "holding Push_unlock = True"
| "holding Pop_test = True"
| "holding Pop_front = True"
| "holding (Pop_unlock v) = True"
| "holding _ = False"

fun pc_ok :: "'a sq_pc \<Rightarrow> 'a list \<Rightarrow> bool" where
  "pc_ok (Push_put v w) q = (w \<longleftrightarrow> q = [])"
| "pc_ok Pop_front q = (q \<noteq> [])"
| "pc_ok _ q = True"

definition sq_inv :: "nat set \<Rightarrow> 'a sq_state \<Rightarrow> bool" where
  "sq_inv threads s \<longleftrightarrow> sq_pushed s = sq_popped s @ sq_queue s
     \<and> exclusive holding s
     \<and> (\<forall>t. pc_ok (mon_pcs s t) (sq_queue s)) \<and> (\<forall>t. t \<notin> threads \<longrightarrow> mon_pcs s t = Idle)"

lemma pc_ok_free: "\<not> holding pc \<Longrightarrow> pc_ok pc q"
  by (cases pc) auto

lemma sq_inv_goto:
  assumes "sq_inv threads s" "holding pc \<longleftrightarrow> holding (mon_pcs s t)" "pc_ok pc (sq_queue s)" "t \<in> threads"
  shows "sq_inv threads (goto s t pc)"
  using assms exclusive_goto [of holding s pc t] by (auto simp: sq_inv_def goto_def)

lemma sq_inv_acquire:
  assumes "sq_inv threads s" "acquire s t pc = Some s'" "holding pc" "pc_ok pc (sq_queue s)" "t \<in> threads"
  shows "sq_inv threads s'"
  using assms exclusive_acquire [of holding s pc t s'] by (auto simp: sq_inv_def acquire_def goto_def split: if_splits)

lemma sq_inv_release:
  assumes "sq_inv threads s" "holding (mon_pcs s t)" "\<not> holding pc" "t \<in> threads"
  shows "sq_inv threads (release s t pc)"
  using assms exclusive_release [of holding s t pc] by (auto simp: sq_inv_def release_def goto_def pc_ok_free)

text \<open>The holder of the mutex may change the queue, since the other threads are not inside.\<close>

lemma sq_inv_change:
  assumes "sq_inv threads s" "holding (mon_pcs s t)" "holding pc" "pc_ok pc (sq_queue s')" "t \<in> threads"
    and "sq_pushed s' = sq_popped s' @ sq_queue s'" "mon_mutex s' = mon_mutex s" "mon_pcs s' = mon_pcs s"
  shows "sq_inv threads (goto s' t pc)"
proof -
  have x: "exclusive holding s" using assms(1) by (simp add: sq_inv_def)
  have "exclusive holding (goto s' t pc)"
    using exclusive_cong [OF x assms(7,8)] assms(2,3,8) by (intro exclusive_goto) simp_all
  moreover have "\<not> holding (mon_pcs s u)" if "u \<noteq> t" for u using exclusive_one [OF x assms(2), of u] that by blast
  ultimately show ?thesis using assms by (auto simp: sq_inv_def goto_def pc_ok_free)
qed

lemma sq_inv_notify:
  assumes "sq_inv threads s" "notify_one s u threads = Some s'"
  shows "sq_inv threads s'"
proof (cases u)
  case None
  with assms show ?thesis by (simp add: notify_one_def split: if_splits)
next
  case (Some w)
  then have w: "mon_pcs s w = Pop_wait" "s' = goto s w Pop_relock" using assms(2) by (simp_all add: notify_one_def split: if_splits)
  then have "w \<in> threads" using assms(1) by (cases "w \<in> threads") (auto simp: sq_inv_def)
  with w show ?thesis by (simp add: sq_inv_goto [OF assms(1)])
qed

lemma push_step_inv:
  assumes inv: "sq_inv threads s" and step: "push_step threads s t u = Some s'"
  shows "sq_inv threads s'"
proof -
  have t: "t \<in> threads" using assms by (cases "t \<in> threads") (auto simp: sq_inv_def)
  have ex: "sq_pushed s = sq_popped s @ sq_queue s" using inv by (simp add: sq_inv_def)
  have ok: "pc_ok (mon_pcs s t) (sq_queue s)" using inv by (simp add: sq_inv_def)
  show ?thesis
  proof (cases "mon_pcs s t")
    case (Push_lock v)
    with step show ?thesis using sq_inv_acquire [OF inv _ _ _ t] by simp
  next
    case (Push_test v)
    with step show ?thesis using sq_inv_goto [OF inv _ _ t] by auto
  next
    case (Push_put v w)
    with step ok ex show ?thesis using sq_inv_change [OF inv _ _ _ t] by auto
  next
    case (Push_notify w)
    have "sq_inv threads (goto s t Push_unlock)" using sq_inv_goto [OF inv _ _ t] Push_notify by simp
    with step Push_notify show ?thesis using sq_inv_notify by (auto split: if_splits)
  next
    case Push_unlock
    with step show ?thesis using sq_inv_release [OF inv _ _ t] by auto
  qed (use step in simp_all)
qed

lemma pop_step_inv:
  assumes inv: "sq_inv threads s" and step: "pop_step s t = Some s'"
  shows "sq_inv threads s'"
proof -
  have t: "t \<in> threads" using assms by (cases "t \<in> threads") (auto simp: sq_inv_def)
  have ex: "sq_pushed s = sq_popped s @ sq_queue s" using inv by (simp add: sq_inv_def)
  show ?thesis
  proof (cases "mon_pcs s t")
    case Pop_lock
    with step show ?thesis using sq_inv_acquire [OF inv _ _ _ t] by simp
  next
    case Pop_relock
    with step show ?thesis using sq_inv_acquire [OF inv _ _ _ t] by simp
  next
    case Pop_test
    with step show ?thesis
      using sq_inv_release [OF inv _ _ t, of Pop_wait] sq_inv_goto [OF inv _ _ t, of Pop_front] by (auto split: if_splits)
  next
    case Pop_front
    with step ex show ?thesis using sq_inv_change [OF inv _ _ _ t] by (auto split: list.splits)
  next
    case (Pop_unlock v)
    with step show ?thesis using sq_inv_release [OF inv _ _ t] by auto
  next
    case (Pop_returned v)
    with step show ?thesis using sq_inv_goto [OF inv _ _ t] by auto
  qed (use step in simp_all)
qed

lemma sq_step_inv:
  assumes inv: "sq_inv threads s" and step: "sq_step threads e s = Some s'"
  shows "sq_inv threads s'"
proof (cases e)
  case (Spurious t)
  then have p: "mon_pcs s t = Pop_wait" "s' = goto s t Pop_relock" using step by (auto split: if_splits)
  then have "t \<in> threads" using inv by (cases "t \<in> threads") (auto simp: sq_inv_def)
  with p show ?thesis using sq_inv_goto [OF inv] by simp
next
  case (Run t u)
  then show ?thesis using step push_step_inv [OF inv] pop_step_inv [OF inv] by (auto simp del: push_step.simps pop_step.simps split: if_splits)
qed (use step sq_inv_goto [OF inv] in \<open>auto split: if_splits\<close>)

lemma sq_start_inv: "sq_inv threads sq_start"
  by (simp add: sq_inv_def exclusive_def sq_start_def)

lemma sq_run_inv:
  assumes "sq_inv threads s" "sq_run threads es s = Some s'"
  shows "sq_inv threads s'"
  using assms by (induction es arbitrary: s) (auto simp del: sq_step.simps split: Option.bind_splits dest: sq_step_inv)

section \<open>One consumer\<close>

fun popping :: "'a sq_pc \<Rightarrow> bool" where
  "popping Pop_lock = True"
| "popping Pop_test = True"
| "popping Pop_wait = True"
| "popping Pop_relock = True"
| "popping Pop_front = True"
| "popping (Pop_unlock v) = True"
| "popping (Pop_returned v) = True"
| "popping _ = False"

definition one_consumer :: "nat \<Rightarrow> (nat \<Rightarrow> 'a sq_pc) \<Rightarrow> 'a list \<Rightarrow> bool" where
  "one_consumer c pcs q \<longleftrightarrow> (\<forall>t. popping (pcs t) \<longrightarrow> t = c)
     \<and> (pcs c = Pop_wait \<and> q \<noteq> [] \<longrightarrow> (\<exists>t. pcs t = Push_notify True))"

lemma one_consumer_goto:
  assumes "one_consumer c pcs q" "popping pc \<longrightarrow> t = c" "pc = Pop_wait \<longrightarrow> q = []" "pcs t \<noteq> Push_notify True"
  shows "one_consumer c (pcs(t := pc)) q"
proof -
  have "\<exists>u. (pcs(t := pc)) u = Push_notify True" if w: "(pcs(t := pc)) c = Pop_wait" "q \<noteq> []"
  proof -
    have "pcs c = Pop_wait" using w assms(3) by (cases "t = c") auto
    then obtain u where "pcs u = Push_notify True" using assms(1) w(2) by (auto simp: one_consumer_def)
    with assms(4) show ?thesis by (intro exI [of _ u]) auto
  qed
  with assms(1,2) show ?thesis by (simp add: one_consumer_def)
qed

lemma not_waiting_put:
  assumes "sq_inv threads s" "one_consumer c (mon_pcs s) (sq_queue s)" "holding (mon_pcs s t)" "mon_pcs s t \<noteq> Push_notify True"
    and "mon_pcs s c = Pop_wait"
  shows "sq_queue s = []"
proof (rule ccontr)
  assume "sq_queue s \<noteq> []"
  then obtain u where u: "mon_pcs s u = Push_notify True" using assms(2,5) by (auto simp: one_consumer_def)
  then have "u = t" using assms(1,3) exclusive_one [of holding s u t] by (simp add: sq_inv_def)
  with u assms(4) show False by simp
qed

lemma notify_one_consumer:
  assumes "sq_inv threads s" "\<forall>t. popping (mon_pcs s t) \<longrightarrow> t = c" "notify_one s u threads = Some s'"
  shows "one_consumer c (mon_pcs s') (sq_queue s')"
proof (cases u)
  case None
  have "mon_pcs s c \<noteq> Pop_wait" using assms(1,3) None by (cases "c \<in> threads") (auto simp: notify_one_def sq_inv_def split: if_splits)
  with assms(2,3) None show ?thesis by (auto simp: notify_one_def one_consumer_def split: if_splits)
next
  case (Some w)
  then have "mon_pcs s w = Pop_wait" "s' = goto s w Pop_relock" using assms(3) by (simp_all add: notify_one_def split: if_splits)
  moreover from this have "w = c" using assms(2) by simp
  ultimately show ?thesis using assms(2) by (auto simp: one_consumer_def goto_def)
qed

lemma push_step_one:
  assumes inv: "sq_inv threads s" and one: "one_consumer c (mon_pcs s) (sq_queue s)" and step: "push_step threads s t u = Some s'"
  shows "one_consumer c (mon_pcs s') (sq_queue s')"
proof (cases "mon_pcs s t")
  case (Push_lock v)
  with step one show ?thesis by (auto simp: acquire_def goto_def intro!: one_consumer_goto split: if_splits)
next
  case (Push_test v)
  with step one show ?thesis by (auto simp: goto_def intro!: one_consumer_goto)
next
  case (Push_put v w)
  have "w" if "mon_pcs s c = Pop_wait"
    using not_waiting_put [OF inv one, of t] Push_put inv that by (auto simp: sq_inv_def dest: spec [of _ t])
  then have "\<exists>u. ((mon_pcs s)(t := Push_notify w)) u = Push_notify True" if "mon_pcs s c = Pop_wait"
    using that by (intro exI [of _ t]) simp
  with step one Push_put show ?thesis by (auto simp: goto_def one_consumer_def simp del: fun_upd_apply) (auto split: if_splits)
next
  case (Push_notify w)
  show ?thesis
  proof (cases w)
    case True
    have "sq_inv threads (goto s t Push_unlock)"
      using inv Push_notify by (intro sq_inv_goto) (auto simp: sq_inv_def intro: ccontr)
    moreover have "\<forall>x. popping (mon_pcs (goto s t Push_unlock) x) \<longrightarrow> x = c" using one by (auto simp: goto_def one_consumer_def)
    ultimately show ?thesis using notify_one_consumer [of threads "goto s t Push_unlock" c u s'] step Push_notify True by simp
  next
    case False
    then show ?thesis using step one Push_notify by (auto simp: goto_def intro!: one_consumer_goto)
  qed
next
  case Push_unlock
  with step one show ?thesis by (auto simp: release_def goto_def intro!: one_consumer_goto)
qed (use step in simp_all)

lemma pop_step_one:
  assumes one: "one_consumer c (mon_pcs s) (sq_queue s)" and step: "pop_step s t = Some s'"
  shows "one_consumer c (mon_pcs s') (sq_queue s')"
proof -
  have t: "popping (mon_pcs s t) \<longrightarrow> t = c" using one by (simp add: one_consumer_def)
  show ?thesis
  proof (cases "mon_pcs s t")
    case Pop_front
    with step t one show ?thesis by (auto simp: goto_def one_consumer_def split: list.splits if_splits)
  qed (use step t one in \<open>auto simp: acquire_def release_def goto_def intro!: one_consumer_goto split: if_splits\<close>)
qed

lemma sq_step_one:
  assumes "sq_inv threads s" "one_consumer c (mon_pcs s) (sq_queue s)" "sq_step threads e s = Some s'" "\<forall>t. e = Call_pop t \<longrightarrow> t = c"
  shows "one_consumer c (mon_pcs s') (sq_queue s')"
proof (cases e)
  case (Run t u)
  then show ?thesis using assms push_step_one [OF assms(1,2)] pop_step_one [OF assms(2)]
    by (auto simp del: push_step.simps pop_step.simps split: if_splits)
next
  case (Spurious t)
  then have p: "mon_pcs s t = Pop_wait" "s' = goto s t Pop_relock" using assms(3) by (auto split: if_splits)
  then have "t = c" using assms(2) by (simp add: one_consumer_def)
  with p assms(2) show ?thesis by (auto simp: goto_def intro!: one_consumer_goto)
qed (use assms in \<open>auto simp: goto_def intro!: one_consumer_goto split: if_splits\<close>)

lemma sq_run_one:
  assumes "sq_inv threads s" "one_consumer c (mon_pcs s) (sq_queue s)" "sq_run threads es s = Some s'"
    and "\<forall>t. Call_pop t \<in> set es \<longrightarrow> t = c"
  shows "one_consumer c (mon_pcs s') (sq_queue s')"
  using assms
proof (induction es arbitrary: s)
  case (Cons e es)
  then obtain s1 where s1: "sq_step threads e s = Some s1" "sq_run threads es s1 = Some s'"
    by (auto simp del: sq_step.simps split: Option.bind_splits)
  have "\<forall>t. e = Call_pop t \<longrightarrow> t = c" using Cons.prems(4) by auto
  then have "one_consumer c (mon_pcs s1) (sq_queue s1)" using sq_step_one [OF Cons.prems(1,2) s1(1)] by blast
  then show ?case using Cons.IH [OF sq_step_inv [OF Cons.prems(1) s1(1)] _ s1(2)] Cons.prems(4) by simp
qed simp

section \<open>Properties\<close>

text \<open>
  C32. However the calls of \<open>push\<close> and \<open>pop\<close> of any number of threads interleave, the values come out in
  the order in which they went in, none is lost or doubled, two threads are never inside together, and
  no value is taken from an empty queue.
\<close>

theorem sync_queue_fifo:
  assumes "sq_run threads es sq_start = Some s"
  shows "sq_pushed s = sq_popped s @ sq_queue s
    \<and> (\<forall>t u. holding (mon_pcs s t) \<and> holding (mon_pcs s u) \<longrightarrow> t = u)
    \<and> (\<forall>t. mon_pcs s t = Pop_front \<longrightarrow> sq_queue s \<noteq> [])"
proof -
  have inv: "sq_inv threads s" by (rule sq_run_inv [OF sq_start_inv assms])
  then have "mon_pcs s t = Pop_front \<longrightarrow> sq_queue s \<noteq> []" for t
    unfolding sq_inv_def by (metis pc_ok.simps(2))
  moreover have "holding (mon_pcs s t) \<and> holding (mon_pcs s u) \<longrightarrow> t = u" for t u
    using inv exclusive_one [of holding s t u] by (auto simp: sq_inv_def)
  moreover have "sq_pushed s = sq_popped s @ sq_queue s" using inv by (simp add: sq_inv_def)
  ultimately show ?thesis by blast
qed

definition demo_push_pop :: "nat sq_event list" where
  "demo_push_pop = [Call_push 0 7, Call_pop 1, Run 1 None, Run 1 None, Run 0 None, Run 0 None, Run 0 None, Run 0 (Some 1)]"

theorem sync_queue_fifo_witness: "\<exists>s. sq_run {0, 1} demo_push_pop sq_start = Some s \<and> sq_pushed s = sq_popped s @ sq_queue s"
proof -
  obtain s where s: "sq_run {0, 1} demo_push_pop sq_start = Some s"
    by (simp add: demo_push_pop_def sq_start_def acquire_def release_def goto_def notify_one_def)
  from sync_queue_fifo [OF this] s show ?thesis by blast
qed

text \<open>
  C33. With one consumer no wake-up is lost, although \<open>push\<close> notifies only when the queue was empty: while
  the consumer waits and the queue is not empty, a producer is about to wake it.
\<close>

theorem sync_queue_one_consumer_woken:
  assumes "sq_run threads es sq_start = Some s" "\<forall>t. Call_pop t \<in> set es \<longrightarrow> t = c"
    and "mon_pcs s c = Pop_wait" "sq_queue s \<noteq> []"
  shows "\<exists>t s'. sq_step threads (Run t (Some c)) s = Some s' \<and> mon_pcs s' c = Pop_relock"
proof -
  have "one_consumer c (mon_pcs s) (sq_queue s)"
    by (rule sq_run_one [OF sq_start_inv [of threads] _ assms(1,2)]) (simp add: one_consumer_def sq_start_def)
  then obtain t where t: "mon_pcs s t = Push_notify True" using assms(3,4) by (auto simp: one_consumer_def)
  then have "t \<noteq> c" using assms(3) by auto
  with t assms(3) have "sq_step threads (Run t (Some c)) s = Some (goto (goto s t Push_unlock) c Pop_relock)"
    by (simp add: notify_one_def goto_def)
  then show ?thesis by (intro exI conjI) (assumption, simp add: goto_def)
qed

theorem sync_queue_one_consumer_woken_witness:
  "\<exists>s s' t. sq_run {0, 1} (butlast demo_push_pop) sq_start = Some s \<and> sq_step {0, 1} (Run t (Some 1)) s = Some s'
    \<and> mon_pcs s' 1 = Pop_relock"
proof -
  obtain s where s: "sq_run {0, 1} (butlast demo_push_pop) sq_start = Some s" "mon_pcs s 1 = Pop_wait" "sq_queue s \<noteq> []"
    by (simp add: demo_push_pop_def sq_start_def acquire_def release_def goto_def)
  have "\<forall>t. Call_pop t \<in> set (butlast demo_push_pop) \<longrightarrow> t = 1" by (simp add: demo_push_pop_def)
  from sync_queue_one_consumer_woken [OF s(1) this s(2,3)] s(1) show ?thesis by blast
qed

text \<open>
  With two consumers a wake-up can be lost: the first value is pushed and its notification wakes the
  first consumer; before that one has the mutex back the second value is pushed without notification.
  Once the first consumer has returned with its value, the second one waits, the queue is not empty,
  and no thread has a statement left to run.
\<close>

definition lost_wakeup :: "nat sq_event list" where
  "lost_wakeup = [Call_pop 1, Run 1 None, Run 1 None, Call_pop 2, Run 2 None, Run 2 None,
     Call_push 0 7, Run 0 None, Run 0 None, Run 0 None, Run 0 (Some 1), Run 0 None,
     Call_push 0 8, Run 0 None, Run 0 None, Run 0 None, Run 0 None, Run 0 None,
     Run 1 None, Run 1 None, Run 1 None, Run 1 None, Run 1 None]"

theorem sync_queue_lost_wakeup:
  "\<exists>s :: nat sq_state. sq_run {0, 1, 2} lost_wakeup sq_start = Some s \<and> sq_queue s = [8] \<and> mon_pcs s 2 = Pop_wait
    \<and> (\<forall>t u. sq_step {0, 1, 2} (Run t u) s = None)"
  by (simp add: lost_wakeup_def sq_start_def acquire_def release_def goto_def notify_one_def)

end
