(* ===== verification/File_Module.thy ===== *)
theory File_Module
  imports JIFS
begin

text \<open>
  The module \<open>src/kernel_modules/read_write/kread.c\<close>: it prints the beginning of one file and writes to
  another.  The file operations of the kernel are a parameter, with the set of open files as what can
  be observed of its state; the state of the module is the list of its messages.
\<close>

section \<open>The kernel's file operations\<close>

datatype file_mode = O_RDONLY | O_WRONLY_CREAT

record 'k file_api =
  filp_open :: "'k \<Rightarrow> string \<Rightarrow> file_mode \<Rightarrow> u64 \<times> 'k"
  kernel_read :: "'k \<Rightarrow> u64 \<Rightarrow> nat \<Rightarrow> string \<times> 'k"
  kernel_write :: "'k \<Rightarrow> u64 \<Rightarrow> string \<Rightarrow> 'k"
  filp_close :: "'k \<Rightarrow> u64 \<Rightarrow> 'k"
  open_files :: "'k \<Rightarrow> u64 set"

text \<open>Error codes are the addresses of the last page.\<close>

definition IS_ERR :: "u64 \<Rightarrow> bool" where "IS_ERR p \<longleftrightarrow> - 4095 \<le> p"

definition file_api_spec :: "'k file_api \<Rightarrow> bool" where
  "file_api_spec F \<longleftrightarrow>
     (\<forall>k name m. case filp_open F k name m of (p, k') \<Rightarrow>
        if IS_ERR p then open_files F k' = open_files F k
        else p \<notin> open_files F k \<and> open_files F k' = insert p (open_files F k))
     \<and> (\<forall>k p n. case kernel_read F k p n of (bs, k') \<Rightarrow> length bs \<le> n \<and> open_files F k' = open_files F k)
     \<and> (\<forall>k p bs. open_files F (kernel_write F k p bs) = open_files F k)
     \<and> (\<forall>k p. open_files F (filp_close F k p) = open_files F k - {p})
     \<and> (\<forall>k. \<forall>p \<in> open_files F k. \<not> IS_ERR p)"

section \<open>The module\<close>

record 'k file_module =
  fm_log :: "string list"
  fm_kern :: 'k

definition newline :: string where "newline = [CHR 0x0A]"

definition fm_printk :: "'k file_module \<Rightarrow> string \<Rightarrow> 'k file_module" where
  "fm_printk s msg = s\<lparr>fm_log := fm_log s @ [msg @ newline]\<rparr>"

text \<open>Closing needs an open file: an error code is not an address of one.\<close>

definition fm_close :: "'k file_api \<Rightarrow> 'k file_module \<Rightarrow> u64 \<Rightarrow> 'k file_module option" where
  "fm_close F s f = (if f \<in> open_files F (fm_kern s) then Some (s\<lparr>fm_kern := filp_close F (fm_kern s) f\<rparr>) else None)"

text \<open>
  The buffer is zeroed and filled by one read.  Printing it with \<open>%s\<close> needs a zero byte: without one
  the text has no end inside the buffer.
\<close>

definition read_file :: "'k file_api \<Rightarrow> 'k file_module \<Rightarrow> string \<Rightarrow> (int \<times> 'k file_module) option" where
  "read_file F s filename = do {
     let buf = replicate 128 (CHR 0x00);
     let (f, k1) = filp_open F (fm_kern s) filename O_RDONLY;
     let s1 = s\<lparr>fm_kern := k1\<rparr>;
     s2 \<leftarrow> (if IS_ERR f then Some (fm_printk s1 ''filp_open error!!.'')
       else (case kernel_read F k1 f (length buf) of (bs, k2) \<Rightarrow>
         let buf1 = bs @ drop (length bs) buf in
         if CHR 0x00 \<in> set buf1 then Some (fm_printk (s1\<lparr>fm_kern := k2\<rparr>) (''buf:'' @ c_string buf1)) else None));
     s3 \<leftarrow> fm_close F s2 f;
     Some (0, s3)
   }"

text \<open>
  \<open>data\<close> stands for the bytes of the object that the argument points into.  The length passed to the
  kernel is the size of the pointer, 8 bytes, whatever the length of the data.
\<close>

definition write_file :: "'k file_api \<Rightarrow> 'k file_module \<Rightarrow> string \<Rightarrow> string \<Rightarrow> 'k file_module option" where
  "write_file F s filename data = do {
     let (f, k1) = filp_open F (fm_kern s) filename O_WRONLY_CREAT;
     let s1 = s\<lparr>fm_kern := k1\<rparr>;
     s2 \<leftarrow> (if IS_ERR f then Some (fm_printk s1 ''filp_open error!!.'')
       else if length data < 8 then None
       else Some (s1\<lparr>fm_kern := kernel_write F k1 f (take 8 data)\<rparr>));
     fm_close F s2 f
   }"

definition file_init :: "'k file_api \<Rightarrow> 'k file_module \<Rightarrow> (int \<times> 'k file_module) option" where
  "file_init F s = do {
     (r, s1) \<leftarrow> read_file F (fm_printk s ''<0> file handling start'') ''/etc/issue'';
     s2 \<leftarrow> write_file F s1 ''/etc/temp'' (''foo'' @ [CHR 0x00]);
     Some (0, fm_printk s2 ''<0> file handing end'')
   }"

definition file_exit :: "'k file_module \<Rightarrow> 'k file_module" where
  "file_exit s = fm_printk s ''<0> bye''"

section \<open>Property\<close>

lemma open_cases:
  assumes "file_api_spec F" "filp_open F k name m = (f, k1)"
  shows "if IS_ERR f then f \<notin> open_files F k1 else f \<in> open_files F k1 \<and> open_files F k1 - {f} = open_files F k"
proof -
  have "case filp_open F k name m of (p, k') \<Rightarrow> if IS_ERR p then open_files F k' = open_files F k
      else p \<notin> open_files F k \<and> open_files F k' = insert p (open_files F k)"
    using assms(1) by (simp add: file_api_spec_def)
  moreover have "IS_ERR f \<Longrightarrow> f \<notin> open_files F k1" using assms(1) by (auto simp: file_api_spec_def)
  ultimately show ?thesis using assms(2) by (auto split: if_splits)
qed

lemma read_keeps:
  assumes "file_api_spec F" "kernel_read F k f n = (bs, k')"
  shows "length bs \<le> n \<and> open_files F k' = open_files F k"
  using assms unfolding file_api_spec_def by (metis (mono_tags, lifting) case_prod_conv)

lemma close_opens: "file_api_spec F \<Longrightarrow> open_files F (filp_close F k p) = open_files F k - {p}"
  by (simp add: file_api_spec_def)

lemma write_short:
  assumes "file_api_spec F" "length data < 8"
  shows "write_file F s name data = None"
proof -
  obtain f k1 where o: "filp_open F (fm_kern s) name O_WRONLY_CREAT = (f, k1)" by fastforce
  show ?thesis
    using open_cases [OF assms(1) o] assms(2)
    by (cases "IS_ERR f") (simp_all add: write_file_def o fm_close_def fm_printk_def Let_def)
qed

lemma c_string_take_nul: "CHR 0x00 \<notin> set bs \<Longrightarrow> c_string (bs @ CHR 0x00 # xs) = bs"
  by (induction bs) (auto simp: c_string_def)

text \<open>
  C35. A text file shorter than the buffer is printed as it is and closed again.  A file that cannot be
  opened is passed to \<open>filp_close\<close> all the same, and 128 bytes of text leave the buffer without its
  end; so does writing, which takes 8 bytes of a literal of 4: loading the module never succeeds
  without such a fault.
\<close>

theorem file_module_outcomes:
  assumes "file_api_spec F" "filp_open F (fm_kern s) name O_RDONLY = (f, k1)" "kernel_read F k1 f 128 = (bs, k2)" "CHR 0x00 \<notin> set bs"
  shows "read_file F s name = (if IS_ERR f \<or> length bs = 128 then None
      else Some (0, s\<lparr>fm_log := fm_log s @ [''buf:'' @ bs @ newline], fm_kern := filp_close F k2 f\<rparr>))
    \<and> (\<not> IS_ERR f \<longrightarrow> open_files F (filp_close F k2 f) = open_files F (fm_kern s))
    \<and> file_init F s = None"
proof -
  note oc = open_cases [OF assms(1,2)] and rd = read_keeps [OF assms(1,3)]
  have pad: "drop (length bs) (replicate 128 (CHR 0x00)) = CHR 0x00 # replicate (127 - length bs) (CHR 0x00)" if "length bs \<noteq> 128"
  proof -
    have "128 - length bs = Suc (127 - length bs)" using rd that by linarith
    then show ?thesis by (simp only: drop_replicate replicate_Suc)
  qed
  have z: "CHR 0x00 \<in> set (bs @ drop (length bs) (replicate 128 (CHR 0x00))) \<longleftrightarrow> length bs \<noteq> 128"
    "length bs \<noteq> 128 \<Longrightarrow> c_string (bs @ drop (length bs) (replicate 128 (CHR 0x00))) = bs"
    using assms(4) rd pad c_string_take_nul [OF assms(4)] by (auto simp: drop_replicate)
  have "read_file F s name = (if IS_ERR f \<or> length bs = 128 then None
      else Some (0, s\<lparr>fm_log := fm_log s @ [''buf:'' @ bs @ newline], fm_kern := filp_close F k2 f\<rparr>))"
    using assms(2-4) oc rd z by (simp add: read_file_def fm_printk_def fm_close_def Let_def)
  moreover have "file_init F s = None"
    using write_short [OF assms(1)] by (simp add: file_init_def split: Option.bind_splits prod.splits)
  ultimately show ?thesis using oc rd close_opens [OF assms(1)] by simp
qed

text \<open>A kernel with one file of two bytes.\<close>

definition demo_files :: "u64 set file_api" where
  "demo_files = \<lparr>filp_open = (\<lambda>k _ _. if 64 \<in> k then (- 24, k) else (64, insert 64 k)), kernel_read = (\<lambda>k _ n. (take n ''hi'', k)),
     kernel_write = (\<lambda>k _ _. k), filp_close = (\<lambda>k p. k - {p}), open_files = (\<lambda>k. k \<inter> {64})\<rparr>"

theorem file_module_outcomes_witness:
  "read_file demo_files \<lparr>fm_log = [], fm_kern = {}\<rparr> ''/etc/issue'' = Some (0, \<lparr>fm_log = [''buf:hi'' @ newline], fm_kern = {}\<rparr>)
    \<and> file_init demo_files \<lparr>fm_log = [], fm_kern = {}\<rparr> = None"
proof -
  have "file_api_spec demo_files" by (auto simp: file_api_spec_def demo_files_def IS_ERR_def)
  moreover have "filp_open demo_files (fm_kern \<lparr>fm_log = [], fm_kern = {}\<rparr>) ''/etc/issue'' O_RDONLY = (64, {64})"
    by (simp add: demo_files_def)
  moreover have "kernel_read demo_files {64} 64 128 = (''hi'', {64})" by (simp add: demo_files_def)
  ultimately show ?thesis
    using file_module_outcomes [of demo_files "\<lparr>fm_log = [], fm_kern = {}\<rparr>" "''/etc/issue''" 64 "{64}" "''hi''" "{64}"]
    by (simp add: IS_ERR_def demo_files_def)
qed

end
