(* ===== verification/Packet_Hook.thy ===== *)
theory Packet_Hook
  imports Prelude
begin

text \<open>
  The packet handler of \<open>src/kernel_modules/packet_hook/hook.c\<close>: it is registered for the IP packets of one
  device, prints some fields of every packet and gives the packet back.  The network stack is a
  parameter; what can be observed of it are the packets with their reference counts, the registered
  handlers and the references to devices.
\<close>

section \<open>Packets and the network stack\<close>

type_synonym u16 = "16 word"
type_synonym byte = "8 word"

text \<open>\<open>pkt_type\<close> is a bit field of three bits; \<open>skb_protocol\<close> is in network byte order.\<close>

record sk_buff =
  pkt_type :: "3 word"
  skb_dev_name :: string
  skb_protocol :: u16
  iph_protocol :: byte
  iph_saddr :: u32
  eth_source :: "byte list"
  eth_dest :: "byte list"

datatype pk_func = No_handler | Func_ji_packet_rcv

record packet_type =
  pt_type :: u16
  pt_dev :: u64
  pt_func :: pk_func

record 'k net =
  skb_at :: "'k \<Rightarrow> u64 \<Rightarrow> sk_buff option"
  skb_users :: "'k \<Rightarrow> u64 \<Rightarrow> nat"
  kfree_skb :: "'k \<Rightarrow> u64 \<Rightarrow> 'k"
  dev_get_by_name :: "'k \<Rightarrow> string \<Rightarrow> u64 \<times> 'k"
  dev_refs :: "'k \<Rightarrow> u64 \<Rightarrow> nat"
  dev_add_pack :: "'k \<Rightarrow> packet_type \<Rightarrow> 'k"
  dev_remove_pack :: "'k \<Rightarrow> packet_type \<Rightarrow> 'k"
  net_handlers :: "'k \<Rightarrow> packet_type list"

text \<open>
  \<open>kfree_skb\<close> drops one reference of its packet; \<open>dev_get_by_name\<close> takes a reference of the device it
  finds; the handlers are added at the front and removed again.
\<close>

definition net_spec :: "'k net \<Rightarrow> bool" where
  "net_spec N \<longleftrightarrow>
     (\<forall>k p. skb_users N (kfree_skb N k p) = (skb_users N k)(p := skb_users N k p - 1)
        \<and> (\<forall>q. q \<noteq> p \<or> 1 < skb_users N k p \<longrightarrow> skb_at N (kfree_skb N k p) q = skb_at N k q)
        \<and> net_handlers N (kfree_skb N k p) = net_handlers N k \<and> dev_refs N (kfree_skb N k p) = dev_refs N k)
     \<and> (\<forall>k n. case dev_get_by_name N k n of (d, k') \<Rightarrow>
        dev_refs N k' = (if d = 0 then dev_refs N k else (dev_refs N k)(d := dev_refs N k d + 1))
        \<and> net_handlers N k' = net_handlers N k \<and> skb_users N k' = skb_users N k \<and> skb_at N k' = skb_at N k)
     \<and> (\<forall>k h. net_handlers N (dev_add_pack N k h) = h # net_handlers N k
        \<and> dev_refs N (dev_add_pack N k h) = dev_refs N k
        \<and> skb_users N (dev_add_pack N k h) = skb_users N k \<and> skb_at N (dev_add_pack N k h) = skb_at N k)
     \<and> (\<forall>k h. net_handlers N (dev_remove_pack N k h) = remove1 h (net_handlers N k)
        \<and> dev_refs N (dev_remove_pack N k h) = dev_refs N k
        \<and> skb_users N (dev_remove_pack N k h) = skb_users N k)"

section \<open>The module\<close>

text \<open>A line of the log: fixed text, or the fields that a format prints.\<close>

datatype pk_line = Text string | Dev_line string u16 byte | Mac_line "byte list" "byte list" | Saddr_line u32

record 'k hook =
  hk_proto :: packet_type
  hk_log :: "pk_line list"
  hk_kern :: 'k

definition ntohs :: "u16 \<Rightarrow> u16" where "ntohs w = push_bit 8 w OR drop_bit 8 w"

definition ETH_P_IP :: u16 where "ETH_P_IP = 0x0800"

definition hook_printk :: "'k hook \<Rightarrow> pk_line \<Rightarrow> 'k hook" where
  "hook_printk s l = s\<lparr>hk_log := hk_log s @ [l]\<rparr>"

text \<open>
  The switch over the packet type.  The header gives 6 to both \<open>PACKET_USER\<close> and \<open>PACKET_FASTROUTE\<close>; the
  code names the second, and has no case for 7, \<open>PACKET_KERNEL\<close>.
\<close>

definition type_text :: "3 word \<Rightarrow> string option" where
  "type_text t =
     (if t = 0 then Some ''@JI : PACKET to us ''
      else if t = 1 then Some ''@JI : PACKET to all ''
      else if t = 2 then Some ''@JI : PACKET to group ''
      else if t = 3 then Some ''@JI : PACKET to someone else ''
      else if t = 4 then Some ''@JI : PACKET outgoing ''
      else if t = 5 then Some ''@JI : PACKET LOOPBACK ''
      else if t = 6 then Some ''@JI : PACKET FASTROUTE ''
      else None)"

definition ji_packet_rcv :: "'k net \<Rightarrow> 'k hook \<Rightarrow> u64 \<Rightarrow> (int \<times> 'k hook) option" where
  "ji_packet_rcv N s skb = do {
     b \<leftarrow> skb_at N (hk_kern s) skb;
     let s1 = hook_printk s (Text ''@JI : New packet captured.'');
     let s2 = (case type_text (pkt_type b) of Some m \<Rightarrow> hook_printk s1 (Text m) | None \<Rightarrow> s1);
     let s3 = hook_printk s2 (Dev_line (skb_dev_name b) (ntohs (skb_protocol b)) (iph_protocol b));
     let s4 = hook_printk s3 (Mac_line (eth_source b) (eth_dest b));
     let s5 = hook_printk s4 (Saddr_line (iph_saddr b));
     Some (0, s5\<lparr>hk_kern := kfree_skb N (hk_kern s5) skb\<rparr>)
   }"

definition ji_init :: "'k net \<Rightarrow> 'k hook \<Rightarrow> int \<times> 'k hook" where
  "ji_init N s = (case dev_get_by_name N (hk_kern s) ''enp0s3'' of (dev, k1) \<Rightarrow>
     let proto = (hk_proto s)\<lparr>pt_type := ntohs ETH_P_IP, pt_dev := dev, pt_func := Func_ji_packet_rcv\<rparr> in
     (0, hook_printk (s\<lparr>hk_proto := proto, hk_kern := dev_add_pack N k1 proto\<rparr>) (Text ''@JI : Module insertion completed successfully!'')))"

definition ji_cleanup :: "'k net \<Rightarrow> 'k hook \<Rightarrow> 'k hook" where
  "ji_cleanup N s = hook_printk (s\<lparr>hk_kern := dev_remove_pack N (hk_kern s) (hk_proto s)\<rparr>) (Text ''@JI : Cleaning up module....'')"

text \<open>The stack hands packets to the handler one after another, with a reference each.\<close>

fun receive_all :: "'k net \<Rightarrow> 'k hook \<Rightarrow> u64 list \<Rightarrow> 'k hook option" where
  "receive_all N s [] = Some s"
| "receive_all N s (p # ps) = do { (r, s1) \<leftarrow> ji_packet_rcv N s p; receive_all N s1 ps }"

section \<open>Property\<close>

lemma net_kfree:
  assumes "net_spec N"
  shows "skb_users N (kfree_skb N k p) = (skb_users N k)(p := skb_users N k p - 1)"
    and "q \<noteq> p \<or> 1 < skb_users N k p \<Longrightarrow> skb_at N (kfree_skb N k p) q = skb_at N k q"
    and "net_handlers N (kfree_skb N k p) = net_handlers N k" "dev_refs N (kfree_skb N k p) = dev_refs N k"
  using assms by (simp_all add: net_spec_def)

lemma packet_rcv_ok:
  assumes "skb_at N (hk_kern s) p \<noteq> None"
  shows "\<exists>s'. ji_packet_rcv N s p = Some (0, s') \<and> hk_kern s' = kfree_skb N (hk_kern s) p \<and> hk_proto s' = hk_proto s"
  using assms by (auto simp: ji_packet_rcv_def hook_printk_def Let_def split: option.splits)

lemma receive_all_ok:
  assumes "net_spec N" "\<forall>p \<in> set ps. skb_at N (hk_kern s) p \<noteq> None \<and> count_list ps p \<le> skb_users N (hk_kern s) p"
  shows "\<exists>s'. receive_all N s ps = Some s' \<and> hk_proto s' = hk_proto s
    \<and> net_handlers N (hk_kern s') = net_handlers N (hk_kern s) \<and> dev_refs N (hk_kern s') = dev_refs N (hk_kern s)
    \<and> (\<forall>q. skb_users N (hk_kern s') q = skb_users N (hk_kern s) q - count_list ps q)"
  using assms(2)
proof (induction ps arbitrary: s)
  case (Cons p ps)
  then obtain s1 where s1: "ji_packet_rcv N s p = Some (0, s1)" "hk_kern s1 = kfree_skb N (hk_kern s) p" "hk_proto s1 = hk_proto s"
    using packet_rcv_ok [of N s p] by auto
  have "skb_at N (hk_kern s1) q \<noteq> None \<and> count_list ps q \<le> skb_users N (hk_kern s1) q" if q: "q \<in> set ps" for q
  proof -
    have pos: "0 < count_list ps q" using q by (metis count_list_0_iff gr0I)
    have c: "skb_at N (hk_kern s) q \<noteq> None" "count_list (p # ps) q \<le> skb_users N (hk_kern s) q" using Cons.prems q by auto
    then have "q \<noteq> p \<or> 1 < skb_users N (hk_kern s) p" using pos by (cases "q = p") auto
    from net_kfree(2) [OF assms(1) this] have "skb_at N (hk_kern s1) q = skb_at N (hk_kern s) q" by (simp add: s1(2))
    with c show ?thesis by (cases "q = p") (simp_all add: s1(2) net_kfree [OF assms(1)])
  qed
  with Cons.IH [of s1] obtain s' where s': "receive_all N s1 ps = Some s'" "hk_proto s' = hk_proto s1"
    "net_handlers N (hk_kern s') = net_handlers N (hk_kern s1)" "dev_refs N (hk_kern s') = dev_refs N (hk_kern s1)"
    "\<forall>q. skb_users N (hk_kern s') q = skb_users N (hk_kern s1) q - count_list ps q" by blast
  then show ?case using s1 by (auto simp: net_kfree [OF assms(1)])
qed simp

text \<open>
  Between loading and unloading, every packet that is handed over is given back exactly once, whatever
  its type; the handler is removed again.  The reference of the device that loading took is never
  dropped.
\<close>

theorem packet_hook_balance:
  assumes "net_spec N" "\<forall>p \<in> set ps. skb_at N (hk_kern s) p \<noteq> None \<and> count_list ps p \<le> skb_users N (hk_kern s) p"
    and "dev_get_by_name N (hk_kern s) ''enp0s3'' = (dev, k1)" "dev \<noteq> 0"
  shows "\<exists>s1. receive_all N (snd (ji_init N s)) ps = Some s1
    \<and> (\<forall>q. skb_users N (hk_kern (ji_cleanup N s1)) q = skb_users N (hk_kern s) q - count_list ps q)
    \<and> net_handlers N (hk_kern (ji_cleanup N s1)) = net_handlers N (hk_kern s)
    \<and> dev_refs N (hk_kern (ji_cleanup N s1)) dev = dev_refs N (hk_kern s) dev + 1"
proof -
  let ?s = "snd (ji_init N s)"
  have get: "dev_refs N k1 = (dev_refs N (hk_kern s))(dev := dev_refs N (hk_kern s) dev + 1)"
    "net_handlers N k1 = net_handlers N (hk_kern s)" "skb_users N k1 = skb_users N (hk_kern s)" "skb_at N k1 = skb_at N (hk_kern s)"
  proof -
    have "case dev_get_by_name N (hk_kern s) ''enp0s3'' of (d, k') \<Rightarrow>
        dev_refs N k' = (if d = 0 then dev_refs N (hk_kern s) else (dev_refs N (hk_kern s))(d := dev_refs N (hk_kern s) d + 1))
        \<and> net_handlers N k' = net_handlers N (hk_kern s) \<and> skb_users N k' = skb_users N (hk_kern s) \<and> skb_at N k' = skb_at N (hk_kern s)"
      using assms(1) by (simp add: net_spec_def)
    then show "dev_refs N k1 = (dev_refs N (hk_kern s))(dev := dev_refs N (hk_kern s) dev + 1)"
      "net_handlers N k1 = net_handlers N (hk_kern s)" "skb_users N k1 = skb_users N (hk_kern s)" "skb_at N k1 = skb_at N (hk_kern s)"
      using assms(3,4) by simp_all
  qed
  have add: "net_handlers N (dev_add_pack N k h) = h # net_handlers N k" "dev_refs N (dev_add_pack N k h) = dev_refs N k"
    "skb_users N (dev_add_pack N k h) = skb_users N k" "skb_at N (dev_add_pack N k h) = skb_at N k"
    "net_handlers N (dev_remove_pack N k h) = remove1 h (net_handlers N k)" "dev_refs N (dev_remove_pack N k h) = dev_refs N k"
    "skb_users N (dev_remove_pack N k h) = skb_users N k" for k h
    using assms(1) by (simp_all add: net_spec_def)
  have init: "net_handlers N (hk_kern ?s) = hk_proto ?s # net_handlers N (hk_kern s)"
    "dev_refs N (hk_kern ?s) = (dev_refs N (hk_kern s))(dev := dev_refs N (hk_kern s) dev + 1)"
    "skb_users N (hk_kern ?s) = skb_users N (hk_kern s)" "skb_at N (hk_kern ?s) = skb_at N (hk_kern s)"
    by (simp_all add: ji_init_def assms(3) hook_printk_def Let_def add get)
  obtain s1 where s1: "receive_all N ?s ps = Some s1" "hk_proto s1 = hk_proto ?s"
    "net_handlers N (hk_kern s1) = net_handlers N (hk_kern ?s)" "dev_refs N (hk_kern s1) = dev_refs N (hk_kern ?s)"
    "\<forall>q. skb_users N (hk_kern s1) q = skb_users N (hk_kern ?s) q - count_list ps q"
    using receive_all_ok [OF assms(1), of ps ?s] assms(2) init by auto
  then show ?thesis by (auto simp: ji_cleanup_def hook_printk_def add init)
qed

text \<open>A stack whose packets all look alike; its state is the reference counts and the handlers.\<close>

definition demo_skb :: sk_buff where
  "demo_skb = \<lparr>pkt_type = 7, skb_dev_name = ''enp0s3'', skb_protocol = 8, iph_protocol = 17, iph_saddr = 0x0100007F,
     eth_source = replicate 6 1, eth_dest = replicate 6 2\<rparr>"

definition demo_net :: "((u64 \<Rightarrow> nat) \<times> packet_type list \<times> (u64 \<Rightarrow> nat)) net" where
  "demo_net = \<lparr>skb_at = (\<lambda>(u, _) p. if 0 < u p then Some demo_skb else None), skb_users = fst,
     kfree_skb = (\<lambda>(u, h, r) p. (u(p := u p - 1), h, r)),
     dev_get_by_name = (\<lambda>(u, h, r) _. (64, (u, h, r(64 := r 64 + 1)))), dev_refs = (\<lambda>(u, h, r). r),
     dev_add_pack = (\<lambda>(u, h, r) p. (u, p # h, r)), dev_remove_pack = (\<lambda>(u, h, r) p. (u, remove1 p h, r)),
     net_handlers = (\<lambda>(u, h, r). h)\<rparr>"

definition demo_hook :: "((u64 \<Rightarrow> nat) \<times> packet_type list \<times> (u64 \<Rightarrow> nat)) hook" where
  "demo_hook = \<lparr>hk_proto = \<lparr>pt_type = 0, pt_dev = 0, pt_func = No_handler\<rparr>, hk_log = [], hk_kern = (\<lambda>p. if p = 128 then 2 else 0, [], \<lambda>d. 1)\<rparr>"

theorem packet_hook_balance_witness:
  "\<exists>s1. receive_all demo_net (snd (ji_init demo_net demo_hook)) [128, 128] = Some s1
    \<and> skb_users demo_net (hk_kern (ji_cleanup demo_net s1)) 128 = 0 \<and> net_handlers demo_net (hk_kern (ji_cleanup demo_net s1)) = []
    \<and> dev_refs demo_net (hk_kern (ji_cleanup demo_net s1)) 64 = 2"
proof -
  have "net_spec demo_net" by (auto simp: net_spec_def demo_net_def)
  moreover have "\<forall>p \<in> set [128, 128]. skb_at demo_net (hk_kern demo_hook) p \<noteq> None
      \<and> count_list [128, 128] p \<le> skb_users demo_net (hk_kern demo_hook) p"
    by (simp add: demo_net_def demo_hook_def)
  moreover have "dev_get_by_name demo_net (hk_kern demo_hook) ''enp0s3'' = (64, (\<lambda>p. if p = 128 then 2 else 0, [], (\<lambda>d. 1)(64 := 2)))"
    by (simp add: demo_net_def demo_hook_def numeral_2_eq_2)
  ultimately obtain s1 where s1: "receive_all demo_net (snd (ji_init demo_net demo_hook)) [128, 128] = Some s1"
    "\<forall>q. skb_users demo_net (hk_kern (ji_cleanup demo_net s1)) q = skb_users demo_net (hk_kern demo_hook) q - count_list [128, 128] q"
    "net_handlers demo_net (hk_kern (ji_cleanup demo_net s1)) = net_handlers demo_net (hk_kern demo_hook)"
    "dev_refs demo_net (hk_kern (ji_cleanup demo_net s1)) 64 = dev_refs demo_net (hk_kern demo_hook) 64 + 1"
    using packet_hook_balance [of demo_net "[128, 128]" demo_hook 64] by auto
  from s1(2) have "skb_users demo_net (hk_kern (ji_cleanup demo_net s1)) 128 = 0" by (simp add: demo_net_def demo_hook_def)
  with s1 show ?thesis by (simp add: demo_net_def demo_hook_def)
qed

end
