(* ===== verification/Pmem_Notes.thy ===== *)
theory Pmem_Notes
  imports JIFS
begin

text \<open>
  The notes of \<open>src/pmdk_practice/libpmemobj/lists/lists.c\<close>: a list of notes in a persistent pool.  The
  library \<open>libpmemobj\<close> is a parameter; what can be observed of it are the layout of the pool in a file,
  the pool behind an open handle, and the notes of its root list.
\<close>

section \<open>The library\<close>

record pnote =
  date_created :: int
  msg_bytes :: string

text \<open>
  \<open>list_insert_new_head\<close> allocates an object of a size, lets the constructor fill it in and puts it at
  the head of the root list.  \<open>after_note\<close> is what lies behind an object in the pool.
\<close>

record 'k pmem =
  access_ok :: "'k \<Rightarrow> string \<Rightarrow> bool"
  pmemobj_create :: "'k \<Rightarrow> string \<Rightarrow> string \<Rightarrow> u64 \<times> 'k"
  pmemobj_open :: "'k \<Rightarrow> string \<Rightarrow> string \<Rightarrow> u64 \<times> 'k"
  pmemobj_close :: "'k \<Rightarrow> u64 \<Rightarrow> 'k"
  list_insert_new_head :: "'k \<Rightarrow> u64 \<Rightarrow> nat \<Rightarrow> (string \<Rightarrow> pnote) \<Rightarrow> 'k"
  pm_time :: "'k \<Rightarrow> int"
  pm_ctime :: "int \<Rightarrow> string"
  root_notes :: "'k \<Rightarrow> u64 \<Rightarrow> pnote list"
  after_note :: "'k \<Rightarrow> pnote \<Rightarrow> string"
  file_layout :: "'k \<Rightarrow> string \<Rightarrow> string option"

definition MSG_SIZE_OF_NOTE :: nat where "MSG_SIZE_OF_NOTE = 40"

text \<open>
  A file that is there has a layout; a new pool takes the one given and has no notes; a pool is opened
  only under the layout it was created with; closing it leaves the file.  The memory handed to the
  constructor has the size asked for less the fixed part of the note.
\<close>

definition pmem_spec :: "'k pmem \<Rightarrow> bool" where
  "pmem_spec P \<longleftrightarrow>
     (\<forall>k path. access_ok P k path \<longleftrightarrow> file_layout P k path \<noteq> None)
     \<and> (\<forall>k path l. case pmemobj_create P k path l of (p, k') \<Rightarrow>
          if p = 0 then file_layout P k' = file_layout P k
          else file_layout P k' = (file_layout P k)(path \<mapsto> l) \<and> root_notes P k' p = [])
     \<and> (\<forall>k path l. case pmemobj_open P k path l of (p, k') \<Rightarrow>
          file_layout P k' = file_layout P k \<and> (p \<noteq> 0 \<longrightarrow> file_layout P k path = Some l))
     \<and> (\<forall>k p. file_layout P (pmemobj_close P k p) = file_layout P k)
     \<and> (\<forall>k p n c. file_layout P (list_insert_new_head P k p n c) = file_layout P k
          \<and> (\<exists>m. length m = n - MSG_SIZE_OF_NOTE
             \<and> root_notes P (list_insert_new_head P k p n c) p = c m # root_notes P k p))"

section \<open>The program\<close>

record 'k notes_prog =
  np_out :: "string list"
  np_kern :: 'k

definition np_print :: "'k notes_prog \<Rightarrow> string \<Rightarrow> 'k notes_prog" where
  "np_print s t = s\<lparr>np_out := np_out s @ [t @ [CHR 0x0A]]\<rparr>"

text \<open>The message is copied without the zero byte that ends it.\<close>

definition note_construct :: "'k pmem \<Rightarrow> 'k \<Rightarrow> string \<Rightarrow> string \<Rightarrow> pnote" where
  "note_construct P k msg mem = \<lparr>date_created = pm_time P k, msg_bytes = msg @ drop (length msg) mem\<rparr>"

definition create_note :: "'k pmem \<Rightarrow> 'k notes_prog \<Rightarrow> u64 \<Rightarrow> string \<Rightarrow> 'k notes_prog" where
  "create_note P s pop msg = (let s1 = np_print s ''create notes.....'' in
     s1\<lparr>np_kern := list_insert_new_head P (np_kern s1) pop (MSG_SIZE_OF_NOTE + length msg) (note_construct P (np_kern s1) msg)\<rparr>)"

text \<open>Printing with \<open>%s\<close> reads on behind the note until a zero byte.\<close>

definition note_print :: "'k pmem \<Rightarrow> 'k notes_prog \<Rightarrow> pnote \<Rightarrow> 'k notes_prog option" where
  "note_print P s n = (let bytes = msg_bytes n @ after_note P (np_kern s) n in
     if CHR 0x00 \<in> set bytes
     then Some (np_print s (''Created at '' @ pm_ctime P (date_created n) @ '': '' @ [CHR 0x0A] @ '' '' @ c_string bytes))
     else None)"

fun note_print_list :: "'k pmem \<Rightarrow> 'k notes_prog \<Rightarrow> pnote list \<Rightarrow> 'k notes_prog option" where
  "note_print_list P s [] = Some s"
| "note_print_list P s (n # ns) = do { s1 \<leftarrow> note_print P s n; note_print_list P s1 ns }"

definition note_print_all :: "'k pmem \<Rightarrow> 'k notes_prog \<Rightarrow> u64 \<Rightarrow> 'k notes_prog option" where
  "note_print_all P s pop = note_print_list P s (root_notes P (np_kern s) pop)"

text \<open>A new pool has the layout \<open>lists\<close>, an existing one is opened with the layout \<open>pi\<close>.\<close>

definition notes_main :: "'k pmem \<Rightarrow> 'k notes_prog \<Rightarrow> string \<Rightarrow> (int \<times> 'k notes_prog) option" where
  "notes_main P s path =
     (case (if \<not> access_ok P (np_kern s) path then (pmemobj_create P (np_kern s) path ''lists'', ''failed to create pool'')
            else (pmemobj_open P (np_kern s) path ''pi'', ''failed to open pool'')) of ((pop, k1), failure) \<Rightarrow>
      let s1 = s\<lparr>np_kern := k1\<rparr> in
      if pop = 0 then Some (1, np_print s1 failure)
      else do {
        let s2 = create_note P (create_note P s1 pop ''note1'') pop ''note2'';
        s3 \<leftarrow> note_print_all P s2 pop;
        Some (0, s3\<lparr>np_kern := pmemobj_close P (np_kern s3) pop\<rparr>)
      })"

section \<open>Property\<close>

lemma insert_note:
  assumes "pmem_spec P"
  shows "root_notes P (np_kern (create_note P s pop msg)) pop
      = \<lparr>date_created = pm_time P (np_kern s), msg_bytes = msg\<rparr> # root_notes P (np_kern s) pop"
    and "file_layout P (np_kern (create_note P s pop msg)) = file_layout P (np_kern s)"
    and "np_out (create_note P s pop msg) = np_out s @ [''create notes.....'' @ [CHR 0x0A]]"
proof -
  let ?n = "MSG_SIZE_OF_NOTE + length msg" and ?c = "note_construct P (np_kern s) msg"
  have "file_layout P (list_insert_new_head P k p n c) = file_layout P k
      \<and> (\<exists>m. length m = n - MSG_SIZE_OF_NOTE \<and> root_notes P (list_insert_new_head P k p n c) p = c m # root_notes P k p)" for k p n c
    using assms by (simp add: pmem_spec_def)
  from this [of "np_kern s" pop ?n ?c] obtain m where m: "length m = length msg"
    "file_layout P (list_insert_new_head P (np_kern s) pop ?n ?c) = file_layout P (np_kern s)"
    "root_notes P (list_insert_new_head P (np_kern s) pop ?n ?c) pop = ?c m # root_notes P (np_kern s) pop" by auto
  have k: "np_kern (create_note P s pop msg) = list_insert_new_head P (np_kern s) pop ?n ?c"
    by (simp add: create_note_def np_print_def Let_def)
  show "root_notes P (np_kern (create_note P s pop msg)) pop
      = \<lparr>date_created = pm_time P (np_kern s), msg_bytes = msg\<rparr> # root_notes P (np_kern s) pop"
    using m by (simp add: k note_construct_def)
  show "file_layout P (np_kern (create_note P s pop msg)) = file_layout P (np_kern s)" using m by (simp add: k)
qed (simp add: create_note_def np_print_def Let_def)

lemma pmem_specD:
  assumes "pmem_spec P"
  shows "access_ok P k path \<longleftrightarrow> file_layout P k path \<noteq> None"
    and "pmemobj_create P k path l = (p, k') \<Longrightarrow> p \<noteq> 0 \<Longrightarrow> file_layout P k' = (file_layout P k)(path \<mapsto> l) \<and> root_notes P k' p = []"
    and "pmemobj_open P k path l = (p, k') \<Longrightarrow> p \<noteq> 0 \<Longrightarrow> file_layout P k path = Some l"
    and "file_layout P (pmemobj_close P k p) = file_layout P k"
proof -
  show "access_ok P k path \<longleftrightarrow> file_layout P k path \<noteq> None" "file_layout P (pmemobj_close P k p) = file_layout P k"
    using assms by (simp_all add: pmem_spec_def)
  have "case pmemobj_create P k path l of (p, k') \<Rightarrow> if p = 0 then file_layout P k' = file_layout P k
      else file_layout P k' = (file_layout P k)(path \<mapsto> l) \<and> root_notes P k' p = []" using assms by (simp add: pmem_spec_def)
  then show "pmemobj_create P k path l = (p, k') \<Longrightarrow> p \<noteq> 0 \<Longrightarrow> file_layout P k' = (file_layout P k)(path \<mapsto> l) \<and> root_notes P k' p = []"
    by simp
  have "case pmemobj_open P k path l of (p, k') \<Rightarrow> file_layout P k' = file_layout P k \<and> (p \<noteq> 0 \<longrightarrow> file_layout P k path = Some l)"
    using assms by (simp add: pmem_spec_def)
  then show "pmemobj_open P k path l = (p, k') \<Longrightarrow> p \<noteq> 0 \<Longrightarrow> file_layout P k path = Some l" by simp
qed

lemma print_keeps: "note_print P s n = Some s' \<Longrightarrow> np_kern s' = np_kern s"
  by (auto simp: note_print_def np_print_def Let_def split: if_splits)

lemma print_list_keeps: "note_print_list P s ns = Some s' \<Longrightarrow> np_kern s' = np_kern s"
  by (induction ns arbitrary: s) (auto split: Option.bind_splits dest: print_keeps)

text \<open>
  A first run that creates the pool and ends leaves its two notes in the file, the newer one in
  front; every later run on the same file fails to open the pool, since it asks for another layout.
\<close>

theorem notes_second_run_fails:
  assumes "pmem_spec P" "file_layout P (np_kern s) path = None" "fst (pmemobj_create P (np_kern s) path ''lists'') \<noteq> 0"
    and "notes_main P s path = Some (r, s1)"
  shows "r = 0 \<and> (\<exists>k pop. np_kern s1 = pmemobj_close P k pop \<and> map msg_bytes (root_notes P k pop) = [''note2'', ''note1''])
    \<and> (\<exists>s2. notes_main P s1 path = Some (1, s2) \<and> np_out s2 = np_out s1 @ [''failed to open pool'' @ [CHR 0x0A]])"
proof -
  note D = pmem_specD [OF assms(1)]
  obtain pop k1 where c: "pmemobj_create P (np_kern s) path ''lists'' = (pop, k1)" "pop \<noteq> 0" using assms(3) by (metis fst_conv surj_pair)
  let ?s2 = "create_note P (create_note P (s\<lparr>np_kern := k1\<rparr>) pop ''note1'') pop ''note2''"
  obtain s3 where s3: "note_print_all P ?s2 pop = Some s3" "r = 0" "s1 = s3\<lparr>np_kern := pmemobj_close P (np_kern s3) pop\<rparr>"
    using assms(2,4) c D(1) by (auto simp: notes_main_def Let_def split: Option.bind_splits)
  then have k: "np_kern s3 = np_kern ?s2" using print_list_keeps by (auto simp: note_print_all_def)
  have two: "map msg_bytes (root_notes P (np_kern ?s2) pop) = [''note2'', ''note1'']"
    using D(2) [OF c] by (simp add: insert_note [OF assms(1)])
  have lay: "file_layout P (np_kern s1) path = Some ''lists''"
    using D(2) [OF c] k s3(3) by (simp add: D(4) insert_note [OF assms(1)])
  obtain p k2 where o: "pmemobj_open P (np_kern s1) path ''pi'' = (p, k2)" by fastforce
  have "p = 0" using D(3) [OF o] lay by auto
  then have "notes_main P s1 path = Some (1, np_print (s1\<lparr>np_kern := k2\<rparr>) ''failed to open pool'')"
    using o lay D(1) by (simp add: notes_main_def)
  then have "\<exists>s2. notes_main P s1 path = Some (1, s2) \<and> np_out s2 = np_out s1 @ [''failed to open pool'' @ [CHR 0x0A]]"
    by (simp add: np_print_def)
  moreover have "np_kern s1 = pmemobj_close P (np_kern ?s2) pop" using s3(3) k by simp
  ultimately show ?thesis using two s3(2) by (intro conjI) (assumption, metis, assumption)
qed

text \<open>A library with one pool, which holds the layouts of the files and the notes.\<close>

definition demo_pmem :: "((string \<rightharpoonup> string) \<times> pnote list) pmem" where
  "demo_pmem = \<lparr>access_ok = (\<lambda>k path. fst k path \<noteq> None), pmemobj_create = (\<lambda>k path l. (8, ((fst k)(path \<mapsto> l), []))),
     pmemobj_open = (\<lambda>k path l. (if fst k path = Some l then 8 else 0, k)), pmemobj_close = (\<lambda>k p. k),
     list_insert_new_head = (\<lambda>k p n c. (fst k, c (replicate (n - MSG_SIZE_OF_NOTE) (CHR 0x00)) # snd k)),
     pm_time = (\<lambda>k. 0), pm_ctime = (\<lambda>t. ''now''), root_notes = (\<lambda>k p. snd k), after_note = (\<lambda>k n. [CHR 0x00]),
     file_layout = fst\<rparr>"

lemma demo_first_run:
  "\<exists>s1. notes_main demo_pmem \<lparr>np_out = [], np_kern = (Map.empty, [])\<rparr> ''pool'' = Some (0, s1)"
  by (simp add: notes_main_def create_note_def note_print_all_def note_print_def note_construct_def np_print_def demo_pmem_def Let_def)

theorem notes_second_run_fails_witness:
  "\<exists>s1 s2. notes_main demo_pmem \<lparr>np_out = [], np_kern = (Map.empty, [])\<rparr> ''pool'' = Some (0, s1) \<and> notes_main demo_pmem s1 ''pool'' = Some (1, s2)"
proof -
  have "pmem_spec demo_pmem" by (auto simp: pmem_spec_def demo_pmem_def) (metis length_replicate)
  moreover obtain s1 where "notes_main demo_pmem \<lparr>np_out = [], np_kern = (Map.empty, [])\<rparr> ''pool'' = Some (0, s1)"
    using demo_first_run by blast
  ultimately show ?thesis
    using notes_second_run_fails [of demo_pmem "\<lparr>np_out = [], np_kern = (Map.empty, [])\<rparr>" "''pool''" 0 s1]
    by (auto simp: demo_pmem_def)
qed

end
