(* ===== verification/List_C.thy ===== *)
theory List_C
  imports Linked_List_Ops Seq_Contract
begin

text \<open>
  The list functions of \<open>src/radix_tree/list.c\<close> (\<open>src/chaining_hash/list.c\<close> has the same text), over the
  memory of \<open>Linked_List\<close>.  They agree with the inline functions of \<open>src/chaining_hash/list.h\<close> on every
  memory, faults included, except that \<open>list_del\<close> stores NULL in the links of the entry; so they keep
  the same contract.
\<close>

section \<open>Operations\<close>

definition raw_list_add_lc :: "lmem \<Rightarrow> u64 \<Rightarrow> u64 \<Rightarrow> u64 \<Rightarrow> lmem option" where
  "raw_list_add_lc m new prev nx = do {
     m1 \<leftarrow> set_prev m nx new;
     m2 \<leftarrow> set_next m1 new nx;
     m3 \<leftarrow> set_prev m2 new prev;
     set_next m3 prev new
   }"

definition list_add_lc :: "lmem \<Rightarrow> u64 \<Rightarrow> u64 \<Rightarrow> lmem option" where
  "list_add_lc m new head = do { c \<leftarrow> m head; raw_list_add_lc m new head (lh_next c) }"

definition list_add_tail_lc :: "lmem \<Rightarrow> u64 \<Rightarrow> u64 \<Rightarrow> lmem option" where
  "list_add_tail_lc m new head = do { c \<leftarrow> m head; raw_list_add_lc m new (lh_prev c) head }"

definition raw_list_del_lc :: "lmem \<Rightarrow> u64 \<Rightarrow> u64 \<Rightarrow> lmem option" where
  "raw_list_del_lc m prev nx = do { m1 \<leftarrow> set_prev m nx prev; set_next m1 prev nx }"

definition list_del_lc :: "lmem \<Rightarrow> u64 \<Rightarrow> lmem option" where
  "list_del_lc m entry = do {
     c \<leftarrow> m entry;
     m1 \<leftarrow> raw_list_del_lc m (lh_prev c) (lh_next c);
     m2 \<leftarrow> set_next m1 entry 0;
     set_prev m2 entry 0
   }"

definition list_del_init_lc :: "lmem \<Rightarrow> u64 \<Rightarrow> lmem option" where
  "list_del_init_lc m entry = do {
     c \<leftarrow> m entry;
     m1 \<leftarrow> raw_list_del_lc m (lh_prev c) (lh_next c);
     INIT_LIST_HEAD m1 entry
   }"

definition list_move_lc :: "lmem \<Rightarrow> u64 \<Rightarrow> u64 \<Rightarrow> lmem option" where
  "list_move_lc m entry head = do {
     c \<leftarrow> m entry;
     m1 \<leftarrow> raw_list_del_lc m (lh_prev c) (lh_next c);
     list_add_lc m1 entry head
   }"

definition list_move_tail_lc :: "lmem \<Rightarrow> u64 \<Rightarrow> u64 \<Rightarrow> lmem option" where
  "list_move_tail_lc m entry head = do {
     c \<leftarrow> m entry;
     m1 \<leftarrow> raw_list_del_lc m (lh_prev c) (lh_next c);
     list_add_tail_lc m1 entry head
   }"

definition list_empty_lc :: "lmem \<Rightarrow> u64 \<Rightarrow> bool option" where
  "list_empty_lc m head = do { c \<leftarrow> m head; Some (lh_next c = head) }"

definition raw_list_splice_lc :: "lmem \<Rightarrow> u64 \<Rightarrow> u64 \<Rightarrow> lmem option" where
  "raw_list_splice_lc m list head = do {
     l \<leftarrow> m list;
     h \<leftarrow> m head;
     let first = lh_next l;
     let lst = lh_prev l;
     let at = lh_next h;
     m1 \<leftarrow> set_prev m first head;
     m2 \<leftarrow> set_next m1 head first;
     m3 \<leftarrow> set_next m2 lst at;
     set_prev m3 at lst
   }"

definition list_splice_lc :: "lmem \<Rightarrow> u64 \<Rightarrow> u64 \<Rightarrow> lmem option" where
  "list_splice_lc m list head = do {
     e \<leftarrow> list_empty_lc m list;
     if \<not> e then raw_list_splice_lc m list head else Some m
   }"

definition list_splice_init_lc :: "lmem \<Rightarrow> u64 \<Rightarrow> u64 \<Rightarrow> lmem option" where
  "list_splice_init_lc m list head = do {
     e \<leftarrow> list_empty_lc m list;
     if \<not> e then do { m1 \<leftarrow> raw_list_splice_lc m list head; INIT_LIST_HEAD m1 list } else Some m
   }"

section \<open>Agreement with the inline functions\<close>

lemma list_c_raw:
  "raw_list_add_lc = raw_list_add" "raw_list_del_lc = raw_list_del" "list_empty_lc = list_empty"
  "raw_list_splice_lc = raw_list_splice"
  by (intro ext, simp add: raw_list_add_lc_def raw_list_add_def raw_list_del_lc_def raw_list_del_def
      list_empty_lc_def list_empty_def raw_list_splice_lc_def raw_list_splice_def)+

lemma list_c_same:
  "list_add_lc = list_add" "list_add_tail_lc = list_add_tail" "list_del_init_lc = list_del_init" "list_move_lc = list_move"
  "list_move_tail_lc = list_move_tail" "list_splice_lc = list_splice" "list_splice_init_lc = list_splice_init"
proof -
  show a: "list_add_lc = list_add" "list_add_tail_lc = list_add_tail"
    by (intro ext, simp add: list_c_raw list_add_lc_def list_add_def list_add_tail_lc_def list_add_tail_def)+
  show "list_del_init_lc = list_del_init" "list_move_lc = list_move" "list_move_tail_lc = list_move_tail"
    "list_splice_lc = list_splice" "list_splice_init_lc = list_splice_init"
    by (intro ext, simp add: list_c_raw a list_del_init_lc_def list_del_init_def list_move_lc_def list_move_def
        list_move_tail_lc_def list_move_tail_def list_splice_lc_def list_splice_def list_splice_init_lc_def list_splice_init_def cong: if_cong)+
qed

lemma list_c_del: "list_del_lc m e = map_option (\<lambda>m'. m'(e \<mapsto> \<lparr>lh_next = 0, lh_prev = 0\<rparr>)) (list_del m e)"
  by (auto simp: list_del_lc_def list_del_def list_c_raw set_next_def set_prev_def split: Option.bind_splits)

lemma list_del_lc_ok:
  assumes "dll m h (as @ e # bs)"
  shows "\<exists>m'. list_del_lc m e = Some m' \<and> dll m' h (as @ bs) \<and> unchanged m m' (set (h # e # as @ bs))
     \<and> m' e = Some \<lparr>lh_next = 0, lh_prev = 0\<rparr>"
proof -
  obtain m1 where m1: "list_del m e = Some m1" "dll m1 h (as @ bs)" "unchanged m m1 (set (h # e # as @ bs))" "m1 e \<noteq> None"
    using list_del_ok [OF assms] by blast
  let ?m = "m1(e \<mapsto> \<lparr>lh_next = 0, lh_prev = 0\<rparr>)"
  have u: "unchanged m1 ?m {e}" using m1(4) by (auto simp: unchanged_def)
  have "e \<notin> set (h # as @ bs)" using assms by (auto simp: dll_def)
  then have "dll ?m h (as @ bs)" by (intro dll_frame [OF u m1(2)]) auto
  moreover have "unchanged m ?m (set (h # e # as @ bs))" by (rule unchanged_trans [OF m1(3) u]) auto
  ultimately show ?thesis using m1(1) by (simp add: list_c_del)
qed

interpretation lc: intrusive_list dll "\<lambda>m e. e \<in> dom m" "\<lambda>h e. e \<noteq> h" list_add_lc list_del_lc list_for_each
proof unfold_locales
  show "\<exists>m'. list_add_lc m e h = Some m' \<and> dll m' h (e # xs) \<and> (\<forall>c. c \<in> dom m \<longrightarrow> c \<in> dom m')"
    if "dll m h xs" "e \<in> dom m" "e \<noteq> h" "e \<notin> set xs" for m h xs e
    using list_add_ok [OF that(1,2)] that(3,4) by (auto simp: unchanged_def list_c_same)
  show "\<exists>m'. list_del_lc m e = Some m' \<and> dll m' h (as @ bs)" if "dll m h (as @ e # bs)" for m h as e bs
    using list_del_lc_ok [OF that] by blast
  show "list_for_each m h = Some xs" if "dll m h xs" for m h xs using that by (rule list_for_each_ok)
  show "distinct xs" if "dll m h xs" for m h xs using that by (simp add: dll_def)
qed

end
