(* ===== verification/Bounded_Buffer.thy ===== *)
theory Bounded_Buffer
  imports Monitor
begin

text \<open>
  The bounded buffer of \<open>src/producer_consumer/example.cpp\<close>, with any number of producers and consumers
  that call \<open>add\<close> and \<open>remove\<close> for ever.  The predicate of each \<open>cond.wait\<close> is tested under the mutex
  before every wait, and the notification comes after the mutex has been released.  Printing and
  sleeping between the calls are left out.
\<close>

section \<open>State and steps\<close>

datatype 'a bb_pc =
    Add_lock 'a | Add_test 'a | Add_wait 'a | Add_put 'a | Add_unlock
  | Rem_lock | Rem_test | Rem_wait | Rem_take | Rem_unlock 'a
  | Notify_all "'a option"
  | Next_call bool | No_thread

record 'a bb_state = "'a bb_pc monitor" +
  bb_buffer :: "'a list"
  bb_added :: "'a list"
  bb_removed :: "'a list"

definition BUFFER_SIZE :: nat where "BUFFER_SIZE = 10"

text \<open>The member \<open>cond\<close> hides the global variable of the same name, so a buffer wakes its own threads.\<close>

fun woken :: "'a bb_pc \<Rightarrow> 'a bb_pc" where
  "woken (Add_wait v) = Add_lock v"
| "woken Rem_wait = Rem_lock"
| "woken pc = pc"

definition notify_all :: "'a bb_state \<Rightarrow> 'a bb_state" where
  "notify_all s = s\<lparr>mon_pcs := woken \<circ> mon_pcs s\<rparr>"

fun add_step :: "'a bb_state \<Rightarrow> nat \<Rightarrow> 'a bb_state option" where
  "add_step s t = (case mon_pcs s t of
     Add_lock v \<Rightarrow> acquire s t (Add_test v)
   | Add_test v \<Rightarrow> Some (if length (bb_buffer s) < BUFFER_SIZE then goto s t (Add_put v) else release s t (Add_wait v))
   | Add_put v \<Rightarrow> Some (goto (s\<lparr>bb_buffer := bb_buffer s @ [v], bb_added := bb_added s @ [v]\<rparr>) t Add_unlock)
   | Add_unlock \<Rightarrow> Some (release s t (Notify_all None))
   | _ \<Rightarrow> None)"

fun remove_step :: "'a bb_state \<Rightarrow> nat \<Rightarrow> 'a bb_state option" where
  "remove_step s t = (case mon_pcs s t of
     Rem_lock \<Rightarrow> acquire s t Rem_test
   | Rem_test \<Rightarrow> Some (if 0 < length (bb_buffer s) then goto s t Rem_take else release s t Rem_wait)
   | Rem_take \<Rightarrow> (if bb_buffer s = [] then None
       else Some (goto (s\<lparr>bb_buffer := butlast (bb_buffer s), bb_removed := bb_removed s @ [last (bb_buffer s)]\<rparr>) t
         (Rem_unlock (last (bb_buffer s)))))
   | Rem_unlock v \<Rightarrow> Some (release s t (Notify_all (Some v)))
   | _ \<Rightarrow> None)"

text \<open>
  After its notification a thread goes on with its next call: a producer, for which the component is
  True, with any number, and a consumer with the next removal.  A waiting thread may wake spuriously.
\<close>

inductive bb_step :: "'a bb_state \<Rightarrow> 'a bb_state \<Rightarrow> bool" where
  add: "add_step s t = Some s' \<Longrightarrow> bb_step s s'"
| remove: "remove_step s t = Some s' \<Longrightarrow> bb_step s s'"
| notify: "mon_pcs s t = Notify_all r \<Longrightarrow> bb_step s (notify_all (goto s t (Next_call (r = None))))"
| produce: "mon_pcs s t = Next_call True \<Longrightarrow> bb_step s (goto s t (Add_lock num))"
| consume: "mon_pcs s t = Next_call False \<Longrightarrow> bb_step s (goto s t Rem_lock)"
| spurious: "bb_step s (goto s t (woken (mon_pcs s t)))"

inductive bb_reachable :: "'a bb_state \<Rightarrow> bool" where
  start: "(\<forall>t. pcs t \<in> {Next_call True, Next_call False, No_thread}) \<Longrightarrow>
    bb_reachable \<lparr>mon_mutex = None, mon_pcs = pcs, bb_buffer = [], bb_added = [], bb_removed = []\<rparr>"
| stepped: "bb_reachable s \<Longrightarrow> bb_step s s' \<Longrightarrow> bb_reachable s'"

end
