(* ===== verification/Bounded_Buffer_Props.thy ===== *)
theory Bounded_Buffer_Props
  imports Bounded_Buffer "HOL-Library.Multiset"
begin

text \<open>
  The invariants of the bounded buffer: mutual exclusion, at most ten values, none lost, and a thread
  waits although it could go on only while another one is about to notify.
\<close>

section \<open>Invariant\<close>

fun inside :: "'a bb_pc \<Rightarrow> bool" where
  "inside (Add_test v) = True"
| "inside (Add_put v) = True"
| "inside Add_unlock = True"
| "inside Rem_test = True"
| "inside Rem_take = True"
| "inside (Rem_unlock v) = True"
| "inside _ = False"

fun notifying :: "'a bb_pc \<Rightarrow> bool" where
  "notifying Add_unlock = True"
| "notifying (Rem_unlock v) = True"
| "notifying (Notify_all r) = True"
| "notifying _ = False"

fun bb_pc_ok :: "nat \<Rightarrow> 'a bb_pc \<Rightarrow> bool" where
  "bb_pc_ok n (Add_put v) = (n < BUFFER_SIZE)"
| "bb_pc_ok n Rem_take = (0 < n)"
| "bb_pc_ok n _ = True"

text \<open>The threads that wait although the buffer, which has \<open>n\<close> values, would let them go on.\<close>

fun sleeping :: "nat \<Rightarrow> 'a bb_pc \<Rightarrow> bool" where
  "sleeping n (Add_wait v) = (n < BUFFER_SIZE)"
| "sleeping n Rem_wait = (0 < n)"
| "sleeping n _ = False"

definition woken_soon :: "nat \<Rightarrow> (nat \<Rightarrow> 'a bb_pc) \<Rightarrow> bool" where
  "woken_soon n pcs \<longleftrightarrow> (\<exists>t. sleeping n (pcs t)) \<longrightarrow> (\<exists>u. notifying (pcs u))"

definition bb_inv :: "'a bb_state \<Rightarrow> bool" where
  "bb_inv s \<longleftrightarrow> exclusive inside s \<and> length (bb_buffer s) \<le> BUFFER_SIZE
     \<and> mset (bb_added s) = mset (bb_buffer s) + mset (bb_removed s)
     \<and> (\<forall>t. bb_pc_ok (length (bb_buffer s)) (mon_pcs s t)) \<and> woken_soon (length (bb_buffer s)) (mon_pcs s)"

lemma bb_pc_ok_outside: "\<not> inside pc \<Longrightarrow> bb_pc_ok n pc"
  by (cases pc) auto

lemma woken_pc: "inside (woken pc) = inside pc" "bb_pc_ok n (woken pc) = bb_pc_ok n pc" "\<not> sleeping n (woken pc)"
  "notifying (woken pc) = notifying pc"
  by (cases pc; simp)+

lemma woken_soon_upd:
  assumes "woken_soon n pcs" "\<not> sleeping n pc" "notifying (pcs t) \<longrightarrow> notifying pc"
  shows "woken_soon n (pcs(t := pc))"
  using assms by (auto simp: woken_soon_def)

text \<open>A step of one thread that leaves the buffer alone.\<close>

lemma bb_inv_goto:
  assumes "bb_inv s" "inside pc \<longleftrightarrow> inside (mon_pcs s t)" "bb_pc_ok (length (bb_buffer s)) pc"
    and "\<not> sleeping (length (bb_buffer s)) pc" "notifying (mon_pcs s t) \<longrightarrow> notifying pc"
  shows "bb_inv (goto s t pc)"
  using assms exclusive_goto [of inside s pc t] woken_soon_upd [of "length (bb_buffer s)" "mon_pcs s" pc t]
  by (auto simp: bb_inv_def goto_def)

lemma bb_inv_acquire:
  assumes "bb_inv s" "acquire s t pc = Some s'" "inside pc" "bb_pc_ok (length (bb_buffer s)) pc"
    and "\<not> sleeping (length (bb_buffer s)) pc" "\<not> notifying (mon_pcs s t)"
  shows "bb_inv s'"
  using assms exclusive_acquire [of inside s pc t s'] woken_soon_upd [of "length (bb_buffer s)" "mon_pcs s" pc t]
  by (auto simp: bb_inv_def acquire_def goto_def split: if_splits)

lemma bb_inv_release:
  assumes "bb_inv s" "inside (mon_pcs s t)" "\<not> inside pc" "\<not> sleeping (length (bb_buffer s)) pc"
    and "notifying (mon_pcs s t) \<longrightarrow> notifying pc"
  shows "bb_inv (release s t pc)"
  using assms exclusive_release [of inside s t pc] woken_soon_upd [of "length (bb_buffer s)" "mon_pcs s" pc t]
  by (auto simp: bb_inv_def release_def goto_def bb_pc_ok_outside)

text \<open>A change of the buffer by the thread inside, which goes on to its notification.\<close>

lemma bb_inv_change:
  assumes "bb_inv s" "inside (mon_pcs s t)" "inside pc" "notifying pc"
    and "mon_mutex s' = mon_mutex s" "mon_pcs s' = mon_pcs s" "length (bb_buffer s') \<le> BUFFER_SIZE"
    and "mset (bb_added s') = mset (bb_buffer s') + mset (bb_removed s')"
  shows "bb_inv (goto s' t pc)"
proof -
  have x: "exclusive inside s" using assms(1) by (simp add: bb_inv_def)
  have "exclusive inside (goto s' t pc)"
    using exclusive_cong [OF x assms(5,6)] assms(2,3,6) by (intro exclusive_goto) simp_all
  moreover have "\<not> inside (mon_pcs s u)" if "u \<noteq> t" for u using exclusive_one [OF x assms(2), of u] that by blast
  then have "bb_pc_ok (length (bb_buffer s')) (mon_pcs (goto s' t pc) u)" for u
    using assms(4,6) by (cases "u = t"; cases pc) (simp_all add: bb_pc_ok_outside)
  moreover have "woken_soon (length (bb_buffer s')) (mon_pcs (goto s' t pc))"
    using assms(4) by (auto simp: woken_soon_def intro: exI [of _ t])
  moreover have "bb_buffer (goto s' t pc) = bb_buffer s'" "bb_added (goto s' t pc) = bb_added s'" "bb_removed (goto s' t pc) = bb_removed s'"
    by (simp_all add: goto_def)
  ultimately show ?thesis using assms(7,8) by (simp add: bb_inv_def)
qed

lemma bb_inv_notify:
  assumes "bb_inv s" "mon_pcs s t = Notify_all r"
  shows "bb_inv (notify_all (goto s t (Next_call p)))"
proof -
  have "exclusive inside (goto s t (Next_call p))" using assms by (intro exclusive_goto) (simp_all add: bb_inv_def)
  then have "exclusive inside (notify_all (goto s t (Next_call p)))" by (simp add: exclusive_def notify_all_def woken_pc)
  with assms show ?thesis by (auto simp: bb_inv_def notify_all_def woken_pc woken_soon_def goto_def)
qed

lemma add_step_inv:
  assumes inv: "bb_inv s" and step: "add_step s t = Some s'"
  shows "bb_inv s'"
proof (cases "mon_pcs s t")
  case (Add_lock v)
  with step show ?thesis using bb_inv_acquire [OF inv] by simp
next
  case (Add_test v)
  with step show ?thesis using bb_inv_goto [OF inv, of "Add_put v" t] bb_inv_release [OF inv, of t "Add_wait v"]
    by (auto split: if_splits)
next
  case (Add_put v)
  have "length (bb_buffer s) < BUFFER_SIZE" using inv Add_put unfolding bb_inv_def by (metis bb_pc_ok.simps(1))
  with Add_put step inv show ?thesis by (auto simp: bb_inv_def [of s] intro!: bb_inv_change [OF inv])
next
  case Add_unlock
  with step show ?thesis using bb_inv_release [OF inv, of t "Notify_all None"] by auto
qed (use step in simp_all)

lemma remove_step_inv:
  assumes inv: "bb_inv s" and step: "remove_step s t = Some s'"
  shows "bb_inv s'"
proof (cases "mon_pcs s t")
  case Rem_lock
  with step show ?thesis using bb_inv_acquire [OF inv] by simp
next
  case Rem_test
  with step show ?thesis using bb_inv_goto [OF inv, of Rem_take t] bb_inv_release [OF inv, of t Rem_wait]
    by (auto split: if_splits)
next
  case Rem_take
  then have ne: "bb_buffer s \<noteq> []" using step by auto
  then have m: "mset (bb_buffer s) = mset (butlast (bb_buffer s)) + {#last (bb_buffer s)#}"
    by (metis append_butlast_last_id mset_append mset_single_iff_right mset.simps)
  show ?thesis using Rem_take step inv ne m by (auto simp: bb_inv_def [of s] intro!: bb_inv_change [OF inv])
next
  case (Rem_unlock v)
  with step show ?thesis using bb_inv_release [OF inv, of t "Notify_all (Some v)"] by auto
qed (use step in simp_all)

lemma bb_step_inv:
  assumes "bb_inv s" "bb_step s s'"
  shows "bb_inv s'"
  using assms(2)
proof (cases rule: bb_step.cases)
  case (add t)
  then show ?thesis using add_step_inv [OF assms(1)] by blast
next
  case (remove t)
  then show ?thesis using remove_step_inv [OF assms(1)] by blast
next
  case (notify t r)
  then show ?thesis using bb_inv_notify [OF assms(1)] by blast
next
  case (produce t num)
  then show ?thesis using bb_inv_goto [OF assms(1), of "Add_lock num" t] by simp
next
  case (consume t)
  then show ?thesis using bb_inv_goto [OF assms(1), of Rem_lock t] by simp
next
  case (spurious t)
  then show ?thesis
    using bb_inv_goto [OF assms(1), of "woken (mon_pcs s t)" t] assms(1) by (simp add: woken_pc) (simp add: bb_inv_def)
qed

lemma bb_reachable_inv: "bb_reachable s \<Longrightarrow> bb_inv s"
proof (induction rule: bb_reachable.induct)
  case (start pcs)
  then have "\<not> inside (pcs t) \<and> \<not> sleeping 0 (pcs t)" for t by (cases "pcs t") (auto dest: spec [of _ t])
  then show ?case by (simp add: bb_inv_def exclusive_def woken_soon_def bb_pc_ok_outside)
next
  case (stepped s s')
  then show ?case using bb_step_inv by blast
qed

section \<open>Properties\<close>

text \<open>
  In every interleaving the buffer has at most ten values, every value that was added is in it or
  has been removed, two threads are never inside together, and nothing is removed from an empty buffer.
\<close>

theorem bounded_buffer_safe:
  assumes "bb_reachable s"
  shows "length (bb_buffer s) \<le> 10 \<and> mset (bb_added s) = mset (bb_buffer s) + mset (bb_removed s)
    \<and> (\<forall>t u. inside (mon_pcs s t) \<and> inside (mon_pcs s u) \<longrightarrow> t = u)
    \<and> (\<forall>t. mon_pcs s t = Rem_take \<longrightarrow> bb_buffer s \<noteq> [])"
proof -
  note inv = bb_reachable_inv [OF assms]
  have "mon_pcs s t = Rem_take \<longrightarrow> bb_buffer s \<noteq> []" for t
    using inv unfolding bb_inv_def by (metis bb_pc_ok.simps(2) length_greater_0_conv)
  moreover have "inside (mon_pcs s t) \<and> inside (mon_pcs s u) \<longrightarrow> t = u" for t u
    using inv exclusive_one [of inside s t u] by (auto simp: bb_inv_def)
  moreover have "length (bb_buffer s) \<le> 10" using inv by (simp add: bb_inv_def BUFFER_SIZE_def)
  ultimately show ?thesis using inv by (simp add: bb_inv_def)
qed

text \<open>What a thread does next is neither waiting nor being absent.\<close>

fun can_act :: "'a bb_state \<Rightarrow> nat \<Rightarrow> bool" where
  "can_act s t = (add_step s t \<noteq> None \<or> remove_step s t \<noteq> None \<or> (\<exists>r. mon_pcs s t = Notify_all r) \<or> (\<exists>p. mon_pcs s t = Next_call p))"

fun producing :: "'a bb_pc \<Rightarrow> bool" where
  "producing (Add_lock v) = True"
| "producing (Add_test v) = True"
| "producing (Add_wait v) = True"
| "producing (Add_put v) = True"
| "producing Add_unlock = True"
| "producing (Notify_all r) = (r = None)"
| "producing (Next_call p) = p"
| "producing _ = False"

lemma inside_acts:
  assumes "bb_inv s" "inside (mon_pcs s t)"
  shows "can_act s t"
proof -
  have "bb_pc_ok (length (bb_buffer s)) (mon_pcs s t)" using assms(1) by (simp add: bb_inv_def)
  with assms(2) show ?thesis by (cases "mon_pcs s t") auto
qed

lemma outside_acts:
  assumes "mon_mutex s = None" "\<not> can_act s t"
  shows "inside (mon_pcs s t) \<or> (\<exists>v. mon_pcs s t = Add_wait v) \<or> mon_pcs s t = Rem_wait \<or> mon_pcs s t = No_thread"
  using assms by (cases "mon_pcs s t") (auto simp: acquire_def)

text \<open>
  C34. As long as there is a producer and a consumer, the program never stands still: in every
  reachable state some thread can act without a spurious wake-up.
\<close>

theorem bounded_buffer_never_stuck:
  assumes "bb_reachable s" "producing (mon_pcs s p)" "\<not> producing (mon_pcs s c)" "mon_pcs s c \<noteq> No_thread"
  shows "\<exists>t. can_act s t"
proof (rule ccontr)
  note inv = bb_reachable_inv [OF assms(1)]
  assume "\<not> (\<exists>t. can_act s t)"
  then have stuck: "\<not> can_act s t" for t by blast
  have out: "\<not> inside (mon_pcs s t)" for t using inside_acts [OF inv] stuck by blast
  have "mon_mutex s = None" using inv out by (cases "mon_mutex s") (auto simp: bb_inv_def exclusive_def)
  note wait = outside_acts [OF this stuck]
  obtain v where "mon_pcs s p = Add_wait v" using wait [of p] out assms(2) by auto
  moreover have "mon_pcs s c = Rem_wait" using wait [of c] out assms(3,4) by auto
  moreover have "0 < BUFFER_SIZE" by (simp add: BUFFER_SIZE_def)
  ultimately have "sleeping (length (bb_buffer s)) (mon_pcs s p) \<or> sleeping (length (bb_buffer s)) (mon_pcs s c)" by auto
  then obtain u where "notifying (mon_pcs s u)" using inv unfolding bb_inv_def woken_soon_def by blast
  then show False using stuck [of u] wait [of u] out [of u] by (cases "mon_pcs s u") auto
qed

text \<open>One producer, one consumer, and no other thread.\<close>

definition demo_threads :: "nat \<Rightarrow> nat bb_pc" where
  "demo_threads t = (if t = 0 then Next_call True else if t = 1 then Next_call False else No_thread)"

theorem bounded_buffer_never_stuck_witness:
  "\<exists>t. can_act (\<lparr>mon_mutex = None, mon_pcs = demo_threads(0 := Add_lock 7), bb_buffer = [], bb_added = [], bb_removed = []\<rparr> :: nat bb_state) t"
proof -
  let ?s = "\<lparr>mon_mutex = None, mon_pcs = demo_threads, bb_buffer = [], bb_added = [], bb_removed = []\<rparr> :: nat bb_state"
  have "bb_reachable ?s" by (rule bb_reachable.start) (simp add: demo_threads_def)
  moreover have "bb_step ?s (goto ?s 0 (Add_lock 7))" by (rule bb_step.produce) (simp add: demo_threads_def)
  ultimately have "bb_reachable (goto ?s 0 (Add_lock 7))" by (rule bb_reachable.stepped)
  from bounded_buffer_never_stuck [OF this, of 0 1] show ?thesis by (simp add: goto_def demo_threads_def)
qed

end
