(* ===== verification/Average_Agents.thy ===== *)
theory Average_Agents
  imports Prelude
begin

text \<open>
  The agents of \<open>src/producer_consumer/producer-consumer-average.cpp\<close>: the producer sends the numbers
  from a count down to one and then a sentinel, the consumer sums up what it receives until the
  sentinel and divides.  The message buffer of the agents library delivers the messages in order, so
  an agent is a function to or from the list of messages; a receive beyond its end never returns.
\<close>

section \<open>The agents\<close>

definition int_ok :: "int \<Rightarrow> bool" where "int_ok x \<longleftrightarrow> - (2 ^ 31) \<le> x \<and> x < 2 ^ 31"

function producer_loop :: "u32 \<Rightarrow> int list" where
  "producer_loop cnt = (if 0 < cnt then sint cnt # producer_loop (cnt - 1) else [])"
  by auto
termination by (relation "measure unat") (simp_all add: word_gt_0 measure_unat)

declare producer_loop.simps [simp del]

definition producer_run :: "u32 \<Rightarrow> int \<Rightarrow> int list" where
  "producer_run cnt sentinel = producer_loop cnt @ [sentinel]"

text \<open>The sum is an \<open>int\<close>: None where it leaves its range, and where no sentinel arrives.\<close>

fun consumer_loop :: "int \<Rightarrow> int \<Rightarrow> int \<Rightarrow> int list \<Rightarrow> (int \<times> int) option" where
  "consumer_loop sentinel acc cnt [] = None"
| "consumer_loop sentinel acc cnt (n # ns) =
     (if n = sentinel then Some (acc, cnt)
      else if int_ok (acc + n) \<and> int_ok (cnt + 1) then consumer_loop sentinel (acc + n) (cnt + 1) ns
      else None)"

text \<open>The division truncates; there is none by zero.\<close>

definition consumer_run :: "int \<Rightarrow> int list \<Rightarrow> int option" where
  "consumer_run sentinel ns = do {
     (acc, cnt) \<leftarrow> consumer_loop sentinel 0 0 ns;
     if cnt = 0 then None else Some (sgn acc * sgn cnt * (\<bar>acc\<bar> div \<bar>cnt\<bar>))
   }"

definition average_main :: "int option" where
  "average_main = consumer_run 0 (producer_run 100 0)"

section \<open>The average\<close>

fun down :: "nat \<Rightarrow> int list" where
  "down 0 = []"
| "down (Suc n) = int (Suc n) # down n"

lemma producer_loop_down: "n < 2 ^ 31 \<Longrightarrow> producer_loop (of_nat n) = down n"
proof (induction n)
  case 0
  then show ?case by (simp add: producer_loop.simps [of 0])
next
  case (Suc n)
  have u: "unat (of_nat (Suc n) :: u32) = Suc n" using Suc.prems by (simp add: unat_of_nat del: of_nat_Suc)
  then have "0 < (of_nat (Suc n) :: u32)" by (metis unat_0 word_gt_0 nat.distinct(1))
  moreover have "sint (of_nat (Suc n) :: u32) = int (Suc n)" using sint_small_u32 [of "of_nat (Suc n)"] Suc.prems u by (metis)
  ultimately show ?case using Suc.IH Suc.prems by (subst producer_loop.simps) simp
qed

fun triangle :: "nat \<Rightarrow> int" where
  "triangle 0 = 0"
| "triangle (Suc n) = triangle n + int (Suc n)"

lemma triangle_eq: "2 * triangle n = int n * (int n + 1)"
  by (induction n) (simp_all add: algebra_simps)

lemma triangle_nonneg: "0 \<le> triangle n"
  by (induction n) simp_all

lemma consumer_loop_ok:
  assumes "n < 2 ^ 31" "0 \<le> acc" "0 \<le> cnt" "acc + triangle n < 2 ^ 31" "cnt + int n < 2 ^ 31"
  shows "consumer_loop 0 acc cnt (down n @ [0]) = Some (acc + triangle n, cnt + int n)"
  using assms
proof (induction n arbitrary: acc cnt)
  case 0
  then show ?case by simp
next
  case (Suc n)
  have "int_ok (acc + int (Suc n)) \<and> int_ok (cnt + 1)"
    using Suc.prems triangle_nonneg [of n] by (simp add: int_ok_def)
  with Suc.IH [of "acc + int (Suc n)" "cnt + 1"] Suc.prems show ?case
    by (simp add: algebra_simps)
qed

lemma consumer_loop_overflow:
  assumes "n < 2 ^ 31" "0 \<le> acc" "acc < 2 ^ 31" "2 ^ 31 \<le> acc + triangle n"
  shows "consumer_loop 0 acc cnt (down n @ [0]) = None"
  using assms
proof (induction n arbitrary: acc cnt)
  case (Suc n)
  show ?case
  proof (cases "int_ok (acc + int (Suc n))")
    case True
    with Suc.IH [of "acc + int (Suc n)" "cnt + 1"] Suc.prems show ?thesis
      by (simp add: int_ok_def algebra_simps)
  next
    case False
    with Suc.prems show ?thesis by simp
  qed
qed simp

lemma triangle_large: "65536 \<le> n \<Longrightarrow> 2 ^ 31 \<le> triangle n"
proof -
  assume n: "65536 \<le> n"
  have "(65536::int) * 65537 \<le> int n * (int n + 1)" using n by (intro mult_mono) simp_all
  then show ?thesis using triangle_eq [of n] by simp
qed

lemma triangle_small: "n \<le> 65535 \<Longrightarrow> triangle n < 2 ^ 31"
proof -
  assume n: "n \<le> 65535"
  have "int n * (int n + 1) \<le> (65535::int) * 65536" using n by (intro mult_mono) simp_all
  then show ?thesis using triangle_eq [of n] by simp
qed

lemma triangle_div: "0 < n \<Longrightarrow> triangle n div int n = (int n + 1) div 2"
proof -
  assume n: "0 < n"
  have "triangle n = int n * (int n + 1) div 2" using triangle_eq [of n] by simp
  then have "triangle n div int n = (int n * (int n + 1)) div (2 * int n)" using zdiv_zmult2_eq [of "int n" _ 2] by simp
  also have "\<dots> = (int n + 1) div 2" using n div_mult_mult1 [of "int n" "int n + 1" 2] by (simp add: mult.commute)
  finally show "triangle n div int n = (int n + 1) div 2" .
qed

text \<open>
  For a count of 1 to 65535 the consumer finds the average of the numbers sent; without numbers it
  divides by zero, and from 65536 on its sum leaves the range of an \<open>int\<close>.
\<close>

theorem average_of_agents:
  assumes "n < 2 ^ 31"
  shows "consumer_run 0 (producer_run (of_nat n) 0) = (if 1 \<le> n \<and> n \<le> 65535 then Some ((int n + 1) div 2) else None)"
proof (cases "n \<le> 65535")
  case True
  then have "consumer_loop 0 0 0 (producer_run (of_nat n) 0) = Some (triangle n, int n)"
    using consumer_loop_ok [of n 0 0] triangle_small [of n] assms by (simp add: producer_run_def producer_loop_down)
  moreover have "sgn (triangle n) = 1 \<and> \<bar>triangle n\<bar> = triangle n" if pos: "0 < n"
  proof -
    obtain m where "n = Suc m" using pos by (cases n) auto
    then have "0 < triangle n" using triangle_nonneg [of m] by simp
    then show ?thesis by simp
  qed
  ultimately show ?thesis using True triangle_div [of n] by (cases "n = 0") (simp_all add: consumer_run_def)
next
  case False
  then have "consumer_loop 0 0 0 (producer_run (of_nat n) 0) = None"
    using consumer_loop_overflow [of n 0 0] assms triangle_large [of n] by (simp add: producer_run_def producer_loop_down)
  with False show ?thesis by (simp add: consumer_run_def)
qed

theorem average_of_agents_witness: "average_main = Some 50"
  using average_of_agents [of 100] by (simp add: average_main_def)

end
