(* ===== verification/Spec2Isabelle.thy ===== *)
theory Spec2Isabelle
  imports Radix_Iter_Props Lists_Props Chain_Bench_Props HotRing_Shift_Props HotRing_Bench JIFS_Props Radix_Bench_Props Page_Flags
    Virtual_Device Crypto_Filter Work_Queue_Props Sync_Queue_Props File_Module Packet_Hook Pmem_Notes List_C
    Bounded_Buffer_Props Average_Agents
begin

text \<open>
  A verification development for the C programs of the repository: a radix tree, the kernel's linked
  lists, a chaining hash table, the hot-ring hash table, two small kernel file systems, a character
  device, kernel modules, programs of producers and consumers, and two tools.

  \<^bold>\<open>Conventions.\<close>  A C function is a function on explicit states; pointers, \<open>unsigned long\<close> and \<open>size_t\<close>
  are 64-bit words and keep their wrap-around, \<open>int\<close> is cut to 32 bits where the code converts to it.
  Memory is a partial map per type of object.  Apart from the allocation functions of the radix tree
  and the chaining table, where it is the NULL they return, \<^term>\<open>None\<close> is undefined behaviour (an access outside
  the objects, a shift of an \<open>int\<close> out of its range), a failed assertion, or a loop that does not
  end; error codes are ordinary results.  An allocator hands out the addresses of a list, which may
  run out or contain NULL.  Log messages are left out except
  where they are all that a program does.

  \<^bold>\<open>Parts and theories.\<close>

  \<^item> \<open>Prelude\<close>, \<open>Keyed_Store\<close>, \<open>Seq_Contract\<close>, \<open>Cyclic_Order\<close>, \<open>Bag_Table\<close>, \<open>Counter_File\<close> and \<open>Bench_Grid\<close> hold
    what components share.  \<open>Keyed_Store\<close> is the contract of a map from indices to entries, with the
    theorem that a run of operations returns what a finite map returns; \<open>Seq_Contract\<close> that of a
    sequence; \<open>Bag_Table\<close> that of a table of pairs that is filled and searched; \<open>Counter_File\<close> that of a
    file that shows a counter.  Each is a locale with an interpretation on the model of the code.

  \<^item> The radix tree, \<open>src/radix_tree/radix-tree.c\<close> and \<open>radix-tree.h\<close>: \<open>Radix_Tree\<close> has its nodes,
    creation, extension, insertion, lookup, replacement, deletion, shrinking and the release callback;
    \<open>Radix_Inv\<close> the invariant \<open>rt_inv\<close> (counts, offsets, shifts, no sharing); \<open>Radix_Steps\<close>,
    \<open>Radix_Root_Steps\<close>, \<open>Radix_Lookup\<close>, \<open>Radix_Insert\<close> and \<open>Radix_Delete\<close> show that each operation keeps
    it and what it does; \<open>Radix_Map\<close> interprets the store contract; \<open>Radix_Props\<close> has C1 to C8.
    Twenty addresses are enough for an insertion: a path has at most eleven levels.
    \<open>Radix_Iter\<close>, \<open>Radix_Iter_Steps\<close> and \<open>Radix_Iter_Props\<close> are the iterator, with C9 and C10.
    \<open>Radix_Full\<close> shows that insertions and deletions leave no empty node behind, so that a tree whose
    last entry was deleted has no root, and \<open>Radix_Shape\<close> that deletions leave a root that cannot be
    shrunk; it also has the two calls that break the tree, an insertion at index 0 of an emptied tree
    and the deletion of an absent index, which runs of callers leave out.

  \<^item> Linked lists, \<open>src/chaining_hash/list.h\<close>: \<open>Linked_List\<close>, \<open>Linked_List_Ops\<close>, \<open>Hlist\<close>; C11 to C14 in
    \<open>Lists_Props\<close>.  \<open>List_C\<close> has the functions of \<open>src/radix_tree/list.c\<close>, which agree with them.

  \<^item> The chaining hash table, \<open>src/chaining_hash/hash.c\<close> and \<open>hash.h\<close>: \<open>Chain_Hash\<close>, with C15 and C16 in
    \<open>Chain_Hash_Props\<close>.  Two addresses are enough for an insertion.

  \<^item> The hot-ring table, \<open>src/hotring/hotring.c\<close>, \<open>hotring.h\<close> and \<open>list.h\<close>: \<open>HotRing\<close> (packed links, rings,
    search, insertion, deletion) and \<open>HotRing_Shift\<close> (display, rehash, hot-spot shift, public lookup);
    \<open>HotRing_Ring\<close> and \<open>HotRing_Table\<close> have the invariant \<open>hr_rep\<close> (rings in cyclic order of the keys),
    \<open>HotRing_Insert\<close>, \<open>HotRing_Delete\<close>, \<open>HotRing_Store\<close>, \<open>HotRing_Hot\<close>, \<open>HotRing_Init\<close>, \<open>HotRing_Split\<close>,
    \<open>HotRing_Split_Ring\<close>, \<open>HotRing_Double\<close>, \<open>HotRing_Rehash\<close> and \<open>HotRing_Rehash_Ok\<close> the operations;
    C17 to C20 are in \<open>HotRing_Props\<close> and C21 to C23 in \<open>HotRing_Shift_Props\<close>.  Two addresses are enough
    for an insertion; a rehash takes two and four per bucket.  Floating-point operations are a
    parameter, and the array of 100000 counters bounds the length of a ring.

  \<^item> JIFS, \<open>src/JIFS/*.c\<close>, and lwnfs, \<open>src/JIFS/lwnfs/lwnfs.c\<close>: \<open>Vfs\<close> has the objects of the kernel that
    the code writes to, and its functions as parameters with their documented behaviour as
    predicates; \<open>JIFS\<close>, \<open>JIFS_Super\<close> and \<open>Lwnfs\<close> the code; \<open>JIFS_Mount\<close> what a mount builds; C25 to C28
    are in \<open>JIFS_Props\<close>.  A mount allocates eight objects.

  \<^item> The work queue module, \<open>src/kernel_modules/workqueue/my_workqueue.c\<close>: \<open>Work_Queue\<close> has its thread and the
    workers as interleaved steps, \<open>Work_Queue_Inv\<close> the invariant (one owner per item, each number printed
    once), \<open>Work_Queue_Props\<close> C29 to C31.

  \<^item> The C++ programs of \<open>src/producer_consumer\<close>: \<open>Monitor\<close> has the threads, mutex and condition variable that
    two of them use; \<open>Sync_Queue\<close> is \<open>syncQueue.cpp\<close>, with C32 and C33 in \<open>Sync_Queue_Props\<close> (a notification
    names the thread it wakes); \<open>Bounded_Buffer\<close> is \<open>example.cpp\<close>, with C34 in \<open>Bounded_Buffer_Props\<close>;
    \<open>Average_Agents\<close> is \<open>producer-consumer-average.cpp\<close>.

  \<^item> \<open>File_Module\<close> (\<open>src/kernel_modules/read_write\<close>, C35), \<open>Packet_Hook\<close> (\<open>src/kernel_modules/packet_hook\<close>)
    and \<open>Pmem_Notes\<close> (\<open>src/pmdk_practice/libpmemobj/lists\<close>): short programs over the file operations, the
    network stack and the persistent memory library, which are parameters with predicates for what is
    relied on.  Their messages are part of the state.

  \<^item> \<open>Page_Flags\<close> (\<open>src/tools/page_flags_interpreter.c\<close>, C36), \<open>Virtual_Device\<close>
    (\<open>src/device/virtual_device\<close>, C37) and \<open>Crypto_Filter\<close> (\<open>src/kernel_modules/crypto\<close>, C38).

  \<^item> The callers in \<open>test.c\<close> and \<open>benchmark.c\<close> of the three tables: \<open>Radix_Bench\<close> with C39 in
    \<open>Radix_Bench_Props\<close>, \<open>Chain_Bench\<close> with C24 and C40 in \<open>Chain_Bench_Props\<close>, and \<open>HotRing_Bench\<close>.

  \<^bold>\<open>What the groups of theorems show.\<close>  The radix tree behaves as a finite map in every legal run and
  never leaves its memory; its iterator visits each entry once, in order; where the code does leave
  its memory, or loses entries, a theorem says when.  The lists are sequences in both directions.
  The chaining table never compares keys, and shows every item it was given in the bucket of its key.  The hot ring finds a key exactly if it is stored, as long
  as it has not been rehashed; a shift and a rehash keep all pairs.  The file systems build the
  files they are meant to build, a counter file read in pieces counts once, and both file systems
  satisfy the same contract.  The work queue module uses no item after its release in any
  interleaving, and every run of it ends; the synchronised queue keeps its order, and wakes a single
  consumer; the bounded buffer never stands still.  The benchmarks compose the tables with their callers.

  \<^bold>\<open>Not modelled.\<close>  Copies of Linux sources (\<open>radix-tree-ref.c\<close>, \<open>lib-radix-tree.h\<close>, \<open>ref-radix-tree\<close>,
  \<open>crashdump/fault.c\<close>), code that the preprocessor removes, programs that consist of calls to the
  operating system or to persistent memory libraries (the rest of \<open>pmdk_practice\<close>, \<open>parallel_tcpip\<close>,
  \<open>open_dev\<close>), and two searches of the hot-ring benchmark that nothing calls.  Memory ordering and concurrent readers of the tables are not modelled: a callback queued with \<open>call_rcu\<close> is a separate
  step that may come at any later time.
\<close>

end
